(* ===== verification/Prelude.thy ===== *)
theory Prelude
  imports Complex_Main "HOL-Library.Word" "HOL-Library.Multiset" "HOL-Library.Char_ord" "HOL-Library.List_Lexorder"
begin

unbundle bit_operations_syntax

text \<open>
  Shared vocabulary of the development: the error codes of O2, bytes and C strings, the little
  and big endian byte codecs (with the interface every fixed-width codec meets), and the generic
  facts on lists the component theories use.
\<close>

section \<open>Automation shared by the components\<close>

named_theorems frame \<open>fields an operation leaves alone\<close>
named_theorems inv_intros \<open>operations that keep an invariant\<close>

section \<open>Error codes (src/src/o2.h)\<close>

datatype O2err =
    O2_SUCCESS | O2_FAIL | O2_SERVICE_EXISTS | O2_NO_SERVICE | O2_NO_MEMORY
  | O2_ALREADY_RUNNING | O2_BAD_NAME | O2_BAD_TYPE | O2_BAD_ARGS | O2_TCP_HUP
  | O2_HOSTNAME_TO_NETADDR_FAIL | O2_TCP_CONNECT_FAIL | O2_NO_CLOCK | O2_NO_HANDLER
  | O2_INVALID_MSG | O2_SEND_FAIL | O2_SOCKET_ERROR | O2_NOT_INITIALIZED | O2_BLOCKED
  | O2_NO_PORT | O2_NO_NETWORK | O2_INTERRUPT_REQUESTED

text \<open>The C values are consecutive from 0 downwards but for the gap before O2_NO_NETWORK.\<close>

definition O2err_value :: "O2err \<Rightarrow> int" where
  "O2err_value e = (case e of
     O2_SUCCESS \<Rightarrow> 0 | O2_FAIL \<Rightarrow> -1 | O2_SERVICE_EXISTS \<Rightarrow> -2 | O2_NO_SERVICE \<Rightarrow> -3
   | O2_NO_MEMORY \<Rightarrow> -4 | O2_ALREADY_RUNNING \<Rightarrow> -5 | O2_BAD_NAME \<Rightarrow> -6 | O2_BAD_TYPE \<Rightarrow> -7
   | O2_BAD_ARGS \<Rightarrow> -8 | O2_TCP_HUP \<Rightarrow> -9 | O2_HOSTNAME_TO_NETADDR_FAIL \<Rightarrow> -10
   | O2_TCP_CONNECT_FAIL \<Rightarrow> -11 | O2_NO_CLOCK \<Rightarrow> -12 | O2_NO_HANDLER \<Rightarrow> -13
   | O2_INVALID_MSG \<Rightarrow> -14 | O2_SEND_FAIL \<Rightarrow> -15 | O2_SOCKET_ERROR \<Rightarrow> -16
   | O2_NOT_INITIALIZED \<Rightarrow> -17 | O2_BLOCKED \<Rightarrow> -18 | O2_NO_PORT \<Rightarrow> -19
   | O2_NO_NETWORK \<Rightarrow> -20 | O2_INTERRUPT_REQUESTED \<Rightarrow> -21)"


section \<open>Bytes and the byte codecs\<close>

type_synonym byte = "8 word"

text \<open>The bytes of a word as they lie in memory on a little endian host, and read back.\<close>

primrec le_enc :: "nat \<Rightarrow> 'a::len word \<Rightarrow> byte list" where
  "le_enc 0 w = []"
| "le_enc (Suc n) w = ucast w # le_enc n (drop_bit 8 w)"

primrec le_dec :: "byte list \<Rightarrow> 'a::len word" where
  "le_dec [] = 0"
| "le_dec (b # bs) = (ucast b OR push_bit 8 (le_dec bs))"

definition be_enc :: "nat \<Rightarrow> 'a::len word \<Rightarrow> byte list" where
  "be_enc n w = rev (le_enc n w)"

definition be_dec :: "byte list \<Rightarrow> 'a::len word" where
  "be_dec bs = le_dec (rev bs)"

lemma length_le_enc [simp]: "length (le_enc n w) = n"
  by (induction n arbitrary: w) auto

lemma le_dec_enc: "le_dec (le_enc n (w :: 'a::len word)) = (take_bit (8 * n) w :: 'a word)"
proof (induction n arbitrary: w)
  case 0
  then show ?case by simp
next
  case (Suc n)
  show ?case
    by (rule bit_word_eqI) (auto simp: Suc.IH bit_simps)
qed

lemma le_dec_enc32 [simp]: "le_dec (le_enc 4 (w :: 32 word)) = w"
  using take_bit_length_eq [of w] by (simp add: le_dec_enc)

lemma le_dec_enc64 [simp]: "le_dec (le_enc 8 (w :: 64 word)) = w"
  using take_bit_length_eq [of w] by (simp add: le_dec_enc)

text \<open>
  What every fixed-width codec promises its clients: its width, and that it reads back what it
  wrote. A reader of a message relies on nothing else.
\<close>

locale codec =
  fixes enc :: "'v \<Rightarrow> byte list" and dec :: "byte list \<Rightarrow> 'v" and width :: nat
  assumes length_enc: "length (enc v) = width"
    and dec_enc: "dec (enc v) = v"
begin

lemma enc_inject: "enc v = enc v' \<longleftrightarrow> v = v'"
  by (metis dec_enc)

lemma dec_at:
  assumes "length pre = k"
  shows "dec (take width (drop k (pre @ enc v @ rest))) = v"
  using assms by (simp add: length_enc dec_enc)

lemma drop_past:
  assumes "length pre = k"
  shows "drop (k + width) (pre @ enc v @ rest) = rest"
  using assms by (simp add: length_enc)

end

interpretation le32: codec "le_enc 4 :: 32 word \<Rightarrow> byte list" le_dec 4
  by unfold_locales simp_all

interpretation le64: codec "le_enc 8 :: 64 word \<Rightarrow> byte list" le_dec 8
  by unfold_locales simp_all

interpretation be32: codec "be_enc 4 :: 32 word \<Rightarrow> byte list" be_dec 4
  by unfold_locales (simp_all add: be_enc_def be_dec_def)

interpretation be64: codec "be_enc 8 :: 64 word \<Rightarrow> byte list" be_dec 8
  by unfold_locales (simp_all add: be_enc_def be_dec_def)

text \<open>The byte swapping macros of src/src/o2internal.h.\<close>

definition swap32 :: "32 word \<Rightarrow> 32 word" where
  "swap32 i = (drop_bit 24 i AND 0xff) OR drop_bit 8 (i AND 0xff0000) OR
              push_bit 8 (i AND 0xff00) OR push_bit 24 (i AND 0xff)"

definition swap64 :: "64 word \<Rightarrow> 64 word" where
  "swap64 i = push_bit 32 (ucast (swap32 (ucast i))) OR ucast (swap32 (ucast (drop_bit 32 i)))"

lemma le_enc4: "le_enc 4 (w :: 32 word) =
    [ucast w, ucast (drop_bit 8 w), ucast (drop_bit 16 w), ucast (drop_bit 24 w)]"
  by (simp add: eval_nat_numeral)

lemma le_enc8: "le_enc 8 (w :: 64 word) =
    [ucast w, ucast (drop_bit 8 w), ucast (drop_bit 16 w), ucast (drop_bit 24 w),
     ucast (drop_bit 32 w), ucast (drop_bit 40 w), ucast (drop_bit 48 w), ucast (drop_bit 56 w)]"
  by (simp add: eval_nat_numeral)


lemma byte_masks:
  "(0xff :: 'a::len word) = mask 8" "(0xff00 :: 'a::len word) = push_bit 8 (mask 8)"
  "(0xff0000 :: 'a::len word) = push_bit 16 (mask 8)"
  by (simp_all add: mask_eq_exp_minus_1 push_bit_eq_mult)

lemma swap32_bytes: "le_enc 4 (swap32 w) = rev (le_enc 4 w)"
  by (auto simp: le_enc4 swap32_def byte_masks bit_simps intro!: bit_word_eqI)

lemma swap64_bytes: "le_enc 8 (swap64 w) = rev (le_enc 8 w)"
  by (auto simp: le_enc8 swap64_def swap32_def byte_masks bit_simps intro!: bit_word_eqI)

lemma swap32_swap32 [simp]: "swap32 (swap32 w) = w"
  by (metis le_dec_enc32 rev_rev_ident swap32_bytes)


lemma swap64_swap64 [simp]: "swap64 (swap64 w) = w"
  by (metis le_dec_enc64 rev_rev_ident swap64_bytes)


section \<open>C strings and 32-bit padded strings\<close>

text \<open>
  The contents of a C string, without its terminating zero byte, is a \<^typ>\<open>string\<close>; \<open>c_string\<close>
  says that no zero byte is inside. An O2string is such a string with its zero byte and zero
  padding up to a multiple of four bytes.
\<close>

definition c_string :: "string \<Rightarrow> bool" where
  "c_string s \<longleftrightarrow> CHR 0x00 \<notin> set s"

definition byte_of :: "char \<Rightarrow> byte" where
  "byte_of c = word_of_nat (of_char c)"

definition char_of_byte :: "byte \<Rightarrow> char" where
  "char_of_byte b = char_of (unat b)"

definition bytes_of :: "string \<Rightarrow> byte list" where
  "bytes_of s = map byte_of s"

definition ROUNDUP_TO_32BIT :: "nat \<Rightarrow> nat" where
  "ROUNDUP_TO_32BIT i = (i + 3) div 4 * 4"

definition o2_strsize :: "string \<Rightarrow> nat" where
  "o2_strsize s = (length s + 4) div 4 * 4"

text \<open>\<open>strncpy\<close> fills with zero bytes up to the size it is given.\<close>

definition o2_heapify :: "string \<Rightarrow> byte list" where
  "o2_heapify path = bytes_of path @ replicate (o2_strsize path - length path) 0"

text \<open>\<open>strcmp\<close> compares unsigned bytes: the lexicographic order on strings.\<close>

definition strcmp :: "string \<Rightarrow> string \<Rightarrow> int" where
  "strcmp a b = (if a = b then 0 else if a < b then -1 else 1)"

lemma length_bytes_of [simp]: "length (bytes_of s) = length s"
  by (simp add: bytes_of_def)

lemma bytes_of_append [simp]: "bytes_of (s @ t) = bytes_of s @ bytes_of t"
  by (simp add: bytes_of_def)

lemma bytes_of_Cons [simp]: "bytes_of (c # t) = byte_of c # bytes_of t"
  by (simp add: bytes_of_def)

lemma bytes_of_Nil [simp]: "bytes_of [] = []"
  by (simp add: bytes_of_def)

lemma char_of_byte_of [simp]: "char_of_byte (byte_of c) = c"
proof -
  have "unat (word_of_nat (of_char c) :: byte) = of_char c"
    using nat_of_char_less_256 [of c] by (simp add: unat_of_nat)
  then show ?thesis by (simp add: char_of_byte_def byte_of_def)
qed

lemma byte_of_eq_iff [simp]: "byte_of c = byte_of d \<longleftrightarrow> c = d"
  by (metis char_of_byte_of)

lemma byte_of_0 [simp]: "byte_of CHR 0x00 = 0"
  by (simp add: byte_of_def)

lemma byte_of_eq_0_iff: "byte_of c = 0 \<longleftrightarrow> c = CHR 0x00"
  by (metis byte_of_0 byte_of_eq_iff)

lemma zero_in_bytes_of: "0 \<in> set (bytes_of s) \<longleftrightarrow> \<not> c_string s"
  unfolding c_string_def bytes_of_def using byte_of_eq_0_iff by fastforce

lemma roundup_dvd [simp]: "4 dvd ROUNDUP_TO_32BIT i"
  by (simp add: ROUNDUP_TO_32BIT_def)

lemma roundup_bounds: "i \<le> ROUNDUP_TO_32BIT i" "ROUNDUP_TO_32BIT i < i + 4"
  unfolding ROUNDUP_TO_32BIT_def by presburger+

lemma roundup_fix: "4 dvd i \<Longrightarrow> ROUNDUP_TO_32BIT i = i"
  unfolding ROUNDUP_TO_32BIT_def by presburger

lemma strsize_roundup: "o2_strsize s = ROUNDUP_TO_32BIT (length s + 1)"
  by (simp add: o2_strsize_def ROUNDUP_TO_32BIT_def)

lemma strsize_bounds: "length s < o2_strsize s" "o2_strsize s \<le> length s + 4" "4 dvd o2_strsize s"
  unfolding o2_strsize_def by presburger+


section \<open>Words\<close>

lemma sint32_small: "- (2 ^ 31) \<le> i \<Longrightarrow> i < 2 ^ 31 \<Longrightarrow> sint (word_of_int i :: 32 word) = i"
  by (simp only: signed_of_int) (simp add: signed_take_bit_int_eq_self)

lemma sint32_unat: "unat (w :: 32 word) < 2 ^ 31 \<Longrightarrow> sint w = int (unat w)"
proof -
  assume "unat w < 2 ^ 31"
  then have "int (unat w) < 2 ^ 31" by (metis of_nat_less_iff of_nat_numeral of_nat_power)
  moreover have "- (2 ^ 31) \<le> int (unat w)" by (rule order_trans [OF _ of_nat_0_le_iff]) simp
  ultimately have "sint (word_of_int (int (unat w)) :: 32 word) = int (unat w)" by (intro sint32_small)
  then show ?thesis by simp
qed

lemma unat_drop: "unat (drop_bit n w) = unat w div 2 ^ n"
  unfolding unat_drop_bit_eq by (simp add: drop_bit_eq_div)

lemma drop_bit_0_iff: "drop_bit n w = 0 \<longleftrightarrow> unat (w :: 'a::len word) < 2 ^ n"
proof -
  have "drop_bit n w = 0 \<longleftrightarrow> unat (drop_bit n w) = 0" by (simp add: unat_eq_zero)
  then show ?thesis by (simp add: unat_drop div_eq_0_iff)
qed


section \<open>Lists\<close>

lemma mset_concat_update:
  "i < length xss \<Longrightarrow> mset (concat (xss[i := ys])) + mset (xss ! i) = mset (concat xss) + mset ys"
proof (induction xss arbitrary: i)
  case Nil
  then show ?case by simp
next
  case (Cons x xss)
  show ?case
  proof (cases i)
    case 0
    then show ?thesis by simp
  next
    case (Suc j)
    with Cons.IH [of j] Cons.prems show ?thesis by (simp add: ac_simps)
  qed
qed

lemma in_concat_nth: "x \<in> set (concat xss) \<longleftrightarrow> (\<exists>i < length xss. x \<in> set (xss ! i))"
  by (auto simp: in_set_conv_nth Bex_def)


text \<open>Two balances in a row make a balance.\<close>

lemma balance_trans:
  fixes a :: "'a::cancel_ab_semigroup_add"
  assumes "a' + c = a + c'" "a'' + c' = a' + c''"
  shows "a'' + c = a + c''"
proof -
  have "a'' + c + c' = a'' + c' + c" by (simp add: ac_simps)
  also have "\<dots> = (a' + c) + c''" by (simp add: assms(2) ac_simps)
  also have "\<dots> = a + c'' + c'" by (simp add: assms(1) ac_simps)
  finally show ?thesis by simp
qed

lemma distinct_set_singleton: "distinct xs \<Longrightarrow> set xs = {x} \<Longrightarrow> xs = [x]"
proof -
  assume "distinct xs" "set xs = {x}"
  then have "length xs = 1" using distinct_card [of xs] by simp
  then obtain y where "xs = [y]" by (auto simp: length_Suc_conv)
  with \<open>set xs = {x}\<close> show ?thesis by simp
qed

end
