(* ===== verification/Scheduler.thy ===== *)
theory Scheduler
  imports Prelude
begin

text \<open>
  The timing wheel of src/src/o2sched.cpp. Times are rationals (the doubles of the code without
  their rounding). What a delivery makes the handlers do is a parameter \<open>react\<close>: the messages
  they hand to \<open>o2_schedule\<close>, in order.
\<close>

section \<open>State\<close>

type_synonym O2time = rat

record 'a smsg =
  timestamp :: O2time
  content :: 'a

record 'a O2sched =
  last_bin :: int
  last_time :: O2time
  table :: "'a smsg list list"

abbreviation O2_SCHED_TABLE_LEN :: nat where
  "O2_SCHED_TABLE_LEN \<equiv> 128"

text \<open>The cast of \<open>time * 100\<close> to \<open>int64_t\<close> truncates towards zero.\<close>

definition O2_SCHED_BIN :: "O2time \<Rightarrow> int" where
  "O2_SCHED_BIN time = (if 0 \<le> time then \<lfloor>time * 100\<rfloor> else \<lceil>time * 100\<rceil>)"

text \<open>\<open>b & 127\<close> of a two's complement number is the remainder modulo 128.\<close>

definition O2_SCHED_BIN_TO_INDEX :: "int \<Rightarrow> nat" where
  "O2_SCHED_BIN_TO_INDEX b = nat (b mod 128)"

definition O2_SCHED_INDEX :: "O2time \<Rightarrow> nat" where
  "O2_SCHED_INDEX t = O2_SCHED_BIN_TO_INDEX (O2_SCHED_BIN t)"

section \<open>Operations\<close>

text \<open>The insertion point: after every message of the bucket that is not later.\<close>

fun bucket_insert :: "'a smsg \<Rightarrow> 'a smsg list \<Rightarrow> 'a smsg list" where
  "bucket_insert msg [] = [msg]"
| "bucket_insert msg (m # ms) =
     (if timestamp m \<le> timestamp msg then m # bucket_insert msg ms else msg # m # ms)"

datatype sched_outcome = Delivered_Now | Dropped_No_Clock | Queued

definition o2_schedule ::
  "bool \<Rightarrow> bool \<Rightarrow> 'a O2sched \<Rightarrow> 'a smsg \<Rightarrow> O2err \<times> sched_outcome \<times> 'a O2sched" where
  "o2_schedule is_gtsched o2_gtsched_started s msg =
     (let mt = timestamp msg in
      if mt \<le> 0 \<or> mt < last_time s then (O2_SUCCESS, Delivered_Now, s)
      else if is_gtsched \<and> \<not> o2_gtsched_started then (O2_NO_CLOCK, Dropped_No_Clock, s)
      else let index = O2_SCHED_INDEX mt in
        (O2_SUCCESS, Queued, s\<lparr>table := (table s)[index := bucket_insert msg (table s ! index)]\<rparr>))"

text \<open>
  A dispatch in progress: the scheduler, the messages taken from the wheel and sent, in order;
  those a handler scheduled too late and that were delivered at once; those a handler scheduled
  and that went into the wheel.
\<close>

record 'a dispatch =
  sch :: "'a O2sched"
  sent :: "'a smsg list"
  at_once :: "'a smsg list"
  accepted :: "'a smsg list"

definition handler_schedules :: "'a smsg \<Rightarrow> 'a dispatch \<Rightarrow> 'a dispatch" where
  "handler_schedules m d =
     (case o2_schedule False True (sch d) m of
        (_, Queued, s) \<Rightarrow> d\<lparr>sch := s, accepted := accepted d @ [m]\<rparr>
      | (_, _, s) \<Rightarrow> d\<lparr>sch := s, at_once := at_once d @ [m]\<rparr>)"

text \<open>
  The inner loop of \<open>sched_dispatch\<close> over one bucket. A handler may keep the loop busy by
  scheduling into the same bucket, so the loop has fuel; \<open>None\<close> is a loop that goes on.
\<close>

fun drain_bucket ::
  "nat \<Rightarrow> ('a smsg \<Rightarrow> 'a smsg list) \<Rightarrow> O2time \<Rightarrow> nat \<Rightarrow> 'a dispatch \<Rightarrow> 'a dispatch option" where
  "drain_bucket fuel react run_until_time index d =
     (case table (sch d) ! index of
        [] \<Rightarrow> Some d
      | msg # rest \<Rightarrow>
          if timestamp msg \<le> run_until_time then
            (case fuel of
               0 \<Rightarrow> None
             | Suc fuel' \<Rightarrow>
                 let s = (sch d)\<lparr>table := (table (sch d))[index := rest], last_time := timestamp msg\<rparr>
                 in drain_bucket fuel' react run_until_time index
                      (fold handler_schedules (react msg) (d\<lparr>sch := s, sent := sent d @ [msg]\<rparr>)))
          else Some d)"

text \<open>The loop over the bins: \<open>while (s->last_bin <= bin)\<close>, as many turns as bins are left.\<close>

fun visit_bins ::
  "nat \<Rightarrow> nat \<Rightarrow> ('a smsg \<Rightarrow> 'a smsg list) \<Rightarrow> O2time \<Rightarrow> 'a dispatch \<Rightarrow> 'a dispatch option" where
  "visit_bins 0 fuel react run_until_time d = Some d"
| "visit_bins (Suc n) fuel react run_until_time d =
     (case drain_bucket fuel react run_until_time
             (O2_SCHED_BIN_TO_INDEX (last_bin (sch d))) d of
        None \<Rightarrow> None
      | Some d' \<Rightarrow> visit_bins n fuel react run_until_time
                    (d'\<lparr>sch := (sch d')\<lparr>last_bin := last_bin (sch d') + 1\<rparr>\<rparr>))"

text \<open>One call of \<open>sched_dispatch\<close> after its catch-up loop.\<close>

definition dispatch_step ::
  "nat \<Rightarrow> ('a smsg \<Rightarrow> 'a smsg list) \<Rightarrow> O2time \<Rightarrow> 'a dispatch \<Rightarrow> 'a dispatch option" where
  "dispatch_step fuel react run_until_time d =
     (let bin = O2_SCHED_BIN run_until_time in
      map_option (\<lambda>d'. d'\<lparr>sch := (sch d')\<lparr>last_bin := last_bin (sch d') - 1,
                                         last_time := run_until_time\<rparr>\<rparr>)
        (visit_bins (nat (bin + 1 - last_bin (sch d))) fuel react run_until_time d))"

text \<open>
  \<open>while (s->last_time + 1 < run_until_time) sched_dispatch(s, s->last_time + 1)\<close>: the recursive
  call runs to one second from now, so its own catch-up loop is empty and it is a single
  \<open>dispatch_step\<close>. \<open>n\<close> bounds the number of seconds to catch up.
\<close>

fun catch_up ::
  "nat \<Rightarrow> nat \<Rightarrow> ('a smsg \<Rightarrow> 'a smsg list) \<Rightarrow> O2time \<Rightarrow> 'a dispatch \<Rightarrow> 'a dispatch option" where
  "catch_up n fuel react run_until_time d =
     (if last_time (sch d) + 1 < run_until_time then
        (case n of
           0 \<Rightarrow> None
         | Suc n' \<Rightarrow>
             (case dispatch_step fuel react (last_time (sch d) + 1) d of
                None \<Rightarrow> None
              | Some d' \<Rightarrow> catch_up n' fuel react run_until_time d'))
      else Some d)"

definition sched_dispatch ::
  "nat \<Rightarrow> nat \<Rightarrow> ('a smsg \<Rightarrow> 'a smsg list) \<Rightarrow> 'a O2sched \<Rightarrow> O2time \<Rightarrow> 'a dispatch option" where
  "sched_dispatch n fuel react s run_until_time =
     (case catch_up n fuel react run_until_time
             \<lparr>sch = s, sent = [], at_once = [], accepted = []\<rparr> of
        None \<Rightarrow> None
      | Some d \<Rightarrow> dispatch_step fuel react run_until_time d)"

text \<open>The two schedulers of a process: the argument \<open>s\<close> of the operations says which.\<close>

datatype sched_ptr = LTSCHED | GTSCHED

record 'a schedulers =
  o2_ltsched :: "'a O2sched"
  o2_gtsched :: "'a O2sched"
  o2_gtsched_started :: bool

definition o2_sched_start :: "sched_ptr \<Rightarrow> O2time \<Rightarrow> 'a schedulers \<Rightarrow> 'a schedulers" where
  "o2_sched_start s start_time ss =
     (let fresh = \<lparr>last_bin = O2_SCHED_BIN start_time, last_time = start_time,
                   table = replicate O2_SCHED_TABLE_LEN []\<rparr> in
      case s of
        GTSCHED \<Rightarrow> ss\<lparr>o2_gtsched := fresh, o2_gtsched_started := True\<rparr>
      | LTSCHED \<Rightarrow> ss\<lparr>o2_ltsched := fresh\<rparr>)"

definition o2_sched_initialize :: "O2time \<Rightarrow> 'a schedulers \<Rightarrow> 'a schedulers" where
  "o2_sched_initialize o2_local_time ss =
     (o2_sched_start LTSCHED o2_local_time ss)\<lparr>o2_gtsched_started := False\<rparr>"

definition o2_sched_finish :: "sched_ptr \<Rightarrow> 'a schedulers \<Rightarrow> 'a schedulers" where
  "o2_sched_finish s ss =
     (let empty = (\<lambda>w. w\<lparr>table := map (\<lambda>_. []) (table w)\<rparr>) in
      (case s of GTSCHED \<Rightarrow> ss\<lparr>o2_gtsched := empty (o2_gtsched ss)\<rparr>
               | LTSCHED \<Rightarrow> ss\<lparr>o2_ltsched := empty (o2_ltsched ss)\<rparr>)\<lparr>o2_gtsched_started := False\<rparr>)"

text \<open>\<open>o2_sched_poll\<close>: what was sent by the local and then by the global scheduler.\<close>

definition o2_sched_poll ::
  "nat \<Rightarrow> nat \<Rightarrow> ('a smsg \<Rightarrow> 'a smsg list) \<Rightarrow> ('a smsg \<Rightarrow> 'a smsg list) \<Rightarrow> O2time \<Rightarrow> O2time \<Rightarrow>
   'a schedulers \<Rightarrow> ('a smsg list \<times> 'a schedulers) option" where
  "o2_sched_poll n fuel lreact greact o2_local_now o2_global_now ss =
     (case sched_dispatch n fuel lreact (o2_ltsched ss) o2_local_now of
        None \<Rightarrow> None
      | Some d \<Rightarrow>
          let ss = ss\<lparr>o2_ltsched := sch d\<rparr> in
          if o2_gtsched_started ss then
            (case sched_dispatch n fuel greact (o2_gtsched ss) o2_global_now of
               None \<Rightarrow> None
             | Some d' \<Rightarrow> Some (sent d @ sent d', ss\<lparr>o2_gtsched := sch d'\<rparr>))
          else Some (sent d, ss))"

text \<open>\<open>o2_sched_flush\<close> frees what the global scheduler holds and returns how many there were.\<close>

definition o2_sched_flush :: "'a schedulers \<Rightarrow> nat \<times> 'a schedulers" where
  "o2_sched_flush ss =
     (sum_list (map length (table (o2_gtsched ss))),
      ss\<lparr>o2_gtsched := (o2_gtsched ss)\<lparr>table := map (\<lambda>_. []) (table (o2_gtsched ss))\<rparr>\<rparr>)"


section \<open>The invariant\<close>

definition pending :: "'a O2sched \<Rightarrow> 'a smsg multiset" where
  "pending s = mset (concat (table s))"

text \<open>Buckets are sorted, hold only messages of their index, and nothing is overdue.\<close>

definition wheel_ok :: "'a O2sched \<Rightarrow> bool" where
  "wheel_ok s \<longleftrightarrow> length (table s) = O2_SCHED_TABLE_LEN \<and>
     (\<forall>i < O2_SCHED_TABLE_LEN. sorted (map timestamp (table s ! i)) \<and>
        (\<forall>m \<in> set (table s ! i). O2_SCHED_INDEX (timestamp m) = i)) \<and>
     (\<forall>m \<in># pending s. last_time s \<le> timestamp m)"

definition sched_ok :: "'a O2sched \<Rightarrow> bool" where
  "sched_ok s \<longleftrightarrow> wheel_ok s \<and> 0 \<le> last_time s \<and> last_bin s = O2_SCHED_BIN (last_time s)"

lemma bin_mono:
  assumes "t \<le> t'"
  shows "O2_SCHED_BIN t \<le> O2_SCHED_BIN t'"
proof (cases "0 \<le> t \<or> t' < 0")
  case True
  with assms show ?thesis
    by (auto simp: O2_SCHED_BIN_def intro!: floor_mono ceiling_mono)
next
  case False
  then have "\<lceil>t * 100\<rceil> \<le> 0" "0 \<le> \<lfloor>t' * 100\<rfloor>" by simp_all
  then have "\<lceil>t * 100\<rceil> \<le> \<lfloor>t' * 100\<rfloor>" by (rule order_trans)
  with False show ?thesis by (simp add: O2_SCHED_BIN_def)
qed

lemma bin_step: "0 \<le> t \<Longrightarrow> O2_SCHED_BIN (t + 1) = O2_SCHED_BIN t + 100"
proof -
  assume "0 \<le> t"
  moreover have "\<lfloor>(t + 1) * 100\<rfloor> = \<lfloor>t * 100 + of_int 100\<rfloor>"
    by (simp add: algebra_simps)
  ultimately show ?thesis by (simp add: O2_SCHED_BIN_def)
qed

lemma index_less [simp]: "O2_SCHED_BIN_TO_INDEX b < O2_SCHED_TABLE_LEN"
  by (simp add: O2_SCHED_BIN_TO_INDEX_def nat_less_iff)

lemma index_inj:
  assumes "O2_SCHED_BIN_TO_INDEX b = O2_SCHED_BIN_TO_INDEX b'" "b \<le> b'" "b' < b + 128"
  shows "b = b'"
proof -
  have "b mod 128 = b' mod 128"
    using assms(1) by (simp add: O2_SCHED_BIN_TO_INDEX_def eq_nat_nat_iff)
  then have "b' mod 128 = b mod 128" by simp
  then have "(b' - b) mod 128 = 0" unfolding mod_eq_dvd_iff by simp
  moreover have "(b' - b) mod 128 = b' - b" using assms(2,3) by (simp add: mod_pos_pos_trivial)
  ultimately show ?thesis by simp
qed

lemma mset_bucket_insert [simp]: "mset (bucket_insert m ms) = add_mset m (mset ms)"
  by (induction ms) auto

lemma set_bucket_insert [simp]: "set (bucket_insert m ms) = insert m (set ms)"
  by (induction ms) auto

lemma sorted_bucket_insert:
  "sorted (map timestamp ms) \<Longrightarrow> sorted (map timestamp (bucket_insert m ms))"
  by (induction ms) auto


section \<open>Scheduling keeps the invariant\<close>

lemma pending_update:
  assumes "i < length (table s)"
  shows "pending (s\<lparr>table := (table s)[i := ms]\<rparr>) + mset (table s ! i) = pending s + mset ms"
  using mset_concat_update [OF assms] by (simp add: pending_def)

lemma pending_in_bucket:
  assumes "wheel_ok s" "m \<in># pending s"
  shows "m \<in> set (table s ! O2_SCHED_INDEX (timestamp m))"
proof -
  from assms(2) obtain i where "i < length (table s)" "m \<in> set (table s ! i)"
    unfolding pending_def set_mset_mset in_concat_nth by blast
  with assms(1) show ?thesis by (auto simp: wheel_ok_def)
qed

lemma o2_schedule_cases:
  assumes "wheel_ok s"
  obtains (now) "timestamp m \<le> 0 \<or> timestamp m < last_time s"
      "o2_schedule g st s m = (O2_SUCCESS, Delivered_Now, s)"
  | (noclock) "0 < timestamp m" "last_time s \<le> timestamp m" "g" "\<not> st"
      "o2_schedule g st s m = (O2_NO_CLOCK, Dropped_No_Clock, s)"
  | (queued) s' where "0 < timestamp m" "last_time s \<le> timestamp m"
      "o2_schedule g st s m = (O2_SUCCESS, Queued, s')"
      "wheel_ok s'" "pending s' = add_mset m (pending s)"
      "last_time s' = last_time s" "last_bin s' = last_bin s"
proof (cases "timestamp m \<le> 0 \<or> timestamp m < last_time s")
  case True
  then show ?thesis by (intro now) (auto simp: o2_schedule_def)
next
  case late: False
  show ?thesis
  proof (cases "g \<and> \<not> st")
    case True
    with late show ?thesis by (intro noclock) (auto simp: o2_schedule_def)
  next
    case False
    let ?i = "O2_SCHED_INDEX (timestamp m)"
    let ?s = "s\<lparr>table := (table s)[?i := bucket_insert m (table s ! ?i)]\<rparr>"
    have len: "?i < length (table s)" and sorted_i: "sorted (map timestamp (table s ! ?i))"
      using assms index_less by (simp_all add: wheel_ok_def O2_SCHED_INDEX_def)
    from pending_update [OF len, of "bucket_insert m (table s ! ?i)"]
    have pend: "pending ?s = add_mset m (pending s)" by simp
    have "wheel_ok ?s"
      unfolding wheel_ok_def
    proof (intro conjI allI impI)
      show "length (table ?s) = O2_SCHED_TABLE_LEN" using assms by (simp add: wheel_ok_def)
      show "\<forall>x\<in>#pending ?s. last_time ?s \<le> timestamp x"
        using late assms by (simp add: pend wheel_ok_def)
    next
      fix i assume i: "i < O2_SCHED_TABLE_LEN"
      show "sorted (map timestamp (table ?s ! i))"
        using assms i len sorted_i by (cases "i = ?i") (auto simp: wheel_ok_def sorted_bucket_insert)
      show "\<forall>x\<in>set (table ?s ! i). O2_SCHED_INDEX (timestamp x) = i"
        using assms i len by (cases "i = ?i") (auto simp: wheel_ok_def)
    qed
    with late False pend show ?thesis
      by (intro queued [of ?s]) (auto simp: o2_schedule_def Let_def)
  qed
qed


section \<open>The dispatch loops\<close>

text \<open>
  Inside a dispatch that runs to \<open>T\<close>: nothing due lies in a bin already passed, what was sent
  is sorted and not later than the scheduler's clock, and the bins to visit do not wrap around.
\<close>

definition loop_inv :: "O2time \<Rightarrow> 'a dispatch \<Rightarrow> bool" where
  "loop_inv T d \<longleftrightarrow> wheel_ok (sch d) \<and> last_time (sch d) \<le> T \<and>
     O2_SCHED_BIN T < last_bin (sch d) + 128 \<and>
     (\<forall>m \<in># pending (sch d). timestamp m \<le> T \<longrightarrow> last_bin (sch d) \<le> O2_SCHED_BIN (timestamp m)) \<and>
     sorted (map timestamp (sent d)) \<and> (\<forall>m \<in> set (sent d). timestamp m \<le> last_time (sch d))"

text \<open>What a dispatch in progress may do to the messages: nothing is lost, nothing invented.\<close>

definition conserved :: "'a dispatch \<Rightarrow> 'a dispatch \<Rightarrow> bool" where
  "conserved d d' \<longleftrightarrow>
     pending (sch d') + mset (sent d') + mset (accepted d) =
     pending (sch d) + mset (sent d) + mset (accepted d') \<and>
     last_time (sch d) \<le> last_time (sch d') \<and>
     (\<exists>ms. sent d' = sent d @ ms \<and> (\<forall>m \<in> set ms. last_time (sch d) \<le> timestamp m))"

lemma conserved_refl: "conserved d d"
  by (simp add: conserved_def)

lemma conserved_trans:
  assumes "conserved d d'" "conserved d' d''"
  shows "conserved d d''"
proof -
  have "pending (sch d'') + mset (sent d'') + mset (accepted d) =
        pending (sch d) + mset (sent d) + mset (accepted d'')"
    by (rule balance_trans [of _ _ _ "mset (accepted d')"])
      (use assms in \<open>simp_all add: conserved_def\<close>)
  moreover from assms obtain ms ms' where
    "sent d'' = sent d @ ms @ ms'" "\<forall>m \<in> set ms. last_time (sch d) \<le> timestamp m"
    "\<forall>m \<in> set ms'. last_time (sch d') \<le> timestamp m" "last_time (sch d) \<le> last_time (sch d')"
    "last_time (sch d') \<le> last_time (sch d'')"
    unfolding conserved_def by fastforce
  ultimately show ?thesis
    unfolding conserved_def by (intro conjI exI [of _ "ms @ ms'"]) fastforce+
qed

text \<open>A handler's message either goes into the wheel or is delivered late; both keep the loop going.\<close>

lemma handler_schedules_inv:
  assumes inv: "loop_inv T d" and lb: "last_bin (sch d) \<le> O2_SCHED_BIN (last_time (sch d))"
  shows "loop_inv T (handler_schedules m d) \<and> conserved d (handler_schedules m d) \<and>
    last_time (sch (handler_schedules m d)) = last_time (sch d) \<and>
    last_bin (sch (handler_schedules m d)) = last_bin (sch d)"
proof -
  from inv have "wheel_ok (sch d)" by (simp add: loop_inv_def)
  then show ?thesis
  proof (cases rule: o2_schedule_cases [of "sch d" m False True])
    case now
    then show ?thesis using inv by (simp add: handler_schedules_def loop_inv_def conserved_def)
  next
    case noclock
    then show ?thesis by simp
  next
    case (queued s')
    then have "last_bin (sch d) \<le> O2_SCHED_BIN (timestamp m)"
      using lb bin_mono order_trans by blast
    with queued inv show ?thesis
      by (simp add: handler_schedules_def loop_inv_def conserved_def)
  qed
qed

lemma fold_handler_schedules_inv:
  assumes "loop_inv T d" "last_bin (sch d) \<le> O2_SCHED_BIN (last_time (sch d))"
  shows "loop_inv T (fold handler_schedules ms d) \<and> conserved d (fold handler_schedules ms d) \<and>
    last_time (sch (fold handler_schedules ms d)) = last_time (sch d) \<and>
    last_bin (sch (fold handler_schedules ms d)) = last_bin (sch d)"
  using assms
proof (induction ms arbitrary: d)
  case Nil
  then show ?case by (simp add: conserved_refl)
next
  case (Cons m ms)
  with handler_schedules_inv [OF Cons.prems, of m] Cons.IH [of "handler_schedules m d"]
  show ?case by (auto intro: conserved_trans)
qed


definition pop_msg :: "nat \<Rightarrow> 'a smsg \<Rightarrow> 'a smsg list \<Rightarrow> 'a dispatch \<Rightarrow> 'a dispatch" where
  "pop_msg i msg rest d =
     d\<lparr>sch := (sch d)\<lparr>table := (table (sch d))[i := rest], last_time := timestamp msg\<rparr>,
       sent := sent d @ [msg]\<rparr>"

lemma pop_msg_inv:
  assumes inv: "loop_inv T d" and i: "i = O2_SCHED_BIN_TO_INDEX (last_bin (sch d))"
    and bucket: "table (sch d) ! i = msg # rest" and due: "timestamp msg \<le> T"
  shows "loop_inv T (pop_msg i msg rest d)" "conserved d (pop_msg i msg rest d)"
    "last_bin (sch (pop_msg i msg rest d)) \<le> O2_SCHED_BIN (last_time (sch (pop_msg i msg rest d)))"
proof -
  let ?s = "sch d" and ?s' = "sch (pop_msg i msg rest d)"
  from inv have ok: "wheel_ok ?s" and T: "last_time ?s \<le> T" and wrap: "O2_SCHED_BIN T < last_bin ?s + 128"
    and passed: "\<And>m. m \<in># pending ?s \<Longrightarrow> timestamp m \<le> T \<Longrightarrow> last_bin ?s \<le> O2_SCHED_BIN (timestamp m)"
    by (simp_all add: loop_inv_def)
  have len: "i < length (table ?s)" using ok i index_less by (simp add: wheel_ok_def)
  have in_bucket: "m \<in># pending ?s" if "m \<in> set (table ?s ! i)" for m
    using that len unfolding pending_def set_mset_mset in_concat_nth by blast
  then have msg: "msg \<in># pending ?s" using bucket by simp
  have "O2_SCHED_BIN_TO_INDEX (O2_SCHED_BIN (timestamp msg)) = O2_SCHED_BIN_TO_INDEX (last_bin ?s)"
    using ok len bucket i by (auto simp: wheel_ok_def O2_SCHED_INDEX_def)
  moreover have "last_bin ?s \<le> O2_SCHED_BIN (timestamp msg)" by (rule passed [OF msg due])
  moreover have "O2_SCHED_BIN (timestamp msg) < last_bin ?s + 128"
    using bin_mono [OF due] wrap by simp
  ultimately have bin: "O2_SCHED_BIN (timestamp msg) = last_bin ?s"
    using index_inj [of "last_bin ?s" "O2_SCHED_BIN (timestamp msg)"] by simp
  have first: "timestamp msg \<le> timestamp m" if m: "m \<in># pending ?s" for m
  proof (rule ccontr)
    assume early: "\<not> timestamp msg \<le> timestamp m"
    then have "O2_SCHED_BIN (timestamp m) \<le> last_bin ?s" "last_bin ?s \<le> O2_SCHED_BIN (timestamp m)"
      using bin_mono [of "timestamp m" "timestamp msg"] bin passed [OF m] due by simp_all
    then have "O2_SCHED_INDEX (timestamp m) = i" by (simp add: O2_SCHED_INDEX_def i)
    with pending_in_bucket [OF ok m] bucket have "m \<in> set (msg # rest)" by simp
    moreover have "sorted (map timestamp (msg # rest))"
      using ok len bucket unfolding wheel_ok_def by metis
    ultimately show False using early by auto
  qed
  have pend: "add_mset msg (pending ?s') = pending ?s"
    using mset_concat_update [OF len, of rest] bucket by (simp add: pop_msg_def pending_def)
  have sub: "m \<in># pending ?s" if "m \<in># pending ?s'" for m
    using that unfolding pend [symmetric] by simp
  have "wheel_ok ?s'"
    unfolding wheel_ok_def
  proof (intro conjI allI impI ballI)
    show "length (table ?s') = O2_SCHED_TABLE_LEN" using ok by (simp add: pop_msg_def wheel_ok_def)
    show "last_time ?s' \<le> timestamp m" if "m \<in># pending ?s'" for m
      using first [OF sub [OF that]] by (simp add: pop_msg_def)
  next
    fix j assume j: "j < O2_SCHED_TABLE_LEN"
    have tl: "table ?s' ! j = (if j = i then rest else table ?s ! j)"
      using len by (simp add: pop_msg_def)
    have old: "sorted (map timestamp (table ?s ! j))"
      "\<forall>m \<in> set (table ?s ! j). O2_SCHED_INDEX (timestamp m) = j"
      using ok j by (simp_all add: wheel_ok_def)
    show "sorted (map timestamp (table ?s' ! j))" using old bucket by (auto simp: tl)
    show "O2_SCHED_INDEX (timestamp m) = j" if "m \<in> set (table ?s' ! j)" for m
      using old(2) bucket that by (auto simp: tl split: if_splits)
  qed
  moreover have "last_time ?s \<le> timestamp msg" using ok msg by (simp add: wheel_ok_def)
  ultimately show "loop_inv T (pop_msg i msg rest d)" "conserved d (pop_msg i msg rest d)"
    using inv due wrap sub passed pend
    by (auto simp: loop_inv_def conserved_def pop_msg_def sorted_append)
  show "last_bin ?s' \<le> O2_SCHED_BIN (last_time ?s')" by (simp add: pop_msg_def bin)
qed

declare drain_bucket.simps [simp del]

lemma later_bucket:
  "sorted (map timestamp (msg # rest)) \<Longrightarrow> T < timestamp msg \<Longrightarrow>
   \<forall>m \<in> set (msg # rest). T < timestamp m"
  by fastforce

lemma current_bucket_sorted:
  "loop_inv T d \<Longrightarrow> sorted (map timestamp (table (sch d) ! O2_SCHED_BIN_TO_INDEX b))"
  unfolding loop_inv_def wheel_ok_def using index_less by blast

lemma drain_bucket_inv:
  assumes "drain_bucket fuel react T i d = Some d'" "loop_inv T d"
    "i = O2_SCHED_BIN_TO_INDEX (last_bin (sch d))"
  shows "loop_inv T d' \<and> conserved d d' \<and> last_bin (sch d') = last_bin (sch d) \<and>
    (\<forall>m \<in> set (table (sch d') ! i). T < timestamp m)"
  using assms
proof (induction fuel arbitrary: d)
  case 0
  then have "d' = d" and none: "table (sch d) ! i = [] \<or>
      (\<exists>m ms. table (sch d) ! i = m # ms \<and> \<not> timestamp m \<le> T)"
    by (auto simp: drain_bucket.simps [of 0] split: list.splits if_splits)
  moreover have "sorted (map timestamp (table (sch d) ! i))"
    using 0 current_bucket_sorted by blast
  ultimately show ?case
    using 0 later_bucket by (auto simp: conserved_refl) fastforce
next
  case (Suc fuel)
  show ?case
  proof (cases "table (sch d) ! i")
    case Nil
    with Suc.prems show ?thesis by (simp add: drain_bucket.simps [of "Suc fuel"] conserved_refl)
  next
    case (Cons msg rest)
    show ?thesis
    proof (cases "timestamp msg \<le> T")
      case True
      note pop = pop_msg_inv [OF Suc.prems(2,3) Cons True]
      let ?d = "fold handler_schedules (react msg) (pop_msg i msg rest d)"
      note fold = fold_handler_schedules_inv [OF pop(1,3), of "react msg"]
      have "drain_bucket fuel react T i ?d = Some d'"
        using Suc.prems(1) Cons True by (simp add: drain_bucket.simps [of "Suc fuel"] pop_msg_def)
      moreover have "last_bin (sch ?d) = last_bin (sch d)" using fold by (simp add: pop_msg_def)
      ultimately show ?thesis
        using Suc.IH [of ?d] fold pop(2) Suc.prems(3) conserved_trans by metis
    next
      case False
      have "sorted (map timestamp (msg # rest))"
        using current_bucket_sorted [OF Suc.prems(2)] Cons Suc.prems(3) by metis
      with Suc.prems Cons False show ?thesis
        by (auto simp: drain_bucket.simps [of "Suc fuel"] conserved_refl)
    qed
  qed
qed


lemma next_bin_inv:
  assumes inv: "loop_inv T d"
    and drained: "\<forall>m \<in> set (table (sch d) ! O2_SCHED_BIN_TO_INDEX (last_bin (sch d))). T < timestamp m"
  shows "loop_inv T (d\<lparr>sch := (sch d)\<lparr>last_bin := last_bin (sch d) + 1\<rparr>\<rparr>)"
proof -
  have "last_bin (sch d) + 1 \<le> O2_SCHED_BIN (timestamp m)"
    if m: "m \<in># pending (sch d)" "timestamp m \<le> T" for m
  proof (rule ccontr)
    assume "\<not> last_bin (sch d) + 1 \<le> O2_SCHED_BIN (timestamp m)"
    moreover have "last_bin (sch d) \<le> O2_SCHED_BIN (timestamp m)"
      using inv m by (simp add: loop_inv_def)
    ultimately have "O2_SCHED_BIN (timestamp m) = last_bin (sch d)" by simp
    moreover have "wheel_ok (sch d)" using inv by (simp add: loop_inv_def)
    ultimately have "m \<in> set (table (sch d) ! O2_SCHED_BIN_TO_INDEX (last_bin (sch d)))"
      using pending_in_bucket [OF _ m(1)] by (simp add: O2_SCHED_INDEX_def)
    with drained m(2) show False by auto
  qed
  then show ?thesis using inv by (simp add: loop_inv_def wheel_ok_def pending_def)
qed

lemma conserved_last_bin: "conserved d (d'\<lparr>sch := (sch d')\<lparr>last_bin := b\<rparr>\<rparr>) = conserved d d'"
  "conserved (d\<lparr>sch := (sch d)\<lparr>last_bin := b\<rparr>\<rparr>) d' = conserved d d'"
  by (simp_all add: conserved_def pending_def)

lemma visit_bins_inv:
  assumes "visit_bins n fuel react T d = Some d'" "loop_inv T d"
  shows "loop_inv T d' \<and> conserved d d' \<and> last_bin (sch d') = last_bin (sch d) + int n"
  using assms
proof (induction n arbitrary: d)
  case 0
  then show ?case by (simp add: conserved_refl)
next
  case (Suc n)
  then obtain d1 where d1: "drain_bucket fuel react T (O2_SCHED_BIN_TO_INDEX (last_bin (sch d))) d = Some d1"
    and rest: "visit_bins n fuel react T (d1\<lparr>sch := (sch d1)\<lparr>last_bin := last_bin (sch d1) + 1\<rparr>\<rparr>) = Some d'"
    by (auto split: option.splits)
  from drain_bucket_inv [OF d1 Suc.prems(2) refl]
  have inv1: "loop_inv T d1" and c1: "conserved d d1" and b1: "last_bin (sch d1) = last_bin (sch d)"
    and drained: "\<forall>m \<in> set (table (sch d1) ! O2_SCHED_BIN_TO_INDEX (last_bin (sch d1))). T < timestamp m"
    by simp_all
  from Suc.IH [OF rest next_bin_inv [OF inv1 drained]] c1 b1
  show ?case by (auto simp: conserved_last_bin intro: conserved_trans)
qed

definition dispatch_ok :: "'a dispatch \<Rightarrow> bool" where
  "dispatch_ok d \<longleftrightarrow> sched_ok (sch d) \<and> sorted (map timestamp (sent d)) \<and>
     (\<forall>m \<in> set (sent d). timestamp m \<le> last_time (sch d))"

lemma loop_inv_start:
  assumes "dispatch_ok d" "last_time (sch d) \<le> T" "T \<le> last_time (sch d) + 1"
  shows "loop_inv T d"
  using assms bin_mono [of T "last_time (sch d) + 1"] bin_step [of "last_time (sch d)"]
  by (auto simp: dispatch_ok_def loop_inv_def sched_ok_def wheel_ok_def intro!: bin_mono)

lemma dispatch_step_inv:
  assumes step: "dispatch_step fuel react T d = Some d'" and ok: "dispatch_ok d"
    and T: "last_time (sch d) \<le> T" "T \<le> last_time (sch d) + 1"
  shows "dispatch_ok d' \<and> conserved d d' \<and> last_time (sch d') = T \<and>
    (\<forall>m \<in># pending (sch d'). T < timestamp m)"
proof -
  let ?s = "sch d"
  have start: "loop_inv T d" by (rule loop_inv_start [OF ok T])
  from step obtain d1 where visit: "visit_bins (nat (O2_SCHED_BIN T + 1 - last_bin ?s)) fuel react T d = Some d1"
    and d': "d' = d1\<lparr>sch := (sch d1)\<lparr>last_bin := last_bin (sch d1) - 1, last_time := T\<rparr>\<rparr>"
    by (auto simp: dispatch_step_def)
  from visit_bins_inv [OF visit start] have inv: "loop_inv T d1" and c: "conserved d d1"
    and lb: "last_bin (sch d1) = O2_SCHED_BIN T + 1"
    using ok bin_mono [OF T(1)] by (simp_all add: dispatch_ok_def sched_ok_def)
  have future: "T < timestamp m" if "m \<in># pending (sch d1)" for m
  proof (rule ccontr)
    assume "\<not> T < timestamp m"
    with inv that lb bin_mono [of "timestamp m" T] show False by (auto simp: loop_inv_def)
  qed
  with inv c lb ok T show ?thesis
    unfolding d' dispatch_ok_def
    by (auto simp: loop_inv_def sched_ok_def wheel_ok_def conserved_def pending_def
        intro: order_trans less_imp_le)
qed


declare catch_up.simps [simp del]

lemma catch_up_inv:
  assumes "catch_up n fuel react T d = Some d'" "dispatch_ok d" "last_time (sch d) \<le> T"
  shows "dispatch_ok d' \<and> conserved d d' \<and> last_time (sch d') \<le> T \<and> T \<le> last_time (sch d') + 1"
  using assms
proof (induction n arbitrary: d)
  case 0
  then show ?case by (auto simp: catch_up.simps [of 0] conserved_refl split: if_splits)
next
  case (Suc n)
  show ?case
  proof (cases "last_time (sch d) + 1 < T")
    case False
    with Suc.prems show ?thesis by (simp add: catch_up.simps [of "Suc n"] conserved_refl)
  next
    case True
    then obtain d1 where d1: "dispatch_step fuel react (last_time (sch d) + 1) d = Some d1"
      and rest: "catch_up n fuel react T d1 = Some d'"
      using Suc.prems(1) by (auto simp: catch_up.simps [of "Suc n"] split: option.splits)
    from dispatch_step_inv [OF d1 Suc.prems(2)]
    have "dispatch_ok d1" "conserved d d1" "last_time (sch d1) \<le> T" using True by simp_all
    with Suc.IH [OF rest] show ?thesis by (auto intro: conserved_trans)
  qed
qed

section \<open>Properties\<close>

subsection \<open>A concrete wheel\<close>

definition example_msg :: "nat smsg" where
  "example_msg = \<lparr>timestamp = 1/20, content = 7\<rparr>"

definition example_wheel :: "nat O2sched" where
  "example_wheel = snd (snd (o2_schedule False True
     \<lparr>last_bin = 0, last_time = 0, table = replicate O2_SCHED_TABLE_LEN []\<rparr> example_msg))"

lemma empty_wheel_ok: "0 \<le> t \<Longrightarrow>
  sched_ok \<lparr>last_bin = O2_SCHED_BIN t, last_time = t, table = replicate O2_SCHED_TABLE_LEN []\<rparr>"
  by (simp add: sched_ok_def wheel_ok_def pending_def concat_replicate_trivial)

lemma example_wheel_ok: "sched_ok example_wheel" "pending example_wheel = {#example_msg#}"
  "last_time example_wheel = 0"
proof -
  let ?s = "\<lparr>last_bin = 0, last_time = 0, table = replicate O2_SCHED_TABLE_LEN []\<rparr> :: nat O2sched"
  have ok: "sched_ok ?s" using empty_wheel_ok [of 0] by (simp add: O2_SCHED_BIN_def)
  then have "wheel_ok ?s" by (simp add: sched_ok_def)
  then have "sched_ok example_wheel \<and> pending example_wheel = {#example_msg#} \<and> last_time example_wheel = 0"
    by (cases rule: o2_schedule_cases [of ?s example_msg False True])
      (use ok in \<open>simp_all add: example_wheel_def example_msg_def sched_ok_def pending_def
        concat_replicate_trivial\<close>)
  then show "sched_ok example_wheel" "pending example_wheel = {#example_msg#}"
    "last_time example_wheel = 0" by simp_all
qed

subsection \<open>What is sent\<close>

lemma sched_dispatch_facts:
  assumes "sched_dispatch n fuel react s T = Some d" "sched_ok s" "last_time s \<le> T"
  shows "sched_ok (sch d)" "last_time (sch d) = T"
    "sorted (map timestamp (sent d))"
    "\<forall>m \<in> set (sent d). last_time s \<le> timestamp m \<and> timestamp m \<le> T"
    "\<forall>m \<in># pending (sch d). T < timestamp m"
    "mset (sent d) + pending (sch d) = pending s + mset (accepted d)"
proof -
  let ?d0 = "\<lparr>sch = s, sent = [], at_once = [], accepted = []\<rparr>"
  from assms(1) obtain d1 where up: "catch_up n fuel react T ?d0 = Some d1"
    and step: "dispatch_step fuel react T d1 = Some d"
    by (auto simp: sched_dispatch_def split: option.splits)
  have "dispatch_ok ?d0" using assms(2) by (simp add: dispatch_ok_def)
  from catch_up_inv [OF up this] assms(3)
  have d1: "dispatch_ok d1" "conserved ?d0 d1" "last_time (sch d1) \<le> T" "T \<le> last_time (sch d1) + 1"
    by simp_all
  from dispatch_step_inv [OF step d1(1,3,4)]
  have d: "dispatch_ok d" "conserved d1 d" "last_time (sch d) = T"
    "\<forall>m \<in># pending (sch d). T < timestamp m" by simp_all
  from conserved_trans [OF d1(2) d(2)] have c: "conserved ?d0 d" .
  show "sched_ok (sch d)" "last_time (sch d) = T" "sorted (map timestamp (sent d))"
    "\<forall>m \<in># pending (sch d). T < timestamp m"
    using d by (simp_all add: dispatch_ok_def)
  show "\<forall>m \<in> set (sent d). last_time s \<le> timestamp m \<and> timestamp m \<le> T"
    using c d by (auto simp: conserved_def dispatch_ok_def)
  show "mset (sent d) + pending (sch d) = pending s + mset (accepted d)"
    using c by (simp add: conserved_def ac_simps)
qed

text \<open>C23: a dispatch up to \<open>T\<close> that returns has sent, in time order, exactly the messages due by
  \<open>T\<close>, those its handlers scheduled meanwhile included; it loses and invents no message, leaves
  only later ones in the wheel, and leaves the wheel well formed with its clock at \<open>T\<close>.\<close>

theorem sched_dispatch_correct:
  assumes "sched_dispatch n fuel react s T = Some d" "sched_ok s" "last_time s \<le> T"
  shows "sched_ok (sch d) \<and> last_time (sch d) = T \<and> sorted (map timestamp (sent d)) \<and>
    (\<forall>m \<in> set (sent d). last_time s \<le> timestamp m \<and> timestamp m \<le> T) \<and>
    (\<forall>m \<in># pending (sch d). T < timestamp m) \<and>
    mset (sent d) + pending (sch d) = pending s + mset (accepted d)"
  using sched_dispatch_facts [OF assms] by blast

subsection \<open>The dispatch returns\<close>

definition schedules_after :: "('a smsg \<Rightarrow> 'a smsg list) \<Rightarrow> O2time \<Rightarrow> bool" where
  "schedules_after react T \<longleftrightarrow> (\<forall>m. \<forall>m' \<in> set (react m). T < timestamp m')"

definition due :: "O2time \<Rightarrow> 'a dispatch \<Rightarrow> 'a smsg multiset" where
  "due T d = filter_mset (\<lambda>m. timestamp m \<le> T) (pending (sch d))"

lemma due_mono: "T \<le> T' \<Longrightarrow> size (due T d) \<le> size (due T' d)"
  unfolding due_def by (intro size_mset_mono filter_mset_mono_strong) auto

text \<open>Handlers whose messages are due only after the poll's time leave the due messages alone.\<close>

lemma fold_handler_schedules_due:
  assumes "loop_inv T d" "last_bin (sch d) \<le> O2_SCHED_BIN (last_time (sch d))"
    "\<forall>m \<in> set ms. TT < timestamp m"
  shows "due TT (fold handler_schedules ms d) = due TT d"
  using assms
proof (induction ms arbitrary: d)
  case Nil
  then show ?case by simp
next
  case (Cons m ms)
  have "wheel_ok (sch d)" using Cons.prems(1) by (simp add: loop_inv_def)
  then have "due TT (handler_schedules m d) = due TT d"
    by (cases rule: o2_schedule_cases [of "sch d" m False True])
      (use Cons.prems(3) in \<open>auto simp: handler_schedules_def due_def\<close>)
  with Cons.IH [of "handler_schedules m d"] handler_schedules_inv [OF Cons.prems(1,2), of m] Cons.prems
  show ?case by simp
qed

lemma drain_bucket_returns:
  assumes "size (due TT d) \<le> fuel" "loop_inv T d" "i = O2_SCHED_BIN_TO_INDEX (last_bin (sch d))"
    "T \<le> TT" "schedules_after react TT"
  shows "\<exists>d'. drain_bucket fuel react T i d = Some d' \<and> size (due TT d') \<le> size (due TT d)"
  using assms(1-3)
proof (induction fuel arbitrary: d)
  case 0
  show ?case
  proof (cases "table (sch d) ! i")
    case Nil
    then show ?thesis by (simp add: drain_bucket.simps [of 0])
  next
    case (Cons msg rest)
    have "wheel_ok (sch d)" using 0 by (simp add: loop_inv_def)
    then have "msg \<in># pending (sch d)"
      using Cons 0(3) index_less unfolding pending_def set_mset_mset in_concat_nth wheel_ok_def
      by (metis list.set_intros(1))
    with 0(1) have "\<not> timestamp msg \<le> T"
      using assms(4) by (auto simp: due_def)
    with Cons show ?thesis by (simp add: drain_bucket.simps [of 0])
  qed
next
  case (Suc fuel)
  show ?case
  proof (cases "\<exists>msg rest. table (sch d) ! i = msg # rest \<and> timestamp msg \<le> T")
    case False
    then show ?thesis by (auto simp: drain_bucket.simps [of "Suc fuel"] split: list.splits)
  next
    case True
    then obtain msg rest where b: "table (sch d) ! i = msg # rest" "timestamp msg \<le> T" by blast
    note pop = pop_msg_inv [OF Suc.prems(2,3) b]
    let ?p = "pop_msg i msg rest d" and ?d = "fold handler_schedules (react msg) (pop_msg i msg rest d)"
    have "pending (sch d) = add_mset msg (pending (sch ?p))"
      using pop(2) by (simp add: conserved_def pop_msg_def)
    then have "size (due TT d) = Suc (size (due TT ?p))"
      using b(2) assms(4) by (simp add: due_def)
    moreover have "due TT ?d = due TT ?p"
      using fold_handler_schedules_due [OF pop(1,3)] assms(5) unfolding schedules_after_def by blast
    moreover note fold_handler_schedules_inv [OF pop(1,3), of "react msg"]
    ultimately obtain d' where "drain_bucket fuel react T i ?d = Some d'" "size (due TT d') \<le> size (due TT d)"
      using Suc.IH [of ?d] Suc.prems by (auto simp: pop_msg_def)
    with b show ?thesis by (simp add: drain_bucket.simps [of "Suc fuel"] pop_msg_def)
  qed
qed

lemma visit_bins_returns:
  assumes "size (due TT d) \<le> fuel" "loop_inv T d" "T \<le> TT"
    "schedules_after react TT"
  shows "\<exists>d'. visit_bins n fuel react T d = Some d' \<and> size (due TT d') \<le> size (due TT d)"
  using assms(1,2)
proof (induction n arbitrary: d)
  case 0
  then show ?case by simp
next
  case (Suc n)
  from drain_bucket_returns [OF Suc.prems refl assms(3,4)] obtain d1 where
    d1: "drain_bucket fuel react T (O2_SCHED_BIN_TO_INDEX (last_bin (sch d))) d = Some d1"
      "size (due TT d1) \<le> size (due TT d)" by blast
  let ?d = "d1\<lparr>sch := (sch d1)\<lparr>last_bin := last_bin (sch d1) + 1\<rparr>\<rparr>"
  have "loop_inv T ?d"
    using drain_bucket_inv [OF d1(1) Suc.prems(2) refl] by (intro next_bin_inv) auto
  moreover have "due TT ?d = due TT d1" by (simp add: due_def pending_def)
  ultimately obtain d' where "visit_bins n fuel react T ?d = Some d'" "size (due TT d') \<le> size (due TT d)"
    using Suc.IH [of ?d] Suc.prems(1) d1(2) by fastforce
  with d1(1) show ?case by simp
qed

lemma dispatch_step_returns:
  assumes "size (due TT d) \<le> fuel" "dispatch_ok d" "last_time (sch d) \<le> T" "T \<le> last_time (sch d) + 1"
    "T \<le> TT" "schedules_after react TT"
  shows "\<exists>d'. dispatch_step fuel react T d = Some d' \<and> size (due TT d') \<le> size (due TT d)"
proof -
  from visit_bins_returns [OF assms(1) loop_inv_start [OF assms(2-4)] assms(5,6)]
  obtain d1 where "visit_bins (nat (O2_SCHED_BIN T + 1 - last_bin (sch d))) fuel react T d = Some d1"
    "size (due TT d1) \<le> size (due TT d)" by blast
  then show ?thesis by (simp add: dispatch_step_def due_def pending_def)
qed

lemma catch_up_returns:
  assumes "size (due T d) \<le> fuel" "dispatch_ok d" "T - last_time (sch d) \<le> of_nat n"
    "schedules_after react T"
  shows "\<exists>d'. catch_up n fuel react T d = Some d' \<and> size (due T d') \<le> size (due T d)"
  using assms(1-3)
proof (induction n arbitrary: d)
  case 0
  then show ?case by (simp add: catch_up.simps [of 0])
next
  case (Suc n)
  show ?case
  proof (cases "last_time (sch d) + 1 < T")
    case False
    then show ?thesis by (simp add: catch_up.simps [of "Suc n"])
  next
    case True
    from dispatch_step_returns [OF Suc.prems(1,2) _ _ _ assms(4), of "last_time (sch d) + 1"] True
    obtain d1 where d1: "dispatch_step fuel react (last_time (sch d) + 1) d = Some d1"
      "size (due T d1) \<le> size (due T d)" by auto
    from dispatch_step_inv [OF d1(1) Suc.prems(2)]
    have "dispatch_ok d1" "last_time (sch d1) = last_time (sch d) + 1" by simp_all
    with Suc.IH [of d1] d1 Suc.prems obtain d' where
      "catch_up n fuel react T d1 = Some d'" "size (due T d') \<le> size (due T d)" by auto
    with True d1 show ?thesis by (auto simp: catch_up.simps [of "Suc n"])
  qed
qed

text \<open>C38: the dispatch returns: when the handlers schedule only beyond the poll's time \<open>T\<close>, as many
  turns of the inner loop as messages wait and as many catch-up turns as seconds have passed are
  enough.\<close>

theorem sched_dispatch_returns:
  assumes "sched_ok s" "last_time s \<le> T"
    "schedules_after react T"
    "size (pending s) \<le> fuel" "T - last_time s \<le> of_nat n"
  shows "\<exists>d. sched_dispatch n fuel react s T = Some d"
proof -
  let ?d0 = "\<lparr>sch = s, sent = [], at_once = [], accepted = []\<rparr>"
  have ok: "dispatch_ok ?d0" using assms(1) by (simp add: dispatch_ok_def)
  have fuel: "size (due T ?d0) \<le> fuel"
    using assms(4) by (auto simp: due_def intro: order_trans size_mset_mono multiset_filter_subset)
  from catch_up_returns [OF fuel ok _ assms(3)] assms(5) obtain d1 where
    d1: "catch_up n fuel react T ?d0 = Some d1" "size (due T d1) \<le> fuel" using fuel by fastforce
  from catch_up_inv [OF d1(1) ok] assms(2)
  have "dispatch_ok d1" "last_time (sch d1) \<le> T" "T \<le> last_time (sch d1) + 1" by simp_all
  from dispatch_step_returns [OF d1(2) this order_refl assms(3)] d1(1) show ?thesis
    by (auto simp: sched_dispatch_def)
qed


theorem sched_dispatch_returns_witness:
  "\<exists>d. sched_dispatch 1 1 (\<lambda>_. []) example_wheel (1/10) = Some d"
  by (rule sched_dispatch_returns)
    (simp_all add: example_wheel_ok schedules_after_def)

text \<open>The witness of C1 runs the example wheel to a tenth of a second.\<close>

lemma example_dispatch_fuel: "size (due T \<lparr>sch = example_wheel, sent = [], at_once = [], accepted = []\<rparr>) \<le> 1"
  using size_mset_mono [OF multiset_filter_subset, of "\<lambda>m. timestamp m \<le> T" "pending example_wheel"]
  by (simp add: due_def example_wheel_ok)

theorem sched_dispatch_correct_witness:
  "\<exists>d. sched_dispatch 1 1 (\<lambda>_. []) example_wheel (1/10) = Some d \<and> example_msg \<in> set (sent d) \<and>
       sched_ok (sch d)"
proof -
  let ?d0 = "\<lparr>sch = example_wheel, sent = [], at_once = [], accepted = []\<rparr>"
  have "dispatch_ok ?d0" by (simp add: dispatch_ok_def example_wheel_ok)
  with dispatch_step_returns [OF example_dispatch_fuel this, of "1/10" "1/10" "\<lambda>_. []"]
  obtain d where "dispatch_step 1 (\<lambda>_. []) (1/10) ?d0 = Some d"
    by (auto simp: example_wheel_ok schedules_after_def)
  then have d: "sched_dispatch 1 1 (\<lambda>_. []) example_wheel (1/10) = Some d"
    by (simp add: sched_dispatch_def catch_up.simps example_wheel_ok)
  have le: "last_time example_wheel \<le> 1/10" by (simp add: example_wheel_ok)
  from sched_dispatch_correct [OF d example_wheel_ok(1) le]
  have ok: "sched_ok (sch d)" and later: "\<forall>m \<in># pending (sch d). 1/10 < timestamp m"
    and all: "mset (sent d) + pending (sch d) = pending example_wheel + mset (accepted d)" by blast+
  have "example_msg \<in># pending example_wheel + mset (accepted d)" by (simp add: example_wheel_ok)
  then have "example_msg \<in># mset (sent d) + pending (sch d)" by (simp only: all)
  moreover have "example_msg \<notin># pending (sch d)" using later by (auto simp: example_msg_def)
  ultimately show ?thesis using d ok by auto
qed

subsection \<open>Scheduling\<close>

text \<open>\<open>o2_schedule\<close> on every branch: a message that is not in the future is delivered at once,
  a message for the global scheduler is dropped with \<open>O2_NO_CLOCK\<close> before there is a clock, and any
  other goes into the wheel, which stays well formed; only then does the scheduler change.\<close>

theorem o2_schedule_branches:
  assumes "wheel_ok s" "o2_schedule g st s m = (e, out, s')"
  shows "(out = Delivered_Now \<longleftrightarrow> timestamp m \<le> 0 \<or> timestamp m < last_time s) \<and>
    (out = Dropped_No_Clock \<longleftrightarrow> 0 < timestamp m \<and> last_time s \<le> timestamp m \<and> g \<and> \<not> st) \<and>
    e = (if out = Dropped_No_Clock then O2_NO_CLOCK else O2_SUCCESS) \<and>
    pending s' = (if out = Queued then add_mset m (pending s) else pending s) \<and>
    wheel_ok s' \<and> (out \<noteq> Queued \<longrightarrow> s' = s)"
  using assms(1)
  proof (cases rule: o2_schedule_cases [of s m g st])
    case now
    with assms show ?thesis by auto
  next
    case noclock
    with assms show ?thesis by auto
  next
    case (queued s2)
    with assms(2) have "e = O2_SUCCESS" "out = Queued" "s' = s2" by simp_all
    with queued show ?thesis by (auto simp: o2_schedule_def split: if_splits)
  qed

theorem o2_schedule_branches_witness:
  "\<exists>s'. o2_schedule True True example_wheel example_msg = (O2_SUCCESS, Queued, s') \<and>
        pending s' = {#example_msg, example_msg#}"
proof -
  obtain e out s' where r: "o2_schedule True True example_wheel example_msg = (e, out, s')"
    by (metis prod_cases3)
  have ok: "wheel_ok example_wheel" using example_wheel_ok by (simp add: sched_ok_def)
  from o2_schedule_branches [OF ok r] have "out \<noteq> Delivered_Now \<and> out \<noteq> Dropped_No_Clock"
    by (simp add: example_wheel_ok example_msg_def)
  then have "out = Queued" by (cases out) simp_all
  with o2_schedule_branches [OF ok r] r show ?thesis by (simp add: example_wheel_ok)
qed

subsection \<open>Time that goes backwards\<close>

text \<open>When the polled time goes back by a bin or more, \<open>last_bin\<close> moves back by one bin only while
  \<open>last_time\<close> takes the earlier time. A message scheduled for the time between is accepted, and the
  next dispatch, past its timestamp, does not send it: the wheel reaches its bin again only after a
  full turn.\<close>

theorem sched_backward_misses:
  "\<exists>s0 d1 s2 d2 (m :: nat smsg).
     sched_ok s0 \<and> last_time s0 = 1 \<and> pending s0 = {#} \<and>
     sched_dispatch 0 0 (\<lambda>_. []) s0 (1/2) = Some d1 \<and>
     o2_schedule False True (sch d1) m = (O2_SUCCESS, Queued, s2) \<and>
     sched_dispatch 0 0 (\<lambda>_. []) s2 (7/10) = Some d2 \<and>
     timestamp m \<le> 7/10 \<and> sent d2 = [] \<and> m \<in># pending (sch d2)"
proof -
  let ?t = "replicate O2_SCHED_TABLE_LEN [] :: nat smsg list list"
  let ?s0 = "\<lparr>last_bin = 100, last_time = 1, table = ?t\<rparr>"
  let ?s1 = "\<lparr>last_bin = 99, last_time = 1/2, table = ?t\<rparr>"
  let ?m = "\<lparr>timestamp = 3/5, content = 0\<rparr> :: nat smsg"
  let ?s2 = "snd (snd (o2_schedule False True ?s1 ?m))"
  let ?d = "\<lambda>s. \<lparr>sch = s, sent = [], at_once = [], accepted = []\<rparr>"
  have ok0: "sched_ok ?s0" using empty_wheel_ok [of 1] by (simp add: O2_SCHED_BIN_def)
  then have ok1: "wheel_ok ?s1" by (simp add: sched_ok_def wheel_ok_def pending_def concat_replicate_trivial)
  have d1: "sched_dispatch 0 0 (\<lambda>_. []) ?s0 (1/2) = Some (?d ?s1)"
    by (simp add: sched_dispatch_def catch_up.simps dispatch_step_def O2_SCHED_BIN_def)
  from ok1 have s2: "o2_schedule False True ?s1 ?m = (O2_SUCCESS, Queued, ?s2) \<and>
      pending ?s2 = {#?m#} \<and> last_bin ?s2 = 99 \<and> last_time ?s2 = 1/2"
    by (cases rule: o2_schedule_cases [of ?s1 ?m False True])
      (simp_all add: pending_def concat_replicate_trivial)
  then have d2: "sched_dispatch 0 0 (\<lambda>_. []) ?s2 (7/10) =
      Some (?d (?s2\<lparr>last_bin := 98, last_time := 7/10\<rparr>))"
    by (simp add: sched_dispatch_def catch_up.simps dispatch_step_def O2_SCHED_BIN_def)
  show ?thesis
    by (rule exI [of _ ?s0], rule exI [of _ "?d ?s1"], rule exI [of _ ?s2],
        rule exI [of _ "?d (?s2\<lparr>last_bin := 98, last_time := 7/10\<rparr>)"], rule exI [of _ ?m])
      (use ok0 d1 s2 d2 in \<open>simp add: pending_def concat_replicate_trivial\<close>)
qed

end
