(* ===== verification/MemAlloc.thy ===== *)
theory MemAlloc
  imports Prelude
begin

text \<open>
  The real-time allocator of src/src/o2mem.cpp on a 64-bit machine, in the configuration without
  debugging (\<open>O2MEM_DEBUG\<close> is 0). An address is a block of the system's memory (one per call of
  the C library's \<open>malloc\<close>, or the caller's first chunk) and an offset in it; every such block
  starts on a 16 byte boundary; \<open>sys_blocks\<close> has their lengths. Whether the C library has memory
  left is an argument \<open>ok\<close>. Sizes are numbers below \<open>2 ^ 64\<close> whose sums wrap around: of the requests that
are too large (\<open>request_fits\<close>) some get a block that is too small.
\<close>

section \<open>Size classes\<close>

abbreviation LOG2_MAX_LINEAR_BYTES :: nat where "LOG2_MAX_LINEAR_BYTES \<equiv> 9"
abbreviation MAX_LINEAR_BYTES :: nat where "MAX_LINEAR_BYTES \<equiv> 512"
abbreviation LOG2_MAX_EXPONENTIAL_BYTES :: nat where "LOG2_MAX_EXPONENTIAL_BYTES \<equiv> 25"
abbreviation O2MEM_CHUNK_SIZE :: nat where "O2MEM_CHUNK_SIZE \<equiv> 8192"

abbreviation SIZE_T :: nat where "SIZE_T \<equiv> 2 ^ 64"

text \<open>\<open>((sz + 7) & ~0xF) + 8\<close>. The first sum may wrap, the second one cannot.\<close>

definition SIZE_REQUEST_TO_ACTUAL :: "nat \<Rightarrow> nat" where
  "SIZE_REQUEST_TO_ACTUAL sz = (sz + 7) mod SIZE_T div 16 * 16 + 8"

text \<open>The preamble holds the size field only, the postlude is empty.\<close>

definition SIZE_TO_REALSIZE :: "nat \<Rightarrow> nat" where
  "SIZE_TO_REALSIZE sz = (8 + sz) mod SIZE_T"

function block_log :: "nat \<Rightarrow> nat \<Rightarrow> nat" where
  "block_log sz lg =
     (if lg < LOG2_MAX_EXPONENTIAL_BYTES \<and> 2 ^ lg < sz then block_log sz (lg + 1) else lg)"
  by pat_completeness auto
termination by (relation "measure (\<lambda>(sz, lg). LOG2_MAX_EXPONENTIAL_BYTES - lg)") auto

declare block_log.simps [simp del]

definition power_of_2_block_size :: "nat \<Rightarrow> nat" where
  "power_of_2_block_size sz = block_log sz LOG2_MAX_LINEAR_BYTES"

datatype freelist = Linear_Free nat | Exponential_Free nat

text \<open>The freelist for a size, and the size rounded up to what its blocks hold.\<close>

definition size_class :: "nat \<Rightarrow> freelist option \<times> nat" where
  "size_class sz =
     (let index = sz div 16 in
      if index < MAX_LINEAR_BYTES div 16 then (Some (Linear_Free index), sz)
      else let index = power_of_2_block_size (sz - 8) in
        if index < LOG2_MAX_EXPONENTIAL_BYTES then
          (Some (Exponential_Free (index - LOG2_MAX_LINEAR_BYTES)), 2 ^ index + 8)
        else (None, sz))"

definition head_ptr_for_size :: "nat \<Rightarrow> freelist option \<times> nat" where
  "head_ptr_for_size size0 = size_class (SIZE_REQUEST_TO_ACTUAL size0)"

section \<open>State\<close>

datatype O2mem_state = UNINITIALIZED | NOT_USED | INITIALIZED

type_synonym addr = "nat \<times> nat"

record mem =
  o2mem_state :: O2mem_state
  malloc_ok :: bool
  o2_memory_mgmt :: bool
  total_allocated :: nat
  allocated_chunk_list :: "nat list"
  freelists :: "freelist \<Rightarrow> addr list"
  chunk :: "addr option"
  chunk_remaining :: nat
  sys_blocks :: "nat list"
  obj_size :: "addr \<rightharpoonup> nat"

section \<open>Operations\<close>

definition o2_mem_init :: "addr option \<Rightarrow> nat \<Rightarrow> mem \<Rightarrow> mem" where
  "o2_mem_init chk sz m =
     (if o2mem_state m = NOT_USED then m
      else let m = m\<lparr>freelists := (\<lambda>_. [])\<rparr> in
        if o2mem_state m = INITIALIZED then m
        else m\<lparr>o2mem_state := INITIALIZED, chunk := chk, chunk_remaining := sz\<rparr>)"

text \<open>Freeing a chunk gives its memory back: no block of it exists any more.\<close>

definition o2_mem_finish :: "mem \<Rightarrow> mem" where
  "o2_mem_finish m =
     (if o2mem_state m = INITIALIZED then
        (o2_mem_init None 0
           (m\<lparr>obj_size := obj_size m |` {a. fst a \<notin> set (allocated_chunk_list m)},
              allocated_chunk_list := []\<rparr>))\<lparr>o2mem_state := UNINITIALIZED\<rparr>
      else m)"

text \<open>\<open>malloc_given\<close>, \<open>free_given\<close>: the caller passes its own functions.\<close>

definition o2_memory ::
  "bool \<Rightarrow> bool \<Rightarrow> addr option \<Rightarrow> nat \<Rightarrow> bool \<Rightarrow> mem \<Rightarrow> O2err \<times> mem" where
  "o2_memory malloc_given free_given first_chunk sz mallocp m =
     (if o2mem_state m \<noteq> UNINITIALIZED then (O2_FAIL, m)
      else if malloc_given \<and> free_given then
        (O2_SUCCESS, m\<lparr>o2mem_state := NOT_USED, o2_memory_mgmt := False\<rparr>)
      else if \<not> malloc_given \<and> \<not> free_given then
        (O2_SUCCESS, (o2_mem_init first_chunk sz m)\<lparr>malloc_ok := mallocp\<rparr>)
      else (O2_SUCCESS, m))"

text \<open>
  One system block for one object: the list link, the size field, then the payload at offset 16.
  The result of \<open>malloc\<close> is not checked: \<open>None\<close> is the write through a null pointer.
\<close>

definition malloc_one_object :: "bool \<Rightarrow> nat \<Rightarrow> mem \<Rightarrow> (addr \<times> mem) option" where
  "malloc_one_object ok sz m =
     (if ok then
        Some ((length (sys_blocks m), 16),
          m\<lparr>sys_blocks := sys_blocks m @ [(SIZE_TO_REALSIZE sz + 8) mod SIZE_T],
            allocated_chunk_list := length (sys_blocks m) # allocated_chunk_list m,
            obj_size := (obj_size m)((length (sys_blocks m), 16) \<mapsto> sz)\<rparr>)
      else None)"

text \<open>The label \<open>gotit\<close>: the block is recorded and returned.\<close>

definition gotit :: "addr \<Rightarrow> nat \<Rightarrow> mem \<Rightarrow> addr option \<times> mem" where
  "gotit result sz m =
     (Some result, m\<lparr>obj_size := (obj_size m)(result \<mapsto> sz),
                     total_allocated := total_allocated m + SIZE_TO_REALSIZE sz\<rparr>)"

text \<open>Take a block from the front of the chunk: the size field, then the payload.\<close>

definition carve :: "nat \<Rightarrow> mem \<Rightarrow> addr option \<times> mem" where
  "carve sz m =
     (case chunk m of
        None \<Rightarrow> (None, m)
      | Some (b, off) \<Rightarrow>
          gotit (b, off + 8) sz
            (m\<lparr>chunk := Some (b, off + SIZE_TO_REALSIZE sz),
               chunk_remaining := chunk_remaining m - SIZE_TO_REALSIZE sz\<rparr>))"

text \<open>
  \<open>o2_malloc\<close>: the block (\<open>None\<close> is NULL) and the new state; \<open>None\<close> outside is undefined behaviour or an
  assertion that fails.
\<close>

definition o2_malloc :: "bool \<Rightarrow> nat \<Rightarrow> mem \<Rightarrow> (addr option \<times> mem) option" where
  "o2_malloc ok request m =
     (if o2mem_state m \<noteq> INITIALIZED then None
      else let (p, sz) = head_ptr_for_size request;
               realsize = SIZE_TO_REALSIZE sz in
      case p of
        None \<Rightarrow>
          if malloc_ok m then map_option (\<lambda>(a, m). (Some a, m)) (malloc_one_object ok sz m)
          else Some (None, m)
      | Some fl \<Rightarrow>
          (case freelists m fl of
             result # rest \<Rightarrow>
               Some (gotit result sz (m\<lparr>freelists := (freelists m)(fl := rest)\<rparr>))
           | [] \<Rightarrow>
               if O2MEM_CHUNK_SIZE < realsize then
                 map_option (\<lambda>(a, m). gotit a sz m) (malloc_one_object ok sz m)
               else if chunk_remaining m < realsize then
                 if \<not> malloc_ok m then Some (None, m)
                 else if MAX_LINEAR_BYTES \<le> realsize \<and> MAX_LINEAR_BYTES < chunk_remaining m then
                   map_option (\<lambda>(a, m). gotit a sz m) (malloc_one_object ok sz m)
                 else if \<not> ok then Some (None, m\<lparr>chunk := None, chunk_remaining := 0\<rparr>)
                 else Some (carve sz
                   (m\<lparr>sys_blocks := sys_blocks m @ [O2MEM_CHUNK_SIZE],
                      allocated_chunk_list := length (sys_blocks m) # allocated_chunk_list m,
                      chunk := Some (length (sys_blocks m), 8),
                      chunk_remaining := O2MEM_CHUNK_SIZE - 8\<rparr>))
               else Some (carve sz m)))"

text \<open>\<open>o2_free\<close>: \<open>None\<close> is NULL; a block without a size field is not the allocator's.\<close>

definition o2_free :: "addr option \<Rightarrow> mem \<Rightarrow> mem" where
  "o2_free ptr m =
     (if o2mem_state m \<noteq> INITIALIZED then m
      else case ptr of
        None \<Rightarrow> m
      | Some a \<Rightarrow>
          let preamble_size = the (obj_size m a) in
          if preamble_size = 0 then m
          else (case head_ptr_for_size preamble_size of
              (None, sz) \<Rightarrow> m\<lparr>obj_size := (obj_size m)(a \<mapsto> sz)\<rparr>
            | (Some head_ptr, sz) \<Rightarrow>
                m\<lparr>obj_size := (obj_size m)(a \<mapsto> sz),
                  total_allocated := total_allocated m - SIZE_TO_REALSIZE preamble_size,
                  freelists := (freelists m)(head_ptr := a # freelists m head_ptr)\<rparr>))"

text \<open>The usable sz of a block: what its size class holds, or what was asked for.\<close>

definition o2_allocation_size :: "addr \<Rightarrow> nat \<Rightarrow> mem \<Rightarrow> nat" where
  "o2_allocation_size obj minimum m =
     (if o2_memory_mgmt m then the (obj_size m obj) else minimum)"

text \<open>The number of elements of \<open>esize\<close> bytes a vector gets when it asks for \<open>n\<close>, an \<open>int\<close>: the product does not wrap.\<close>

definition vec_allocated :: "nat \<Rightarrow> nat \<Rightarrow> nat" where
  "vec_allocated esize n = snd (size_class ((n * esize + 7) div 16 * 16 + 8)) div esize"

section \<open>The size classes are consistent\<close>

lemma block_log_bounds:
  assumes "lg \<le> LOG2_MAX_EXPONENTIAL_BYTES" "block_log sz lg = l"
  shows "lg \<le> l \<and> l \<le> LOG2_MAX_EXPONENTIAL_BYTES \<and> (l < LOG2_MAX_EXPONENTIAL_BYTES \<longrightarrow> sz \<le> 2 ^ l)"
  using assms
proof (induction sz lg arbitrary: l rule: block_log.induct)
  case (1 sz lg)
  show ?case
  proof (cases "lg < LOG2_MAX_EXPONENTIAL_BYTES \<and> 2 ^ lg < sz")
    case True
    then have "block_log sz (lg + 1) = l" using 1(3) by (simp add: block_log.simps [of sz lg])
    with 1(1) [OF True _ this] True show ?thesis by auto
  next
    case False
    with "1.prems" show ?thesis by (auto simp: block_log.simps [of sz lg])
  qed
qed

lemma block_log_exact: "lg \<le> l \<Longrightarrow> l < LOG2_MAX_EXPONENTIAL_BYTES \<Longrightarrow> block_log (2 ^ l) lg = l"
proof (induction "l - lg" arbitrary: lg)
  case 0
  then have "l = lg" by simp
  then show ?case by (subst block_log.simps) auto
next
  case (Suc n)
  then have "lg < l" by simp
  moreover from this have "block_log (2 ^ l) (lg + 1) = l" using Suc by (intro Suc.hyps(1)) auto
  ultimately show ?case using Suc by (subst block_log.simps) auto
qed

definition request_fits :: "nat \<Rightarrow> bool" where
  "request_fits req \<longleftrightarrow> req \<le> SIZE_T - 32"

lemma actual_size:
  "SIZE_REQUEST_TO_ACTUAL sz mod 16 = 8" "SIZE_REQUEST_TO_ACTUAL sz < SIZE_T"
  "request_fits sz \<Longrightarrow> sz \<le> SIZE_REQUEST_TO_ACTUAL sz \<and> SIZE_REQUEST_TO_ACTUAL sz + 16 < SIZE_T"
proof -
  show "SIZE_REQUEST_TO_ACTUAL sz mod 16 = 8" by (simp add: SIZE_REQUEST_TO_ACTUAL_def)
  have "(sz + 7) mod SIZE_T \<le> SIZE_T - 1" by simp
  from div_le_mono [OF this, of 16] show "SIZE_REQUEST_TO_ACTUAL sz < SIZE_T" unfolding SIZE_REQUEST_TO_ACTUAL_def by simp
  assume "request_fits sz"
  then have "sz + 7 < SIZE_T" "sz \<le> SIZE_T - 32" by (simp_all add: request_fits_def)
  then have "SIZE_REQUEST_TO_ACTUAL sz = (sz + 7) div 16 * 16 + 8" "sz \<le> SIZE_T - 32"
    by (simp_all add: SIZE_REQUEST_TO_ACTUAL_def)
  moreover have "sz \<le> (sz + 7) div 16 * 16 + 8" "(sz + 7) div 16 * 16 + 8 \<le> sz + 15" by presburger+
  ultimately show "sz \<le> SIZE_REQUEST_TO_ACTUAL sz \<and> SIZE_REQUEST_TO_ACTUAL sz + 16 < SIZE_T" by simp
qed

lemma block_size_bounds:
  "LOG2_MAX_LINEAR_BYTES \<le> power_of_2_block_size sz"
  "power_of_2_block_size sz < LOG2_MAX_EXPONENTIAL_BYTES \<Longrightarrow> sz \<le> 2 ^ power_of_2_block_size sz"
  using block_log_bounds [of LOG2_MAX_LINEAR_BYTES sz] by (auto simp: power_of_2_block_size_def)

lemma pow2_mod16: "9 \<le> n \<Longrightarrow> (2::nat) ^ n mod 16 = 0"
proof -
  assume "9 \<le> n"
  then have "(2::nat) ^ n = 2 ^ (4 + (n - 4))" by simp
  also have "\<dots> = 16 * 2 ^ (n - 4)" by (subst power_add) simp
  finally show ?thesis by simp
qed

lemma pow2_mod16_add: "9 \<le> n \<Longrightarrow> ((2::nat) ^ n + 8) mod 16 = 8"
  using pow2_mod16 [of n] by presburger

lemma size_class_bounds:
  assumes "a mod 16 = 8" "size_class a = (p, sz)"
  shows "a \<le> sz \<and> sz mod 16 = 8 \<and> (sz = a \<or> sz \<le> 2 ^ 24 + 8) \<and> (p \<noteq> None \<longrightarrow> sz \<le> 2 ^ 24 + 8)"
proof -
  define l where "l = power_of_2_block_size (a - 8)"
  have l: "l < LOG2_MAX_EXPONENTIAL_BYTES \<Longrightarrow> a \<le> 2 ^ l + 8" "((2::nat) ^ l + 8) mod 16 = 8"
    using block_size_bounds [of "a - 8"] pow2_mod16_add [of l] by (auto simp: l_def)
  have lin: "a \<le> 512" if "a div 16 < 32" using that assms(1) by linarith
  consider "sz = a" "p \<noteq> None \<longrightarrow> a \<le> 512" | "l < LOG2_MAX_EXPONENTIAL_BYTES" "sz = 2 ^ l + 8"
    using assms(2) lin unfolding size_class_def Let_def l_def [symmetric] by (auto split: if_splits)
  then show ?thesis
  proof cases
    case 2
    then have "(2::nat) ^ l \<le> 2 ^ 24" by (intro power_increasing) auto
    then show ?thesis using 2 l by auto
  qed (use assms(1) in auto)
qed

lemma head_ptr_size:
  assumes "head_ptr_for_size req = (p, sz)"
  shows "sz mod 16 = 8" "sz < SIZE_T" "request_fits req \<Longrightarrow> req \<le> sz \<and> sz + 16 < SIZE_T"
    "p \<noteq> None \<Longrightarrow> sz + 16 < SIZE_T"
  using size_class_bounds [OF actual_size(1) [of req]] actual_size(2,3) [of req] assms
  unfolding head_ptr_for_size_def by fastforce+

lemma realsize: "sz + 16 < SIZE_T \<Longrightarrow> SIZE_TO_REALSIZE sz = 8 + sz \<and> (SIZE_TO_REALSIZE sz + 8) mod SIZE_T = 16 + sz"
  by (simp add: SIZE_TO_REALSIZE_def)

lemma vec_allocated_enough: "0 < esize \<Longrightarrow> n \<le> vec_allocated esize n"
proof -
  assume e: "0 < esize"
  obtain p sz where h: "size_class ((n * esize + 7) div 16 * 16 + 8) = (p, sz)" by fastforce
  then have "(n * esize + 7) div 16 * 16 + 8 \<le> sz" using size_class_bounds [OF _ h] by simp
  moreover have "n * esize \<le> (n * esize + 7) div 16 * 16 + 8" by presburger
  ultimately have "n * esize \<le> sz" by linarith
  then show ?thesis using e h by (simp add: vec_allocated_def less_eq_div_iff_mult_less_eq)
qed

lemma actual_idem: "sz mod 16 = 8 \<Longrightarrow> sz < SIZE_T \<Longrightarrow> SIZE_REQUEST_TO_ACTUAL sz = sz"
proof -
  assume sz: "sz mod 16 = 8" "sz < SIZE_T"
  then have "sz = 16 * (sz div 16) + 8" using mult_div_mod_eq [of 16 sz] by simp
  then obtain k where k: "sz = 16 * k + 8" ..
  then have "sz + 7 < SIZE_T" using sz(2) by simp
  then show ?thesis using k by (simp add: SIZE_REQUEST_TO_ACTUAL_def)
qed

text \<open>A block goes back to the list its size class takes from.\<close>

lemma head_ptr_idem:
  assumes "head_ptr_for_size req = (p, sz)"
  shows "head_ptr_for_size sz = (p, sz)"
proof -
  note act = actual_idem [OF head_ptr_size(1,2) [OF assms]]
  let ?a = "SIZE_REQUEST_TO_ACTUAL req"
  let ?l = "power_of_2_block_size (?a - 8)"
  have exact: "power_of_2_block_size (2 ^ ?l) = ?l" if "?l < LOG2_MAX_EXPONENTIAL_BYTES"
    unfolding power_of_2_block_size_def [of "2 ^ ?l"]
    by (rule block_log_exact [OF block_size_bounds(1) that])
  have big: "512 \<le> (2::nat) ^ ?l"
    using block_size_bounds(1) [of "?a - 8"] power_increasing [of 9 ?l "2::nat"] by simp
  show ?thesis using assms act exact big
    by (auto simp: head_ptr_for_size_def size_class_def Let_def split: if_splits)
qed

section \<open>The allocator's invariant\<close>

definition blocks_ok :: "mem \<Rightarrow> bool" where
  "blocks_ok m \<longleftrightarrow> (\<forall>a s. obj_size m a = Some s \<longrightarrow>
     fst a < length (sys_blocks m) \<and> 16 \<le> snd a \<and> snd a mod 16 = 0 \<and>
     snd a + s \<le> sys_blocks m ! fst a \<and> snd (head_ptr_for_size s) = s \<and> s mod 16 = 8)"

text \<open>The payload of one block ends before the size field of the next begins.\<close>

definition apart :: "mem \<Rightarrow> bool" where
  "apart m \<longleftrightarrow> (\<forall>a b s t. obj_size m a = Some s \<longrightarrow> obj_size m b = Some t \<longrightarrow>
     a \<noteq> b \<longrightarrow> fst a = fst b \<longrightarrow> snd a + s + 8 \<le> snd b \<or> snd b + t + 8 \<le> snd a)"

definition lists_ok :: "mem \<Rightarrow> bool" where
  "lists_ok m \<longleftrightarrow> (\<forall>fl. distinct (freelists m fl) \<and>
     (\<forall>a \<in> set (freelists m fl). \<exists>s. obj_size m a = Some s \<and> head_ptr_for_size s = (Some fl, s)))"

definition chunk_ok :: "mem \<Rightarrow> bool" where
  "chunk_ok m \<longleftrightarrow> (case chunk m of
     None \<Rightarrow> chunk_remaining m = 0
   | Some (b, off) \<Rightarrow> b < length (sys_blocks m) \<and> off mod 16 = 8 \<and>
       off + chunk_remaining m \<le> sys_blocks m ! b \<and>
       (\<forall>a s. obj_size m a = Some s \<longrightarrow> fst a = b \<longrightarrow> snd a + s \<le> off))"

definition mem_ok :: "mem \<Rightarrow> bool" where
  "mem_ok m \<longleftrightarrow> o2mem_state m = INITIALIZED \<and> blocks_ok m \<and> apart m \<and> lists_ok m \<and> chunk_ok m"

text \<open>The blocks the program owns: those the allocator made and that lie on no free list.\<close>

definition live :: "mem \<Rightarrow> addr set" where
  "live m = {a. obj_size m a \<noteq> None \<and> (\<forall>fl. a \<notin> set (freelists m fl))}"

lemma mem_ok_intro:
  assumes "o2mem_state m = INITIALIZED" "blocks_ok m" "apart m" "lists_ok m" "chunk_ok m"
  shows "mem_ok m"
  using assms by (simp add: mem_ok_def)

lemma init_mem_ok:
  assumes "o2mem_state m = UNINITIALIZED" "obj_size m = Map.empty"
  shows "mem_ok (o2_mem_init None 0 m)" "live (o2_mem_init None 0 m) = {}"
  using assms
  by (auto simp: o2_mem_init_def Let_def mem_ok_def blocks_ok_def apart_def lists_ok_def
      chunk_ok_def live_def)

text \<open>A block that is new, in bounds, aligned and apart from the others may be added.\<close>

lemma add_block:
  assumes ok: "blocks_ok m" "apart m" "lists_ok m"
    and new: "obj_size m (b, off) = None"
    and bounds: "b < length (sys_blocks m)" "16 \<le> off" "off mod 16 = 0"
      "off + sz \<le> sys_blocks m ! b"
    and sz: "head_ptr_for_size sz = (p, sz)"
    and sep: "\<And>o' s. obj_size m (b, o') = Some s \<Longrightarrow> o' + s + 8 \<le> off"
    and m': "obj_size m' = (obj_size m)((b, off) \<mapsto> sz)" "sys_blocks m' = sys_blocks m"
      "freelists m' = freelists m"
  shows "blocks_ok m' \<and> apart m' \<and> lists_ok m' \<and> live m' = insert (b, off) (live m)"
proof (intro conjI)
  show "blocks_ok m'"
    using ok(1) bounds sz head_ptr_size(1) [OF sz] by (auto simp: blocks_ok_def m')
  show "apart m'"
  proof (unfold apart_def m', intro allI impI)
    fix c d s t
    assume h: "((obj_size m)((b, off) \<mapsto> sz)) c = Some s" "((obj_size m)((b, off) \<mapsto> sz)) d = Some t"
      "c \<noteq> d" "fst c = fst d"
    show "snd c + s + 8 \<le> snd d \<or> snd d + t + 8 \<le> snd c"
    proof (cases "c = (b, off) \<or> d = (b, off)")
      case True
      then show ?thesis using h sep [of "snd c" s] sep [of "snd d" t] by (cases c; cases d) auto
    next
      case False
      then have "obj_size m c = Some s" "obj_size m d = Some t" using h by auto
      then show ?thesis using h ok(2) unfolding apart_def by blast
    qed
  qed
  have notin: "(b, off) \<notin> set (freelists m fl)" for fl
    using ok(3) new by (fastforce simp: lists_ok_def)
  show "lists_ok m'" using ok(3) notin by (fastforce simp: lists_ok_def m')
  show "live m' = insert (b, off) (live m)" using notin by (auto simp: live_def m')
qed

text \<open>More memory from the system changes nothing for the blocks there are.\<close>

lemma grow_blocks:
  assumes "blocks_ok m" "apart m" "lists_ok m"
    and "obj_size m' = obj_size m" "sys_blocks m' = sys_blocks m @ [n]" "freelists m' = freelists m"
  shows "blocks_ok m' \<and> apart m' \<and> lists_ok m' \<and> live m' = live m"
  using assms by (fastforce simp: blocks_ok_def apart_def lists_ok_def live_def nth_append)

definition malloc_result :: "nat \<Rightarrow> mem \<Rightarrow> addr \<Rightarrow> mem \<Rightarrow> bool" where
  "malloc_result req m a m' \<longleftrightarrow> mem_ok m' \<and> a \<notin> live m \<and> live m' = insert a (live m) \<and>
     (\<forall>b \<in> live m. obj_size m' b = obj_size m b) \<and>
     obj_size m' a = Some (snd (head_ptr_for_size req)) \<and> req \<le> snd (head_ptr_for_size req) \<and>
     snd a mod 16 = 0"

lemma new_system_block:
  assumes ok: "mem_ok m" and sz: "head_ptr_for_size req = (p, sz)" and fits: "request_fits req"
    and m': "malloc_one_object True sz m = Some (a, m1)"
  shows "malloc_result req m a m1" "obj_size m1 a = Some sz" "o2mem_state m1 = INITIALIZED"
proof -
  let ?b = "length (sys_blocks m)"
  note r16 = realsize [OF conjunct2 [OF head_ptr_size(3) [OF sz fits]]]
  let ?g = "m\<lparr>sys_blocks := sys_blocks m @ [16 + sz],
              allocated_chunk_list := ?b # allocated_chunk_list m\<rparr>"
  from m' have a: "a = (?b, 16)"
    and m1: "m1 = ?g\<lparr>obj_size := (obj_size m)(a \<mapsto> sz)\<rparr>"
    using r16 by (auto simp: malloc_one_object_def)
  have free: "obj_size m (?b, o') = None" for o'
    using ok unfolding mem_ok_def blocks_ok_def by (metis fst_conv less_irrefl not_None_eq)
  have g: "blocks_ok ?g \<and> apart ?g \<and> lists_ok ?g \<and> live ?g = live m"
    using ok by (intro grow_blocks) (auto simp: mem_ok_def)
  have all: "blocks_ok m1 \<and> apart m1 \<and> lists_ok m1 \<and> live m1 = insert a (live ?g)"
    unfolding a using g free
    by (intro add_block [OF _ _ _ _ _ _ _ _ head_ptr_idem [OF sz]])
      (auto simp: m1 a)
  have "chunk_ok m1"
    using ok free by (auto simp: mem_ok_def chunk_ok_def m1 a nth_append split: option.splits prod.splits)
  then show "malloc_result req m a m1"
    using all g ok free sz head_ptr_size(3) [OF sz fits]
    by (auto simp: malloc_result_def mem_ok_def m1 a live_def)
  show "obj_size m1 a = Some sz" "o2mem_state m1 = INITIALIZED"
    using ok by (auto simp: m1 mem_ok_def)
qed

lemma carve_block:
  assumes ok: "mem_ok m" and sz: "head_ptr_for_size req = (p, sz)" and fits: "request_fits req"
    and c: "chunk m = Some (b, off)" "SIZE_TO_REALSIZE sz \<le> chunk_remaining m"
    and m': "carve sz m = (r, m')"
  shows "\<exists>a. r = Some a \<and> malloc_result req m a m'"
proof -
  note real = conjunct1 [OF realsize [OF conjunct2 [OF head_ptr_size(3) [OF sz fits]]]]
  let ?g = "m\<lparr>chunk := Some (b, off + SIZE_TO_REALSIZE sz),
              chunk_remaining := chunk_remaining m - SIZE_TO_REALSIZE sz\<rparr>"
  have r: "r = Some (b, off + 8)"
    and m'_eq: "m' = ?g\<lparr>obj_size := (obj_size m)((b, off + 8) \<mapsto> sz),
        total_allocated := total_allocated m + SIZE_TO_REALSIZE sz\<rparr>"
    using m' c by (auto simp: carve_def gotit_def)
  have ch: "b < length (sys_blocks m)" "off mod 16 = 8" "off + chunk_remaining m \<le> sys_blocks m ! b"
    "\<And>o' s. obj_size m (b, o') = Some s \<Longrightarrow> o' + s \<le> off"
    using ok c by (auto simp: mem_ok_def chunk_ok_def)
  have off: "8 \<le> off" "(off + 8) mod 16 = 0"
    using ch(2) mod_less_eq_dividend [of off 16] by (simp_all add: mod_add_left_eq [of off 16 8, symmetric])
  have bl: "blocks_ok m" "apart m" "lists_ok m" using ok by (auto simp: mem_ok_def)
  have free: "obj_size m (b, off + 8) = None"
    using ch(4) [of "off + 8"] by (cases "obj_size m (b, off + 8)") auto
  have all: "blocks_ok m' \<and> apart m' \<and> lists_ok m' \<and> live m' = insert (b, off + 8) (live m)"
  proof (rule add_block [OF bl free ch(1) _ off(2) _ head_ptr_idem [OF sz]])
    show "off + 8 + sz \<le> sys_blocks m ! b" using ch(3) c(2) by (simp add: real)
    show "o' + s + 8 \<le> off + 8" if "obj_size m (b, o') = Some s" for o' s using ch(4) [OF that] by simp
  qed (use off in \<open>auto simp: m'_eq\<close>)
  have sz16: "(off + 8 + sz) mod 16 = 8"
    using off(2) head_ptr_size(1) [OF sz] by (metis add_0 mod_add_eq mod_mod_trivial)
  have "chunk_ok m'"
    using ch(1,3) c sz16 ch(4)
    by (fastforce simp: chunk_ok_def m'_eq real ac_simps)
  then show ?thesis
    using all ok free sz head_ptr_size(3) [OF sz fits] off(2) r
    by (auto simp: malloc_result_def mem_ok_def m'_eq live_def)
qed

lemma gotit_total: "malloc_result req m a m1 \<Longrightarrow> head_ptr_for_size req = (p, sz) \<Longrightarrow>
    malloc_result req m a (snd (gotit a sz m1))"
  by (auto simp: malloc_result_def mem_ok_def gotit_def blocks_ok_def apart_def lists_ok_def
      chunk_ok_def live_def fun_upd_idem split: option.splits prod.splits)

text \<open>All blocks of a free list have one size.\<close>

definition class_size :: "freelist \<Rightarrow> nat" where
  "class_size fl = (case fl of Linear_Free i \<Rightarrow> 16 * i + 8
     | Exponential_Free i \<Rightarrow> 2 ^ (i + LOG2_MAX_LINEAR_BYTES) + 8)"

lemma head_ptr_class:
  assumes "head_ptr_for_size req = (Some fl, sz)"
  shows "sz = class_size fl"
proof -
  have "SIZE_REQUEST_TO_ACTUAL req = 16 * (SIZE_REQUEST_TO_ACTUAL req div 16) + 8"
    using actual_size(1) [of req] by (metis mult_div_mod_eq)
  moreover have "9 \<le> power_of_2_block_size (SIZE_REQUEST_TO_ACTUAL req - 8)"
    using block_size_bounds(1) by simp
  ultimately show ?thesis using assms
    by (auto simp: head_ptr_for_size_def size_class_def class_size_def Let_def split: if_splits)
qed

text \<open>A block that a chunk can hold at all fits into a new one beside the list link.\<close>

lemma class_fits_chunk:
  assumes "head_ptr_for_size req = (Some fl, sz)" "SIZE_TO_REALSIZE sz \<le> O2MEM_CHUNK_SIZE"
  shows "SIZE_TO_REALSIZE sz \<le> O2MEM_CHUNK_SIZE - 8"
proof -
  have real: "SIZE_TO_REALSIZE sz = 8 + sz" using realsize head_ptr_size(4) [OF assms(1)] by simp
  show ?thesis
  proof (cases fl)
    case (Linear_Free i)
    then have "i < 32" using assms(1)
      by (auto simp: head_ptr_for_size_def size_class_def Let_def split: if_splits)
    then show ?thesis using head_ptr_class [OF assms(1)] Linear_Free real by (simp add: class_size_def)
  next
    case (Exponential_Free i)
    then have sz: "sz = 2 ^ (i + 9) + 8" using head_ptr_class [OF assms(1)] by (simp add: class_size_def)
    then have "(2::nat) ^ (i + 9) < 2 ^ 13" using assms(2) real by simp
    then have "i + 9 \<le> 12" using power_less_imp_less_exp [of "2::nat" "i + 9" 13] by simp
    then have "(2::nat) ^ (i + 9) \<le> 2 ^ 12" by (rule power_increasing) simp
    then show ?thesis using sz real by simp
  qed
qed

text \<open>A block from a free list.\<close>

lemma reuse_block:
  assumes ok: "mem_ok m" and sz: "head_ptr_for_size req = (Some fl, sz)" and fits: "request_fits req"
    and fl: "freelists m fl = a # rest"
    and m': "gotit a sz (m\<lparr>freelists := (freelists m)(fl := rest)\<rparr>) = (r, m')"
  shows "r = Some a \<and> malloc_result req m a m'"
proof -
  have l: "lists_ok m" "blocks_ok m" using ok by (auto simp: mem_ok_def)
  obtain s where s: "obj_size m a = Some s" "head_ptr_for_size s = (Some fl, s)"
    using l(1) fl unfolding lists_ok_def by (metis list.set_intros(1))
  have a: "obj_size m a = Some sz"
    using s head_ptr_class [OF s(2)] head_ptr_class [OF sz] by simp
  have m'_eq: "m' = m\<lparr>freelists := (freelists m)(fl := rest), obj_size := obj_size m,
      total_allocated := total_allocated m + SIZE_TO_REALSIZE sz\<rparr>" and r: "r = Some a"
    using m' a by (auto simp: gotit_def fun_upd_idem)
  have other: "a \<notin> set (freelists m fl')" if "fl' \<noteq> fl" for fl'
  proof
    assume "a \<in> set (freelists m fl')"
    then have "head_ptr_for_size sz = (Some fl', sz)" using l(1) a unfolding lists_ok_def by force
    then show False using head_ptr_idem [OF sz] that by simp
  qed
  have once: "a \<notin> set rest" using l(1) fl unfolding lists_ok_def by (metis distinct.simps(2))
  have lists_iff: "(\<forall>f. b \<notin> set (freelists m' f)) \<longleftrightarrow> b = a \<or> (\<forall>f. b \<notin> set (freelists m f))" for b
  proof (cases "b = a")
    case True
    then show ?thesis using other once by (simp add: m'_eq)
  next
    case False
    then have "b \<in> set (freelists m' f) \<longleftrightarrow> b \<in> set (freelists m f)" for f using fl by (simp add: m'_eq)
    then show ?thesis using False by simp
  qed
  have am: "obj_size m' a = Some sz" "obj_size m' = obj_size m" using a by (simp_all add: m'_eq)
  have "lists_ok m'"
    using l(1) fl unfolding lists_ok_def m'_eq
    by simp (metis distinct.simps(2) list.set_intros(2))
  moreover have "live m' = insert a (live m)"
    using lists_iff a am by (auto simp: live_def)
  moreover have "a \<notin> live m" using fl by (auto simp: live_def intro!: exI [of _ fl])
  moreover have "blocks_ok m'" "apart m'" "chunk_ok m'"
    using ok by (auto simp: mem_ok_def blocks_ok_def apart_def chunk_ok_def m'_eq split: option.splits prod.splits)
  moreover have "snd a mod 16 = 0" using l(2) a unfolding blocks_ok_def by blast
  ultimately show ?thesis
    using ok sz a r head_ptr_size(3) [OF sz fits] by (auto simp: malloc_result_def mem_ok_def m'_eq)
qed

lemma new_chunk:
  assumes ok: "mem_ok m"
    and m': "m' = m\<lparr>sys_blocks := sys_blocks m @ [O2MEM_CHUNK_SIZE], allocated_chunk_list := l,
         chunk := Some (length (sys_blocks m), 8), chunk_remaining := O2MEM_CHUNK_SIZE - 8\<rparr>"
  shows "mem_ok m' \<and> live m' = live m \<and> obj_size m' = obj_size m"
proof -
  have free: "obj_size m (length (sys_blocks m), o') = None" for o'
    using ok unfolding mem_ok_def blocks_ok_def by (metis fst_conv less_irrefl not_None_eq)
  have "blocks_ok m' \<and> apart m' \<and> lists_ok m' \<and> live m' = live m"
    using ok by (intro grow_blocks) (auto simp: mem_ok_def m')
  moreover have "chunk_ok m'" using free by (auto simp: chunk_ok_def m')
  ultimately show ?thesis using ok by (auto simp: mem_ok_def m')
qed

lemma malloc_result_from:
  assumes "malloc_result req m1 a m'" "live m1 = live m" "obj_size m1 = obj_size m"
  shows "malloc_result req m a m'"
  using assms by (simp add: malloc_result_def)

definition malloc_outcome :: "bool \<Rightarrow> nat \<Rightarrow> mem \<Rightarrow> bool" where
  "malloc_outcome ok req m =
     (case o2_malloc ok req m of
        None \<Rightarrow> \<not> ok
      | Some (None, m') \<Rightarrow> mem_ok m' \<and> live m' = live m \<and> obj_size m' = obj_size m \<and>
                           (\<not> ok \<or> \<not> malloc_ok m)
      | Some (Some a, m') \<Rightarrow> malloc_result req m a m')"

lemma malloc_one_cases:
  obtains "\<not> ok" "malloc_one_object ok sz m = None"
  | a m1 where "malloc_one_object ok sz m = Some (a, m1)" "malloc_one_object True sz m = Some (a, m1)"
  by (cases ok) (auto simp: malloc_one_object_def)

lemma malloc_one_outcome:
  assumes "mem_ok m" "head_ptr_for_size req = (p, sz)" "request_fits req"
  shows "case malloc_one_object ok sz m of None \<Rightarrow> \<not> ok
    | Some (a, m1) \<Rightarrow> malloc_result req m a m1 \<and> fst (gotit a sz m1) = Some a \<and>
        malloc_result req m a (snd (gotit a sz m1))"
proof (cases rule: malloc_one_cases [of ok sz m])
  case 1
  then show ?thesis by simp
next
  case (2 a m1)
  from new_system_block [OF assms 2(2)] gotit_total [OF _ assms(2)] show ?thesis
    by (simp add: 2(1)) (simp add: gotit_def)
qed

lemma malloc_outcome_all:
  assumes ok: "mem_ok m" and fits: "request_fits req"
  shows "malloc_outcome ok' req m"
proof -
  obtain p sz where sz: "head_ptr_for_size req = (p, sz)" by fastforce
  note one = malloc_one_outcome [OF ok sz fits, of ok']
  have init: "o2mem_state m = INITIALIZED" using ok by (simp add: mem_ok_def)
  show ?thesis
  proof (cases p)
    case None
    then show ?thesis using one ok init sz
      by (auto simp: malloc_outcome_def o2_malloc_def Let_def split: option.splits)
  next
    case (Some fl)
    show ?thesis
    proof (cases "freelists m fl")
      case (Cons a rest)
      obtain r m' where g: "gotit a sz (m\<lparr>freelists := (freelists m)(fl := rest)\<rparr>) = (r, m')" by fastforce
      then show ?thesis using reuse_block [OF ok _ fits Cons g] Some sz init Cons
        by (simp add: malloc_outcome_def o2_malloc_def)
    next
      case Nil
      note unf = malloc_outcome_def o2_malloc_def sz Some Nil init
      consider (direct) "O2MEM_CHUNK_SIZE < SIZE_TO_REALSIZE sz"
        | (chunk) "SIZE_TO_REALSIZE sz \<le> O2MEM_CHUNK_SIZE" "SIZE_TO_REALSIZE sz \<le> chunk_remaining m"
        | (short) "SIZE_TO_REALSIZE sz \<le> O2MEM_CHUNK_SIZE" "chunk_remaining m < SIZE_TO_REALSIZE sz"
        by linarith
      then show ?thesis
      proof cases
        case direct
        then show ?thesis using one by (auto simp: unf split: option.splits)
      next
        case chunk
        moreover have "0 < SIZE_TO_REALSIZE sz" using realsize head_ptr_size(3) [OF sz fits] by simp
        ultimately have "chunk m \<noteq> None" using ok by (auto simp: mem_ok_def chunk_ok_def split: option.splits)
        then obtain b off where c: "chunk m = Some (b, off)" by auto
        obtain r m' where "carve sz m = (r, m')" by fastforce
        with carve_block [OF ok sz fits c chunk(2) this] chunk show ?thesis by (auto simp: unf)
      next
        case short
        consider "\<not> malloc_ok m"
          | "malloc_ok m" "MAX_LINEAR_BYTES \<le> SIZE_TO_REALSIZE sz \<and> MAX_LINEAR_BYTES < chunk_remaining m"
          | "malloc_ok m" "\<not> (MAX_LINEAR_BYTES \<le> SIZE_TO_REALSIZE sz \<and> MAX_LINEAR_BYTES < chunk_remaining m)" "\<not> ok'"
          | (new) "malloc_ok m" "\<not> (MAX_LINEAR_BYTES \<le> SIZE_TO_REALSIZE sz \<and> MAX_LINEAR_BYTES < chunk_remaining m)" "ok'"
          by blast
        then show ?thesis
        proof cases
          case 1
          then show ?thesis using short ok by (auto simp: unf)
        next
          case 2
          then show ?thesis using short one by (auto simp: unf split: option.splits)
        next
          case 3
          then show ?thesis using short ok
            by (auto simp: unf mem_ok_def blocks_ok_def apart_def lists_ok_def chunk_ok_def live_def)
        next
          case new
          define m2 where "m2 = m\<lparr>sys_blocks := sys_blocks m @ [O2MEM_CHUNK_SIZE],
             allocated_chunk_list := length (sys_blocks m) # allocated_chunk_list m,
             chunk := Some (length (sys_blocks m), 8), chunk_remaining := O2MEM_CHUNK_SIZE - 8\<rparr>"
          note m2 = new_chunk [OF ok m2_def]
          have c: "chunk m2 = Some (length (sys_blocks m), 8)" "SIZE_TO_REALSIZE sz \<le> chunk_remaining m2"
            using class_fits_chunk [OF sz [unfolded Some] short(1)] by (simp_all add: m2_def)
          obtain r m' where carve: "carve sz m2 = (r, m')" by fastforce
          then have "\<exists>a. r = Some a \<and> malloc_result req m a m'"
            using carve_block [OF _ sz fits c carve] m2 malloc_result_from by blast
          then show ?thesis using new short carve by (auto simp: unf m2_def)
        qed
      qed
    qed
  qed
qed

section \<open>Allocation\<close>

text \<open>C22: with the allocator's invariant, o2_malloc with a request that fits (at most \<open>2 ^ 64 - 32\<close> bytes, so that no sum
  of sizes wraps) either returns a block that nobody owned, at
  least as big as requested, on a 16 byte boundary and apart from every other block, keeping the
  invariant and the sizes of all owned blocks; or it returns NULL, changing no block, and then the
  system had no memory or may not be asked; or (only when the system is out of memory) it
  dereferences the null pointer malloc_one_object does not check.\<close>

theorem o2_malloc_correct:
  assumes "mem_ok m" "request_fits req"
  shows "case o2_malloc ok req m of
      None \<Rightarrow> \<not> ok
    | Some (None, m') \<Rightarrow> mem_ok m' \<and> live m' = live m \<and> obj_size m' = obj_size m \<and>
                         (\<not> ok \<or> \<not> malloc_ok m)
    | Some (Some a, m') \<Rightarrow> malloc_result req m a m'"
  using malloc_outcome_all [OF assms] unfolding malloc_outcome_def .

definition fresh_mem :: mem where
  "fresh_mem = \<lparr>o2mem_state = UNINITIALIZED, malloc_ok = True, o2_memory_mgmt = True,
     total_allocated = 0, allocated_chunk_list = [], freelists = (\<lambda>_. []),
     chunk = None, chunk_remaining = 0, sys_blocks = [], obj_size = Map.empty\<rparr>"

lemma fresh_mem_ok: "mem_ok (o2_mem_init None 0 fresh_mem)" "live (o2_mem_init None 0 fresh_mem) = {}"
  by (rule init_mem_ok; simp add: fresh_mem_def)+

theorem o2_malloc_correct_witness:
  "case o2_malloc True 100 (o2_mem_init None 0 fresh_mem) of
      None \<Rightarrow> \<not> True
    | Some (None, m') \<Rightarrow> mem_ok m' \<and> live m' = live (o2_mem_init None 0 fresh_mem) \<and>
        obj_size m' = obj_size (o2_mem_init None 0 fresh_mem) \<and>
        (\<not> True \<or> \<not> malloc_ok (o2_mem_init None 0 fresh_mem))
    | Some (Some a, m') \<Rightarrow> malloc_result 100 (o2_mem_init None 0 fresh_mem) a m'"
  by (rule o2_malloc_correct [OF fresh_mem_ok(1)]) (simp add: request_fits_def)

text \<open>What it means concretely: the block a first call returns.\<close>

lemma first_malloc:
  "map_option (\<lambda>(r, m). (r, the (obj_size m (the r)), chunk m, chunk_remaining m))
     (o2_malloc True 100 (o2_mem_init None 0 fresh_mem)) =
   Some (Some (0, 16), 104, Some (0, 120), 8072)"
  by (simp add: o2_malloc_def head_ptr_for_size_def size_class_def SIZE_REQUEST_TO_ACTUAL_def SIZE_TO_REALSIZE_def
      Let_def o2_mem_init_def fresh_mem_def carve_def gotit_def)

section \<open>Freeing\<close>

lemma free_eq:
  assumes "mem_ok m" "a \<in> live m" "obj_size m a = Some s"
  shows "o2_free (Some a) m = (case fst (head_ptr_for_size s) of
     None \<Rightarrow> m
   | Some fl \<Rightarrow> m\<lparr>total_allocated := total_allocated m - SIZE_TO_REALSIZE s,
                   freelists := (freelists m)(fl := a # freelists m fl)\<rparr>)"
proof -
  have "snd (head_ptr_for_size s) = s" "s mod 16 = 8" "o2mem_state m = INITIALIZED"
    using assms unfolding mem_ok_def blocks_ok_def by blast+
  then show ?thesis using assms(3)
    by (auto simp: o2_free_def fun_upd_idem split: option.splits prod.splits)
qed

lemma free_mem_ok:
  assumes ok: "mem_ok m" and a: "a \<in> live m"
  shows "mem_ok (o2_free (Some a) m)" "obj_size (o2_free (Some a) m) = obj_size m"
    "live (o2_free (Some a) m) \<subseteq> live m" "live m - {a} \<subseteq> live (o2_free (Some a) m)"
proof -
  obtain s where s: "obj_size m a = Some s" using a by (auto simp: live_def)
  have sz: "snd (head_ptr_for_size s) = s" using ok s unfolding mem_ok_def blocks_ok_def by blast
  have l: "lists_ok m" "\<And>fl. a \<notin> set (freelists m fl)" using ok a by (auto simp: mem_ok_def live_def)
  consider "o2_free (Some a) m = m"
    | fl where "head_ptr_for_size s = (Some fl, s)" "o2_free (Some a) m =
        m\<lparr>total_allocated := total_allocated m - SIZE_TO_REALSIZE s,
          freelists := (freelists m)(fl := a # freelists m fl)\<rparr>"
    using free_eq [OF ok a s] sz by (cases "head_ptr_for_size s") (auto split: option.splits)
  then have "mem_ok (o2_free (Some a) m) \<and> obj_size (o2_free (Some a) m) = obj_size m \<and>
    live (o2_free (Some a) m) \<subseteq> live m \<and> live m - {a} \<subseteq> live (o2_free (Some a) m)"
  proof cases
    case 1
    then show ?thesis using ok by auto
  next
    case (2 fl)
    have "lists_ok (o2_free (Some a) m)" using l s 2 by (auto simp: lists_ok_def)
    moreover have "live (o2_free (Some a) m) \<subseteq> live m" "live m - {a} \<subseteq> live (o2_free (Some a) m)"
      by (auto simp: live_def 2(2) split: if_splits)
    ultimately show ?thesis using ok
      by (auto simp: mem_ok_def blocks_ok_def apart_def chunk_ok_def 2(2) split: option.splits prod.splits)
  qed
  then show "mem_ok (o2_free (Some a) m)" "obj_size (o2_free (Some a) m) = obj_size m"
    "live (o2_free (Some a) m) \<subseteq> live m" "live m - {a} \<subseteq> live (o2_free (Some a) m)" by auto
qed

text \<open>A block of a size class that was freed is owned by nobody, no other block changes hands,
  the invariant holds, and the very next request of the same size gets this block back, whatever
  the system's memory: malloc takes from the list free puts on.\<close>

theorem o2_free_reuse:
  assumes "mem_ok m" "a \<in> live m" "obj_size m a = Some (snd (head_ptr_for_size req))"
    and "fst (head_ptr_for_size req) \<noteq> None"
  shows "mem_ok (o2_free (Some a) m) \<and> live (o2_free (Some a) m) = live m - {a} \<and>
    map_option fst (o2_malloc ok req (o2_free (Some a) m)) = Some (Some a)"
proof -
  obtain fl sz where h: "head_ptr_for_size req = (Some fl, sz)" using assms(4) by (cases "head_ptr_for_size req") auto
  have sz: "head_ptr_for_size sz = (Some fl, sz)" by (rule head_ptr_idem [OF h])
  have eq: "o2_free (Some a) m = m\<lparr>total_allocated := total_allocated m - SIZE_TO_REALSIZE sz,
                   freelists := (freelists m)(fl := a # freelists m fl)\<rparr>"
    using free_eq [OF assms(1-3)] h sz by simp
  have "a \<notin> live (o2_free (Some a) m)" by (auto simp: live_def eq intro!: exI [of _ fl])
  moreover have "map_option fst (o2_malloc ok req (o2_free (Some a) m)) = Some (Some a)"
    using assms(1) h by (simp add: eq o2_malloc_def mem_ok_def gotit_def)
  ultimately show ?thesis using free_mem_ok [OF assms(1,2)] by auto
qed

definition one_block :: mem where
  "one_block = snd (the (o2_malloc True 100 (o2_mem_init None 0 fresh_mem)))"

lemma one_block: "mem_ok one_block \<and> (0, 16) \<in> live one_block \<and> obj_size one_block (0, 16) = Some 104"
proof -
  obtain m where m: "o2_malloc True 100 (o2_mem_init None 0 fresh_mem) = Some (Some (0, 16), m)"
    "obj_size m (0, 16) = Some 104"
    by (simp add: o2_malloc_def head_ptr_for_size_def size_class_def SIZE_REQUEST_TO_ACTUAL_def SIZE_TO_REALSIZE_def
      Let_def o2_mem_init_def fresh_mem_def carve_def gotit_def)
  then show ?thesis
    using malloc_outcome_all [OF fresh_mem_ok(1), of 100 True]
    by (simp add: malloc_outcome_def malloc_result_def one_block_def request_fits_def)
qed

theorem o2_free_reuse_witness:
  "mem_ok (o2_free (Some (0, 16)) one_block) \<and>
   live (o2_free (Some (0, 16)) one_block) = live one_block - {(0, 16)} \<and>
   map_option fst (o2_malloc False 100 (o2_free (Some (0, 16)) one_block)) = Some (Some (0, 16))"
  using one_block by (intro o2_free_reuse) (simp_all add: head_ptr_for_size_def size_class_def SIZE_REQUEST_TO_ACTUAL_def)

section \<open>The interface the clients rely on\<close>

text \<open>
  What a component that allocates may assume: blocks it gets are nobody else's, and freeing one
  takes no other block away. \<open>hold\<close> runs a client that keeps its blocks in a list.
\<close>

datatype request = Alloc nat bool | Free nat

locale allocator =
  fixes inv :: "'s \<Rightarrow> bool" and owned :: "'s \<Rightarrow> 'a set" and fits :: "nat \<Rightarrow> bool"
    and alloc :: "bool \<Rightarrow> nat \<Rightarrow> 's \<Rightarrow> ('a option \<times> 's) option" and release :: "'a \<Rightarrow> 's \<Rightarrow> 's"
  assumes alloc_some: "inv s \<Longrightarrow> fits n \<Longrightarrow> alloc ok n s = Some (Some a, s') \<Longrightarrow>
      inv s' \<and> a \<notin> owned s \<and> owned s' = insert a (owned s)"
    and alloc_none: "inv s \<Longrightarrow> fits n \<Longrightarrow> alloc ok n s = Some (None, s') \<Longrightarrow> inv s' \<and> owned s' = owned s"
    and release_owned: "inv s \<Longrightarrow> a \<in> owned s \<Longrightarrow>
      inv (release a s) \<and> owned s - {a} \<subseteq> owned (release a s)"
begin

fun hold :: "request list \<Rightarrow> 'a list \<times> 's \<Rightarrow> ('a list \<times> 's) option" where
  "hold [] c = Some c"
| "hold (Alloc n ok # rs) (held, s) =
     (case alloc ok n s of
        None \<Rightarrow> None
      | Some (None, s') \<Rightarrow> hold rs (held, s')
      | Some (Some a, s') \<Rightarrow> hold rs (a # held, s'))"
| "hold (Free i # rs) (held, s) =
     (if i < length held then hold rs (take i held @ drop (Suc i) held, release (held ! i) s)
      else hold rs (held, s))"

definition holding :: "'a list \<times> 's \<Rightarrow> bool" where
  "holding c \<longleftrightarrow> inv (snd c) \<and> distinct (fst c) \<and> set (fst c) \<subseteq> owned (snd c)"

lemma release_holding:
  assumes "holding (held, s)" "i < length held"
  shows "holding (take i held @ drop (Suc i) held, release (held ! i) s)"
proof -
  have split: "held = take i held @ held ! i # drop (Suc i) held" using assms(2) by (rule id_take_nth_drop)
  have d: "distinct held" "set held \<subseteq> owned s" "inv s" using assms(1) by (auto simp: holding_def)
  have "distinct (take i held @ held ! i # drop (Suc i) held)" using d(1) split by simp
  then have "distinct (take i held @ drop (Suc i) held)"
    "held ! i \<notin> set (take i held @ drop (Suc i) held)" by auto
  moreover have "set (take i held @ drop (Suc i) held) \<subseteq> owned s"
    using d(2) by (auto dest: in_set_takeD in_set_dropD)
  moreover have "held ! i \<in> owned s" using assms(2) d(2) by auto
  ultimately show ?thesis using release_owned [OF d(3), of "held ! i"] by (auto simp: holding_def)
qed

definition fitting :: "request list \<Rightarrow> bool" where
  "fitting rs \<longleftrightarrow> (\<forall>n ok. Alloc n ok \<in> set rs \<longrightarrow> fits n)"

lemma fitting_Cons: "fitting (Alloc n ok # rs) \<longleftrightarrow> fits n \<and> fitting rs" "fitting (Free i # rs) \<longleftrightarrow> fitting rs"
  by (auto simp: fitting_def)

lemma hold_holding: "hold rs c = Some c' \<Longrightarrow> fitting rs \<Longrightarrow> holding c \<Longrightarrow> holding c'"
proof (induction rs c rule: hold.induct)
  case (1 c)
  then show ?case by simp
next
  case (2 n ok rs held s)
  have n: "fits n" "fitting rs" using 2(4) by (simp_all add: fitting_Cons)
  from 2(3) show ?case
  proof (cases "alloc ok n s")
    case (Some r)
    obtain b s' where r: "r = (b, s')" by fastforce
    show ?thesis
    proof (cases b)
      case None
      then have "holding (held, s')" using alloc_none [of s n ok s'] n Some r 2(5) by (auto simp: holding_def)
      then show ?thesis using 2 Some r None n(2) by auto
    next
      fix a assume a: "b = Some a"
      then have "holding (a # held, s')" using alloc_some [of s n ok a s'] n Some r 2(5) by (auto simp: holding_def)
      then show ?thesis using 2 Some r a n(2) by auto
    qed
  qed simp
next
  case (3 i rs held s)
  show ?case
  proof (cases "i < length held")
    case True
    then show ?thesis using 3 release_holding [OF 3(5) True] by (simp add: fitting_Cons)
  qed (use 3 in \<open>simp add: fitting_Cons\<close>)
qed

end

interpretation o2mem: allocator mem_ok live request_fits o2_malloc "\<lambda>a. o2_free (Some a)"
proof
  fix m ok n a m'
  assume "mem_ok m" "request_fits n" "o2_malloc ok n m = Some (Some a, m')"
  then show "mem_ok m' \<and> a \<notin> live m \<and> live m' = insert a (live m)"
    using malloc_outcome_all [of m n ok] by (simp add: malloc_outcome_def malloc_result_def)
next
  fix m ok n m'
  assume "mem_ok m" "request_fits n" "o2_malloc ok n m = Some (None, m')"
  then show "mem_ok m' \<and> live m' = live m"
    using malloc_outcome_all [of m n ok] by (simp add: malloc_outcome_def)
next
  fix m a
  assume "mem_ok m" "a \<in> live m"
  then show "mem_ok (o2_free (Some a) m) \<and> live m - {a} \<subseteq> live (o2_free (Some a) m)"
    using free_mem_ok by simp
qed

text \<open>C37: whatever sequence of allocations (of requests that fit) and frees a client makes from an initialised
  allocator, with the system's memory running out at any point, the blocks it holds at the end are
  pairwise distinct, lie on 16 byte boundaries inside memory of the system, and do not overlap.\<close>

theorem held_blocks_disjoint:
  assumes "o2mem.hold rs ([], o2_mem_init None 0 fresh_mem) = Some (held, m)"
    and "\<forall>n ok. Alloc n ok \<in> set rs \<longrightarrow> request_fits n"
  shows "distinct held \<and>
    (\<forall>i j. i < length held \<and> j < length held \<and> i \<noteq> j \<longrightarrow>
      (\<exists>s t. obj_size m (held ! i) = Some s \<and> obj_size m (held ! j) = Some t \<and>
         snd (held ! i) mod 16 = 0 \<and>
         snd (held ! i) + s \<le> sys_blocks m ! fst (held ! i) \<and>
         (fst (held ! i) = fst (held ! j) \<longrightarrow>
            snd (held ! i) + s \<le> snd (held ! j) \<or> snd (held ! j) + t \<le> snd (held ! i))))"
proof -
  have "o2mem.holding (held, m)"
    using o2mem.hold_holding [OF assms(1)] assms(2) fresh_mem_ok unfolding o2mem.fitting_def by (simp add: o2mem.holding_def)
  then have h: "mem_ok m" "distinct held" "set held \<subseteq> live m" by (auto simp: o2mem.holding_def)
  show ?thesis
  proof (intro conjI allI impI h(2))
    fix i j assume ij: "i < length held \<and> j < length held \<and> i \<noteq> j"
    then have "held ! i \<in> live m" "held ! j \<in> live m" "held ! i \<noteq> held ! j"
      using h by (auto simp: nth_eq_iff_index_eq)
    then obtain s t where st: "obj_size m (held ! i) = Some s" "obj_size m (held ! j) = Some t"
      by (auto simp: live_def)
    have ap: "fst (held ! i) = fst (held ! j) \<longrightarrow>
        snd (held ! i) + s + 8 \<le> snd (held ! j) \<or> snd (held ! j) + t + 8 \<le> snd (held ! i)"
      using h(1) st \<open>held ! i \<noteq> held ! j\<close> unfolding mem_ok_def apart_def by blast
    have "snd (held ! i) mod 16 = 0 \<and> snd (held ! i) + s \<le> sys_blocks m ! fst (held ! i)"
      using h(1) st unfolding mem_ok_def blocks_ok_def by blast
    then show "\<exists>s t. obj_size m (held ! i) = Some s \<and> obj_size m (held ! j) = Some t \<and>
         snd (held ! i) mod 16 = 0 \<and>
         snd (held ! i) + s \<le> sys_blocks m ! fst (held ! i) \<and>
         (fst (held ! i) = fst (held ! j) \<longrightarrow>
            snd (held ! i) + s \<le> snd (held ! j) \<or> snd (held ! j) + t \<le> snd (held ! i))"
      using st ap by auto
  qed
qed

definition two_blocks :: mem where
  "two_blocks = snd (the (o2mem.hold [Alloc 100 True, Alloc 500 True] ([], o2_mem_init None 0 fresh_mem)))"

lemma two_blocks:
  "o2mem.hold [Alloc 100 True, Alloc 500 True] ([], o2_mem_init None 0 fresh_mem) =
   Some ([(0, 128), (0, 16)], two_blocks)"
  by (simp add: two_blocks_def o2mem.hold.simps o2_malloc_def head_ptr_for_size_def size_class_def SIZE_REQUEST_TO_ACTUAL_def
      SIZE_TO_REALSIZE_def Let_def o2_mem_init_def fresh_mem_def carve_def gotit_def)

theorem held_blocks_disjoint_witness:
  "\<exists>s t. obj_size two_blocks (0, 128) = Some s \<and> obj_size two_blocks (0, 16) = Some t \<and>
     ((128::nat) + s \<le> 16 \<or> 16 + t \<le> (128::nat))"
proof -
  have fits: "\<forall>n ok. Alloc n ok \<in> set [Alloc 100 True, Alloc 500 True] \<longrightarrow> request_fits n"
    by (auto simp: request_fits_def)
  have "[(0, 128), (0, 16)] ! 0 = (0::nat, 128::nat)" "[(0, 128), (0, 16)] ! 1 = (0::nat, 16::nat)" by simp_all
  then show ?thesis
    using conjunct2 [OF held_blocks_disjoint [OF two_blocks fits], rule_format, of 0 1] by auto
qed

text \<open>A caller's first chunk on the 16 byte boundary o2_mem_init asserts yields blocks that
  are off by 8: the chunks the allocator makes itself start at offset 8, behind the list link.\<close>

theorem first_chunk_misaligned:
  "map_option (map_option snd \<circ> fst)
     (o2_malloc True 100 (o2_mem_init (Some (0, 0)) 4096 (fresh_mem\<lparr>sys_blocks := [4096]\<rparr>))) =
   Some (Some 8)"
  by (simp add: o2_malloc_def head_ptr_for_size_def size_class_def SIZE_REQUEST_TO_ACTUAL_def SIZE_TO_REALSIZE_def
      Let_def o2_mem_init_def fresh_mem_def carve_def gotit_def)

lemma block_log_max: "block_log sz lg = LOG2_MAX_EXPONENTIAL_BYTES \<Longrightarrow> lg < LOG2_MAX_EXPONENTIAL_BYTES \<Longrightarrow> 2 ^ 24 < sz"
proof (induction sz lg rule: block_log.induct)
  case (1 sz lg)
  show ?case
  proof (cases "2 ^ lg < sz")
    case True
    then have "block_log sz (lg + 1) = LOG2_MAX_EXPONENTIAL_BYTES"
      using 1(2,3) by (simp add: block_log.simps [of sz lg])
    then show ?thesis using 1 True by (cases "lg = 24") auto
  next
    case False
    then show ?thesis using 1(2,3) by (simp add: block_log.simps [of sz lg])
  qed
qed

text \<open>Every size class names a free list inside its array, and its blocks hold what was
  requested; only requests above 16 MB have no list.\<close>

theorem head_ptr_in_bounds:
  assumes "request_fits req"
  shows "case head_ptr_for_size req of
     (Some (Linear_Free i), sz) \<Rightarrow> i < MAX_LINEAR_BYTES div 16 \<and> req \<le> sz \<and> sz < req + 16
   | (Some (Exponential_Free i), sz) \<Rightarrow>
       i < LOG2_MAX_EXPONENTIAL_BYTES - LOG2_MAX_LINEAR_BYTES \<and> req \<le> sz
   | (None, sz) \<Rightarrow> 2 ^ 24 < req \<and> req \<le> sz"
proof -
  define a where "a = SIZE_REQUEST_TO_ACTUAL req"
  define l where "l = power_of_2_block_size (a - 8)"
  have "req + 7 < SIZE_T" using assms by (simp add: request_fits_def)
  then have "a = (req + 7) div 16 * 16 + 8" by (simp add: a_def SIZE_REQUEST_TO_ACTUAL_def)
  then have a: "req \<le> a" "a < req + 16" "a = (req + 7) div 16 * 16 + 8" by linarith+
  have l: "9 \<le> l" "l < 25 \<Longrightarrow> a - 8 \<le> 2 ^ l" "l \<le> 25"
    using block_size_bounds [of "a - 8"] block_log_bounds [of 9 "a - 8" l]
    by (auto simp: l_def power_of_2_block_size_def)
  have big: "2 ^ 24 < req" if "l = 25"
  proof -
    have "2 ^ 24 < a - 8"
      using block_log_max [of "a - 8" 9] that by (simp add: l_def power_of_2_block_size_def)
    then have "2 ^ 20 < (req + 7) div 16" by (simp add: a(3))
    then have "(2 ^ 20 + 1) * 16 \<le> req + 7" by (simp add: less_eq_div_iff_mult_less_eq Suc_le_eq)
    then show ?thesis by simp
  qed
  show ?thesis using a(1,2) l big
    unfolding head_ptr_for_size_def size_class_def Let_def a_def [symmetric] l_def [symmetric]
    by auto
qed

text \<open>A request near the largest number of \<open>size_t\<close> wraps: the block has a size class of 8 bytes, or is recorded as huge in a
  piece of 8 bytes of the system's memory.\<close>

lemma huge_request_wraps:
  "head_ptr_for_size (SIZE_T - 1) = (Some (Linear_Free 0), 8)"
  "map_option (\<lambda>(a, m). (a, sys_blocks m)) (o2_malloc True (SIZE_T - 17) (o2_mem_init None 0 fresh_mem)) = Some (Some (0, 16), [8])"
proof -
  show "head_ptr_for_size (SIZE_T - 1) = (Some (Linear_Free 0), 8)"
    by (simp add: head_ptr_for_size_def size_class_def SIZE_REQUEST_TO_ACTUAL_def)
  have act: "SIZE_REQUEST_TO_ACTUAL (SIZE_T - 17) = SIZE_T - 8" by (simp add: SIZE_REQUEST_TO_ACTUAL_def)
  have "\<not> power_of_2_block_size (SIZE_T - 16) < LOG2_MAX_EXPONENTIAL_BYTES"
  proof
    assume l: "power_of_2_block_size (SIZE_T - 16) < LOG2_MAX_EXPONENTIAL_BYTES"
    then have "SIZE_T - 16 \<le> 2 ^ power_of_2_block_size (SIZE_T - 16)" by (rule block_size_bounds(2))
    also have "\<dots> \<le> (2::nat) ^ 25" using l by (intro power_increasing) auto
    finally show False by simp
  qed
  then have "head_ptr_for_size (SIZE_T - 17) = (None, SIZE_T - 8)"
    unfolding head_ptr_for_size_def act by (simp add: size_class_def Let_def)
  then show "map_option (\<lambda>(a, m). (a, sys_blocks m)) (o2_malloc True (SIZE_T - 17) (o2_mem_init None 0 fresh_mem)) = Some (Some (0, 16), [8])"
    by (simp add: o2_malloc_def malloc_one_object_def SIZE_TO_REALSIZE_def o2_mem_init_def fresh_mem_def Let_def)
qed

end
