(* ===== verification/HashTable.thy ===== *)
theory HashTable
  imports Prelude MemAlloc
begin

text \<open>
  The hash tables of src/src/o2node.cpp, from string keys to nodes. An O2node is its key and what
  the table keeps for it (the type \<open>'v\<close>); a chain of nodes linked by \<open>next\<close> is a list. The pointer
  to a pointer that \<open>lookup\<close> returns is the index of a chain and a position in it: the position of
  the node, or the end of the chain.
\<close>

section \<open>The hash function\<close>

abbreviation SCRAMBLE :: "64 word" where "SCRAMBLE \<equiv> 2686453351680"
abbreviation STRING_EOS_MASK :: "32 word" where "STRING_EOS_MASK \<equiv> 0xFF000000"

text \<open>Four bytes at a time, each read as a signed 32-bit integer, up to a zero last byte.\<close>

fun hash_words :: "byte list \<Rightarrow> 64 word \<Rightarrow> 64 word" where
  "hash_words (b0 # b1 # b2 # b3 # rest) hash =
     (let c = le_dec [b0, b1, b2, b3] :: 32 word;
          hash = drop_bit 32 ((hash + scast c) * SCRAMBLE) in
      if c AND STRING_EOS_MASK = 0 then hash else hash_words rest hash)"
| "hash_words _ hash = hash"

definition get_hash :: "string \<Rightarrow> 64 word" where
  "get_hash key = hash_words (o2_heapify key) 0"

section \<open>The table\<close>

datatype 'v Hash_node = Hash_node (num_children: int) (children: "(string \<times> 'v) list list")

type_synonym loc = "nat \<times> nat"

text \<open>\<open>children.init(locations, true, true)\<close>: as many empty chains as the memory obtained holds.\<close>

definition table_init :: "int \<Rightarrow> 'v Hash_node \<Rightarrow> 'v Hash_node" where
  "table_init locations h =
     Hash_node (num_children h)
       (replicate (if locations > 0 then vec_allocated 8 (nat locations) else 0) [])"

definition new_Hash_node :: "'v Hash_node" where
  "new_Hash_node = table_init 2 (Hash_node 0 [])"

definition empty_Hash_node :: "'v Hash_node" where
  "empty_Hash_node = table_init 0 (Hash_node 0 [])"

definition is_empty :: "'v Hash_node \<Rightarrow> bool" where
  "is_empty h \<longleftrightarrow> num_children h = 0"

definition slot :: "string \<Rightarrow> nat \<Rightarrow> nat" where
  "slot key n = unat (get_hash key) mod n"

fun chain_pos :: "string \<Rightarrow> (string \<times> 'v) list \<Rightarrow> nat" where
  "chain_pos key [] = 0"
| "chain_pos key (e # es) = (if key = fst e then 0 else Suc (chain_pos key es))"

definition lookup :: "string \<Rightarrow> 'v Hash_node \<Rightarrow> loc \<times> 'v Hash_node" where
  "lookup key h =
     (let h = (if length (children h) \<le> 0 then table_init 2 h else h);
          index = slot key (length (children h)) in
      ((index, chain_pos key (children h ! index)), h))"

text \<open>What the pointer \<open>lookup\<close> returns points to.\<close>

definition deref :: "loc \<Rightarrow> 'v Hash_node \<Rightarrow> (string \<times> 'v) option" where
  "deref l h = (let es = children h ! fst l in if snd l < length es then Some (es ! snd l) else None)"

text \<open>The nodes in the order \<open>Enumerate\<close> visits them.\<close>

fun enumerate_next :: "(string \<times> 'v) list list \<Rightarrow> nat \<times> (string \<times> 'v) list \<Rightarrow>
    ((string \<times> 'v) \<times> nat \<times> (string \<times> 'v) list) option" where
  "enumerate_next dict (index, e # es) = Some (e, index, es)"
| "enumerate_next dict (index, []) =
     (case List.find (\<lambda>i. dict ! i \<noteq> []) [index..<length dict] of
        None \<Rightarrow> None
      | Some i \<Rightarrow> Some (hd (dict ! i), Suc i, tl (dict ! i)))"

definition entries :: "'v Hash_node \<Rightarrow> (string \<times> 'v) list" where
  "entries h = concat (children h)"

section \<open>Insertion and removal\<close>

text \<open>
  \<open>entry_insert_at\<close> links the entry in at a location and may resize; resizing inserts again. The
  resizing operation is an argument \<open>rs\<close> here, \<open>table_resize\<close> below ties the knot with a bound on
  the depth of nested resizing.
\<close>

definition link_at :: "loc \<Rightarrow> string \<times> 'v \<Rightarrow> 'v Hash_node \<Rightarrow> 'v Hash_node" where
  "link_at l e h =
     (let es = children h ! fst l in
      Hash_node (num_children h + 1)
        ((children h)[fst l := take (snd l) es @ e # drop (snd l) es]))"

definition entry_insert_using ::
  "(int \<Rightarrow> 'v Hash_node \<Rightarrow> 'v Hash_node option) \<Rightarrow> loc \<Rightarrow> string \<times> 'v \<Rightarrow> 'v Hash_node \<Rightarrow> 'v Hash_node option" where
  "entry_insert_using rs l e h =
     (let h = link_at l e h in
      if num_children h * 5 > int (length (children h)) * 4 then rs (num_children h * 2) h
      else Some h)"

text \<open>\<open>entry_remove\<close> up to the resizing: the node unlinked (its deletion is the caller's).\<close>

definition unlink :: "loc \<Rightarrow> 'v Hash_node \<Rightarrow> 'v Hash_node" where
  "unlink l h =
     (let es = children h ! fst l in
      Hash_node (num_children h - 1)
        ((children h)[fst l := take (snd l) es @ drop (Suc (snd l)) es]))"

definition insert_using ::
  "(int \<Rightarrow> 'v Hash_node \<Rightarrow> 'v Hash_node option) \<Rightarrow> string \<times> 'v \<Rightarrow> 'v Hash_node \<Rightarrow> 'v Hash_node option" where
  "insert_using rs e h =
     (let (ptr, h) = lookup (fst e) h;
          h = (if deref ptr h \<noteq> None then unlink ptr h else h) in
      entry_insert_using rs ptr e h)"

fun insert_all :: "(string \<times> 'v \<Rightarrow> 'v Hash_node \<Rightarrow> 'v Hash_node option) \<Rightarrow>
    (string \<times> 'v) list \<Rightarrow> 'v Hash_node \<Rightarrow> 'v Hash_node option" where
  "insert_all ins [] h = Some h"
| "insert_all ins (e # es) h = Option.bind (ins e h) (insert_all ins es)"

primrec table_resize :: "nat \<Rightarrow> int \<Rightarrow> 'v Hash_node \<Rightarrow> 'v Hash_node option" where
  "table_resize 0 new_locs h = None"
| "table_resize (Suc d) new_locs h =
     insert_all (insert_using (table_resize d)) (entries h) (table_init new_locs h)"

abbreviation (input) RESIZE_DEPTH :: nat where "RESIZE_DEPTH \<equiv> 2"

definition entry_insert_at :: "loc \<Rightarrow> string \<times> 'v \<Rightarrow> 'v Hash_node \<Rightarrow> 'v Hash_node option" where
  "entry_insert_at = entry_insert_using (table_resize RESIZE_DEPTH)"

definition hash_insert :: "string \<times> 'v \<Rightarrow> 'v Hash_node \<Rightarrow> 'v Hash_node option" where
  "hash_insert = insert_using (table_resize RESIZE_DEPTH)"

definition entry_remove :: "loc \<Rightarrow> bool \<Rightarrow> 'v Hash_node \<Rightarrow> 'v Hash_node option" where
  "entry_remove l resize h =
     (let h = unlink l h in
      if resize \<and> num_children h * 5 < int (length (children h)) \<and> num_children h > 3 then
        table_resize RESIZE_DEPTH (int (length (children h)) div 2 - 1) h
      else Some h)"

definition entry_remove_by_name ::
  "bool \<Rightarrow> string \<Rightarrow> 'v Hash_node \<Rightarrow> (O2err \<times> (string \<times> 'v) option \<times> 'v Hash_node) option" where
  "entry_remove_by_name finishing key h =
     (let (ptr, h) = lookup key h in
      case deref ptr h of
        None \<Rightarrow> Some (O2_FAIL, None, h)
      | Some e \<Rightarrow> map_option (\<lambda>h. (O2_SUCCESS, Some e, h)) (entry_remove ptr (\<not> finishing) h))"

text \<open>\<open>finish\<close>: every node is deleted, in this order, and the array freed.\<close>

definition hash_finish :: "'v Hash_node \<Rightarrow> (string \<times> 'v) list \<times> 'v Hash_node" where
  "hash_finish h = (entries h, Hash_node (num_children h) [])"

section \<open>Invariant and abstraction\<close>

definition table_map :: "'v Hash_node \<Rightarrow> string \<rightharpoonup> 'v" where
  "table_map h = map_of (entries h)"

text \<open>
  Nodes lie in the chain of their hash, no key twice; the counter is at least the number of nodes;
  the table is at most four fifths full.
\<close>

definition hash_ok :: "'v Hash_node \<Rightarrow> bool" where
  "hash_ok h \<longleftrightarrow>
     (\<forall>i < length (children h). \<forall>e \<in> set (children h ! i). slot (fst e) (length (children h)) = i) \<and>
     distinct (map fst (entries h)) \<and>
     int (length (entries h)) \<le> num_children h \<and>
     5 * num_children h \<le> 4 * int (length (children h))"

definition keyed :: "'v Hash_node \<Rightarrow> bool" where
  "keyed h \<longleftrightarrow>
     (\<forall>i < length (children h). \<forall>e \<in> set (children h ! i). slot (fst e) (length (children h)) = i) \<and>
     distinct (map fst (entries h))"

lemma hash_ok_keyed: "hash_ok h \<longleftrightarrow> keyed h \<and> int (length (entries h)) \<le> num_children h \<and>
    5 * num_children h \<le> 4 * int (length (children h))"
  by (auto simp: hash_ok_def keyed_def)

definition without :: "string \<Rightarrow> (string \<times> 'v) list \<Rightarrow> (string \<times> 'v) list" where
  "without key xs = filter (\<lambda>x. fst x \<noteq> key) xs"

section \<open>Chains\<close>

lemma chain_pos_le: "chain_pos key es \<le> length es"
  by (induction es) auto

lemma chain_pos_found: "chain_pos key es < length es \<Longrightarrow> fst (es ! chain_pos key es) = key"
  by (induction es) auto

lemma chain_pos_absent: "chain_pos key es = length es \<longleftrightarrow> key \<notin> fst ` set es"
  by (induction es) auto

lemma chain_pos_map_of: "map_of es key =
    (if chain_pos key es < length es then Some (snd (es ! chain_pos key es)) else None)"
  by (induction es) auto

lemma chain_without:
  "distinct (map fst es) \<Longrightarrow>
   take (chain_pos key es) es @ drop (Suc (chain_pos key es)) es = without key es"
proof (induction es)
  case Nil
  then show ?case by (simp add: without_def)
next
  case (Cons e es)
  show ?case
  proof (cases "key = fst e")
    case True
    then have "key \<notin> fst ` set es" using Cons.prems by simp
    then have "\<forall>x \<in> set es. fst x \<noteq> key" by force
    then show ?thesis using True by (simp add: without_def)
  next
    case False
    then show ?thesis using Cons by (simp add: without_def)
  qed
qed

lemma without_absent: "key \<notin> fst ` set xs \<Longrightarrow> without key xs = xs"
  by (auto simp: without_def filter_id_conv)

lemma mset_insert_chain:
  "distinct (map fst es) \<Longrightarrow>
   mset (take (chain_pos (fst e) es) es @ e # drop (Suc (chain_pos (fst e) es)) es) =
   add_mset e (mset (without (fst e) es))"
  by (simp flip: chain_without)

lemma without_concat: "without key (concat xss) = concat (map (without key) xss)"
  by (induction xss) (simp_all add: without_def)

lemma concat_map_but_one:
  "i < length xss \<Longrightarrow> (\<And>j. j < length xss \<Longrightarrow> j \<noteq> i \<Longrightarrow> f (xss ! j) = xss ! j) \<Longrightarrow>
   map f xss = xss[i := f (xss ! i)]"
  by (rule nth_equalityI) (auto simp: nth_list_update)

lemma set_update_nth:
  "i < length xs \<Longrightarrow> set ys \<subseteq> insert e (set (xs ! i)) \<Longrightarrow> j < length xs \<Longrightarrow>
   x \<in> set (xs[i := ys] ! j) \<Longrightarrow> x \<in> set (xs ! j) \<or> j = i \<and> x = e"
  by (cases "j = i") auto

section \<open>Lookup\<close>

lemma length_table_init: "0 < n \<Longrightarrow> n \<le> int (length (children (table_init n h)))"
  using vec_allocated_enough [of 8 "nat n"] by (simp add: table_init_def)

lemma entries_table_init [simp]: "entries (table_init n h) = []"
  by (simp add: entries_def table_init_def)

lemma keyed_table_init [simp]: "keyed (table_init n h)"
  by (auto simp: keyed_def) (auto simp: table_init_def)

lemma num_children_table_init [simp]: "num_children (table_init n h) = num_children h"
  by (simp add: table_init_def)

lemma entries_no_children: "length (children h) \<le> 0 \<Longrightarrow> entries h = []"
  by (simp add: entries_def)

text \<open>\<open>lookup\<close> allocates a table when there is none, and changes nothing else.\<close>

lemma lookup_props:
  assumes "lookup key h = (ptr, h0)" "keyed h"
  shows "keyed h0" "entries h0 = entries h" "num_children h0 = num_children h"
    "length (children h) \<le> length (children h0)" "0 < length (children h0)"
    "ptr = (slot key (length (children h0)), chain_pos key (children h0 ! slot key (length (children h0))))"
    "children h \<noteq> [] \<Longrightarrow> h0 = h"
proof -
  have "h0 = (if length (children h) \<le> 0 then table_init 2 h else h)"
    using assms(1) by (simp add: lookup_def Let_def)
  moreover have "0 < length (children (table_init 2 h))"
    using length_table_init [of 2 h] by linarith
  ultimately show "keyed h0" "entries h0 = entries h" "num_children h0 = num_children h"
    "length (children h) \<le> length (children h0)" "0 < length (children h0)" "children h \<noteq> [] \<Longrightarrow> h0 = h"
    using assms(2) entries_no_children [of h] by auto
  show "ptr = (slot key (length (children h0)), chain_pos key (children h0 ! slot key (length (children h0))))"
    using assms(1) by (auto simp: lookup_def Let_def)
qed

lemma slot_less: "0 < n \<Longrightarrow> slot key n < n"
  by (simp add: slot_def)

text \<open>A key is in its own chain or nowhere.\<close>

lemma key_in_chain:
  assumes "keyed h" "j < length (children h)" "j \<noteq> slot key (length (children h))"
  shows "key \<notin> fst ` set (children h ! j)"
  using assms by (auto simp: keyed_def)

lemma map_of_distinct_concat:
  "(\<And>j. j < length xss \<Longrightarrow> j \<noteq> i \<Longrightarrow> key \<notin> fst ` set (xss ! j)) \<Longrightarrow> i < length xss \<Longrightarrow>
   map_of (concat xss) key = map_of (xss ! i) key"
proof (induction xss arbitrary: i)
  case Nil
  then show ?case by simp
next
  case (Cons x xss)
  show ?case
  proof (cases i)
    case 0
    have "key \<notin> fst ` set ys" if "ys \<in> set xss" for ys
      using that Cons.prems(1) 0
      by (metis Suc_less_eq in_set_conv_nth length_Cons nat.distinct(1) nth_Cons_Suc)
    then have "key \<notin> fst ` set (concat xss)" by auto
    then have "map_of (concat xss) key = None" by (simp add: map_of_eq_None_iff)
    then show ?thesis using 0 by (auto simp: map_add_def split: option.split)
  next
    case (Suc i')
    then have "key \<notin> fst ` set x" using Cons.prems(1) [of 0] by simp
    then have "map_of x key = None" by (simp add: map_of_eq_None_iff)
    moreover have "map_of (concat xss) key = map_of (xss ! i') key"
      using Cons.prems(1) [of "Suc j" for j] Cons.prems(2) Suc by (intro Cons.IH) auto
    ultimately show ?thesis using Suc by (simp add: map_add_def split: option.split)
  qed
qed

lemma deref_lookup:
  assumes "keyed h" "lookup key h = (ptr, h0)"
  shows "deref ptr h0 = map_option (\<lambda>v. (key, v)) (table_map h key)"
proof -
  note l = lookup_props [OF assms(2,1)]
  let ?i = "slot key (length (children h0))"
  have i: "?i < length (children h0)" by (rule slot_less [OF l(5)])
  have "table_map h key = map_of (children h0 ! ?i) key"
    unfolding table_map_def l(2) [symmetric] unfolding entries_def
    using key_in_chain [OF l(1)] i by (intro map_of_distinct_concat) auto
  then show ?thesis
    using chain_pos_found [of key "children h0 ! ?i"]
    by (auto simp: l(6) deref_def Let_def chain_pos_map_of prod_eq_iff)
qed

section \<open>Insertion\<close>

text \<open>Insertion before any resizing.\<close>

definition insert_step :: "string \<times> 'v \<Rightarrow> 'v Hash_node \<Rightarrow> 'v Hash_node" where
  "insert_step e h =
     (let (ptr, h) = lookup (fst e) h;
          h = (if deref ptr h \<noteq> None then unlink ptr h else h) in
      link_at ptr e h)"

lemma insert_using_step:
  "insert_using rs e h =
     (let h = insert_step e h in
      if num_children h * 5 > int (length (children h)) * 4 then rs (num_children h * 2) h else Some h)"
  by (simp add: insert_using_def entry_insert_using_def insert_step_def Let_def split: prod.split)

text \<open>The chain of the key with the entry in the place of the old one, or at the end.\<close>

lemma insert_step_children:
  assumes "keyed h" "lookup (fst e) h = (ptr, h0)"
  shows "children (insert_step e h) = (children h0)[fst ptr :=
      take (snd ptr) (children h0 ! fst ptr) @ e # drop (Suc (snd ptr)) (children h0 ! fst ptr)]"
    "num_children (insert_step e h) = num_children h + (if fst e \<in> dom (table_map h) then 0 else 1)"
proof -
  note l = lookup_props [OF assms(2,1)]
  let ?es = "children h0 ! fst ptr"
  have i: "fst ptr < length (children h0)" using l(5,6) slot_less by simp
  have le: "snd ptr \<le> length ?es" by (simp add: l(6) chain_pos_le)
  have d: "deref ptr h0 \<noteq> None \<longleftrightarrow> fst e \<in> dom (table_map h)"
    using deref_lookup [OF assms] by auto
  have d': "deref ptr h0 \<noteq> None \<longleftrightarrow> snd ptr < length ?es"
    by (simp add: deref_def Let_def)
  show "children (insert_step e h) = (children h0)[fst ptr :=
      take (snd ptr) ?es @ e # drop (Suc (snd ptr)) ?es]"
    using assms(2) i le d' by (auto simp: insert_step_def link_at_def unlink_def Let_def min_def)
  show "num_children (insert_step e h) = num_children h + (if fst e \<in> dom (table_map h) then 0 else 1)"
    using assms(2) l(3) d by (simp add: insert_step_def link_at_def unlink_def Let_def)
qed

lemma keyed_chains:
  "keyed h \<Longrightarrow> i < length (children h) \<Longrightarrow> distinct (map fst (children h ! i))"
proof -
  assume "keyed h" "i < length (children h)"
  then have "distinct (concat (map (map fst) (children h)))"
    by (simp add: keyed_def entries_def map_concat)
  then have "\<forall>ys \<in> set (map (map fst) (children h)). distinct ys" using distinct_concat_iff by blast
  then show ?thesis using \<open>i < length (children h)\<close> by auto
qed

lemma insert_step_props:
  assumes "keyed h"
  shows "keyed (insert_step e h)"
    "mset (entries (insert_step e h)) = mset (e # without (fst e) (entries h))"
    "length (children h) \<le> length (children (insert_step e h))"
    "children h \<noteq> [] \<Longrightarrow> length (children (insert_step e h)) = length (children h)"
proof -
  obtain ptr h0 where lk: "lookup (fst e) h = (ptr, h0)" by fastforce
  note l = lookup_props [OF lk assms]
  let ?n = "length (children h0)"
  let ?i = "slot (fst e) ?n"
  let ?es = "children h0 ! ?i"
  let ?new = "take (chain_pos (fst e) ?es) ?es @ e # drop (Suc (chain_pos (fst e) ?es)) ?es"
  have i: "?i < ?n" by (rule slot_less [OF l(5)])
  have ch: "children (insert_step e h) = (children h0)[?i := ?new]"
    using insert_step_children(1) [OF assms lk] by (simp add: l(6))
  then show "length (children h) \<le> length (children (insert_step e h))"
    "children h \<noteq> [] \<Longrightarrow> length (children (insert_step e h)) = length (children h)"
    using l(4,7) by simp_all
  have new: "mset ?new = add_mset e (mset (without (fst e) ?es))"
    by (rule mset_insert_chain [OF keyed_chains [OF l(1) i]])
  have wo: "without (fst e) (entries h) = concat ((children h0)[?i := without (fst e) ?es])"
    unfolding l(2) [symmetric] unfolding entries_def without_concat
    using key_in_chain [OF l(1)] i
    by (intro arg_cong [where f = concat] concat_map_but_one) (auto intro: without_absent)
  have eq: "entries h0 = concat (children h0)" by (simp add: entries_def)
  show mset: "mset (entries (insert_step e h)) = mset (e # without (fst e) (entries h))"
  proof -
    have "mset (entries (insert_step e h)) + mset ?es = mset (entries h0) + mset ?new"
      using mset_concat_update [OF i, of ?new] by (simp only: entries_def ch)
    also have "\<dots> = (mset (entries h0) + mset (without (fst e) ?es)) + {#e#}" unfolding new by simp
    also have "mset (entries h0) + mset (without (fst e) ?es) = mset (without (fst e) (entries h)) + mset ?es"
      by (simp only: wo eq mset_concat_update [OF i])
    finally show ?thesis by simp
  qed
  have "distinct (map fst (entries h))" using assms by (simp add: keyed_def)
  then have dist: "distinct (map fst (e # without (fst e) (entries h)))"
    by (auto simp: without_def distinct_map_filter)
  have "mset (map fst (entries (insert_step e h))) = mset (map fst (e # without (fst e) (entries h)))"
    using mset by (metis mset_map)
  then have "distinct (map fst (entries (insert_step e h)))"
    using dist mset_eq_imp_distinct_iff by blast
  moreover have "slot (fst x) ?n = j" if "j < ?n" "x \<in> set ((children h0)[?i := ?new] ! j)" for j x
  proof (cases "j = ?i \<and> x = e")
    case False
    have "set ?new \<subseteq> insert e (set ?es)" by (auto dest: in_set_takeD in_set_dropD)
    from set_update_nth [OF i this that] have "x \<in> set (children h0 ! j)" using False by blast
    then show ?thesis using l(1) that(1) by (auto simp: keyed_def)
  qed simp
  ultimately show "keyed (insert_step e h)" unfolding keyed_def ch length_list_update by blast
qed

lemma map_of_without: "map_of (without key xs) k = (if k = key then None else map_of xs k)"
  by (induction xs) (auto simp: without_def)

lemma table_map_of_mset:
  assumes "keyed h'" "mset (entries h') = mset (e # without (fst e) (entries h))" "keyed h"
  shows "table_map h' = (table_map h)(fst e \<mapsto> snd e)"
proof -
  have "set (entries h') = set (e # without (fst e) (entries h))" using assms(2) by (metis set_mset_mset)
  moreover have "distinct (map fst (e # without (fst e) (entries h)))"
    using assms(3) by (auto simp: keyed_def without_def distinct_map_filter)
  ultimately have "table_map h' = map_of (e # without (fst e) (entries h))"
    unfolding table_map_def using assms(1) map_of_inject_set by (metis keyed_def)
  also have "\<dots> = (table_map h)(fst e \<mapsto> snd e)"
    by (cases e) (simp add: table_map_def map_of_without fun_eq_iff)
  finally show ?thesis .
qed

section \<open>Resizing\<close>

declare table_resize.simps [simp del]

lemma without_fresh: "fst e \<notin> dom (table_map h) \<Longrightarrow> without (fst e) (entries h) = entries h"
  by (auto simp: table_map_def dom_map_of_conv_image_fst intro: without_absent)

text \<open>
  What inserting a list of new entries achieves; \<open>k\<close> is a lower bound of the counter afterwards.
\<close>

definition filled :: "(string \<times> 'v) list \<Rightarrow> 'v Hash_node \<Rightarrow> int \<Rightarrow> 'v Hash_node \<Rightarrow> bool" where
  "filled es h k h' \<longleftrightarrow> keyed h' \<and> mset (entries h') = mset (entries h) + mset es \<and>
     k \<le> num_children h' \<and> 5 * num_children h' \<le> 4 * int (length (children h'))"

definition fresh_for :: "(string \<times> 'v) list \<Rightarrow> 'v Hash_node \<Rightarrow> bool" where
  "fresh_for es h \<longleftrightarrow> distinct (map fst es) \<and> fst ` set es \<inter> dom (table_map h) = {}"

lemma fresh_for_step:
  assumes "fresh_for (e # es) h" "keyed h"
  shows "fresh_for es (insert_step e h)" "num_children (insert_step e h) = num_children h + 1"
    "mset (entries (insert_step e h)) = add_mset e (mset (entries h))"
    "length (entries (insert_step e h)) = length (entries h) + 1"
proof -
  have f: "fst e \<notin> dom (table_map h)" using assms(1) by (auto simp: fresh_for_def)
  obtain ptr h0 where lk: "lookup (fst e) h = (ptr, h0)" by fastforce
  note s = insert_step_props [OF assms(2), of e]
  have "table_map (insert_step e h) = (table_map h)(fst e \<mapsto> snd e)"
    by (rule table_map_of_mset [OF s(1,2) assms(2)])
  then show "fresh_for es (insert_step e h)" using assms(1) by (auto simp: fresh_for_def)
  show "num_children (insert_step e h) = num_children h + 1"
    using insert_step_children(2) [OF assms(2) lk] f by simp
  show m: "mset (entries (insert_step e h)) = add_mset e (mset (entries h))"
    using s(2) without_fresh [OF f] by simp
  show "length (entries (insert_step e h)) = length (entries h) + 1"
    using arg_cong [OF m, of size] by simp
qed

text \<open>With room for all of them, nothing is resized.\<close>

lemma insert_all_room:
  assumes "fresh_for es h" "keyed h" "children h \<noteq> []"
    and "5 * (num_children h + int (length es)) \<le> 4 * int (length (children h))"
  shows "\<exists>h'. insert_all (insert_using rs) es h = Some h' \<and> filled es h (num_children h + int (length es)) h'"
  using assms
proof (induction es arbitrary: h)
  case Nil
  then show ?case by (simp add: filled_def)
next
  case (Cons e es)
  note st = fresh_for_step [OF Cons.prems(1,2)]
  note s = insert_step_props [OF Cons.prems(2), of e]
  have len: "length (children (insert_step e h)) = length (children h)" by (rule s(4) [OF Cons.prems(3)])
  then have ne: "children (insert_step e h) \<noteq> []" using Cons.prems(3) by auto
  have ins: "insert_using rs e h = Some (insert_step e h)"
    using Cons.prems(4) len st(2) by (simp add: insert_using_step Let_def)
  have "5 * (num_children (insert_step e h) + int (length es)) \<le> 4 * int (length (children (insert_step e h)))"
    using Cons.prems(4) st(2) len by simp
  from Cons.IH [OF st(1) s(1) ne this] show ?case
    using ins st(2,3) by (auto simp: filled_def)
qed

text \<open>Resizing a table whose counter is at least twice the number of its nodes.\<close>

lemma resize_room:
  assumes "keyed h" "2 * int (length (entries h)) \<le> num_children h" "0 < num_children h"
  shows "\<exists>h'. table_resize (Suc d) (num_children h * 2) h = Some h' \<and>
    keyed h' \<and> mset (entries h') = mset (entries h) \<and>
    num_children h + int (length (entries h)) \<le> num_children h' \<and>
    5 * num_children h' \<le> 4 * int (length (children h'))"
proof -
  let ?h = "table_init (num_children h * 2) h"
  have len: "num_children h * 2 \<le> int (length (children ?h))"
    using assms(3) by (intro length_table_init) simp
  have "fresh_for (entries h) ?h" using assms(1) by (simp add: fresh_for_def keyed_def table_map_def)
  moreover have "children ?h \<noteq> []" using len assms(3) by auto
  ultimately obtain h' where "insert_all (insert_using (table_resize d)) (entries h) ?h = Some h'"
    "filled (entries h) ?h (num_children h + int (length (entries h))) h'"
    using insert_all_room [of "entries h" ?h "table_resize d"] assms(2) len by auto
  then show ?thesis by (auto simp: filled_def table_resize.simps)
qed

text \<open>
  When a table is rebuilt, the counter of its old nodes is still there: the insertions may resize
  it once more, but then, by the previous lemma, not again inside.
\<close>

lemma insert_all_resize:
  assumes "fresh_for es h" "keyed h" "children h \<noteq> []"
    and "int (length (entries h)) + int (length es) \<le> c"
    and "c + int (length (entries h)) \<le> num_children h"
    and "5 * num_children h \<le> 4 * int (length (children h))"
  shows "\<exists>h'. insert_all (insert_using (table_resize (Suc d))) es h = Some h' \<and>
    filled es h (num_children h + int (length es)) h'"
  using assms
proof (induction es arbitrary: h)
  case Nil
  then show ?case by (simp add: filled_def)
next
  case (Cons e es)
  let ?s = "insert_step e h"
  note st = fresh_for_step [OF Cons.prems(1,2)]
  note s = insert_step_props [OF Cons.prems(2), of e]
  have c: "int (length (entries ?s)) + int (length es) \<le> c" "c + int (length (entries ?s)) \<le> num_children ?s"
    using Cons.prems(4,5) st(2,4) by auto
  have "\<exists>h1. insert_using (table_resize (Suc d)) e h = Some h1 \<and> keyed h1 \<and>
     mset (entries h1) = mset (entries ?s) \<and> num_children ?s \<le> num_children h1 \<and>
     5 * num_children h1 \<le> 4 * int (length (children h1))"
  proof (cases "num_children ?s * 5 > int (length (children ?s)) * 4")
    case True
    have "2 * int (length (entries ?s)) \<le> num_children ?s" "0 < num_children ?s"
      using c st(4) by linarith+
    from resize_room [OF s(1) this, of d] True show ?thesis
      by (auto simp: insert_using_step Let_def)
  next
    case False
    then show ?thesis using s(1) by (auto simp: insert_using_step Let_def)
  qed
  then obtain h1 where h1: "insert_using (table_resize (Suc d)) e h = Some h1" "keyed h1"
     "mset (entries h1) = mset (entries ?s)" "num_children ?s \<le> num_children h1"
     "5 * num_children h1 \<le> 4 * int (length (children h1))" by blast
  have len: "length (entries h1) = length (entries ?s)" using h1(3) by (rule mset_eq_length)
  have "set (entries h1) = set (entries ?s)" using h1(3) by (rule mset_eq_setD)
  then have "dom (table_map h1) = dom (table_map ?s)" by (simp add: table_map_def dom_map_of_conv_image_fst)
  then have fresh: "fresh_for es h1" using st(1) by (simp add: fresh_for_def)
  have "0 < length (entries ?s)" using st(4) by simp
  then have "children h1 \<noteq> []" using len by (auto simp: entries_def)
  from Cons.IH [OF fresh h1(2) this _ _ h1(5)] c len h1(4) obtain h' where
    "insert_all (insert_using (table_resize (Suc d))) es h1 = Some h'"
    "filled es h1 (num_children h1 + int (length es)) h'" by auto
  then show ?case using h1 st(2,3) by (auto simp: filled_def)
qed

lemma table_resize_total:
  assumes "keyed h" "int (length (entries h)) \<le> num_children h"
    and "0 < n" "5 * num_children h \<le> 4 * n"
  shows "\<exists>h'. table_resize (Suc (Suc d)) n h = Some h' \<and> hash_ok h' \<and> mset (entries h') = mset (entries h) \<and>
    num_children h + int (length (entries h)) \<le> num_children h'"
proof -
  let ?h = "table_init n h"
  have len: "n \<le> int (length (children ?h))" using assms(3) by (rule length_table_init)
  have "fresh_for (entries h) ?h" using assms(1) by (simp add: fresh_for_def keyed_def table_map_def)
  moreover have "children ?h \<noteq> []" using len assms(3) by auto
  moreover have "5 * num_children ?h \<le> 4 * int (length (children ?h))" using len assms(4) by simp
  ultimately obtain h' where h': "insert_all (insert_using (table_resize (Suc d))) (entries h) ?h = Some h'"
    "filled (entries h) ?h (num_children h + int (length (entries h))) h'"
    using insert_all_resize [of "entries h" ?h "int (length (entries h))" d] assms(2)
    by auto
  moreover from h'(2) have "length (entries h') = length (entries h)"
    by (auto simp: filled_def dest: mset_eq_length)
  ultimately show ?thesis using assms(2) by (auto simp: filled_def hash_ok_keyed table_resize.simps)
qed

section \<open>The operations\<close>

lemma hash_insert_all:
  assumes "hash_ok h"
  shows "\<exists>h'. hash_insert e h = Some h' \<and> hash_ok h' \<and> table_map h' = (table_map h)(fst e \<mapsto> snd e)"
proof -
  let ?s = "insert_step e h"
  have k: "keyed h" using assms by (simp add: hash_ok_keyed)
  note s = insert_step_props [OF k, of e]
  obtain ptr h0 where lk: "lookup (fst e) h = (ptr, h0)" by fastforce
  have len: "length (entries ?s) = Suc (length (without (fst e) (entries h)))"
    using mset_eq_length [OF s(2)] by simp
  have count: "int (length (entries ?s)) \<le> num_children ?s"
  proof (cases "fst e \<in> dom (table_map h)")
    case True
    then obtain v where v: "(fst e, v) \<in> set (entries h)" by (auto simp: table_map_def dest: map_of_SomeD)
    then have "length (without (fst e) (entries h)) < length (entries h)"
      unfolding without_def by (intro length_filter_less [of "(fst e, v)"]) auto
    then show ?thesis using insert_step_children(2) [OF k lk] True len assms by (simp add: hash_ok_def)
  next
    case False
    then show ?thesis using insert_step_children(2) [OF k lk] len assms without_fresh [of e h]
      by (simp add: hash_ok_def)
  qed
  have tm: "table_map h' = (table_map h)(fst e \<mapsto> snd e)" if "keyed h'" "mset (entries h') = mset (entries ?s)" for h'
    using table_map_of_mset [OF that(1) _ k] that(2) s(2) by simp
  show ?thesis
  proof (cases "num_children ?s * 5 > int (length (children ?s)) * 4")
    case True
    have "0 < num_children ?s" using count len by linarith
    then obtain h' where h': "table_resize (Suc (Suc 0)) (num_children ?s * 2) ?s = Some h'" "hash_ok h'"
      "mset (entries h') = mset (entries ?s)"
      using table_resize_total [OF s(1) count, of "num_children ?s * 2" 0] by auto
    then have "hash_insert e h = Some h'"
      using True by (simp add: hash_insert_def insert_using_step Let_def eval_nat_numeral)
    then show ?thesis using h' tm by (auto simp: hash_ok_keyed)
  next
    case False
    then have "hash_insert e h = Some ?s" by (simp add: hash_insert_def insert_using_step Let_def)
    moreover have "hash_ok ?s" using s(1) count False by (simp add: hash_ok_keyed)
    ultimately show ?thesis using tm [OF s(1) refl] by auto
  qed
qed

lemma new_Hash_node_ok: "hash_ok new_Hash_node" "table_map new_Hash_node = Map.empty"
  using keyed_table_init [of 2 "(Hash_node 0 [])"]
  by (auto simp: hash_ok_keyed new_Hash_node_def table_map_def)

lemma empty_Hash_node_ok: "hash_ok empty_Hash_node" "table_map empty_Hash_node = Map.empty"
  using keyed_table_init [of 0 "(Hash_node 0 [])"]
  by (auto simp: hash_ok_keyed empty_Hash_node_def table_map_def)

text \<open>C30: inserting into a table always succeeds - the nested resizing ends - and gives a well
  formed table, at most four fifths full, that maps the key to the new value and every other key to
  what it was mapped to.\<close>

theorem hash_insert_correct:
  assumes "hash_ok h"
  shows "\<exists>h'. hash_insert e h = Some h' \<and> hash_ok h' \<and> table_map h' = (table_map h)(fst e \<mapsto> snd e)"
  using assms by (rule hash_insert_all)

theorem hash_insert_correct_witness:
  "\<exists>h'. hash_insert (''a'', 7 :: nat) new_Hash_node = Some h' \<and> hash_ok h' \<and>
     table_map h' = (table_map new_Hash_node)(fst (''a'', 7 :: nat) \<mapsto> snd (''a'', 7))"
  by (rule hash_insert_correct [OF new_Hash_node_ok(1)])

text \<open>Lookup returns a pointer to the node of the key, or to the null end of a chain when the
  key is not in the table; a table that is allocated is not changed.\<close>

theorem lookup_correct:
  assumes "hash_ok h" "lookup key h = (ptr, h0)"
  shows "deref ptr h0 = map_option (\<lambda>v. (key, v)) (table_map h key) \<and>
    hash_ok h0 \<and> table_map h0 = table_map h \<and> (children h \<noteq> [] \<longrightarrow> h0 = h)"
proof -
  have k: "keyed h" using assms(1) by (simp add: hash_ok_keyed)
  note l = lookup_props [OF assms(2) k]
  have "hash_ok h0" using l assms(1) by (auto simp: hash_ok_keyed)
  then show ?thesis using deref_lookup [OF k assms(2)] l by (simp add: table_map_def)
qed

definition one_entry :: "nat Hash_node" where
  "one_entry = the (hash_insert (''a'', 7) new_Hash_node)"

lemma one_entry: "hash_ok one_entry" "table_map one_entry = [''a'' \<mapsto> 7]"
  using hash_insert_all [OF new_Hash_node_ok(1), of "(''a'', 7 :: nat)"]
  by (auto simp: one_entry_def new_Hash_node_ok)

theorem lookup_correct_witness:
  "deref (fst (lookup ''x'' one_entry)) (snd (lookup ''x'' one_entry)) =
     map_option (\<lambda>v. (''x'', v)) (table_map one_entry ''x'') \<and>
   hash_ok (snd (lookup ''x'' one_entry)) \<and>
   table_map (snd (lookup ''x'' one_entry)) = table_map one_entry \<and>
   (children one_entry \<noteq> [] \<longrightarrow> snd (lookup ''x'' one_entry) = one_entry)"
  by (rule lookup_correct [OF one_entry(1) surjective_pairing])

section \<open>Removal\<close>

lemma unlink_props:
  assumes "hash_ok h" "lookup key h = (ptr, h0)" "key \<in> dom (table_map h)"
  shows "keyed (unlink ptr h0)" "entries (unlink ptr h0) = without key (entries h)"
    "num_children (unlink ptr h0) = num_children h - 1" "children (unlink ptr h0) \<noteq> []"
    "length (children (unlink ptr h0)) = length (children h)"
proof -
  have k: "keyed h" using assms(1) by (simp add: hash_ok_keyed)
  note l = lookup_props [OF assms(2) k]
  have ne: "children h \<noteq> []" using assms(3) by (auto simp: table_map_def entries_def)
  then have h0: "h0 = h" by (rule l(7))
  let ?n = "length (children h)"
  let ?i = "slot key ?n"
  have i: "?i < ?n" using ne by (intro slot_less) simp
  have ch: "children (unlink ptr h0) = (children h)[?i := without key (children h ! ?i)]"
    using chain_without [OF keyed_chains [OF k i], of key] by (simp add: unlink_def Let_def l(6) h0)
  show e: "entries (unlink ptr h0) = without key (entries h)"
    unfolding entries_def without_concat ch
    using key_in_chain [OF k] i
    by (intro arg_cong [where f = concat] concat_map_but_one [symmetric]) (auto intro: without_absent)
  show "num_children (unlink ptr h0) = num_children h - 1" by (simp add: unlink_def Let_def h0)
  show "children (unlink ptr h0) \<noteq> []" "length (children (unlink ptr h0)) = length (children h)"
    using ne by (auto simp: ch)
  have "distinct (map fst (entries (unlink ptr h0)))"
    using k unfolding e by (auto simp: keyed_def without_def distinct_map_filter)
  moreover have "slot (fst x) ?n = j" if "j < ?n" "x \<in> set ((children h)[?i := without key (children h ! ?i)] ! j)" for j x
  proof -
    have "x \<in> set (children h ! j)" using that i
      by (auto simp: nth_list_update without_def split: if_splits)
    then show ?thesis using k that(1) by (auto simp: keyed_def)
  qed
  ultimately show "keyed (unlink ptr h0)" unfolding keyed_def ch length_list_update by blast
qed

lemma entry_remove_all:
  assumes "hash_ok h"
  shows "\<exists>h'. entry_remove_by_name finishing key h =
      Some (if key \<in> dom (table_map h) then O2_SUCCESS else O2_FAIL,
            map_option (\<lambda>v. (key, v)) (table_map h key), h') \<and>
    hash_ok h' \<and> table_map h' = (table_map h)(key := None)"
proof -
  have k: "keyed h" using assms by (simp add: hash_ok_keyed)
  obtain ptr h0 where lk: "lookup key h = (ptr, h0)" by fastforce
  note l = lookup_props [OF lk k]
  note d = deref_lookup [OF k lk]
  show ?thesis
  proof (cases "table_map h key")
    case None
    have "hash_ok h0" using l assms by (auto simp: hash_ok_keyed)
    then show ?thesis using None d lk l(2)
      by (auto simp: entry_remove_by_name_def table_map_def fun_upd_idem)
  next
    case (Some v)
    then have dom: "key \<in> dom (table_map h)" by auto
    note u = unlink_props [OF assms lk dom]
    have tm: "table_map h' = (table_map h)(key := None)"
      if "mset (entries h') = mset (entries (unlink ptr h0))" "keyed h'" for h'
    proof -
      have "set (entries h') = set (without key (entries h))" using that(1) u(2) by (metis mset_eq_setD)
      then have "table_map h' = map_of (without key (entries h))"
        using map_of_inject_set that(2) u(1) unfolding table_map_def by (metis keyed_def u(2))
      then show ?thesis by (simp add: map_of_without table_map_def fun_eq_iff)
    qed
    have "(key, v) \<in> set (entries h)" using Some by (auto simp: table_map_def dest: map_of_SomeD)
    then have "length (without key (entries h)) < length (entries h)"
      unfolding without_def by (intro length_filter_less [of "(key, v)"]) auto
    then have count: "int (length (entries (unlink ptr h0))) \<le> num_children (unlink ptr h0)"
      using assms u by (simp add: hash_ok_def)
    have load: "5 * num_children (unlink ptr h0) \<le> 4 * int (length (children (unlink ptr h0)))"
      using assms u by (simp add: hash_ok_def)
    have "\<exists>h'. entry_remove ptr (\<not> finishing) h0 = Some h' \<and> hash_ok h' \<and>
        mset (entries h') = mset (entries (unlink ptr h0))"
    proof (cases "\<not> finishing \<and> num_children (unlink ptr h0) * 5 < int (length (children (unlink ptr h0))) \<and>
        num_children (unlink ptr h0) > 3")
      case True
      let ?n = "int (length (children (unlink ptr h0))) div 2 - 1"
      have "int (length (children (unlink ptr h0))) \<le> 2 * ?n + 3" by presburger
      then have "0 < ?n" "5 * num_children (unlink ptr h0) \<le> 4 * ?n" using True by linarith+
      from table_resize_total [OF u(1) count this, of 0] True show ?thesis
        by (auto simp: entry_remove_def Let_def eval_nat_numeral)
    next
      case False
      then show ?thesis using u(1) count load by (auto simp: entry_remove_def Let_def hash_ok_keyed)
    qed
    then obtain h' where h': "entry_remove ptr (\<not> finishing) h0 = Some h'" "hash_ok h'"
        "mset (entries h') = mset (entries (unlink ptr h0))" by blast
    moreover have "keyed h'" using h'(2) by (simp add: hash_ok_keyed)
    ultimately show ?thesis using tm [OF h'(3)] d lk Some dom
      by (auto simp: entry_remove_by_name_def)
  qed
qed

text \<open>Removing a key deletes its node and no other and leaves a well formed table, resized or
  not; for a key that is not in the table it fails and changes nothing.\<close>

theorem entry_remove_correct:
  assumes "hash_ok h"
  shows "\<exists>h'. entry_remove_by_name finishing key h =
      Some (if key \<in> dom (table_map h) then O2_SUCCESS else O2_FAIL,
            map_option (\<lambda>v. (key, v)) (table_map h key), h') \<and>
    hash_ok h' \<and> table_map h' = (table_map h)(key := None)"
  using assms by (rule entry_remove_all)

theorem entry_remove_correct_witness:
  "\<exists>h'. entry_remove_by_name False ''a'' one_entry =
      Some (if ''a'' \<in> dom (table_map one_entry) then O2_SUCCESS else O2_FAIL,
            map_option (\<lambda>v. (''a'', v)) (table_map one_entry ''a''), h') \<and>
    hash_ok h' \<and> table_map h' = (table_map one_entry)(''a'' := None)"
  by (rule entry_remove_correct [OF one_entry(1)])

section \<open>The counter\<close>

text \<open>Table_resize inserts the nodes again without first resetting the counter, so that after
  it the counter exceeds the number of nodes by what it was before: removing all nodes does not
  bring it back to the zero that \<open>empty\<close> tests.\<close>

theorem table_resize_counts_again:
  assumes "hash_ok h" "0 < n" "5 * num_children h \<le> 4 * n"
  shows "\<exists>h'. table_resize RESIZE_DEPTH n h = Some h' \<and> mset (entries h') = mset (entries h) \<and>
    num_children h + int (length (entries h)) \<le> num_children h'"
  using table_resize_total [of h n 0] assms by (auto simp: hash_ok_keyed eval_nat_numeral)

theorem table_resize_counts_again_witness:
  "\<exists>n h'. table_resize RESIZE_DEPTH n one_entry = Some h' \<and>
    mset (entries h') = mset (entries one_entry) \<and>
    num_children one_entry + int (length (entries one_entry)) \<le> num_children h'"
  using table_resize_counts_again [OF one_entry(1), of "1 + 5 * num_children one_entry"] one_entry(1)
  by (auto simp: hash_ok_def)

section \<open>Enumeration\<close>

text \<open>Calling \<open>next\<close> until it returns NULL, at most \<open>n\<close> times.\<close>

primrec enumerate_all :: "nat \<Rightarrow> (string \<times> 'v) list list \<Rightarrow> nat \<times> (string \<times> 'v) list \<Rightarrow> (string \<times> 'v) list" where
  "enumerate_all 0 dict st = []"
| "enumerate_all (Suc n) dict st =
     (case enumerate_next dict st of
        None \<Rightarrow> []
      | Some (e, index, es) \<Rightarrow> e # enumerate_all n dict (index, es))"

lemma find_range:
  "List.find P [i..<n] = (if i < n then if P i then Some i else List.find P [Suc i..<n] else None)"
  by (simp add: upt_rec)

lemma enumerate_skip: "index < length dict \<Longrightarrow> enumerate_next dict (index, []) = enumerate_next dict (Suc index, dict ! index)"
  by (cases "dict ! index") (simp_all add: find_range [of _ index])

lemma enumerate_all_skip:
  "index < length dict \<Longrightarrow> enumerate_all n dict (index, []) = enumerate_all n dict (Suc index, dict ! index)"
  by (cases n) (simp_all add: enumerate_skip del: enumerate_next.simps)

lemma enumerate_all_chain:
  "length es \<le> n \<Longrightarrow> enumerate_all n dict (index, es) = es @ enumerate_all (n - length es) dict (index, [])"
proof (induction es arbitrary: n)
  case (Cons e es)
  then show ?case by (cases n) simp_all
qed simp

lemma enumerate_from:
  "length (concat (drop index dict)) \<le> n \<Longrightarrow> index \<le> length dict \<Longrightarrow>
   enumerate_all n dict (index, []) = concat (drop index dict)"
proof (induction "length dict - index" arbitrary: index n)
  case 0
  then show ?case by (cases n) simp_all
next
  case (Suc d)
  then have i: "index < length dict" by simp
  have d: "concat (drop index dict) = dict ! index @ concat (drop (Suc index) dict)"
    using i by (simp flip: Cons_nth_drop_Suc)
  have "enumerate_all n dict (index, []) =
      dict ! index @ enumerate_all (n - length (dict ! index)) dict (Suc index, [])"
    using enumerate_all_skip [OF i] Suc.prems(1) enumerate_all_chain [of "dict ! index" n dict "Suc index"]
    by (simp add: d)
  also have "\<dots> = concat (drop index dict)"
    using Suc.hyps(1) [of "Suc index" "n - length (dict ! index)"] Suc.hyps(2) Suc.prems(1) i
    by (simp add: d)
  finally show ?case .
qed

text \<open>An enumeration of a table returns every node exactly once, chain by chain, and then NULL,
  however many chains are empty.\<close>

theorem enumerate_visits_all:
  assumes "length (entries h) \<le> n"
  shows "enumerate_all n (children h) (0, []) = entries h"
  using assms enumerate_from [of 0 "children h" n] by (simp add: entries_def)

theorem enumerate_visits_all_witness:
  "enumerate_all (Suc (length (entries one_entry))) (children one_entry) (0, []) = entries one_entry"
  by (rule enumerate_visits_all) simp

section \<open>The interface of a table of names\<close>

text \<open>
  What the path tree, the service directory and the full path table rely on: a finite map under
  insertion, removal and lookup, whatever the buckets do.
\<close>

locale name_table =
  fixes ok :: "'t \<Rightarrow> bool" and content :: "'t \<Rightarrow> string \<rightharpoonup> 'v"
    and find :: "string \<Rightarrow> 't \<Rightarrow> 'v option" and insert :: "string \<times> 'v \<Rightarrow> 't \<Rightarrow> 't option"
    and remove :: "string \<Rightarrow> 't \<Rightarrow> 't option"
  assumes find: "ok t \<Longrightarrow> find k t = content t k"
    and insert: "ok t \<Longrightarrow> \<exists>t'. insert e t = Some t' \<and> ok t' \<and> content t' = (content t)(fst e \<mapsto> snd e)"
    and remove: "ok t \<Longrightarrow> \<exists>t'. remove k t = Some t' \<and> ok t' \<and> content t' = (content t)(k := None)"
begin

fun enter :: "(string \<times> 'v) list \<Rightarrow> 't \<Rightarrow> 't option" where
  "enter [] t = Some t"
| "enter (e # es) t = Option.bind (insert e t) (enter es)"

lemma enter: "ok t \<Longrightarrow> \<exists>t'. enter es t = Some t' \<and> ok t' \<and> content t' = content t ++ map_of (rev es)"
proof (induction es arbitrary: t)
  case (Cons e es)
  obtain t1 where t1: "insert e t = Some t1" "ok t1" "content t1 = (content t)(fst e \<mapsto> snd e)"
    using insert [OF Cons.prems] by blast
  have "content t ++ map_of (rev (e # es)) = (content t)(fst e \<mapsto> snd e) ++ map_of (rev es)"
    by (cases e) (simp add: fun_eq_iff map_add_def split: option.split)
  with Cons.IH [OF t1(2)] t1 show ?case by (auto simp: fun_upd_def)
qed simp

lemma find_insert: "ok t \<Longrightarrow> insert e t = Some t' \<Longrightarrow> find k t' = (if k = fst e then Some (snd e) else find k t)"
  using insert [of t e] find by fastforce

lemma find_remove: "ok t \<Longrightarrow> remove k t = Some t' \<Longrightarrow> find j t' = (if j = k then None else find j t)"
  using remove [of t k] find by fastforce

end

definition hash_find :: "string \<Rightarrow> 'v Hash_node \<Rightarrow> 'v option" where
  "hash_find key h = (let (ptr, h) = lookup key h in map_option snd (deref ptr h))"

definition hash_remove :: "string \<Rightarrow> 'v Hash_node \<Rightarrow> 'v Hash_node option" where
  "hash_remove key h = map_option (\<lambda>(_, _, h). h) (entry_remove_by_name False key h)"

lemma hash_find: "hash_ok h \<Longrightarrow> hash_find key h = table_map h key"
  using deref_lookup [of h key]
  by (auto simp: hash_ok_keyed hash_find_def option.map_comp comp_def option.map_ident split: prod.split)

interpretation names: name_table hash_ok table_map hash_find hash_insert hash_remove
proof
  fix t :: "'a Hash_node" and k e
  assume ok: "hash_ok t"
  show "hash_find k t = table_map t k" using ok by (rule hash_find)
  show "\<exists>t'. hash_insert e t = Some t' \<and> hash_ok t' \<and> table_map t' = (table_map t)(fst e \<mapsto> snd e)"
    using ok by (rule hash_insert_all)
  show "\<exists>t'. hash_remove k t = Some t' \<and> hash_ok t' \<and> table_map t' = (table_map t)(k := None)"
    using entry_remove_all [OF ok, of False k] by (auto simp: hash_remove_def)
qed

end
