(* ===== verification/PatternMatch.thy ===== *)
theory PatternMatch
  imports Prelude
begin

text \<open>
  The glob matcher of src/src/pathtree.cpp. A C string is a list and its terminating zero byte is
  the end of the list; a pointer into it is the rest of the list. The value \<open>None\<close> says that the
  code reads behind the terminating zero of one of its strings.
\<close>

section \<open>Sets\<close>

text \<open>\<open>char\<close> is signed.\<close>

definition schar_less :: "char \<Rightarrow> char \<Rightarrow> bool" where
  "schar_less a b \<longleftrightarrow> sint (byte_of a) < sint (byte_of b)"

abbreviation at_end :: "string \<Rightarrow> bool" where
  "at_end p \<equiv> p = [] \<or> hd p = CHR ''/''"

text \<open>How the search in a set of characters ends: by returning false, or leaving the loop with a
  match or not and a pointer, which is \<open>None\<close> behind the terminating zero.\<close>

datatype set_result = Set_False | Set_Exit bool "string option"

fun set_scan :: "char \<Rightarrow> string \<Rightarrow> set_result" where
  "set_scan s [] = Set_Exit False None"
| "set_scan s (c # p) =
     (if c = CHR '']'' then Set_Exit False (Some (c # p))
      else case p of
        [] \<Rightarrow> Set_False
      | d # p' \<Rightarrow>
          if d = CHR ''/'' then Set_False
          else if d = CHR ''-'' then
            (case p' of
               [] \<Rightarrow> Set_False
             | e # p'' \<Rightarrow>
                 if e = CHR ''/'' then Set_False
                 else if e \<noteq> CHR '']'' then
                   if s = c \<or> s = e \<or> schar_less c s \<and> schar_less s e then Set_Exit True (Some p'')
                   else set_scan s p''
                 else if s = c \<or> s = CHR ''-'' then Set_Exit True (Some (e # p''))
                 else set_scan s (e # p''))
          else if c = s then Set_Exit True (Some (d # p'))
          else set_scan s (d # p'))"

text \<open>The search for the end of the set: behind the bracket, or \<open>None\<close> to return false.\<close>

fun skip_set :: "string \<Rightarrow> string option" where
  "skip_set [] = None"
| "skip_set (c # p) = (if c = CHR '']'' then Some p else if c = CHR ''/'' then None else skip_set p)"

text \<open>\<open>case '['\<close>: returns false, or goes on with this pattern.\<close>

definition match_set :: "char \<Rightarrow> string \<Rightarrow> (string option) option" where
  "match_set s p =
     (let negate = (p \<noteq> [] \<and> hd p = CHR ''!'') in
      case set_scan s (if negate then tl p else p) of
        Set_False \<Rightarrow> Some None
      | Set_Exit m q \<Rightarrow>
          if negate = m then Some None
          else (case q of None \<Rightarrow> None | Some q \<Rightarrow> Some (skip_set q)))"

lemma skip_set_less: "skip_set p = Some q \<Longrightarrow> length q < length p"
  by (induction p) (auto split: if_splits)

lemma set_scan_le: "set_scan s p = Set_Exit m (Some q) \<Longrightarrow> length q \<le> length p"
  by (induction s p rule: set_scan.induct) (force split: list.splits if_splits)+

lemma match_set_less: "match_set s p = Some (Some q) \<Longrightarrow> length q < length p"
proof -
  assume "match_set s p = Some (Some q)"
  then obtain m r where r: "set_scan s (if p \<noteq> [] \<and> hd p = CHR ''!'' then tl p else p) = Set_Exit m (Some r)"
    "skip_set r = Some q"
    unfolding match_set_def Let_def
    by (cases "set_scan s (if p \<noteq> [] \<and> hd p = CHR ''!'' then tl p else p)")
      (auto split: if_splits option.splits)
  have "length (if p \<noteq> [] \<and> hd p = CHR ''!'' then tl p else p) \<le> length p" by simp
  with set_scan_le [OF r(1)] skip_set_less [OF r(2)] show ?thesis by linarith
qed

section \<open>Lists in braces\<close>

text \<open>\<open>while ((c = *p++) != ',')\<close>\<close>

fun skip_comma :: "string \<Rightarrow> string option" where
  "skip_comma [] = None"
| "skip_comma (c # p) =
     (if c = CHR '','' then Some p
      else if c = CHR ''/'' \<or> c = CHR ''}'' then None
      else skip_comma p)"

lemma skip_comma_less: "skip_comma p = Some q \<Longrightarrow> length q < length p"
  by (induction p) (auto split: if_splits)

text \<open>
  The loop over the alternatives, with \<open>c\<close> in front of the pattern: returns a result (\<open>Inl\<close>) or
  leaves the \<open>switch\<close> with this rest of the string and of the pattern (\<open>Inr\<close>). \<open>rm\<close> is the match
  of the pattern behind the braces.
\<close>

function brace_list :: "(string \<Rightarrow> bool option) \<Rightarrow> string \<Rightarrow> string \<Rightarrow> string \<Rightarrow>
    (bool + string \<times> string) option" where
  "brace_list rm place str [] = None"
| "brace_list rm place str (c # p) =
     (if c = CHR ''/'' then if str = [] then None else Some (Inr (tl str, p))
      else if c = CHR '','' then
        (case rm str of
           None \<Rightarrow> None
         | Some True \<Rightarrow> Some (Inl True)
         | Some False \<Rightarrow>
             if p = [] then None
             else if at_end (tl p) then Some (Inl False)
             else brace_list rm place place (tl p))
      else if c = CHR ''}'' then Some (Inr (str, p))
      else if str \<noteq> [] \<and> c = hd str then brace_list rm place (tl str) p
      else case skip_comma p of
          None \<Rightarrow> Some (Inl False)
        | Some p' \<Rightarrow> brace_list rm place place p')"
  by pat_completeness auto
termination
  by (relation "measure (\<lambda>(rm, place, str, p). length p)") (auto dest: skip_comma_less)

declare brace_list.simps [simp del]

lemma brace_list_le: "brace_list rm place str p = Some (Inr (s', p')) \<Longrightarrow> length p' \<le> length p"
proof (induction rm place str p rule: brace_list.induct)
  case (1 rm place str)
  then show ?case by (simp add: brace_list.simps)
next
  case (2 rm place str c p)
  note IH = 2(1-3)
  have skip: "length q < length p" if "skip_comma p = Some q" for q by (rule skip_comma_less [OF that])
  have eq: "brace_list rm place str (c # p) = Some (Inr (s', p'))" by (rule 2(4))
  consider "c = CHR ''/''" | "c = CHR '',''" | "c = CHR ''}''"
    | (same) "c \<noteq> CHR ''/''" "c \<noteq> CHR '',''" "c \<noteq> CHR ''}''" "str \<noteq> [] \<and> c = hd str"
    | (other) "c \<noteq> CHR ''/''" "c \<noteq> CHR '',''" "c \<noteq> CHR ''}''" "\<not> (str \<noteq> [] \<and> c = hd str)" by blast
  then show ?case
  proof cases
    case 2
    then have "rm str = Some False" "p \<noteq> []" "\<not> at_end (tl p)" "brace_list rm place place (tl p) = Some (Inr (s', p'))"
      using eq by (auto simp: brace_list.simps(2) split: option.splits bool.splits if_splits)
    with IH(1) 2 have "length p' \<le> length (tl p)" by simp
    then show ?thesis by simp
  next
    case same
    then have "brace_list rm place (tl str) p = Some (Inr (s', p'))"
      using eq by (simp add: brace_list.simps(2))
    with IH(2) same show ?thesis by simp
  next
    case other
    then obtain q where "skip_comma p = Some q" "brace_list rm place place q = Some (Inr (s', p'))"
      using eq by (auto simp: brace_list.simps(2) split: option.splits)
    with IH(3) [of q] other skip [of q] show ?thesis by simp
  qed (use eq in \<open>auto simp: brace_list.simps(2) split: if_splits\<close>)
qed

section \<open>The matcher\<close>

text \<open>\<open>while (*str) { if (match) return true; str++; } return false;\<close>\<close>

fun star_loop :: "(string \<Rightarrow> bool option) \<Rightarrow> string \<Rightarrow> bool option" where
  "star_loop m [] = Some False"
| "star_loop m (s # ss) =
     (case m (s # ss) of None \<Rightarrow> None | Some True \<Rightarrow> Some True | Some False \<Rightarrow> star_loop m ss)"

abbreviation meta :: "char set" where "meta \<equiv> {CHR ''?'', CHR ''['', CHR ''{''}"

definition star_skip :: "string \<Rightarrow> string \<Rightarrow> string" where
  "star_skip p str = (if hd p \<notin> meta then dropWhile (\<lambda>s. s \<noteq> hd p) str else str)"

abbreviation brace_rest :: "string \<Rightarrow> string" where
  "brace_rest p \<equiv> dropWhile (\<lambda>c. c \<noteq> CHR ''}'' \<and> c \<noteq> CHR ''/'') p"

function o2_pattern_match :: "string \<Rightarrow> string \<Rightarrow> bool option" where
  "o2_pattern_match str [] = Some (str = [])"
| "o2_pattern_match str (c # p) =
     (if c = CHR ''/'' then Some (str = [])
      else if str = [] \<and> c \<noteq> CHR ''*'' then Some False
      else if c = CHR ''*'' then
        if at_end (dropWhile (\<lambda>c. c = CHR ''*'') p) then Some True
        else star_loop (\<lambda>s. o2_pattern_match s (dropWhile (\<lambda>c. c = CHR ''*'') p))
               (star_skip (dropWhile (\<lambda>c. c = CHR ''*'') p) str)
      else if c = CHR ''?'' then o2_pattern_match (tl str) p
      else if c = CHR ''['' then
        (case match_set (hd str) p of
           None \<Rightarrow> None
         | Some None \<Rightarrow> Some False
         | Some (Some q) \<Rightarrow> o2_pattern_match (tl str) q)
      else if c = CHR ''{'' then
        if at_end (brace_rest p) then Some False
        else (case brace_list (\<lambda>s. o2_pattern_match s (tl (brace_rest p))) str str p of
           None \<Rightarrow> None
         | Some (Inl b) \<Rightarrow> Some b
         | Some (Inr (s', p')) \<Rightarrow> o2_pattern_match s' p')
      else if c \<noteq> hd str then Some False
      else o2_pattern_match (tl str) p)"
  by pat_completeness auto
termination
proof (relation "measure (\<lambda>(str, p). length p)")
  fix p :: string and c :: char
  show "((x, tl (brace_rest p)), str, c # p) \<in> measure (\<lambda>(str, p). length p)" for x str :: string
    using length_dropWhile_le [of "\<lambda>c. c \<noteq> CHR ''}'' \<and> c \<noteq> CHR ''/''" p] by simp
  show "((x, dropWhile (\<lambda>c. c = CHR ''*'') p), str, c # p) \<in> measure (\<lambda>(str, p). length p)" for x str :: string
    using length_dropWhile_le [of _ p] by (simp add: le_imp_less_Suc)
qed (auto dest: match_set_less brace_list_le simp: le_imp_less_Suc)

declare o2_pattern_match.simps [simp del]

lemma pattern_nil: "o2_pattern_match str [] = Some (str = [])"
  by (simp add: o2_pattern_match.simps)

lemma pattern_end: "at_end p \<Longrightarrow> o2_pattern_match str p = Some (str = [])"
  by (cases p) (simp_all add: o2_pattern_match.simps)

section \<open>Reference semantics of the patterns without braces\<close>

datatype set_item = One char | Range char char

datatype pattern_elem = Lit char | Any | Star | CharSet bool "set_item list" "char option"

fun item_matches :: "char \<Rightarrow> set_item \<Rightarrow> bool" where
  "item_matches s (One c) \<longleftrightarrow> s = c"
| "item_matches s (Range c d) \<longleftrightarrow> s = c \<or> s = d \<or> schar_less c s \<and> schar_less s d"

text \<open>The optional character at the end stands for the set \<open>c-\<close>: \<open>c\<close> or a hyphen.\<close>

definition set_matches :: "char \<Rightarrow> set_item list \<Rightarrow> char option \<Rightarrow> bool" where
  "set_matches s items lst \<longleftrightarrow>
     (\<exists>i \<in> set items. item_matches s i) \<or> (\<exists>c. lst = Some c \<and> (s = c \<or> s = CHR ''-''))"

fun glob :: "pattern_elem list \<Rightarrow> string \<Rightarrow> bool" where
  "glob [] str \<longleftrightarrow> str = []"
| "glob (Lit c # es) str \<longleftrightarrow> str \<noteq> [] \<and> hd str = c \<and> glob es (tl str)"
| "glob (Any # es) str \<longleftrightarrow> str \<noteq> [] \<and> glob es (tl str)"
| "glob (CharSet neg items lst # es) str \<longleftrightarrow>
     str \<noteq> [] \<and> set_matches (hd str) items lst \<noteq> neg \<and> glob es (tl str)"
| "glob (Star # es) str \<longleftrightarrow> (\<exists>n \<le> length str. glob es (drop n str))"

fun render_item :: "set_item \<Rightarrow> string" where
  "render_item (One c) = [c]"
| "render_item (Range c d) = [c, CHR ''-'', d]"

definition render_set :: "set_item list \<Rightarrow> char option \<Rightarrow> string" where
  "render_set items lst = concat (map render_item items) @ (case lst of None \<Rightarrow> [] | Some c \<Rightarrow> [c, CHR ''-''])"

fun render :: "pattern_elem list \<Rightarrow> string" where
  "render [] = []"
| "render (Lit c # es) = c # render es"
| "render (Any # es) = CHR ''?'' # render es"
| "render (Star # es) = CHR ''*'' # render es"
| "render (CharSet neg items lst # es) =
     CHR ''['' # (if neg then [CHR ''!''] else []) @ render_set items lst @ CHR '']'' # render es"

abbreviation set_char :: "char \<Rightarrow> bool" where
  "set_char c \<equiv> c \<notin> {CHR '']'', CHR ''/'', CHR ''-'', CHR ''!''}"

fun item_ok :: "set_item \<Rightarrow> bool" where
  "item_ok (One c) \<longleftrightarrow> set_char c"
| "item_ok (Range c d) \<longleftrightarrow> set_char c \<and> set_char d"

fun elem_ok :: "pattern_elem \<Rightarrow> bool" where
  "elem_ok (Lit c) \<longleftrightarrow> c \<notin> {CHR ''*'', CHR ''?'', CHR ''['', CHR ''{'', CHR ''/''}"
| "elem_ok (CharSet neg items lst) \<longleftrightarrow> list_all item_ok items \<and> (case lst of None \<Rightarrow> True | Some c \<Rightarrow> set_char c)"
| "elem_ok _ \<longleftrightarrow> True"

section \<open>The matcher implements the reference semantics\<close>

definition set_text :: "set_item list \<Rightarrow> char option \<Rightarrow> string \<Rightarrow> string" where
  "set_text items lst q = render_set items lst @ CHR '']'' # q"

lemma set_text_Cons: "set_text (i # items) lst q = render_item i @ set_text items lst q"
  by (simp add: set_text_def render_set_def)

lemma set_text_hd:
  assumes "list_all item_ok items" "case lst of None \<Rightarrow> True | Some c \<Rightarrow> set_char c"
  shows "\<exists>d p. set_text items lst q = d # p \<and> d \<notin> {CHR ''/'', CHR ''-''} \<and> (d = CHR ''!'' \<longrightarrow> False)"
proof (cases items)
  case Nil
  then show ?thesis using assms by (cases lst) (auto simp: set_text_def render_set_def)
next
  case (Cons i is')
  then show ?thesis using assms by (cases i) (auto simp: set_text_def render_set_def)
qed

lemma skip_set_text:
  "list_all item_ok items \<Longrightarrow> (case lst of None \<Rightarrow> True | Some c \<Rightarrow> set_char c) \<Longrightarrow>
   skip_set (set_text items lst q) = Some q"
proof (induction items)
  case Nil
  then show ?case by (cases lst) (auto simp: set_text_def render_set_def)
next
  case (Cons i items)
  then show ?case by (cases i) (auto simp: set_text_Cons)
qed

lemma set_scan_text:
  "list_all item_ok items \<Longrightarrow> (case lst of None \<Rightarrow> True | Some c \<Rightarrow> set_char c) \<Longrightarrow>
   \<exists>r. set_scan s (set_text items lst q) = Set_Exit (set_matches s items lst) (Some r) \<and>
     skip_set r = Some q"
proof (induction items)
  case Nil
  then show ?case by (cases lst) (auto simp: set_text_def render_set_def set_matches_def)
next
  case (Cons i items)
  have ok: "list_all item_ok items" "item_ok i" using Cons.prems(1) by auto
  obtain d p where dp: "set_text items lst q = d # p" "d \<notin> {CHR ''/'', CHR ''-''}"
    using set_text_hd [OF ok(1) Cons.prems(2)] by blast
  note skip = skip_set_text [OF ok(1) Cons.prems(2), of q]
  note IH = Cons.IH [OF ok(1) Cons.prems(2)]
  show ?case
  proof (cases "item_matches s i")
    case True
    then have "set_matches s (i # items) lst" by (simp add: set_matches_def)
    then show ?thesis using True ok(2) dp skip by (cases i) (auto simp: set_text_Cons)
  next
    case False
    then have "set_matches s (i # items) lst = set_matches s items lst" by (simp add: set_matches_def)
    then show ?thesis using False ok(2) dp IH by (cases i) (auto simp: set_text_Cons)
  qed
qed

lemma match_set_text:
  assumes "elem_ok (CharSet neg items lst)"
  shows "match_set s ((if neg then [CHR ''!''] else []) @ set_text items lst q) =
    Some (if set_matches s items lst \<noteq> neg then Some q else None)"
proof -
  have ok: "list_all item_ok items" "case lst of None \<Rightarrow> True | Some c \<Rightarrow> set_char c" using assms by auto
  obtain r where r: "set_scan s (set_text items lst q) = Set_Exit (set_matches s items lst) (Some r)"
    "skip_set r = Some q" using set_scan_text [OF ok] by blast
  obtain d p where dp: "set_text items lst q = d # p" "d \<noteq> CHR ''!''" using set_text_hd [OF ok, of q] by blast
  show ?thesis
  proof (cases neg)
    case True
    then show ?thesis using r by (simp add: match_set_def)
  next
    case False
    then show ?thesis using r dp by (simp add: match_set_def)
  qed
qed

fun some_suffix :: "(string \<Rightarrow> bool) \<Rightarrow> string \<Rightarrow> bool" where
  "some_suffix P [] \<longleftrightarrow> False"
| "some_suffix P (s # ss) \<longleftrightarrow> P (s # ss) \<or> some_suffix P ss"

lemma some_suffix_drop: "some_suffix P str \<longleftrightarrow> (\<exists>n < length str. P (drop n str))"
proof (induction str)
  case (Cons s ss)
  show ?case unfolding some_suffix.simps Cons.IH
    by (auto simp: Ex_less_Suc2)
qed simp

lemma glob_Star: "glob (Star # es) str \<longleftrightarrow> glob es [] \<or> some_suffix (glob es) str"
  unfolding some_suffix_drop glob.simps
  by (metis drop_all drop_eq_Nil le_eq_less_or_eq le_refl)

lemma glob_Star_Star: "glob (Star # Star # es) str \<longleftrightarrow> glob (Star # es) str"
proof
  assume "glob (Star # Star # es) str"
  then obtain n m where "n \<le> length str" "m \<le> length str - n" "glob es (drop m (drop n str))" by auto
  then show "glob (Star # es) str" by (auto intro!: exI [of _ "m + n"])
next
  assume "glob (Star # es) str"
  then obtain n where n: "n \<le> length str" "glob es (drop n str)" by auto
  then have "\<exists>m \<le> length (drop n str). glob es (drop m (drop n str))" by (intro exI [of _ 0]) simp
  then show "glob (Star # Star # es) str" using n(1) unfolding glob.simps by blast
qed

lemma glob_stars: "glob (Star # es) str \<longleftrightarrow> glob (Star # dropWhile (\<lambda>e. e = Star) es) str"
proof (induction es)
  case (Cons e es)
  then show ?case
    by (cases "e = Star") (simp_all del: glob.simps add: glob_Star_Star)
qed simp

lemma star_loop_some: "(\<And>s. m s = Some (P s)) \<Longrightarrow> star_loop m str = Some (some_suffix P str)"
  by (induction str) (auto split: bool.split)

lemma some_suffix_skip:
  "(\<And>s ss. P (s # ss) \<Longrightarrow> s = c) \<Longrightarrow> some_suffix P (dropWhile (\<lambda>s. s \<noteq> c) str) \<longleftrightarrow> some_suffix P str"
  by (induction str) auto

lemma render_stars:
  "list_all elem_ok es \<Longrightarrow> at_end rest \<Longrightarrow>
   dropWhile (\<lambda>c. c = CHR ''*'') (render es @ rest) = render (dropWhile (\<lambda>e. e = Star) es) @ rest"
proof (induction es)
  case Nil
  then show ?case by (cases rest) auto
next
  case (Cons e es)
  then show ?case by (cases e) auto
qed

lemma render_at_end: "list_all elem_ok es \<Longrightarrow> at_end rest \<Longrightarrow> at_end (render es @ rest) \<longleftrightarrow> es = []"
  by (cases es rule: render.cases) auto

lemma render_set_elem: "render (CharSet neg items lst # es) @ rest =
    CHR ''['' # (if neg then [CHR ''!''] else []) @ set_text items lst (render es @ rest)"
  by (simp add: set_text_def)

lemma matcher_glob:
  "list_all elem_ok es \<Longrightarrow> at_end rest \<Longrightarrow>
   o2_pattern_match str (render es @ rest) = Some (glob es str)"
proof (induction "length es" arbitrary: es str rule: less_induct)
  case less
  have IH: "o2_pattern_match s (render es' @ rest) = Some (glob es' s)"
    if "length es' < length es" "list_all elem_ok es'" for es' s
    using less.hyps [OF that(1,2) less.prems(2)] .
  show ?case
  proof (cases es)
    case Nil
    then show ?thesis using less.prems(2) by (simp add: pattern_end)
  next
    case (Cons e es1)
    have ok: "elem_ok e" "list_all elem_ok es1" using less.prems(1) Cons by auto
    note IH1 = IH [of es1]
    show ?thesis
    proof (cases e)
      case (Lit c)
      then show ?thesis using Cons ok IH1 by (auto simp: o2_pattern_match.simps(2))
    next
      case Any
      then show ?thesis using Cons ok IH1 by (auto simp: o2_pattern_match.simps(2))
    next
      case (CharSet neg items lst)
      have "match_set s ((if neg then [CHR ''!''] else []) @ set_text items lst q) =
        Some (if set_matches s items lst \<noteq> neg then Some q else None)" for s q
        using ok(1) CharSet by (intro match_set_text) simp
      then show ?thesis using Cons ok IH1
        unfolding Cons CharSet render_set_elem by (auto simp: o2_pattern_match.simps(2))
    next
      case Star
      define es2 where "es2 = dropWhile (\<lambda>e. e = Star) es1"
      let ?p = "render es2 @ rest"
      have ok2: "list_all elem_ok es2" using ok(2) set_dropWhileD by (fastforce simp: es2_def list_all_iff)
      have len: "length es2 < length es" using length_dropWhile_le [of "\<lambda>e. e = Star" es1] Cons
        by (simp add: es2_def)
      note IH2 = IH [OF len ok2]
      have g: "glob es str = glob (Star # es2) str" unfolding Cons Star es2_def by (rule glob_stars)
      have drop: "dropWhile (\<lambda>c. c = CHR ''*'') (render es1 @ rest) = ?p"
        unfolding es2_def by (rule render_stars [OF ok(2) less.prems(2)])
      have m: "o2_pattern_match str (render es @ rest) =
        (if at_end ?p then Some True else star_loop (\<lambda>s. o2_pattern_match s ?p) (star_skip ?p str))"
        by (simp add: Cons Star o2_pattern_match.simps(2) drop)
      show ?thesis
      proof (cases es2)
        case Nil
        have "glob [Star] str" by auto
        then show ?thesis using less.prems(2) unfolding m g Nil by simp
      next
        case (Cons f es3)
        have f: "f \<noteq> Star" using Cons hd_dropWhile [of "\<lambda>e. e = Star" es1] by (auto simp: es2_def)
        have "\<not> at_end ?p" using render_at_end [OF ok2 less.prems(2)] Cons by simp
        then have "o2_pattern_match str (render es @ rest) = Some (some_suffix (glob es2) (star_skip ?p str))"
          using star_loop_some [of "\<lambda>s. o2_pattern_match s ?p" "glob es2"] IH2 by (simp only: m if_False)
        also have "some_suffix (glob es2) (star_skip ?p str) = some_suffix (glob es2) str"
        proof (cases f)
          case (Lit c)
          then have "star_skip ?p str = dropWhile (\<lambda>s. s \<noteq> c) str \<or> star_skip ?p str = str"
            using Cons by (simp add: star_skip_def)
          moreover have "some_suffix (glob es2) (dropWhile (\<lambda>s. s \<noteq> c) str) = some_suffix (glob es2) str"
            by (rule some_suffix_skip) (simp add: Cons Lit)
          ultimately show ?thesis by auto
        qed (use Cons f in \<open>simp_all add: star_skip_def\<close>)
        also have "some_suffix (glob es2) str = glob es str"
        proof -
          have "\<not> glob es2 []" using Cons f by (cases f) auto
          then show ?thesis unfolding g glob_Star by simp
        qed
        finally show ?thesis .
      qed
    qed
  qed
qed

text \<open>C36: on every pattern without braces - literals, \<open>?\<close>, runs of \<open>*\<close>, and sets of characters
  and ranges, negated or not - the matcher, with its skipping and its search over the string,
  decides exactly the reference semantics, whatever follows the pattern in the address, and never
  reads behind the end of the pattern or the string.\<close>

theorem pattern_match_is_glob:
  assumes "list_all elem_ok es" "at_end rest"
  shows "o2_pattern_match str (render es @ rest) = Some (glob es str)"
  using assms by (rule matcher_glob)

theorem pattern_match_is_glob_witness:
  "o2_pattern_match ''azzbc'' (render [Lit CHR ''a'', Star, CharSet False [Range CHR ''a'' CHR ''f''] None, Any] @ ''/x'') =
   Some (glob [Lit CHR ''a'', Star, CharSet False [Range CHR ''a'' CHR ''f''] None, Any] ''azzbc'')"
  by (rule pattern_match_is_glob) simp_all

text \<open>What the reference semantics says of this pattern, and the text of the pattern.\<close>

lemma glob_example:
  "glob [Lit CHR ''a'', Star, CharSet False [Range CHR ''a'' CHR ''f''] None, Any] ''azzbc''"
  "render [Lit CHR ''a'', Star, CharSet False [Range CHR ''a'' CHR ''f''] None, Any] = ''a*[a-f]?''"
  by (simp_all add: glob_Star set_matches_def schar_less_def byte_of_def render_set_def del: glob.simps(5))

text \<open>A brace list loses alternatives. After an alternative matched but the rest of the pattern
  did not, the next one is tried without its first character: \<open>{a,ab}c\<close> does not match \<open>abc\<close>, and
  \<open>{a,b}ac\<close> matches \<open>ac\<close>, the second alternative having become empty.\<close>

theorem brace_alternative_shifted:
  "o2_pattern_match ''abc'' ''{a,ab}c'' = Some False \<and> o2_pattern_match ''ac'' ''{a,b}ac'' = Some True"
  by (simp add: o2_pattern_match.simps brace_list.simps)

text \<open>Patterns that end inside a construct are read past their terminating zero: the negated
  set \<open>[!\<close>, and a brace list whose last alternative is empty.\<close>

theorem pattern_overread:
  "o2_pattern_match ''a'' ''[!'' = None \<and> o2_pattern_match ''bx'' ''{b,}b'' = None"
  by (simp add: o2_pattern_match.simps brace_list.simps match_set_def)

text \<open>Brace lists work when alternatives differ in their first character and have more than
  one: then the list matches exactly one of them followed by the rest.\<close>

theorem brace_pair_match:
  assumes "a \<noteq> b" "list_all elem_ok es" "at_end rest"
    and "a \<notin> {CHR '','', CHR ''}'', CHR ''/''}" "b \<notin> {CHR '','', CHR ''}'', CHR ''/''}"
  shows "o2_pattern_match (b # str) (CHR ''{'' # a # CHR '','' # b # CHR ''}'' # render es @ rest) =
    Some (glob es str)"
  using assms matcher_glob [OF assms(2,3), of str]
  by (simp add: o2_pattern_match.simps(2) brace_list.simps)

theorem brace_pair_match_witness:
  "o2_pattern_match (CHR ''y'' # ''12'') (CHR ''{'' # CHR ''x'' # CHR '','' # CHR ''y'' # CHR ''}'' # render [Any, Star] @ []) =
    Some (glob [Any, Star] ''12'')"
  by (rule brace_pair_match) simp_all

end
