(* ===== verification/PathTree.thy ===== *)
theory PathTree
  imports HashTable PatternMatch
begin

text \<open>
  The path tree of a service (src/src/pathtree.cpp) and its leaves, the handlers (src/src/o2node.h
  and o2node.cpp): finding the handlers an address or an address pattern names, inserting a method
  and removing it. Function and data pointers of a handler are numbers. Deleting a node returns the
  handlers that die with it: each takes its entry in the full path table with it.
\<close>

section \<open>Nodes\<close>

datatype Handler_entry = Handler_entry (handler: nat) (user_data: nat) (full_path: "string option")
  (type_string: "string option") (types_len: nat) (coerce_flag: bool) (parse_args: bool)

datatype onode = Handler Handler_entry | Tree "onode Hash_node"

abbreviation ISA_HASH :: "onode \<Rightarrow> bool" where
  "ISA_HASH n \<equiv> (case n of Tree _ \<Rightarrow> True | Handler _ \<Rightarrow> False)"

text \<open>The handlers deleted with a node, in the order \<open>Hash_node::finish\<close> visits them.\<close>

primrec deleted :: "onode \<Rightarrow> Handler_entry list" where
  "deleted (Handler h) = [h]"
| "deleted (Tree t) = concat (map snd (entries (map_Hash_node deleted t)))"

text \<open>The copy of a handler for the full path table.\<close>

definition copy_handler :: "Handler_entry \<Rightarrow> Handler_entry" where
  "copy_handler src = Handler_entry (handler src) (user_data src) None (type_string src)
     (types_len src) (coerce_flag src) (parse_args src)"

section \<open>Invoking a handler\<close>

datatype 'a invocation = Type_Mismatch | Coercion_Failure | Call nat string "'a list" nat

text \<open>\<open>get_next\<close> is the extraction of one argument (\<open>o2_get_next\<close>), \<open>None\<close> its null pointer.\<close>

fun get_args :: "(char \<Rightarrow> 's \<Rightarrow> 'a option \<times> 's) \<Rightarrow> string \<Rightarrow> 's \<Rightarrow> 'a list option" where
  "get_args get_next [] s = Some []"
| "get_args get_next (c # typ) s =
     (case get_next c s of
        (None, _) \<Rightarrow> None
      | (Some a, s') \<Rightarrow> map_option (\<lambda>as. a # as) (get_args get_next typ s'))"

definition invoke :: "(char \<Rightarrow> 's \<Rightarrow> 'a option \<times> 's) \<Rightarrow> 's \<Rightarrow> Handler_entry \<Rightarrow> string \<Rightarrow> 'a invocation" where
  "invoke get_next start he types =
     (if (case type_string he of
            None \<Rightarrow> False
          | Some ts \<Rightarrow> types_len he \<noteq> length types \<or> \<not> (coerce_flag he \<or> ts = types))
      then Type_Mismatch
      else if parse_args he then
        let typ = (case type_string he of None \<Rightarrow> types | Some ts \<Rightarrow> ts) in
        case get_args get_next typ start of
          None \<Rightarrow> Coercion_Failure
        | Some argv \<Rightarrow> Call (handler he) typ argv (user_data he)
      else Call (handler he) types [] (user_data he))"

section \<open>Names\<close>

abbreviation O2_MAX_NODE_NAME_LEN :: nat where "O2_MAX_NODE_NAME_LEN \<equiv> 1020"
abbreviation NAME_BUF_LEN :: nat where "NAME_BUF_LEN \<equiv> O2_MAX_NODE_NAME_LEN + 4"

text \<open>The string that stands in the buffer afterwards: a long name is cut off.\<close>

definition o2_string_pad :: "string \<Rightarrow> string" where
  "o2_string_pad src =
     (let len = (if o2_strsize src \<ge> NAME_BUF_LEN then NAME_BUF_LEN else o2_strsize src) in
      take (NAME_BUF_LEN - 1) (take len src))"

lemma string_pad_short: "length s < NAME_BUF_LEN \<Longrightarrow> o2_string_pad s = s"
  using strsize_bounds(1) [of s] by (auto simp: o2_string_pad_def Let_def)

lemma string_pad_length: "length (o2_string_pad s) < NAME_BUF_LEN"
  by (simp add: o2_string_pad_def)

text \<open>The part of a path up to the next slash, and the part behind it.\<close>

definition has_slash :: "string \<Rightarrow> bool" where
  "has_slash r \<longleftrightarrow> CHR ''/'' \<in> set r"

definition segment :: "string \<Rightarrow> string" where
  "segment r = takeWhile (\<lambda>c. c \<noteq> CHR ''/'') r"

definition after_slash :: "string \<Rightarrow> string" where
  "after_slash r = tl (dropWhile (\<lambda>c. c \<noteq> CHR ''/'') r)"

lemma after_slash_less: "has_slash r \<Longrightarrow> length (after_slash r) < length r"
  by (induction r) (auto simp: has_slash_def after_slash_def)

lemma segment_slash: "CHR ''/'' \<notin> set s \<Longrightarrow> segment (s @ CHR ''/'' # r) = s \<and> after_slash (s @ CHR ''/'' # r) = r"
  by (induction s) (auto simp: segment_def after_slash_def)

lemma segment_no_slash: "\<not> has_slash r \<Longrightarrow> segment r = r"
  by (induction r) (auto simp: has_slash_def segment_def)

definition has_pattern :: "string \<Rightarrow> bool" where
  "has_pattern s \<longleftrightarrow> (\<exists>c \<in> set s. c \<in> {CHR ''*'', CHR ''?'', CHR ''['', CHR ''{''})"

section \<open>Finding handlers\<close>

text \<open>
  The handlers invoked, in order, and whether a message counts as delivered. \<open>None\<close> when the
  matcher reads behind the end of the address.
\<close>

type_synonym found = "bool \<times> Handler_entry list"

primrec visit :: "(string \<times> onode \<Rightarrow> found option) \<Rightarrow> (string \<times> onode) list \<Rightarrow> found option" where
  "visit f [] = Some (False, [])"
| "visit f (e # es) =
     Option.bind (f e) (\<lambda>(d, hs). map_option (\<lambda>(d', hs'). (d \<or> d', hs @ hs')) (visit f es))"

function o2_find_handlers_rec :: "string \<Rightarrow> onode Hash_node \<Rightarrow> found option" where
  "o2_find_handlers_rec remaining node =
     (if has_pattern (segment remaining) then
        visit (\<lambda>(key, entry).
          case o2_pattern_match key remaining of
            None \<Rightarrow> None
          | Some False \<Rightarrow> Some (False, [])
          | Some True \<Rightarrow>
              (case entry of
                 Tree t \<Rightarrow> if has_slash remaining then o2_find_handlers_rec (after_slash remaining) t
                           else Some (False, [])
               | Handler h \<Rightarrow> if has_slash remaining then Some (False, []) else Some (True, [h])))
          (entries node)
      else
        case hash_find (o2_string_pad (segment remaining)) node of
          None \<Rightarrow> Some (False, [])
        | Some (Tree t) \<Rightarrow> if has_slash remaining then o2_find_handlers_rec (after_slash remaining) t
                           else Some (False, [])
        | Some (Handler h) \<Rightarrow> if has_slash remaining then Some (False, []) else Some (True, [h]))"
  by pat_completeness auto
termination
  by (relation "measure (\<lambda>(r, t). length r)") (auto simp: after_slash_less)

declare o2_find_handlers_rec.simps [simp del]

section \<open>Inserting a path\<close>

text \<open>A node object is modified in place: the table that holds it does not change otherwise.\<close>

definition set_node :: "string \<Rightarrow> 'v \<Rightarrow> 'v Hash_node \<Rightarrow> 'v Hash_node" where
  "set_node key v t = Hash_node (num_children t)
     (map (map (\<lambda>(k, x). if k = key then (k, v) else (k, x))) (children t))"

text \<open>Returns the tree node for the key, what was deleted for it, and the table.\<close>

definition tree_insert_node :: "string \<Rightarrow> onode Hash_node \<Rightarrow>
    (onode Hash_node \<times> Handler_entry list \<times> onode Hash_node) option" where
  "tree_insert_node key t =
     (let (ptr, t) = lookup key t;
          new = (\<lambda>t. map_option (\<lambda>t. (new_Hash_node, t)) (entry_insert_at ptr (key, Tree new_Hash_node) t)) in
      case deref ptr t of
        Some (_, Tree sub) \<Rightarrow> Some (sub, [], t)
      | Some (_, Handler h) \<Rightarrow> map_option (\<lambda>(s, t). (s, [h], t)) (new (unlink ptr t))
      | None \<Rightarrow> map_option (\<lambda>(s, t). (s, [], t)) (new t))"

text \<open>The loop of \<open>o2_method_new_internal\<close> over the nodes of the path, and the insertion at its end.\<close>

function insert_path :: "string \<Rightarrow> Handler_entry \<Rightarrow> onode Hash_node \<Rightarrow>
    (Handler_entry list \<times> onode Hash_node) option" where
  "insert_path remaining h t =
     (if has_slash remaining then
        let name = o2_string_pad (segment remaining) in
        case tree_insert_node name t of
          None \<Rightarrow> None
        | Some (sub, del, t) \<Rightarrow>
            map_option (\<lambda>(del', sub). (del @ del', set_node name (Tree sub) t))
              (insert_path (after_slash remaining) h sub)
      else
        map_option (\<lambda>t'. ((case hash_find remaining t of None \<Rightarrow> [] | Some n \<Rightarrow> deleted n), t'))
          (hash_insert (remaining, Handler h) t))"
  by pat_completeness auto
termination
  by (relation "measure (\<lambda>(r, h, t). length r)") (auto simp: after_slash_less)

declare insert_path.simps [simp del]

section \<open>Removing a path\<close>

function remove_method_from_tree :: "string \<Rightarrow> onode Hash_node \<Rightarrow>
    (O2err \<times> Handler_entry list \<times> onode Hash_node) option" where
  "remove_method_from_tree remaining node =
     (let name = o2_string_pad (segment remaining);
          (entry_ptr, node) = lookup name node in
      case deref entry_ptr node of
        None \<Rightarrow> Some (O2_FAIL, [], node)
      | Some (_, e) \<Rightarrow>
          if \<not> has_slash remaining then
            map_option (\<lambda>node. (O2_SUCCESS, deleted e, node)) (entry_remove entry_ptr True node)
          else (case e of
              Handler h \<Rightarrow> Some (O2_FAIL, [], node)
            | Tree hn \<Rightarrow>
                (case remove_method_from_tree (after_slash remaining) hn of
                   None \<Rightarrow> None
                 | Some (rslt, del, hn) \<Rightarrow>
                     if is_empty hn then
                       map_option (\<lambda>node. (rslt, del @ deleted (Tree hn), node))
                         (entry_remove entry_ptr True (set_node name (Tree hn) node))
                     else Some (rslt, del, set_node name (Tree hn) node))))"
  by pat_completeness auto
termination
  by (relation "measure (\<lambda>(r, t). length r)") (auto simp: after_slash_less)

declare remove_method_from_tree.simps [simp del]

section \<open>Well-formed trees and the handler at a path\<close>

inductive tree_ok :: "onode \<Rightarrow> bool" where
  leaf: "tree_ok (Handler h)"
| node: "hash_ok t \<Longrightarrow> (\<And>k n. (k, n) \<in> set (entries t) \<Longrightarrow> tree_ok n) \<Longrightarrow> tree_ok (Tree t)"

inductive_cases tree_ok_TreeE: "tree_ok (Tree t)"
inductive_simps tree_ok_Tree: "tree_ok (Tree t)"
inductive_simps tree_ok_Handler: "tree_ok (Handler h)"

declare tree_ok_Handler [simp]

fun tree_at :: "onode \<Rightarrow> string list \<Rightarrow> Handler_entry option" where
  "tree_at (Handler h) [] = Some h"
| "tree_at (Tree t) (s # ss) = (case table_map t s of None \<Rightarrow> None | Some n \<Rightarrow> tree_at n ss)"
| "tree_at _ _ = None"

section \<open>Finding: what is invoked\<close>

definition name_matches :: "string \<Rightarrow> string \<Rightarrow> bool" where
  "name_matches remaining key \<longleftrightarrow>
     (if has_pattern (segment remaining) then o2_pattern_match key remaining = Some True
      else key = o2_string_pad (segment remaining))"

inductive reaches :: "string \<Rightarrow> onode Hash_node \<Rightarrow> Handler_entry \<Rightarrow> bool" where
  here: "\<not> has_slash r \<Longrightarrow> table_map t key = Some (Handler h) \<Longrightarrow> name_matches r key \<Longrightarrow> reaches r t h"
| below: "has_slash r \<Longrightarrow> table_map t key = Some (Tree t') \<Longrightarrow> name_matches r key \<Longrightarrow>
    reaches (after_slash r) t' h \<Longrightarrow> reaches r t h"

inductive_simps reaches_iff: "reaches r t h"

lemma visit_some:
  "visit f es = Some (d, hs) \<Longrightarrow>
   (\<forall>e \<in> set es. f e \<noteq> None) \<and> set hs = (\<Union>e \<in> set es. set (snd (the (f e)))) \<and>
   (d \<longleftrightarrow> (\<exists>e \<in> set es. fst (the (f e))))"
proof (induction es arbitrary: d hs)
  case (Cons e es)
  then obtain d1 h1 d2 h2 where "f e = Some (d1, h1)" "visit f es = Some (d2, h2)" "d = (d1 \<or> d2)" "hs = h1 @ h2"
    by (auto simp: bind_eq_Some_conv)
  then show ?case using Cons.IH [of d2 h2] by auto
qed simp

lemma entries_table_map: "hash_ok t \<Longrightarrow> (k, n) \<in> set (entries t) \<longleftrightarrow> table_map t k = Some n"
  by (simp add: hash_ok_def table_map_def)

lemma tree_ok_child: "tree_ok (Tree t) \<Longrightarrow> table_map t k = Some n \<Longrightarrow> tree_ok n"
  by (auto simp: tree_ok_Tree table_map_def dest: map_of_SomeD)

lemma tree_ok_hash: "tree_ok (Tree t) \<Longrightarrow> hash_ok t"
  by (simp add: tree_ok_Tree)

text \<open>What one node of the table contributes.\<close>

definition node_found :: "string \<Rightarrow> onode \<Rightarrow> found option" where
  "node_found r n = (case n of
     Tree t \<Rightarrow> if has_slash r then o2_find_handlers_rec (after_slash r) t else Some (False, [])
   | Handler h \<Rightarrow> if has_slash r then Some (False, []) else Some (True, [h]))"

lemma find_handlers_node:
  "o2_find_handlers_rec r t =
     (if has_pattern (segment r) then
        visit (\<lambda>(key, n). case o2_pattern_match key r of
            None \<Rightarrow> None | Some False \<Rightarrow> Some (False, []) | Some True \<Rightarrow> node_found r n) (entries t)
      else case hash_find (o2_string_pad (segment r)) t of
          None \<Rightarrow> Some (False, []) | Some n \<Rightarrow> node_found r n)"
  unfolding o2_find_handlers_rec.simps [of r t] node_found_def
  by (auto split: option.split onode.split intro!: arg_cong [where f = "\<lambda>f. visit f _"] ext)

definition node_reaches :: "string \<Rightarrow> onode \<Rightarrow> Handler_entry \<Rightarrow> bool" where
  "node_reaches r n h \<longleftrightarrow> (case n of Tree t \<Rightarrow> has_slash r \<and> reaches (after_slash r) t h
     | Handler h' \<Rightarrow> \<not> has_slash r \<and> h = h')"

lemma reaches_node: "reaches r t h \<longleftrightarrow> (\<exists>key n. table_map t key = Some n \<and> name_matches r key \<and> node_reaches r n h)"
proof
  assume "reaches r t h"
  then show "\<exists>key n. table_map t key = Some n \<and> name_matches r key \<and> node_reaches r n h"
    by cases (fastforce simp: node_reaches_def)+
next
  assume "\<exists>key n. table_map t key = Some n \<and> name_matches r key \<and> node_reaches r n h"
  then obtain key n where "table_map t key = Some n" "name_matches r key" "node_reaches r n h" by blast
  then show "reaches r t h" by (cases n) (auto simp: node_reaches_def intro: reaches.intros)
qed

definition found_ok :: "found \<Rightarrow> Handler_entry set \<Rightarrow> bool" where
  "found_ok r H \<longleftrightarrow> set (snd r) = H \<and> (fst r \<longleftrightarrow> snd r \<noteq> [])"

lemma find_handlers_found:
  "o2_find_handlers_rec r t = Some res \<Longrightarrow> tree_ok (Tree t) \<Longrightarrow> found_ok res {h. reaches r t h}"
proof (induction "length r" arbitrary: r t res rule: less_induct)
  case less
  have ok: "hash_ok t" by (rule tree_ok_hash [OF less.prems(2)])
  have node: "found_ok res' {h. node_reaches r n h}"
    if "node_found r n = Some res'" "table_map t key = Some n" for n key res'
  proof (cases n)
    case (Tree t')
    have "tree_ok (Tree t')" using tree_ok_child [OF less.prems(2) that(2)] Tree by simp
    then show ?thesis using that(1) Tree less.hyps [of "after_slash r" t'] after_slash_less [of r]
      by (auto simp: node_found_def node_reaches_def found_ok_def split: if_splits)
  next
    case (Handler h')
    then show ?thesis using that(1) by (auto simp: node_found_def node_reaches_def found_ok_def split: if_splits)
  qed
  show ?case
  proof (cases "has_pattern (segment r)")
    case True
    let ?f = "\<lambda>(key, n). case o2_pattern_match key r of
            None \<Rightarrow> None | Some False \<Rightarrow> Some (False, []) | Some True \<Rightarrow> node_found r n"
    obtain d hs where res: "res = (d, hs)" by fastforce
    have v: "visit ?f (entries t) = Some (d, hs)"
      using less.prems(1) True res by (simp add: find_handlers_node [of r t])
    note vs = visit_some [OF v]
    have each: "found_ok (the (?f (k, n))) {h. name_matches r k \<and> node_reaches r n h}"
      if "(k, n) \<in> set (entries t)" for k n
    proof -
      have "?f (k, n) \<noteq> None" using vs that by blast
      then obtain b where b: "o2_pattern_match k r = Some b" by (auto split: option.splits)
      have "table_map t k = Some n" using that entries_table_map [OF ok] by blast
      then show ?thesis using True b \<open>?f (k, n) \<noteq> None\<close> node [of n _ k]
        by (cases b) (auto simp: name_matches_def found_ok_def)
    qed
    have "set hs = {h. reaches r t h}"
    proof -
      have "set hs = (\<Union>e \<in> set (entries t). set (snd (the (?f e))))" using vs by blast
      also have "\<dots> = (\<Union>e \<in> set (entries t). {h. name_matches r (fst e) \<and> node_reaches r (snd e) h})"
        using each by (intro SUP_cong) (auto simp: found_ok_def split: prod.splits)
      also have "\<dots> = {h. \<exists>k n. (k, n) \<in> set (entries t) \<and> name_matches r k \<and> node_reaches r n h}"
        by force
      also have "\<dots> = {h. reaches r t h}" unfolding reaches_node [of r t] entries_table_map [OF ok] by simp
      finally show ?thesis .
    qed
    moreover have "d \<longleftrightarrow> hs \<noteq> []"
    proof -
      have "d \<longleftrightarrow> (\<exists>e \<in> set (entries t). fst (the (?f e)))" using vs by blast
      also have "\<dots> \<longleftrightarrow> (\<exists>e \<in> set (entries t). snd (the (?f e)) \<noteq> [])"
        using each by (intro bex_cong) (auto simp: found_ok_def split: prod.splits)
      also have "\<dots> \<longleftrightarrow> set hs \<noteq> {}" using vs by auto
      finally show ?thesis by simp
    qed
    ultimately show ?thesis by (simp add: res found_ok_def)
  next
    case False
    let ?k = "o2_string_pad (segment r)"
    have eq: "reaches r t h \<longleftrightarrow> (\<exists>n. table_map t ?k = Some n \<and> node_reaches r n h)" for h
      using False by (auto simp: reaches_node [of r t] name_matches_def)
    show ?thesis
    proof (cases "table_map t ?k")
      case None
      then show ?thesis using less.prems(1) False ok eq
        by (auto simp: find_handlers_node [of r t] hash_find found_ok_def)
    next
      case (Some n)
      then have "node_found r n = Some res"
        using less.prems(1) False ok by (simp add: find_handlers_node [of r t] hash_find)
      moreover have "{h. reaches r t h} = {h. node_reaches r n h}" using Some eq by auto
      ultimately show ?thesis using node [OF _ Some] by simp
    qed
  qed
qed

text \<open>C24: delivering to an address pattern invokes exactly the handlers whose path matches it, node
  by node - by the glob matcher where the node of the pattern has pattern characters, by equality
  (after truncation to the name buffer) otherwise - and reports delivery iff there is one.\<close>

theorem find_handlers_correct:
  assumes "tree_ok (Tree t)" "o2_find_handlers_rec r t = Some (delivered, hs)"
  shows "set hs = {h. reaches r t h} \<and> (delivered \<longleftrightarrow> hs \<noteq> [])"
  using find_handlers_found [OF assms(2,1)] by (simp add: found_ok_def)

section \<open>Changing one node\<close>

lemma set_node_length [simp]: "length (children (set_node k v t)) = length (children t)"
  by (simp add: set_node_def)

lemma entries_set_node: "entries (set_node k v t) = map (\<lambda>(j, x). if j = k then (j, v) else (j, x)) (entries t)"
  by (simp add: set_node_def entries_def map_concat)

lemma fst_set_node: "map fst (map (\<lambda>(j, x). if j = k then (j, v) else (j, x)) es) = map fst es"
  by (induction es) auto

lemma map_of_set_node:
  "map_of (map (\<lambda>(j, x). if j = k then (j, v) else (j, x)) es) i =
   (if i = k \<and> k \<in> dom (map_of es) then Some v else map_of es i)"
  by (induction es) auto

lemma set_node_ok:
  assumes "hash_ok t"
  shows "hash_ok (set_node k v t)"
    "table_map (set_node k v t) i = (if i = k \<and> k \<in> dom (table_map t) then Some v else table_map t i)"
proof -
  have "slot (fst e) (length (children t)) = j"
    if "j < length (children t)" "e \<in> set (children (set_node k v t) ! j)" for j e
  proof -
    from that obtain x where "(fst e, x) \<in> set (children t ! j)"
      by (auto simp: set_node_def split: if_splits)
    then show ?thesis using assms that(1) unfolding hash_ok_def by force
  qed
  then show "hash_ok (set_node k v t)"
    using assms unfolding hash_ok_def set_node_length entries_set_node fst_set_node
    by (simp add: set_node_def)
  show "table_map (set_node k v t) i = (if i = k \<and> k \<in> dom (table_map t) then Some v else table_map t i)"
    unfolding table_map_def entries_set_node by (rule map_of_set_node)
qed

lemma chain_pos_set_node:
  "chain_pos key (map (\<lambda>(j, x). if j = k then (j, v) else (j, x)) es) = chain_pos key es"
  by (induction es) (auto split: if_splits)

lemma lookup_set_node:
  assumes "hash_ok t" "children t \<noteq> []"
  shows "lookup key (set_node k v t) = (fst (lookup key t), set_node k v t)"
  using assms slot_less [of "length (children t)" key]
  by (auto simp: lookup_def Let_def set_node_def chain_pos_set_node)

section \<open>Inserting\<close>

lemma tree_at_hash: "tree_at (Tree t) p = (case p of [] \<Rightarrow> None | s # ss \<Rightarrow>
    (case table_map t s of None \<Rightarrow> None | Some n \<Rightarrow> tree_at n ss))"
  by (cases p) auto

lemma tree_at_Handler: "tree_at (Handler h) p = (if p = [] then Some h else None)"
  by (cases p) auto

lemma new_tree_ok: "tree_ok (Tree new_Hash_node)"
  by (simp add: tree_ok_Tree new_Hash_node_ok) (simp add: new_Hash_node_def)

lemma tree_at_new: "tree_at (Tree new_Hash_node) p = None"
  by (simp add: tree_at_hash new_Hash_node_ok split: list.split)

text \<open>The new node is the value an insertion maps the key to.\<close>

lemma tree_insert_node_props:
  assumes "hash_ok t"
  shows "\<exists>sub del t'. tree_insert_node key t = Some (sub, del, t') \<and> hash_ok t' \<and>
     table_map t' = (table_map t)(key \<mapsto> Tree sub) \<and>
     (table_map t key = Some (Tree sub) \<or>
      sub = new_Hash_node \<and> (\<forall>s. table_map t key \<noteq> Some (Tree s)))"
proof -
  obtain ptr t0 where lk: "lookup key t = (ptr, t0)" by fastforce
  have k: "keyed t" using assms by (simp add: hash_ok_keyed)
  note l = lookup_props [OF lk k]
  have d: "deref ptr t0 = map_option (\<lambda>v. (key, v)) (table_map t key)" by (rule deref_lookup [OF k lk])
  obtain t1 where ins: "hash_insert (key, Tree new_Hash_node) t = Some t1" "hash_ok t1"
     "table_map t1 = (table_map t)(key \<mapsto> Tree new_Hash_node)"
    using names.insert [OF assms, of "(key, Tree new_Hash_node)"] by auto
  have eq: "hash_insert (key, Tree new_Hash_node) t =
      entry_insert_at ptr (key, Tree new_Hash_node) (if deref ptr t0 \<noteq> None then unlink ptr t0 else t0)"
    by (simp add: hash_insert_def insert_using_def entry_insert_at_def lk)
  have t0: "hash_ok t0" "table_map t0 = table_map t" using l assms by (auto simp: hash_ok_keyed table_map_def)
  consider s where "table_map t key = Some (Tree s)" | "\<forall>s. table_map t key \<noteq> Some (Tree s)" by blast
  then show ?thesis
  proof cases
    case (1 s)
    then show ?thesis using d lk t0 by (auto simp: tree_insert_node_def fun_upd_idem)
  next
    case 2
    then show ?thesis using d lk ins eq
      by (cases "table_map t key") (auto simp: tree_insert_node_def split: onode.splits)
  qed
qed

lemma hash_ok_tree: "hash_ok t' \<Longrightarrow> (\<And>k n. table_map t' k = Some n \<Longrightarrow> tree_ok n) \<Longrightarrow> tree_ok (Tree t')"
  by (metis entries_table_map tree_ok.node)

text \<open>Node names of a literal path: no slash, and short enough for the buffer.\<close>

definition node_name :: "string \<Rightarrow> bool" where
  "node_name s \<longleftrightarrow> \<not> has_slash s \<and> length s < NAME_BUF_LEN"

fun join :: "string list \<Rightarrow> string" where
  "join [] = []"
| "join [s] = s"
| "join (s # ss) = s @ CHR ''/'' # join ss"

lemma join_Cons: "ss \<noteq> [] \<Longrightarrow> join (s # ss) = s @ CHR ''/'' # join ss"
  by (cases ss) auto

lemma join_parts:
  assumes "node_name s" "ss \<noteq> []"
  shows "has_slash (join (s # ss))" "segment (join (s # ss)) = s" "after_slash (join (s # ss)) = join ss"
    "o2_string_pad s = s"
  using assms segment_slash [of s "join ss"] string_pad_short [of s]
  by (auto simp: join_Cons node_name_def has_slash_def)

abbreviation prefix_of :: "string list \<Rightarrow> string list \<Rightarrow> bool" where
  "prefix_of p q \<equiv> take (length p) q = p"

lemma insert_path_all:
  "names \<noteq> [] \<Longrightarrow> list_all node_name names \<Longrightarrow> tree_ok (Tree t) \<Longrightarrow>
   \<exists>del t'. insert_path (join names) h t = Some (del, t') \<and> tree_ok (Tree t') \<and>
     (\<forall>p. tree_at (Tree t') p =
        (if p = names then Some h
         else if prefix_of names p \<or> prefix_of p names then None else tree_at (Tree t) p))"
proof (induction names arbitrary: t)
  case Nil
  then show ?case by simp
next
  case (Cons s ss)
  have ok: "hash_ok t" by (rule tree_ok_hash [OF Cons.prems(3)])
  show ?case
  proof (cases "ss = []")
    case True
    obtain t' where t': "hash_insert (s, Handler h) t = Some t'" "hash_ok t'"
      "table_map t' = (table_map t)(s \<mapsto> Handler h)"
      using names.insert [OF ok, of "(s, Handler h)"] by auto
    have "\<not> has_slash s" using Cons.prems(2) by (simp add: node_name_def)
    moreover have "tree_ok (Tree t')"
      using t' tree_ok_child [OF Cons.prems(3)] by (intro hash_ok_tree) (auto split: if_splits)
    moreover have "tree_at (Tree t') p = (if p = [s] then Some h
         else if prefix_of [s] p \<or> prefix_of p [s] then None else tree_at (Tree t) p)" for p
      using t'(3) by (cases p) (auto simp: tree_at_Handler take_Cons' split: if_splits)
    ultimately show ?thesis using True t'(1) by (simp add: insert_path.simps [of s])
  next
    case False
    note parts = join_parts [OF _ False, of s]
    have nm: "node_name s" "list_all node_name ss" using Cons.prems(2) by auto
    obtain sub del t1 where t1: "tree_insert_node s t = Some (sub, del, t1)" "hash_ok t1"
      "table_map t1 = (table_map t)(s \<mapsto> Tree sub)"
      "table_map t s = Some (Tree sub) \<or> sub = new_Hash_node \<and> (\<forall>u. table_map t s \<noteq> Some (Tree u))"
      using tree_insert_node_props [OF ok, of s] by blast
    have sub_ok: "tree_ok (Tree sub)"
      using t1(4) tree_ok_child [OF Cons.prems(3)] new_tree_ok by auto
    obtain del' sub' where s': "insert_path (join ss) h sub = Some (del', sub')" "tree_ok (Tree sub')"
      "\<And>p. tree_at (Tree sub') p = (if p = ss then Some h
         else if prefix_of ss p \<or> prefix_of p ss then None else tree_at (Tree sub) p)"
      using Cons.IH [OF False nm(2) sub_ok] by blast
    let ?t' = "set_node s (Tree sub') t1"
    note sn = set_node_ok [OF t1(2), of s "Tree sub'"]
    have tm: "table_map ?t' = (table_map t)(s \<mapsto> Tree sub')" using sn(2) t1(3) by (auto simp: fun_eq_iff)
    have "insert_path (join (s # ss)) h t = Some (del @ del', ?t')"
      using parts [OF nm(1)] t1(1) s'(1) by (simp add: insert_path.simps [of "join (s # ss)"] Let_def)
    moreover have "tree_ok (Tree ?t')"
      using sn(1) tm s'(2) tree_ok_child [OF Cons.prems(3)] by (intro hash_ok_tree) (auto split: if_splits)
    moreover have "tree_at (Tree ?t') p = (if p = s # ss then Some h
         else if prefix_of (s # ss) p \<or> prefix_of p (s # ss) then None else tree_at (Tree t) p)" for p
    proof (cases p)
      case Nil
      then show ?thesis by simp
    next
      case (Cons a q)
      have "tree_at (Tree sub) q = (case table_map t s of None \<Rightarrow> None | Some n \<Rightarrow> tree_at n q)"
        if "q \<noteq> []"
        using t1(4) that by (cases "table_map t s")
          (auto simp: tree_at_new tree_at_Handler split: onode.splits, metis onode.exhaust tree_at_Handler that)
      then show ?thesis using Cons tm s'(3) [of q] by (cases "q = []") auto
    qed
    ultimately show ?thesis by blast
  qed
qed

text \<open>Installing a method at a path always succeeds, keeps every table of the tree well formed,
  makes the handler the one found at this path, and removes exactly the handlers that the new path
  hides (on the way to it or below it); all other paths keep their handlers.\<close>

theorem insert_path_correct:
  assumes "names \<noteq> []" "list_all node_name names" "tree_ok (Tree t)"
  shows "\<exists>del t'. insert_path (join names) h t = Some (del, t') \<and> tree_ok (Tree t') \<and>
     (\<forall>p. tree_at (Tree t') p =
        (if p = names then Some h
         else if prefix_of names p \<or> prefix_of p names then None else tree_at (Tree t) p))"
  using assms by (rule insert_path_all)

definition sample_handler :: Handler_entry where
  "sample_handler = Handler_entry 1 0 None None 0 False False"

theorem insert_path_correct_witness:
  "\<exists>del t'. insert_path (join [''a'', ''b'']) sample_handler new_Hash_node = Some (del, t') \<and> tree_ok (Tree t') \<and>
     (\<forall>p. tree_at (Tree t') p =
        (if p = [''a'', ''b''] then Some sample_handler
         else if prefix_of [''a'', ''b''] p \<or> prefix_of p [''a'', ''b''] then None
         else tree_at (Tree new_Hash_node) p))"
  by (rule insert_path_correct) (simp_all add: node_name_def has_slash_def new_tree_ok)

text \<open>A tree with one handler, to show that the statements are about something.\<close>

definition sample_tree :: "onode Hash_node" where
  "sample_tree = snd (the (insert_path (join [''a'', ''b'']) sample_handler new_Hash_node))"

lemma sample_tree: "tree_ok (Tree sample_tree)" "tree_at (Tree sample_tree) [''a'', ''b''] = Some sample_handler"
  using insert_path_all [of "[''a'', ''b'']" new_Hash_node sample_handler]
  by (auto simp: node_name_def has_slash_def new_tree_ok sample_tree_def simp del: tree_at.simps)

section \<open>Finding a literal path\<close>

lemma find_exact:
  "names \<noteq> [] \<Longrightarrow> list_all node_name names \<Longrightarrow> list_all (\<lambda>s. \<not> has_pattern s) names \<Longrightarrow>
   tree_ok (Tree t) \<Longrightarrow>
   o2_find_handlers_rec (join names) t =
     Some (case tree_at (Tree t) names of None \<Rightarrow> (False, []) | Some h \<Rightarrow> (True, [h]))"
proof (induction names arbitrary: t)
  case Nil
  then show ?case by simp
next
  case (Cons s ss)
  have ok: "hash_ok t" by (rule tree_ok_hash [OF Cons.prems(4)])
  have s: "\<not> has_slash s" "o2_string_pad s = s" "\<not> has_pattern s"
    using Cons.prems(2,3) by (auto simp: node_name_def string_pad_short)
  show ?case
  proof (cases "ss = []")
    case True
    then show ?thesis using s ok segment_no_slash [OF s(1)]
      by (auto simp: o2_find_handlers_rec.simps [of s] hash_find split: option.splits onode.splits)
  next
    case False
    have nm: "node_name s" using Cons.prems(2) by simp
    note parts = join_parts [OF nm False]
    have IH: "o2_find_handlers_rec (join ss) t' =
      Some (case tree_at (Tree t') ss of None \<Rightarrow> (False, []) | Some h \<Rightarrow> (True, [h]))"
      if "table_map t s = Some (Tree t')" for t'
      using Cons.IH [OF False] Cons.prems tree_ok_child [OF Cons.prems(4) that] by simp
    show ?thesis
      using IH s ok parts False
      by (auto simp: o2_find_handlers_rec.simps [of "join (s # ss)"] hash_find tree_at_Handler
          split: option.split onode.split)
  qed
qed

text \<open>An address without pattern characters reaches the handler at its path and no other; if
  there is none, nothing is invoked and the message is not delivered.\<close>

theorem find_handlers_exact:
  assumes "names \<noteq> []" "list_all node_name names" "list_all (\<lambda>s. \<not> has_pattern s) names"
    and "tree_ok (Tree t)"
  shows "o2_find_handlers_rec (join names) t =
     Some (case tree_at (Tree t) names of None \<Rightarrow> (False, []) | Some h \<Rightarrow> (True, [h]))"
  using assms by (rule find_exact)

theorem find_handlers_exact_witness:
  "o2_find_handlers_rec (join [''a'', ''b'']) sample_tree =
     Some (case tree_at (Tree sample_tree) [''a'', ''b''] of None \<Rightarrow> (False, []) | Some h \<Rightarrow> (True, [h]))"
  by (rule find_handlers_exact)
    (simp_all add: node_name_def has_slash_def has_pattern_def sample_tree(1))

lemma find_sample: "o2_find_handlers_rec (join [''a'', ''b'']) sample_tree = Some (True, [sample_handler])"
  using find_exact [of "[''a'', ''b'']" sample_tree]
  by (simp add: node_name_def has_slash_def has_pattern_def sample_tree del: tree_at.simps)

theorem find_handlers_correct_witness:
  "set [sample_handler] = {h. reaches (join [''a'', ''b'']) sample_tree h} \<and> (True \<longleftrightarrow> [sample_handler] \<noteq> [])"
  by (rule find_handlers_correct [OF sample_tree(1) find_sample])

section \<open>Removing\<close>

lemma entry_remove_at:
  assumes "hash_ok t" "lookup key t = (ptr, t0)" "table_map t key = Some n"
  shows "\<exists>t'. entry_remove ptr True t0 = Some t' \<and> hash_ok t' \<and> table_map t' = (table_map t)(key := None)"
proof -
  have k: "keyed t" using assms(1) by (simp add: hash_ok_keyed)
  have "deref ptr t0 = Some (key, n)" using deref_lookup [OF k assms(2)] assms(3) by simp
  then show ?thesis using entry_remove_all [OF assms(1), of False key] assms(2)
    by (auto simp: entry_remove_by_name_def)
qed

lemma tree_at_empty: "hash_ok t \<Longrightarrow> is_empty t \<Longrightarrow> tree_at (Tree t) p = None"
proof -
  assume "hash_ok t" "is_empty t"
  then have "entries t = []" by (auto simp: hash_ok_def is_empty_def)
  then show ?thesis by (cases p) (simp_all add: table_map_def)
qed

lemma remove_all:
  "names \<noteq> [] \<Longrightarrow> list_all node_name names \<Longrightarrow> tree_ok (Tree t) \<Longrightarrow>
   \<exists>r del t'. remove_method_from_tree (join names) t = Some (r, del, t') \<and> tree_ok (Tree t') \<and>
     (\<forall>p. tree_at (Tree t') p = (if prefix_of names p then None else tree_at (Tree t) p)) \<and>
     (tree_at (Tree t) names \<noteq> None \<longrightarrow> r = O2_SUCCESS)"
proof (induction names arbitrary: t)
  case Nil
  then show ?case by simp
next
  case (Cons s ss)
  have ok: "hash_ok t" by (rule tree_ok_hash [OF Cons.prems(3)])
  obtain ptr t0 where lk: "lookup s t = (ptr, t0)" by fastforce
  have k: "keyed t" using ok by (simp add: hash_ok_keyed)
  note l = lookup_props [OF lk k]
  have d: "deref ptr t0 = map_option (\<lambda>v. (s, v)) (table_map t s)" by (rule deref_lookup [OF k lk])
  have t0: "hash_ok t0" "table_map t0 = table_map t" using l ok by (auto simp: hash_ok_keyed table_map_def)
  have t0_ok: "tree_ok (Tree t0)"
    using t0 tree_ok_child [OF Cons.prems(3)] by (intro hash_ok_tree) auto
  have same0: "tree_at (Tree t0) p = tree_at (Tree t) p" for p
    by (cases p) (simp_all add: t0(2))
  have nm: "node_name s" "\<not> has_slash s" "o2_string_pad s = s"
    using Cons.prems(2) by (auto simp: node_name_def string_pad_short)
  have gone: "tree_at (Tree t) p = None"
    if "prefix_of (s # ss) p" "table_map t s = None \<or> (\<exists>h. table_map t s = Some (Handler h)) \<and> ss \<noteq> []" for p
    using that by (cases p) (auto simp: tree_at_Handler)
  show ?case
  proof (cases "ss = []")
    case True
    note rm = remove_method_from_tree.simps [of s t]
    show ?thesis
    proof (cases "table_map t s")
      case None
      then have "remove_method_from_tree s t = Some (O2_FAIL, [], t0)"
        using d lk nm segment_no_slash [OF nm(2)] by (simp add: rm)
      moreover have "tree_at (Tree t0) p = (if prefix_of [s] p then None else tree_at (Tree t) p)" for p
        using gone [of p] None True same0 by auto
      moreover have "tree_at (Tree t) [s] = None" using None by simp
      ultimately show ?thesis using True t0_ok by auto
    next
      case (Some n)
      obtain t' where t': "entry_remove ptr True t0 = Some t'" "hash_ok t'" "table_map t' = (table_map t)(s := None)"
        using entry_remove_at [OF ok lk Some] by blast
      then have "remove_method_from_tree s t = Some (O2_SUCCESS, deleted n, t')"
        using d lk nm Some segment_no_slash [OF nm(2)] by (simp add: rm)
      moreover have "tree_ok (Tree t')"
        using t' tree_ok_child [OF Cons.prems(3)] by (intro hash_ok_tree) (auto split: if_splits)
      moreover have "tree_at (Tree t') p = (if prefix_of [s] p then None else tree_at (Tree t) p)" for p
        using t'(3) by (cases p) auto
      ultimately show ?thesis using True by auto
    qed
  next
    case False
    note parts = join_parts [OF nm(1) False]
    note rm = remove_method_from_tree.simps [of "join (s # ss)" t]
    show ?thesis
    proof (cases "\<exists>hn. table_map t s = Some (Tree hn)")
      case no: False
      then have "remove_method_from_tree (join (s # ss)) t = Some (O2_FAIL, [], t0)"
        using d lk parts by (auto simp: rm split: option.split onode.split)
      moreover have none: "table_map t s = None \<or> (\<exists>h. table_map t s = Some (Handler h)) \<and> ss \<noteq> []"
        using no False by (metis not_None_eq onode.exhaust)
      moreover have "tree_at (Tree t0) p = (if prefix_of (s # ss) p then None else tree_at (Tree t) p)" for p
        using gone [OF _ none, of p] same0 by auto
      moreover have "tree_at (Tree t) (s # ss) = None" using gone [OF _ none, of "s # ss"] by simp
      ultimately show ?thesis using t0_ok by auto
    next
      case True
      then obtain hn where hn: "table_map t s = Some (Tree hn)" by blast
      have hn_ok: "tree_ok (Tree hn)" using tree_ok_child [OF Cons.prems(3) hn] .
      obtain r del hn' where h': "remove_method_from_tree (join ss) hn = Some (r, del, hn')" "tree_ok (Tree hn')"
         "\<And>p. tree_at (Tree hn') p = (if prefix_of ss p then None else tree_at (Tree hn) p)"
         "tree_at (Tree hn) ss \<noteq> None \<longrightarrow> r = O2_SUCCESS"
        using Cons.IH [OF False _ hn_ok] Cons.prems(2) by auto
      let ?t1 = "set_node s (Tree hn') t0"
      note sn = set_node_ok [OF t0(1), of s "Tree hn'"]
      have tm1: "table_map ?t1 = (table_map t)(s \<mapsto> Tree hn')"
        using sn(2) t0(2) hn by (auto simp: fun_eq_iff)
      have ne: "children t \<noteq> []" using hn by (auto simp: table_map_def entries_def)
      then have t0t: "t0 = t" by (rule l(7))
      have lk1: "lookup s ?t1 = (ptr, ?t1)" using lookup_set_node [OF ok ne, of s s "Tree hn'"] lk t0t by simp
      have want: "tree_at (Tree t') p = (if prefix_of (s # ss) p then None else tree_at (Tree t) p)"
        if "\<And>k. k \<noteq> s \<Longrightarrow> table_map t' k = table_map t k"
          "\<And>q. (case table_map t' s of None \<Rightarrow> None | Some n \<Rightarrow> tree_at n q) = tree_at (Tree hn') q" for t' p
      proof (cases p)
        case (Cons a q)
        then show ?thesis using that h'(3) [of q] hn by (cases "a = s") (auto simp del: tree_at.simps simp: tree_at_hash [of t] tree_at_hash [of t'])
      qed simp
      have succ: "tree_at (Tree t) (s # ss) \<noteq> None \<longrightarrow> r = O2_SUCCESS" using h'(4) hn by simp
      show ?thesis
      proof (cases "is_empty hn'")
        case False
        have "remove_method_from_tree (join (s # ss)) t = Some (r, del, ?t1)"
          using d lk parts hn h'(1) False by (simp add: rm)
        moreover have "tree_ok (Tree ?t1)"
          using sn(1) tm1 h'(2) tree_ok_child [OF Cons.prems(3)] by (intro hash_ok_tree) (auto split: if_splits)
        moreover have "tree_at (Tree ?t1) p = (if prefix_of (s # ss) p then None else tree_at (Tree t) p)" for p
          by (rule want) (simp_all add: tm1)
        ultimately show ?thesis using succ by blast
      next
        case True
        have "table_map ?t1 s = Some (Tree hn')" by (simp add: tm1)
        then obtain t' where t': "entry_remove ptr True ?t1 = Some t'" "hash_ok t'"
           "table_map t' = (table_map ?t1)(s := None)"
          using entry_remove_at [OF sn(1) lk1] by blast
        have "remove_method_from_tree (join (s # ss)) t = Some (r, del @ deleted (Tree hn'), t')"
          using d lk parts hn h'(1) True t'(1) by (simp add: rm)
        moreover have "tree_ok (Tree t')"
          using t' tm1 tree_ok_child [OF Cons.prems(3)] by (intro hash_ok_tree) (auto split: if_splits)
        moreover have "tree_at (Tree t') p = (if prefix_of (s # ss) p then None else tree_at (Tree t) p)" for p
          using tree_at_empty [OF tree_ok_hash [OF h'(2)] True]
          by (intro want) (simp_all add: tm1 t'(3) del: tree_at.simps)
        ultimately show ?thesis using succ by blast
      qed
    qed
  qed
qed

text \<open>Removing a path takes the handler there, and all below it, out of the tree and nothing
  else, keeps the tables well formed even when emptied tables are removed on the way back, and
  succeeds when there was a handler.\<close>

theorem remove_method_correct:
  assumes "names \<noteq> []" "list_all node_name names" "tree_ok (Tree t)"
  shows "\<exists>r del t'. remove_method_from_tree (join names) t = Some (r, del, t') \<and> tree_ok (Tree t') \<and>
     (\<forall>p. tree_at (Tree t') p = (if prefix_of names p then None else tree_at (Tree t) p)) \<and>
     (tree_at (Tree t) names \<noteq> None \<longrightarrow> r = O2_SUCCESS)"
  using assms by (rule remove_all)

theorem remove_method_correct_witness:
  "\<exists>r del t'. remove_method_from_tree (join [''a'', ''b'']) sample_tree = Some (r, del, t') \<and> tree_ok (Tree t') \<and>
     (\<forall>p. tree_at (Tree t') p = (if prefix_of [''a'', ''b''] p then None else tree_at (Tree sample_tree) p)) \<and>
     (tree_at (Tree sample_tree) [''a'', ''b''] \<noteq> None \<longrightarrow> r = O2_SUCCESS)"
  by (rule remove_method_correct) (simp_all add: node_name_def has_slash_def sample_tree(1))

end
