(* ===== verification/Services.thy ===== *)
theory Services
  imports PathTree
begin

text \<open>
  The directory of services (src/src/services.cpp): which processes offer a service, which of them
  is active, who taps it. A proxy for another process (Proc_info, MQTT_info, OSC and bridge
  clients) is a number; what services.cpp asks of it is in a table. Messages the code sends to its
  own handlers (\<open>!_o2/si\<close>), notifications of other processes and deletions of nodes are recorded in
  order as events.
\<close>

section \<open>State\<close>

datatype Proxy_kind = PROC | PROC_TCP_SERVER | PROC_TEMP | MQTT | OSC_UDP_CLIENT | OSC_TCP_CLIENT | BRIDGE

record Proxy_info =
  kind :: Proxy_kind
  key :: string
  net_connected :: bool
  is_connected :: bool
  proxy_status :: int

datatype svc_node = Local onode | Proxy nat

datatype Service_provider = Service_provider (service: svc_node) (properties: "string option")

text \<open>Another process may send any number as the mode of a tap; it is stored.\<close>

datatype O2tap_send_mode = TAP_KEEP | TAP_RELIABLE | TAP_BEST_EFFORT | Other_mode "32 word"

datatype Service_tap = Service_tap (tapper: string) (tap_proc: nat) (send_mode: O2tap_send_mode)

datatype Services_entry = Services_entry (services: "Service_provider list") (taps: "Service_tap list")

datatype event =
    Send_si string int string string
  | Notify_others "string option" bool "string option" int
  | Notify_properties string "string option"
  | Start_cs_pings
  | Deleted svc_node

record O2_context =
  path_tree :: "Services_entry Hash_node"
  full_path_table :: "Handler_entry Hash_node"
  proxies :: "nat \<Rightarrow> Proxy_info"
  local_status :: int
  ensemble :: bool
  finishing :: bool
  events :: "event list"

text \<open>The local process, \<open>o2_ctx->proc\<close>.\<close>

abbreviation (input) local_proc :: nat where "local_proc \<equiv> 0"
abbreviation (input) O2_UNKNOWN :: int where "O2_UNKNOWN \<equiv> -1"

definition log_event :: "event \<Rightarrow> O2_context \<Rightarrow> O2_context" where
  "log_event e c = c\<lparr>events := events c @ [e]\<rparr>"

text \<open>Only a Proc_info overrides \<open>get_proc_name\<close>.\<close>

definition get_proc_name :: "O2_context \<Rightarrow> svc_node \<Rightarrow> string" where
  "get_proc_name c n = (case n of
     Local _ \<Rightarrow> ''_o2''
   | Proxy p \<Rightarrow> if kind (proxies c p) \<in> {PROC, PROC_TCP_SERVER, PROC_TEMP} then
                  if key (proxies c p) \<noteq> [] then key (proxies c p) else ''_o2''
                else ''_o2'')"

definition node_status :: "O2_context \<Rightarrow> svc_node \<Rightarrow> int" where
  "node_status c n = (case n of Local _ \<Rightarrow> local_status c | Proxy p \<Rightarrow> proxy_status (proxies c p))"

definition ISA_REMOTE_PROC :: "O2_context \<Rightarrow> svc_node \<Rightarrow> bool" where
  "ISA_REMOTE_PROC c n = (case n of Local _ \<Rightarrow> False | Proxy p \<Rightarrow> kind (proxies c p) \<in> {PROC, MQTT})"

definition owned_by_tree :: "O2_context \<Rightarrow> svc_node \<Rightarrow> bool" where
  "owned_by_tree c n = (case n of Local _ \<Rightarrow> True | Proxy p \<Rightarrow> kind (proxies c p) = OSC_UDP_CLIENT)"

section \<open>Providers of one service\<close>

text \<open>The assertion on properties: a string begins with a semicolon.\<close>

definition props_ok :: "string option \<Rightarrow> bool" where
  "props_ok props \<longleftrightarrow> (case props of None \<Rightarrow> True | Some ps \<Rightarrow> ps \<noteq> [] \<and> hd ps = CHR '';'')"

definition add_service :: "O2_context \<Rightarrow> string \<Rightarrow> svc_node \<Rightarrow> string option \<Rightarrow> Services_entry \<Rightarrow>
    (bool \<times> Services_entry) option" where
  "add_service c our_ip_port n props ss =
     (let index = length (services ss) in
      if \<not> props_ok props then None
      else if index > 0 \<and> strcmp our_ip_port (get_proc_name c (service (services ss ! 0))) > 0 then
        Some (True, Services_entry ((services ss @ [services ss ! 0])[0 := Service_provider n props]) (taps ss))
      else Some (index = 0, Services_entry (services ss @ [Service_provider n props]) (taps ss)))"

text \<open>Is the provider the process itself, or a local service while the process is the local one?\<close>

definition offered_by :: "O2_context \<Rightarrow> nat \<Rightarrow> Service_provider \<Rightarrow> bool" where
  "offered_by c p spp = (case service spp of
     Local _ \<Rightarrow> p = local_proc
   | Proxy q \<Rightarrow> q = p \<or> kind (proxies c q) \<in> {BRIDGE, OSC_UDP_CLIENT, OSC_TCP_CLIENT} \<and> p = local_proc)"

definition proc_service_index :: "O2_context \<Rightarrow> nat \<Rightarrow> Services_entry \<Rightarrow> nat option" where
  "proc_service_index c p ss =
     List.find (\<lambda>i. offered_by c p (services ss ! i)) [0..<length (services ss)]"

definition proc_service_find :: "O2_context \<Rightarrow> nat \<Rightarrow> Services_entry \<Rightarrow> Service_provider option" where
  "proc_service_find c p ss = map_option (\<lambda>i. services ss ! i) (proc_service_index c p ss)"

text \<open>The loop of \<open>pick_service_provider\<close>: the index of the provider with the greatest name.\<close>

definition top_index :: "O2_context \<Rightarrow> Service_provider list \<Rightarrow> nat" where
  "top_index c sps =
     foldl (\<lambda>top i. if strcmp (get_proc_name c (service (sps ! i))) (get_proc_name c (service (sps ! top))) > 0
                    then i else top) 0 [1..<length sps]"

definition swap_top :: "nat \<Rightarrow> 'a list \<Rightarrow> 'a list" where
  "swap_top i xs = (xs[i := xs ! 0])[0 := xs ! i]"

definition pick_service_provider :: "O2_context \<Rightarrow> Services_entry \<Rightarrow> Services_entry" where
  "pick_service_provider c ss =
     (if 0 \<ge> length (services ss) then ss
      else Services_entry (swap_top (top_index c (services ss)) (services ss)) (taps ss))"

text \<open>\<open>Vec::remove\<close>: the last element fills the hole.\<close>

definition vec_remove :: "nat \<Rightarrow> 'a list \<Rightarrow> 'a list" where
  "vec_remove i xs = (let n = length xs - 1 in if n > i then (take n xs)[i := xs ! n] else take n xs)"

text \<open>The change \<open>remove_service\<close> makes to the list of providers.\<close>

definition drop_provider :: "O2_context \<Rightarrow> nat \<Rightarrow> Services_entry \<Rightarrow> Services_entry" where
  "drop_provider c index ss =
     (let ss' = Services_entry (vec_remove index (services ss)) (taps ss) in
      if index = 0 then pick_service_provider c ss' else ss')"

section \<open>Taps\<close>

definition insert_tap :: "string \<Rightarrow> string \<Rightarrow> nat \<Rightarrow> O2tap_send_mode \<Rightarrow> Services_entry \<Rightarrow> O2_context \<Rightarrow>
    O2err \<times> Services_entry \<times> O2_context" where
  "insert_tap ss_key tpr p mode ss c =
     (O2_SUCCESS, Services_entry (services ss) (taps ss @ [Service_tap tpr p mode]),
      if p = local_proc then
        log_event (Notify_others (Some tpr) True (Some ss_key)
          (case mode of TAP_KEEP \<Rightarrow> 0 | TAP_RELIABLE \<Rightarrow> 1 | TAP_BEST_EFFORT \<Rightarrow> 2 | Other_mode w \<Rightarrow> sint w)) c
      else c)"

definition tap_matches :: "nat \<Rightarrow> string option \<Rightarrow> Service_tap \<Rightarrow> bool" where
  "tap_matches p tpr tap \<longleftrightarrow> tap_proc tap = p \<and> (case tpr of None \<Rightarrow> True | Some t \<Rightarrow> tapper tap = t)"

text \<open>The loop of \<open>remove_tap\<close>: the remaining taps and how many were removed.\<close>

function remove_taps :: "nat \<Rightarrow> string option \<Rightarrow> nat \<Rightarrow> Service_tap list \<Rightarrow> Service_tap list \<times> nat" where
  "remove_taps p tpr i tps =
     (if i < length tps then
        if tap_matches p tpr (tps ! i) then
          if tpr \<noteq> None then (vec_remove i tps, 1)
          else (let (tps', n) = remove_taps p tpr (i + 1) (vec_remove i tps) in (tps', n + 1))
        else remove_taps p tpr (i + 1) tps
      else (tps, 0))"
  by pat_completeness auto
termination
  by (relation "measure (\<lambda>(p, tpr, i, tps). length tps - i)") (auto simp: vec_remove_def Let_def)

declare remove_taps.simps [simp del]

definition set_entry :: "string \<Rightarrow> Services_entry \<Rightarrow> O2_context \<Rightarrow> O2_context" where
  "set_entry k ss c = c\<lparr>path_tree := set_node k ss (path_tree c)\<rparr>"

section \<open>The directory\<close>

text \<open>\<open>find\<close> looks the padded name up; a lookup may allocate the table of an empty tree.\<close>

definition find_services :: "string \<Rightarrow> O2_context \<Rightarrow> Services_entry option" where
  "find_services name c = hash_find (o2_string_pad name) (path_tree c)"

definition must_get_services :: "string \<Rightarrow> O2_context \<Rightarrow> (Services_entry \<times> O2_context) option" where
  "must_get_services name c =
     (let (ptr, t) = lookup name (path_tree c) in
      case deref ptr t of
        Some (_, ss) \<Rightarrow> Some (ss, c\<lparr>path_tree := t\<rparr>)
      | None \<Rightarrow> map_option (\<lambda>t. (Services_entry [] [], c\<lparr>path_tree := t\<rparr>))
                  (entry_insert_at ptr (name, Services_entry [] []) t))"

definition remove_if_empty :: "string \<Rightarrow> O2_context \<Rightarrow> O2_context option" where
  "remove_if_empty k c =
     (case hash_find k (path_tree c) of
        None \<Rightarrow> Some c
      | Some ss \<Rightarrow>
          if services ss = [] \<and> taps ss = [] then
            map_option (\<lambda>(_, _, t). c\<lparr>path_tree := t\<rparr>)
              (entry_remove_by_name (finishing c) k (path_tree c))
          else Some c)"

definition remove_tap :: "string \<Rightarrow> nat \<Rightarrow> string option \<Rightarrow> O2_context \<Rightarrow> (O2err \<times> O2_context) option" where
  "remove_tap k p tpr c =
     (case hash_find k (path_tree c) of
        None \<Rightarrow> None
      | Some ss \<Rightarrow>
          let (tps, n) = remove_taps p tpr 0 (taps ss);
              c = set_entry k (Services_entry (services ss) tps) c;
              c = (if p = local_proc
                   then c\<lparr>events := events c @ replicate n (Notify_others tpr False (Some k) 0)\<rparr> else c) in
          if n > 0 then map_option (\<lambda>c. (O2_SUCCESS, c)) (remove_if_empty k c)
          else Some (O2_FAIL, c))"

definition list_services :: "O2_context \<Rightarrow> string list" where
  "list_services c = map fst (entries (path_tree c))"

text \<open>Deleting a local service takes its handlers out of the full path table.\<close>

fun remove_full_paths :: "Handler_entry list \<Rightarrow> O2_context \<Rightarrow> O2_context option" where
  "remove_full_paths [] c = Some c"
| "remove_full_paths (h # hs) c =
     (case full_path h of
        None \<Rightarrow> remove_full_paths hs c
      | Some p \<Rightarrow> Option.bind (entry_remove_by_name (finishing c) p (full_path_table c))
          (\<lambda>(_, _, t). remove_full_paths hs (c\<lparr>full_path_table := t\<rparr>)))"

definition delete_node :: "svc_node \<Rightarrow> O2_context \<Rightarrow> O2_context option" where
  "delete_node n c =
     (case n of
        Local l \<Rightarrow> map_option (log_event (Deleted n)) (remove_full_paths (deleted l) c)
      | Proxy _ \<Rightarrow> Some (log_event (Deleted n) c))"

text \<open>
  \<open>remove_service\<close>, where the process may be missing (\<open>None\<close>: then it is the local one). \<open>k\<close> is the
  key of the entry and \<open>srv_name\<close> the name to report. \<open>own\<close>: the name given is the key itself, which is freed with the
  entry; looking at it then is \<open>None\<close>. The name is compared with the taps of the process only.
\<close>

fun remove_taps_by :: "(string \<times> bool) \<Rightarrow> nat \<Rightarrow> string \<Rightarrow> string list \<Rightarrow> O2_context \<Rightarrow> O2_context option" where
  "remove_taps_by (k0, own) p srv_name [] c = Some c"
| "remove_taps_by (k0, own) p srv_name (k # ks) c =
     (case hash_find k (path_tree c) of
        None \<Rightarrow> None
      | Some ss \<Rightarrow>
          if taps ss \<noteq> [] then
            if own \<and> hash_find k0 (path_tree c) = None \<and> (\<exists>tap \<in> set (taps ss). tap_proc tap = p) then None
            else Option.bind (remove_tap k p (Some srv_name) c) (\<lambda>(_, c). remove_taps_by (k0, own) p srv_name ks c)
          else remove_taps_by (k0, own) p srv_name ks c)"

definition report_active :: "string \<Rightarrow> Services_entry \<Rightarrow> O2_context \<Rightarrow> O2_context" where
  "report_active srv_name ss c =
     (if services ss \<noteq> [] then
        let spp = services ss ! 0; status = node_status c (service spp) in
        if status \<noteq> -1 then
          log_event (Send_si srv_name status (get_proc_name c (service spp))
            (case properties spp of None \<Rightarrow> [] | Some ps \<Rightarrow> tl ps)) c
        else c
      else c)"

definition report_gone :: "string \<Rightarrow> nat \<Rightarrow> O2_context \<Rightarrow> O2_context" where
  "report_gone srv_name p c =
     (if srv_name = [] \<or> hd srv_name \<noteq> CHR ''@'' \<or> kind (proxies c p) \<noteq> PROC \<or> is_connected (proxies c p)
      then log_event (Send_si srv_name O2_UNKNOWN (get_proc_name c (Proxy p)) []) c else c)"

text \<open>The copy of the name for the other processes: a longer one is not terminated, and reading it is \<open>None\<close>.\<close>

abbreviation (input) MAX_SERVICE_LEN :: nat where "MAX_SERVICE_LEN \<equiv> 64"

definition notify_gone :: "string \<Rightarrow> nat \<Rightarrow> O2_context \<Rightarrow> O2_context option" where
  "notify_gone srv_name p c =
     (if p = local_proc \<or> kind (proxies c p) = BRIDGE then
        if length srv_name \<ge> MAX_SERVICE_LEN then None
        else Some (log_event (Notify_others (Some srv_name) False None 0) c)
      else Some c)"

definition remove_service :: "bool \<Rightarrow> string \<Rightarrow> string \<Rightarrow> nat option \<Rightarrow> nat option \<Rightarrow> O2_context \<Rightarrow>
    (O2err \<times> O2_context) option" where
  "remove_service own k srv_name index proc c =
     (case hash_find k (path_tree c) of
        None \<Rightarrow> None
      | Some ss \<Rightarrow>
          let p = (case proc of None \<Rightarrow> local_proc | Some p \<Rightarrow> p);
              index = (case index of
                 None \<Rightarrow> (case proc of None \<Rightarrow> None | Some q \<Rightarrow> proc_service_index c q ss)
               | Some i \<Rightarrow> Some i) in
          case index of
            None \<Rightarrow> Some (O2_FAIL, c)
          | Some i \<Rightarrow>
              let n = service (services ss ! i);
                  c = set_entry k (Services_entry (vec_remove i (services ss)) (taps ss)) c in
              Option.bind (if owned_by_tree c n then delete_node n c else Some c) (\<lambda>c.
              let c = report_gone srv_name p c;
                  ss = drop_provider c i ss;
                  c = report_active srv_name ss (set_entry k ss c) in
              Option.bind (remove_if_empty k c) (\<lambda>c.
              Option.bind (notify_gone srv_name p c) (\<lambda>c.
              map_option (\<lambda>c. (O2_SUCCESS, c)) (remove_taps_by (k, own) p srv_name (list_services c) c)))))"

definition proc_service_remove :: "string \<Rightarrow> nat \<Rightarrow> O2_context \<Rightarrow> (O2err \<times> O2_context) option" where
  "proc_service_remove service_name p c =
     (case find_services service_name c of
        None \<Rightarrow> Some (O2_FAIL, c)
      | Some ss \<Rightarrow> remove_service False (o2_string_pad service_name) service_name None (Some p) c)"

definition o2_service_free :: "string option \<Rightarrow> O2_context \<Rightarrow> (O2err \<times> O2_context) option" where
  "o2_service_free service_name c =
     (if \<not> ensemble c then Some (O2_NOT_INITIALIZED, c)
      else case service_name of
        None \<Rightarrow> Some (O2_BAD_NAME, c)
      | Some name \<Rightarrow> if has_slash name then Some (O2_BAD_NAME, c)
                     else proc_service_remove name local_proc c)"

text \<open>
  \<open>if (!remove_service(...)) result = O2_FAIL\<close>: \<open>O2_SUCCESS\<close> is 0. The list holds pointers to the
  entries: \<open>None\<close> when an entry was freed before its turn.
\<close>

fun remove_services_loop :: "nat \<Rightarrow> string list \<Rightarrow> O2err \<Rightarrow> O2_context \<Rightarrow> (O2err \<times> O2_context) option" where
  "remove_services_loop p [] result c = Some (result, c)"
| "remove_services_loop p (k # ks) result c =
     (case hash_find k (path_tree c) of
        None \<Rightarrow> None
      | Some ss \<Rightarrow>
          Option.bind (remove_service True k k (proc_service_index c p ss) (Some p) c) (\<lambda>(r, c).
          let result = (if O2err_value r = 0 then O2_FAIL else result) in
          if taps ss \<noteq> [] then
            Option.bind (remove_tap k p None c) (\<lambda>(r, c).
            remove_services_loop p ks (if r = O2_FAIL then O2_FAIL else result) c)
          else remove_services_loop p ks result c))"

definition remove_services_by :: "nat \<Rightarrow> O2_context \<Rightarrow> (O2err \<times> O2_context) option" where
  "remove_services_by p c = (if p = local_proc then None else remove_services_loop p (list_services c) O2_SUCCESS c)"

text \<open>\<open>service_find\<close>: the active provider and the entry it was found in; the local process's own name
  means \<open>_o2\<close>. \<open>None\<close>: there is not even an entry for \<open>_o2\<close>, whose null pointer the code then follows.\<close>

definition service_find :: "string \<Rightarrow> O2_context \<Rightarrow> (svc_node option \<times> Services_entry option) option" where
  "service_find name c =
     (let active = (\<lambda>ss. if length (services ss) = 0 then None else Some (service (services ss ! 0))) in
      case find_services name c of
        Some ss \<Rightarrow> Some (active ss, Some ss)
      | None \<Rightarrow>
          if name \<noteq> [] \<and> hd name = CHR ''@'' \<and> key (proxies c local_proc) \<noteq> [] \<and>
             name = key (proxies c local_proc) then
            map_option (\<lambda>ss. (active ss, Some ss)) (find_services ''_o2'' c)
          else Some (None, None))"

text \<open>The service a message is for; a copy for a tap goes to the local provider, active or not. \<open>None\<close>: the
  service of such a copy has no entry, whose null pointer the code then follows.\<close>

definition o2_msg_service :: "string \<Rightarrow> bool \<Rightarrow> O2_context \<Rightarrow> (svc_node option \<times> Services_entry option) option" where
  "o2_msg_service address tap_flag c =
     (let service_name = segment (tl address) in
      if tap_flag then
        map_option (\<lambda>ss. (map_option service (proc_service_find c local_proc ss), Some ss))
          (find_services service_name c)
      else service_find service_name c)"

section \<open>New providers\<close>

definition adjust_properties :: "string option \<Rightarrow> string option" where
  "adjust_properties props = (case props of None \<Rightarrow> None
     | Some ps \<Rightarrow> if ps = [] \<or> ps = '';'' then None else Some ps)"

definition service_provider_new :: "string \<Rightarrow> string option \<Rightarrow> svc_node \<Rightarrow> nat \<Rightarrow> O2_context \<Rightarrow>
    (O2err \<times> O2_context) option" where
  "service_provider_new service_name props n p c =
     Option.bind (must_get_services service_name c) (\<lambda>(ss, c).
     let props = adjust_properties props;
         report = (\<lambda>c. let c = log_event (Send_si service_name (node_status c n)
                           (if p = local_proc then ''_o2'' else key (proxies c p))
                           (case props of None \<Rightarrow> [] | Some ps \<Rightarrow> tl ps)) c in
                       if strcmp service_name ''_cs'' = 0 then log_event Start_cs_pings c else c) in
     case proc_service_index c p ss of
       Some i \<Rightarrow>
         if ISA_REMOTE_PROC c (service (services ss ! i)) then
           if \<not> props_ok props then None
           else let active = (service (services ss ! 0) = Proxy p);
               c = set_entry service_name (Services_entry
                     ((services ss)[i := Service_provider (service (services ss ! i)) props]) (taps ss)) c in
           Some (O2_SUCCESS, if active then report c else c)
         else Some (O2_SERVICE_EXISTS, c)
     | None \<Rightarrow>
         map_option (\<lambda>(first, ss').
           let active = (first \<and> (net_connected (proxies c p) \<or> kind (proxies c p) = MQTT));
               c = set_entry service_name ss' c in
           (O2_SUCCESS, if active then report c else c)) (add_service c (key (proxies c p)) n props ss))"

definition service_new :: "string \<Rightarrow> O2_context \<Rightarrow> (O2err \<times> O2_context) option" where
  "service_new name c =
     Option.bind (service_provider_new name None (Local (Tree new_Hash_node)) local_proc c) (\<lambda>(r, c).
     if r \<noteq> O2_SUCCESS then Some (r, log_event (Deleted (Local (Tree new_Hash_node))) c)
     else Some (O2_SUCCESS, log_event (Notify_others (Some name) True None 0) c))"

definition service_provider_replace :: "string \<Rightarrow> nat \<Rightarrow> svc_node \<Rightarrow> O2_context \<Rightarrow>
    (O2err \<times> O2_context) option" where
  "service_provider_replace k i new_service c =
     (case hash_find k (path_tree c) of
        None \<Rightarrow> None
      | Some ss \<Rightarrow>
          (case service (services ss ! i) of
             Local l \<Rightarrow> map_option (\<lambda>c. (O2_SUCCESS,
                 set_entry k (Services_entry ((services ss)[i :=
                   Service_provider new_service (properties (services ss ! i))]) (taps ss)) c))
               (delete_node (Local l) c)
           | Proxy p \<Rightarrow>
               Some (if kind (proxies c p) \<in> {OSC_UDP_CLIENT, OSC_TCP_CLIENT, BRIDGE}
                     then O2_SERVICE_EXISTS else O2_FAIL, c)))"

section \<open>The interface for taps\<close>

definition bad_tap_name :: "string option \<Rightarrow> bool" where
  "bad_tap_name s = (case s of None \<Rightarrow> True | Some n \<Rightarrow> n = [] \<or> hd n = CHR ''/'' \<or> hd n = CHR ''!'')"

definition o2_tap_new :: "string option \<Rightarrow> nat \<Rightarrow> string option \<Rightarrow> O2tap_send_mode \<Rightarrow> O2_context \<Rightarrow>
    (O2err \<times> O2_context) option" where
  "o2_tap_new tpr p tappee mode c =
     (if bad_tap_name tpr \<or> bad_tap_name tappee then Some (O2_BAD_NAME, c)
      else Option.bind (must_get_services (the tappee) c) (\<lambda>(ss, c).
        if \<exists>tap \<in> set (taps ss). tapper tap = the tpr \<and> tap_proc tap = p then Some (O2_SERVICE_EXISTS, c)
        else let (r, ss, c) = insert_tap (the tappee) (the tpr) p mode ss c in Some (r, set_entry (the tappee) ss c)))"

definition o2_tap_remove :: "string \<Rightarrow> nat \<Rightarrow> string \<Rightarrow> O2_context \<Rightarrow> (O2err \<times> O2_context) option" where
  "o2_tap_remove tpr p tappee c =
     (case hash_find tappee (path_tree c) of
        None \<Rightarrow> Some (O2_FAIL, c)
      | Some ss \<Rightarrow> remove_tap tappee p (Some tpr) c)"

definition o2_tap :: "string option \<Rightarrow> string option \<Rightarrow> O2tap_send_mode \<Rightarrow> O2_context \<Rightarrow> (O2err \<times> O2_context) option" where
  "o2_tap tappee tpr mode c =
     (if \<not> ensemble c then Some (O2_NOT_INITIALIZED, c)
      else case tappee of
        None \<Rightarrow> Some (O2_BAD_NAME, c)
      | Some t \<Rightarrow> if length t > MAX_SERVICE_LEN then Some (O2_BAD_NAME, c)
                  else o2_tap_new tpr local_proc (Some (o2_string_pad t)) mode c)"

definition o2_untap :: "string \<Rightarrow> string \<Rightarrow> O2_context \<Rightarrow> (O2err \<times> O2_context) option" where
  "o2_untap tappee tpr c =
     (if \<not> ensemble c then Some (O2_NOT_INITIALIZED, c) else o2_tap_remove tpr local_proc (o2_string_pad tappee) c)"

section \<open>The active provider\<close>

lemma strcmp_pos: "strcmp a b > 0 \<longleftrightarrow> b < a"
  by (auto simp: strcmp_def)

text \<open>No provider has a greater process name than the first, the active one.\<close>

definition active_max :: "O2_context \<Rightarrow> Services_entry \<Rightarrow> bool" where
  "active_max c ss \<longleftrightarrow>
     (\<forall>spp \<in> set (services ss). get_proc_name c (service spp) \<le> get_proc_name c (service (services ss ! 0)))"

lemma mset_vec_remove: "i < length xs \<Longrightarrow> add_mset (xs ! i) (mset (vec_remove i xs)) = mset xs"
proof -
  assume i: "i < length xs"
  have xs: "xs = take (length xs - 1) xs @ [xs ! (length xs - 1)]"
    using i by (metis append_butlast_last_id butlast_conv_take last_conv_nth length_0_conv not_less0)
  then have m: "mset xs = add_mset (xs ! (length xs - 1)) (mset (take (length xs - 1) xs))"
    by (metis add_mset_add_single mset_append mset_single_iff mset_single_iff_right mset.simps(1) mset.simps(2))
  show ?thesis
  proof (cases "i < length xs - 1")
    case True
    then have "xs ! i \<in># mset (take (length xs - 1) xs)"
      by (metis in_set_conv_nth length_take min.absorb2 nth_take set_mset_mset diff_le_self)
    then show ?thesis using True m
      by (simp add: vec_remove_def Let_def mset_update)
  next
    case False
    then have "i = length xs - 1" using i by simp
    then show ?thesis using m by (simp add: vec_remove_def)
  qed
qed

lemma length_vec_remove: "i < length xs \<Longrightarrow> length (vec_remove i xs) = length xs - 1"
  by (auto simp: vec_remove_def Let_def)

lemma mset_swap_top: "i < length xs \<Longrightarrow> mset (swap_top i xs) = mset xs"
  unfolding swap_top_def by (rule mset_swap) auto

lemma swap_top_head: "i < length xs \<Longrightarrow> swap_top i xs ! 0 = xs ! i"
  by (cases "length xs") (auto simp: swap_top_def)

lemma top_index_scan:
  "n \<le> length sps \<Longrightarrow> 0 < n \<Longrightarrow>
   (let top = foldl (\<lambda>top i. if strcmp (get_proc_name c (service (sps ! i)))
                                 (get_proc_name c (service (sps ! top))) > 0 then i else top) 0 [1..<n] in
    top < n \<and> (\<forall>i < n. get_proc_name c (service (sps ! i)) \<le> get_proc_name c (service (sps ! top))))"
proof (induction n)
  case 0
  then show ?case by simp
next
  case (Suc n)
  show ?case
  proof (cases "n = 0")
    case False
    then show ?thesis using Suc by (auto simp: Let_def strcmp_pos less_Suc_eq not_less)
  qed (simp add: Let_def)
qed

lemma top_index: "sps \<noteq> [] \<Longrightarrow> top_index c sps < length sps \<and>
    (\<forall>spp \<in> set sps. get_proc_name c (service spp) \<le> get_proc_name c (service (sps ! top_index c sps)))"
  using top_index_scan [of "length sps" sps c]
  by (auto simp: top_index_def Let_def in_set_conv_nth)

lemma pick_props:
  "mset (services (pick_service_provider c ss)) = mset (services ss)"
  "taps (pick_service_provider c ss) = taps ss"
  "active_max c (pick_service_provider c ss)"
proof -
  show m: "mset (services (pick_service_provider c ss)) = mset (services ss)"
    using top_index [of "services ss" c] by (auto simp: pick_service_provider_def mset_swap_top)
  show "taps (pick_service_provider c ss) = taps ss" by (simp add: pick_service_provider_def)
  have "set (services (pick_service_provider c ss)) = set (services ss)" using m by (metis set_mset_mset)
  then show "active_max c (pick_service_provider c ss)"
    using top_index [of "services ss" c]
    by (auto simp: active_max_def pick_service_provider_def swap_top_head)
qed

lemma active_max_subset:
  "active_max c ss \<Longrightarrow> set (services ss') \<subseteq> set (services ss) \<Longrightarrow> services ss' ! 0 = services ss ! 0 \<Longrightarrow>
   active_max c ss'"
  by (auto simp: active_max_def)

text \<open>Removing a provider from a service takes out exactly this provider and keeps the taps,
  and the provider that is active afterwards has the greatest process name of those left.\<close>

theorem drop_provider_correct:
  assumes "active_max c ss" "i < length (services ss)"
  shows "add_mset (services ss ! i) (mset (services (drop_provider c i ss))) = mset (services ss) \<and>
    taps (drop_provider c i ss) = taps ss \<and> active_max c (drop_provider c i ss)"
proof (cases "i = 0")
  case True
  then show ?thesis using pick_props mset_vec_remove [OF assms(2)]
    by (auto simp: drop_provider_def Let_def)
next
  case False
  have "set (vec_remove i (services ss)) \<subseteq> set (services ss)"
    using mset_vec_remove [OF assms(2)] by (metis set_mset_mset set_mset_add_mset_insert subset_insertI)
  moreover have "vec_remove i (services ss) ! 0 = services ss ! 0"
    using False assms(2) by (auto simp: vec_remove_def Let_def)
  ultimately show ?thesis using False assms active_max_subset [OF assms(1)] mset_vec_remove
    by (auto simp: drop_provider_def Let_def)
qed

text \<open>C27: adding a provider (whose properties, if any, begin with a semicolon) adds exactly this provider: as the active one, which
  the result tells, if there is none or if the name given for it is greater than the name of the active one; behind
  the others otherwise, and then the active one stays. Where the name that is given is also the one that the provider reports (so it is for
  another process with a TCP connection, but not for the local process and proxies, which report \<open>_o2\<close>), the active provider still has
  the greatest name, if it had before.\<close>

theorem add_service_correct:
  assumes "props_ok props"
  shows "\<exists>first ss'. add_service c ipport n props ss = Some (first, ss') \<and>
    mset (services ss') = add_mset (Service_provider n props) (mset (services ss)) \<and> taps ss' = taps ss \<and>
    (first \<longleftrightarrow> services ss = [] \<or> get_proc_name c (service (services ss ! 0)) < ipport) \<and>
    services ss' ! 0 = (if first then Service_provider n props else services ss ! 0) \<and>
    (active_max c ss \<and> get_proc_name c n = ipport \<longrightarrow> active_max c ss')"
proof (cases "services ss")
  case Nil
  then show ?thesis using assms by (intro exI [of _ True]) (simp add: add_service_def active_max_def)
next
  case (Cons sp sps)
  then show ?thesis using assms
    by (auto simp: add_service_def Let_def strcmp_pos active_max_def nth_append)
qed

definition two_procs :: O2_context where
  "two_procs = \<lparr>path_tree = empty_Hash_node, full_path_table = empty_Hash_node,
     proxies = (\<lambda>p. \<lparr>kind = PROC, key = (if p = 0 then ''@a'' else ''@b''), net_connected = True,
                      is_connected = True, proxy_status = 5\<rparr>),
     local_status = 4, ensemble = True, finishing = False, events = []\<rparr>"

text \<open>For the process's own services the name compared on arrival is its internet address, but the
  name compared later is \<open>_o2\<close>: which provider is active depends on the order of arrival. With
  the remote process's address the greater one, the remote provider stays active when it was first,
  and the local one stays active when it was first.\<close>

theorem active_depends_on_order:
  "let here = Local (Tree new_Hash_node); there = Proxy 1;
       none = Services_entry [] [];
       add = (\<lambda>name n ss. snd (the (add_service two_procs name n None ss)));
       local_first = add ''@b'' there (add ''@a'' here none);
       remote_first = add ''@a'' here (add ''@b'' there none) in
   mset (services local_first) = mset (services remote_first) \<and>
   service (services local_first ! 0) = here \<and> service (services remote_first ! 0) = there"
  by (simp add: Let_def add_service_def props_ok_def get_proc_name_def two_procs_def strcmp_def less_list_code less_char_def)

definition two_providers :: Services_entry where
  "two_providers = Services_entry [Service_provider (Proxy 1) None, Service_provider (Proxy 0) None] []"

theorem drop_provider_correct_witness:
  "add_mset (services two_providers ! 0) (mset (services (drop_provider two_procs 0 two_providers))) =
     mset (services two_providers) \<and>
    taps (drop_provider two_procs 0 two_providers) = taps two_providers \<and>
    active_max two_procs (drop_provider two_procs 0 two_providers)"
  by (rule drop_provider_correct)
    (simp_all add: active_max_def two_providers_def get_proc_name_def two_procs_def less_eq_list_code less_char_def)

theorem add_service_correct_witness:
  "\<exists>first ss'. add_service two_procs ''@b'' (Proxy 1) (Some '';gain:2;'') (Services_entry [Service_provider (Proxy 0) None] []) = Some (first, ss') \<and>
    mset (services ss') = {#Service_provider (Proxy 1) (Some '';gain:2;''), Service_provider (Proxy 0) None#} \<and>
    first \<and> services ss' ! 0 = Service_provider (Proxy 1) (Some '';gain:2;'') \<and> active_max two_procs ss'"
proof -
  let ?ss = "Services_entry [Service_provider (Proxy 0) None] []"
  have p: "props_ok (Some '';gain:2;'')" by (simp add: props_ok_def)
  have "active_max two_procs ?ss" "get_proc_name two_procs (Proxy 1) = ''@b''" "get_proc_name two_procs (Proxy 0) < ''@b''"
    by (simp_all add: active_max_def get_proc_name_def two_procs_def less_list_code less_char_def)
  then show ?thesis
    using add_service_correct [OF p, of two_procs "''@b''" "Proxy 1" ?ss] by auto
qed

section \<open>Taps\<close>

lemma remove_taps_named:
  "i \<le> length tps \<Longrightarrow> remove_taps p (Some t) i tps = (tps', n) \<Longrightarrow>
   (if \<exists>tap \<in> set (drop i tps). tap_matches p (Some t) tap
    then n = 1 \<and> (\<exists>tap \<in> set (drop i tps). tap_matches p (Some t) tap \<and> add_mset tap (mset tps') = mset tps)
    else n = 0 \<and> tps' = tps)"
proof (induction "length tps - i" arbitrary: i)
  case 0
  then show ?case by (simp add: remove_taps.simps [of p "Some t" i])
next
  case (Suc d)
  then have i: "i < length tps" by simp
  then have drop: "drop i tps = tps ! i # drop (Suc i) tps" by (simp add: Cons_nth_drop_Suc)
  show ?case
  proof (cases "tap_matches p (Some t) (tps ! i)")
    case True
    then show ?thesis using i mset_vec_remove [OF i] Suc.prems(2)
      by (auto simp: remove_taps.simps [of p "Some t" i] drop)
  next
    case False
    have eq: "remove_taps p (Some t) i tps = remove_taps p (Some t) (Suc i) tps"
      using i False by (simp add: remove_taps.simps [of p "Some t" i])
    show ?thesis using Suc.hyps(1) [of "Suc i"] Suc.hyps(2) Suc.prems(2) i False
      unfolding eq drop by (auto split: if_splits)
  qed
qed

text \<open>Removing the tap of a process with a given tapper name removes exactly one such tap, if
  there is one, and otherwise none.\<close>

theorem remove_tap_one:
  "case remove_taps p (Some t) 0 tps of (tps', n) \<Rightarrow>
     if \<exists>tap \<in> set tps. tap_matches p (Some t) tap
     then n = 1 \<and> (\<exists>tap \<in> set tps. tap_matches p (Some t) tap \<and> add_mset tap (mset tps') = mset tps)
     else n = 0 \<and> tps' = tps"
  using remove_taps_named [of 0 tps p t] by (cases "remove_taps p (Some t) 0 tps") (simp split: if_splits)

text \<open>Removing all taps of a process misses one: the last tap takes the place of the removed one
  and is skipped.\<close>

theorem remove_all_taps_skips:
  "remove_taps 1 None 0 [Service_tap ''x'' 1 TAP_KEEP, Service_tap ''y'' 1 TAP_KEEP] =
   ([Service_tap ''y'' 1 TAP_KEEP], 1)"
  by (simp add: remove_taps.simps tap_matches_def vec_remove_def)

section \<open>The directory\<close>

definition ctx_ok :: "O2_context \<Rightarrow> bool" where
  "ctx_ok c \<longleftrightarrow> hash_ok (path_tree c)"

abbreviation directory :: "O2_context \<Rightarrow> string \<rightharpoonup> Services_entry" where
  "directory c \<equiv> table_map (path_tree c)"

lemma set_entry_ok:
  assumes "ctx_ok c" "k \<in> dom (directory c)"
  shows "ctx_ok (set_entry k ss c)" "directory (set_entry k ss c) = (directory c)(k \<mapsto> ss)"
  using set_node_ok [of "path_tree c" k ss] assms by (auto simp: ctx_ok_def set_entry_def fun_eq_iff)

lemma must_get_all:
  assumes "ctx_ok c"
  shows "\<exists>ss c'. must_get_services name c = Some (ss, c') \<and> ctx_ok c' \<and>
    ss = (case directory c name of None \<Rightarrow> Services_entry [] [] | Some ss \<Rightarrow> ss) \<and>
    directory c' = (directory c)(name \<mapsto> ss) \<and> c' = c\<lparr>path_tree := path_tree c'\<rparr>"
proof -
  have ok: "hash_ok (path_tree c)" using assms by (simp add: ctx_ok_def)
  then have k: "keyed (path_tree c)" by (simp add: hash_ok_keyed)
  obtain ptr t0 where lk: "lookup name (path_tree c) = (ptr, t0)" by fastforce
  note l = lookup_props [OF lk k]
  have d: "deref ptr t0 = map_option (\<lambda>v. (name, v)) (directory c name)" by (rule deref_lookup [OF k lk])
  have t0: "hash_ok t0" "table_map t0 = directory c" using l ok by (auto simp: hash_ok_keyed table_map_def)
  show ?thesis
  proof (cases "directory c name")
    case None
    obtain t1 where ins: "hash_insert (name, Services_entry [] []) (path_tree c) = Some t1" "hash_ok t1"
      "table_map t1 = (directory c)(name \<mapsto> Services_entry [] [])"
      using names.insert [OF ok, of "(name, Services_entry [] [])"] by auto
    have "entry_insert_at ptr (name, Services_entry [] []) t0 = Some t1"
      using d None ins(1) by (simp add: hash_insert_def insert_using_def entry_insert_at_def lk)
    then show ?thesis using ins d None lk
      by (auto simp: must_get_services_def ctx_ok_def intro!: exI [of _ "c\<lparr>path_tree := t1\<rparr>"])
  next
    case (Some ss)
    then show ?thesis using d lk t0 by (simp add: must_get_services_def ctx_ok_def fun_upd_idem)
  qed
qed

lemma add_service_some: "props_ok props \<Longrightarrow> \<exists>first ss'. add_service c k n props ss = Some (first, ss')"
  using ex_bool_eq [of "\<lambda>b. b"] by (auto simp: add_service_def Let_def)

text \<open>Registering a provider for a service (with properties that begin with a semicolon, if any) always succeeds or reports that the service exists;
  after success the entry of this service offers it, every other service is untouched, and the
  service's taps are kept.\<close>

theorem service_provider_new_correct:
  assumes "ctx_ok c" "props_ok (adjust_properties props)"
  shows "\<exists>r c'. service_provider_new name props n p c = Some (r, c') \<and> ctx_ok c' \<and>
    (\<forall>k. k \<noteq> name \<longrightarrow> directory c' k = directory c k) \<and>
    (\<exists>ss. directory c' name = Some ss \<and>
       taps ss = (case directory c name of None \<Rightarrow> [] | Some old \<Rightarrow> taps old) \<and>
       (r = O2_SUCCESS \<longrightarrow>
          (\<exists>spp \<in> set (services ss). properties spp = adjust_properties props \<and>
             (offered_by c p spp \<or> service spp = n)))) \<and>
    (r = O2_SUCCESS \<or> r = O2_SERVICE_EXISTS)"
proof -
  obtain ss c1 where m: "must_get_services name c = Some (ss, c1)" "ctx_ok c1"
    "ss = (case directory c name of None \<Rightarrow> Services_entry [] [] | Some ss \<Rightarrow> ss)"
    "directory c1 = (directory c)(name \<mapsto> ss)" "c1 = c\<lparr>path_tree := path_tree c1\<rparr>"
    using must_get_all [OF assms(1)] by blast
  have same: "proxies c1 = proxies c" using arg_cong [OF m(5), of proxies] by simp
  have off: "offered_by c1 p spp = offered_by c p spp" for spp
    by (cases "service spp") (simp_all add: offered_by_def same)
  have dom: "name \<in> dom (directory c1)" using m(4) by auto
  note se = set_entry_ok [OF m(2) dom]
  have log: "ctx_ok (log_event e c') = ctx_ok c'" "directory (log_event e c') = directory c'" for e c'
    by (simp_all add: log_event_def ctx_ok_def)
  have tp: "taps ss = (case directory c name of None \<Rightarrow> [] | Some old \<Rightarrow> taps old)"
    by (simp add: m(3) split: option.split)
  show ?thesis
  proof (cases "proc_service_index c1 p ss")
    case (Some i)
    then have i: "i < length (services ss)" "offered_by c1 p (services ss ! i)"
      by (auto simp: proc_service_index_def find_Some_iff)
    have off': "offered_by c p (Service_provider (service (services ss ! i)) ps)" for ps
      using i(2) unfolding off by (simp add: offered_by_def)
    let ?sp = "Service_provider (service (services ss ! i)) (adjust_properties props)"
    have in_set: "?sp \<in> set ((services ss)[i := ?sp])" by (rule set_update_memI [OF i(1)])
    show ?thesis
    proof (cases "ISA_REMOTE_PROC c1 (service (services ss ! i))")
      case True
      then show ?thesis
        using m(1) Some se tp in_set off' m(4) assms(2)
        by (auto simp: service_provider_new_def Let_def log intro!: bexI [of _ ?sp])
    next
      case False
      then show ?thesis using m Some tp by (simp add: service_provider_new_def)
    qed
  next
    case None
    obtain first ss' where a: "add_service c1 (key (proxies c1 p)) n (adjust_properties props) ss = Some (first, ss')"
      using add_service_some [OF assms(2)] by blast
    then have a': "taps ss' = taps ss" "Service_provider n (adjust_properties props) \<in> set (services ss')"
      by (auto simp: add_service_def Let_def set_update_memI split: if_splits)
    then show ?thesis
      using m(1,4) None se tp a
      by (auto simp: service_provider_new_def Let_def log
          intro!: bexI [of _ "Service_provider n (adjust_properties props)"])
  qed
qed

lemma two_procs_ok: "ctx_ok two_procs" "directory two_procs = Map.empty"
  by (simp_all add: ctx_ok_def two_procs_def empty_Hash_node_ok)

theorem service_provider_new_correct_witness:
  "\<exists>r c'. service_provider_new ''synth'' None (Proxy 1) 1 two_procs = Some (r, c') \<and> ctx_ok c' \<and>
    (\<forall>k. k \<noteq> ''synth'' \<longrightarrow> directory c' k = directory two_procs k) \<and>
    (\<exists>ss. directory c' ''synth'' = Some ss \<and>
       taps ss = (case directory two_procs ''synth'' of None \<Rightarrow> [] | Some old \<Rightarrow> taps old) \<and>
       (r = O2_SUCCESS \<longrightarrow>
          (\<exists>spp \<in> set (services ss). properties spp = adjust_properties None \<and>
             (offered_by two_procs 1 spp \<or> service spp = Proxy 1)))) \<and>
    (r = O2_SUCCESS \<or> r = O2_SERVICE_EXISTS)"
  by (rule service_provider_new_correct [OF two_procs_ok(1)]) (simp add: adjust_properties_def props_ok_def)

section \<open>Removing all services of a process\<close>

lemma single_entry:
  assumes "ctx_ok c" "list_services c = [k]"
  shows "directory c = [k \<mapsto> snd (entries (path_tree c) ! 0)]"
  using assms(2) by (cases "entries (path_tree c)") (auto simp: list_services_def table_map_def)

lemma find_entry: "ctx_ok c \<Longrightarrow> hash_find k (path_tree c) = directory c k"
  by (simp add: ctx_ok_def hash_find)

lemma log_event_ok [simp]: "ctx_ok (log_event e c) = ctx_ok c" "directory (log_event e c) = directory c"
  "proxies (log_event e c) = proxies c"
  by (simp_all add: log_event_def ctx_ok_def)

lemma remove_empty_entry:
  assumes "ctx_ok c" "directory c k = Some (Services_entry [] [])"
  shows "\<exists>c'. remove_if_empty k c = Some c' \<and> ctx_ok c' \<and> directory c' = (directory c)(k := None) \<and>
    c' = c\<lparr>path_tree := path_tree c'\<rparr>"
  using entry_remove_all [of "path_tree c" "finishing c" k] assms
  by (auto simp: remove_if_empty_def find_entry ctx_ok_def hash_find)

text \<open>The result of remove_services_by is inverted: when a process offers the only service of the
  directory, its removal empties the directory as it should, and O2_FAIL is returned.\<close>

theorem remove_services_by_inverted:
  assumes "ctx_ok c" "list_services c = [k]" "p \<noteq> local_proc" "kind (proxies c p) = PROC"
    and "directory c k = Some (Services_entry [Service_provider (Proxy p) props] [])"
  shows "\<exists>c'. remove_services_by p c = Some (O2_FAIL, c') \<and> directory c' = Map.empty"
proof -
  let ?e = "Services_entry [] []"
  have dir: "directory c = [k \<mapsto> Services_entry [Service_provider (Proxy p) props] []]"
    using single_entry [OF assms(1,2)] assms(5) by (metis fun_upd_same option.inject)
  have idx: "proc_service_index c p (Services_entry [Service_provider (Proxy p) props] []) = Some 0"
    by (simp add: proc_service_index_def offered_by_def)
  define c1 where "c1 = set_entry k ?e c"
  have c1: "ctx_ok c1" "directory c1 k = Some ?e" "proxies c1 = proxies c"
    using set_entry_ok [OF assms(1), of k ?e] dir by (auto simp: c1_def set_entry_def)
  have own: "\<not> owned_by_tree c1 (Proxy p)" using assms(4) c1(3) by (simp add: owned_by_tree_def)
  define c2 where "c2 = report_gone k p c1"
  have c2: "ctx_ok c2" "directory c2 = directory c1" "proxies c2 = proxies c"
    using c1 by (auto simp: c2_def report_gone_def)
  have drop: "drop_provider c2 0 (Services_entry [Service_provider (Proxy p) props] []) = ?e"
    by (simp add: drop_provider_def vec_remove_def pick_service_provider_def)
  define c3 where "c3 = set_entry k ?e c2"
  have c3: "ctx_ok c3" "directory c3 = (directory c1)(k \<mapsto> ?e)" "proxies c3 = proxies c"
    using set_entry_ok [OF c2(1), of k ?e] c1(2) c2 by (auto simp: c3_def set_entry_def)
  obtain c4 where c4: "remove_if_empty k c3 = Some c4" "ctx_ok c4" "directory c4 = (directory c3)(k := None)"
    "c4 = c3\<lparr>path_tree := path_tree c4\<rparr>"
    using remove_empty_entry [OF c3(1), of k] c3(2) by (metis fun_upd_same)
  have "directory c1 = [k \<mapsto> ?e]"
    using set_entry_ok(2) [OF assms(1), of k ?e] dir by (simp add: c1_def)
  then have empty: "directory c4 = Map.empty" using c4(3) c3(2) by auto
  then have "entries (path_tree c4) = []" by (simp add: table_map_def)
  then have ls: "list_services c4 = []" by (simp add: list_services_def)
  have kind4: "kind (proxies c4 p) \<noteq> BRIDGE" using arg_cong [OF c4(4), of proxies] c3(3) assms(4) by simp
  have "remove_service True k k (Some 0) (Some p) c = Some (O2_SUCCESS, c4)"
    using dir assms(1,3) own drop c4(1) ls kind4
    by (simp add: remove_service_def notify_gone_def find_entry Let_def vec_remove_def report_active_def
        flip: c1_def c2_def c3_def)
  then have "remove_services_loop p [k] O2_SUCCESS c = Some (O2_FAIL, c4)"
    using dir assms(1) idx by (simp add: find_entry O2err_value_def)
  then show ?thesis using assms(2,3) empty by (auto simp: remove_services_by_def)
qed

definition one_service :: O2_context where
  "one_service = two_procs\<lparr>path_tree := the (hash_insert
     (''synth'', Services_entry [Service_provider (Proxy 1) None] []) empty_Hash_node)\<rparr>"

lemma one_service: "ctx_ok one_service" "directory one_service = [''synth'' \<mapsto> Services_entry [Service_provider (Proxy 1) None] []]"
  using names.insert [OF empty_Hash_node_ok(1), of "(''synth'', Services_entry [Service_provider (Proxy 1) None] [])"]
  by (auto simp: one_service_def ctx_ok_def empty_Hash_node_ok)

lemma one_service_list: "list_services one_service = [''synth'']"
proof -
  let ?es = "entries (path_tree one_service)"
  have d: "distinct (map fst ?es)" using one_service(1) by (simp add: ctx_ok_def hash_ok_def)
  have "fst ` set ?es = {''synth''}"
    using one_service(2) unfolding table_map_def by (metis dom_empty dom_fun_upd dom_map_of_conv_image_fst option.distinct(1))
  then have "set (map fst ?es) = {''synth''}" by simp
  then have "map fst ?es = [''synth'']" using d by (intro distinct_set_singleton)
  then show ?thesis by (simp add: list_services_def)
qed

theorem remove_services_by_inverted_witness:
  "\<exists>c'. remove_services_by 1 one_service = Some (O2_FAIL, c') \<and> directory c' = Map.empty"
  using one_service one_service_list
  by (intro remove_services_by_inverted [where k = "''synth''" and props = None])
    (simp_all add: one_service_def two_procs_def)

end
