(* ===== verification/Floats.thy ===== *)
theory Floats
  imports Prelude
begin

text \<open>
  The conversions between integers and IEEE 754 numbers that C++ performs in casts, on the bit
  patterns: a \<open>float\<close> is a \<^typ>\<open>32 word\<close>, a \<open>double\<close> a \<^typ>\<open>64 word\<close>. Rounding is to nearest, ties
  to even. A cast to an integer type that cannot hold the truncated value is undefined: \<open>None\<close>.
\<close>

section \<open>Decoding and rounding\<close>

datatype fp = Finite bool nat int | Infinite bool | NotANumber bool nat

text \<open>\<open>p\<close> fraction bits, \<open>w\<close> exponent bits; the finite value is plus or minus \<open>m * 2 ^ e\<close>.\<close>

definition fp_bias :: "nat \<Rightarrow> int" where
  "fp_bias w = 2 ^ (w - 1) - 1"

definition fp_decode :: "nat \<Rightarrow> nat \<Rightarrow> nat \<Rightarrow> fp" where
  "fp_decode p w bits =
     (let fr = bits mod 2 ^ p; ex = bits div 2 ^ p mod 2 ^ w; s = (bits div 2 ^ (p + w) mod 2 = 1) in
      if ex = 2 ^ w - 1 then if fr = 0 then Infinite s else NotANumber s fr
      else if ex = 0 then Finite s fr (1 - fp_bias w - int p)
      else Finite s (2 ^ p + fr) (int ex - fp_bias w - int p))"

definition fp_pack :: "nat \<Rightarrow> nat \<Rightarrow> bool \<Rightarrow> nat \<Rightarrow> nat \<Rightarrow> nat" where
  "fp_pack p w s ex fr = (if s then 2 ^ (p + w) else 0) + ex * 2 ^ p + fr"

fun bitlen :: "nat \<Rightarrow> nat" where
  "bitlen n = (if n = 0 then 0 else Suc (bitlen (n div 2)))"

declare bitlen.simps [simp del]

definition round_shift :: "nat \<Rightarrow> nat \<Rightarrow> nat" where
  "round_shift m d =
     (let q = m div 2 ^ d; r = m mod 2 ^ d in
      if 2 ^ d < 2 * r \<or> 2 * r = 2 ^ d \<and> odd q then q + 1 else q)"

definition fp_round :: "nat \<Rightarrow> nat \<Rightarrow> bool \<Rightarrow> nat \<Rightarrow> int \<Rightarrow> nat" where
  "fp_round p w s m e =
     (if m = 0 then fp_pack p w s 0 0
      else let e' = max (e + int (bitlen m) - int p - 1) (1 - fp_bias w - int p);
               q = (if e' \<le> e then m * 2 ^ nat (e - e') else round_shift m (nat (e' - e)));
               (q, e') = (if q = 2 ^ (p + 1) then (2 ^ p, e' + 1) else (q, e')) in
        if q < 2 ^ p then fp_pack p w s 0 q
        else if e' + fp_bias w + int p \<ge> 2 ^ w - 1 then fp_pack p w s (2 ^ w - 1) 0
        else fp_pack p w s (nat (e' + fp_bias w + int p)) (q - 2 ^ p))"

definition fp_trunc :: "fp \<Rightarrow> int option" where
  "fp_trunc x = (case x of
     Finite s m e \<Rightarrow>
       let v = (if e \<ge> 0 then m * 2 ^ nat e else m div 2 ^ nat (- e)) in
       Some (if s then - int v else int v)
   | _ \<Rightarrow> None)"

section \<open>The casts\<close>

definition double_of_int :: "int \<Rightarrow> 64 word" where
  "double_of_int i = word_of_nat (fp_round 52 11 (i < 0) (nat \<bar>i\<bar>) 0)"

definition float_of_int :: "int \<Rightarrow> 32 word" where
  "float_of_int i = word_of_nat (fp_round 23 8 (i < 0) (nat \<bar>i\<bar>) 0)"

definition decode_double :: "64 word \<Rightarrow> fp" where
  "decode_double d = fp_decode 52 11 (unat d)"

definition decode_float :: "32 word \<Rightarrow> fp" where
  "decode_float f = fp_decode 23 8 (unat f)"

definition int32_of_double :: "64 word \<Rightarrow> 32 word option" where
  "int32_of_double d = (case fp_trunc (decode_double d) of
     None \<Rightarrow> None
   | Some i \<Rightarrow> if - (2 ^ 31) \<le> i \<and> i < 2 ^ 31 then Some (word_of_int i) else None)"

definition int64_of_double :: "64 word \<Rightarrow> 64 word option" where
  "int64_of_double d = (case fp_trunc (decode_double d) of
     None \<Rightarrow> None
   | Some i \<Rightarrow> if - (2 ^ 63) \<le> i \<and> i < 2 ^ 63 then Some (word_of_int i) else None)"

definition float_of_double :: "64 word \<Rightarrow> 32 word" where
  "float_of_double d = word_of_nat (case decode_double d of
     Finite s m e \<Rightarrow> fp_round 23 8 s m e
   | Infinite s \<Rightarrow> fp_pack 23 8 s 255 0
   | NotANumber s fr \<Rightarrow> fp_pack 23 8 s 255 (2 ^ 22 + fr div 2 ^ 29 mod 2 ^ 22))"

definition double_of_float :: "32 word \<Rightarrow> 64 word" where
  "double_of_float f = word_of_nat (case decode_float f of
     Finite s m e \<Rightarrow> fp_round 52 11 s m e
   | Infinite s \<Rightarrow> fp_pack 52 11 s 2047 0
   | NotANumber s fr \<Rightarrow> fp_pack 52 11 s 2047 (2 ^ 51 + fr mod 2 ^ 22 * 2 ^ 29))"

definition double_is_zero :: "64 word \<Rightarrow> bool" where
  "double_is_zero d \<longleftrightarrow> d = 0 \<or> d = 2 ^ 63"

text \<open>The comparison of doubles; one with a NaN is false.\<close>

definition fp_value :: "bool \<Rightarrow> nat \<Rightarrow> int \<Rightarrow> rat" where
  "fp_value s m e = (if s then -1 else 1) * of_nat m * (if e \<ge> 0 then 2 ^ nat e else 1 / 2 ^ nat (- e))"

definition double_less :: "64 word \<Rightarrow> 64 word \<Rightarrow> bool" where
  "double_less a b =
     (case (decode_double a, decode_double b) of
        (Finite s m e, Finite s' m' e') \<Rightarrow> fp_value s m e < fp_value s' m' e'
      | (Finite _ _ _, Infinite t) \<Rightarrow> \<not> t
      | (Infinite s, Finite _ _ _) \<Rightarrow> s
      | (Infinite s, Infinite t) \<Rightarrow> s \<and> \<not> t
      | _ \<Rightarrow> False)"

section \<open>Integers below \<open>2 ^ 53\<close> survive\<close>

lemma bitlen_bounds: "0 < m \<Longrightarrow> 2 ^ (bitlen m - 1) \<le> m \<and> m < 2 ^ bitlen m \<and> 0 < bitlen m"
proof (induction m rule: bitlen.induct)
  case (1 n)
  show ?case
  proof (cases "n div 2 = 0")
    case True
    then show ?thesis using 1 by (simp add: bitlen.simps [of n] bitlen.simps [of 0])
  next
    case False
    then have IH: "2 ^ (bitlen (n div 2) - 1) \<le> n div 2" "n div 2 < 2 ^ bitlen (n div 2)" "0 < bitlen (n div 2)"
      using 1 by auto
    have b: "bitlen n = Suc (bitlen (n div 2))" using 1(2) by (simp add: bitlen.simps [of n])
    obtain k where k: "bitlen (n div 2) = Suc k" using IH(3) by (metis gr0_conv_Suc)
    have "2 * 2 ^ k \<le> 2 * (n div 2)" using IH(1) k by simp
    moreover have "2 * (n div 2) + 2 \<le> 2 * 2 ^ Suc k" using IH(2) k by simp
    moreover have "n = 2 * (n div 2) + n mod 2" "n mod 2 < 2" by simp_all
    ultimately have "2 * 2 ^ k \<le> n" "n < 2 * 2 ^ Suc k" by linarith+
    then show ?thesis using b k by simp
  qed
qed

lemma bitlen_le: "m < 2 ^ n \<Longrightarrow> bitlen m \<le> n"
proof (cases "m = 0")
  case False
  assume "m < 2 ^ n"
  then have "(2::nat) ^ (bitlen m - 1) < 2 ^ n" using bitlen_bounds [of m] False by linarith
  then show ?thesis by (simp add: power_less_imp_less_exp)
qed (simp add: bitlen.simps)

lemma fp_round_exact:
  assumes "0 < m" "m < 2 ^ 53"
  shows "fp_round 52 11 s m 0 =
    fp_pack 52 11 s (bitlen m + 1022) (m * 2 ^ (53 - bitlen m) - 2 ^ 52)"
    "2 ^ 52 \<le> m * 2 ^ (53 - bitlen m)" "m * 2 ^ (53 - bitlen m) < 2 ^ 53"
proof -
  have b: "2 ^ (bitlen m - 1) \<le> m" "m < 2 ^ bitlen m" "0 < bitlen m" "bitlen m \<le> 53"
    using bitlen_bounds assms bitlen_le by auto
  have "(2::nat) ^ (bitlen m - 1) * 2 ^ (53 - bitlen m) \<le> m * 2 ^ (53 - bitlen m)" using b(1) by simp
  moreover have "bitlen m - 1 + (53 - bitlen m) = 52" using b by simp
  ultimately show lo: "2 ^ 52 \<le> m * 2 ^ (53 - bitlen m)" by (metis power_add)
  have "m * 2 ^ (53 - bitlen m) < 2 ^ bitlen m * 2 ^ (53 - bitlen m)" using b(2) by simp
  moreover have "bitlen m + (53 - bitlen m) = 53" using b by simp
  ultimately show hi: "m * 2 ^ (53 - bitlen m) < 2 ^ 53" by (metis power_add)
  have e: "max (0 + int (bitlen m) - int 52 - 1) (1 - fp_bias 11 - int 52) = int (bitlen m) - 53"
    using b by (simp add: fp_bias_def)
  have sh: "nat (0 - (int (bitlen m) - 53)) = 53 - bitlen m" by simp
  show "fp_round 52 11 s m 0 = fp_pack 52 11 s (bitlen m + 1022) (m * 2 ^ (53 - bitlen m) - 2 ^ 52)"
    unfolding fp_round_def Let_def e sh
    using assms b lo hi by (simp add: fp_bias_def nat_add_distrib add.commute)
qed

lemma fp_decode_pack:
  assumes "0 < ex" "ex < 2047" "fr < 2 ^ 52"
  shows "fp_pack 52 11 s ex fr < 2 ^ 64"
    "fp_decode 52 11 (fp_pack 52 11 s ex fr) = Finite s (2 ^ 52 + fr) (int ex - 1075)"
proof -
  have le: "ex * 2 ^ 52 + fr < 2 ^ 63" using assms by simp
  then show "fp_pack 52 11 s ex fr < 2 ^ 64" by (auto simp: fp_pack_def)
  have fr: "fp_pack 52 11 s ex fr mod 2 ^ 52 = fr"
    using assms by (auto simp: fp_pack_def mod_add_left_eq [symmetric])
  have div: "fp_pack 52 11 s ex fr div 2 ^ 52 = (if s then 2048 else 0) + ex"
    using assms by (auto simp: fp_pack_def)
  have ex: "((if s then 2048 else 0) + ex) mod 2 ^ 11 = ex" using assms by auto
  have sg: "fp_pack 52 11 s ex fr div 2 ^ (52 + 11) = (if s then 1 else 0)"
    using le by (auto simp: fp_pack_def)
  show "fp_decode 52 11 (fp_pack 52 11 s ex fr) = Finite s (2 ^ 52 + fr) (int ex - 1075)"
    unfolding fp_decode_def Let_def fr div sg ex using assms by (simp add: fp_bias_def)
qed

lemma trunc_double_of_int:
  assumes "\<bar>i\<bar> < 2 ^ 53"
  shows "fp_trunc (decode_double (double_of_int i)) = Some i"
proof (cases "i = 0")
  case True
  then show ?thesis
    by (simp add: double_of_int_def fp_round_def fp_pack_def decode_double_def fp_decode_def fp_trunc_def)
next
  case False
  define m where "m = nat \<bar>i\<bar>"
  have m: "0 < m" "m < 2 ^ 53" using assms False by (auto simp: m_def nat_less_iff)
  note r = fp_round_exact(1) [OF m, of "i < 0"] fp_round_exact(2,3) [OF m]
  have b: "0 < bitlen m" "bitlen m \<le> 53" using bitlen_bounds [OF m(1)] bitlen_le [OF m(2)] by auto
  note d = fp_decode_pack [where ex = "bitlen m + 1022" and fr = "m * 2 ^ (53 - bitlen m) - 2 ^ 52" and s = "i < 0"]
  have w: "unat (double_of_int i) = fp_pack 52 11 (i < 0) (bitlen m + 1022) (m * 2 ^ (53 - bitlen m) - 2 ^ 52)"
    using d(1) r b by (simp add: double_of_int_def m_def [symmetric] unat_of_nat)
  have "decode_double (double_of_int i) = Finite (i < 0) (m * 2 ^ (53 - bitlen m)) (int (bitlen m) - 53)"
    unfolding decode_double_def w using d(2) r b by simp
  moreover have "fp_trunc (Finite (i < 0) (m * 2 ^ (53 - bitlen m)) (int (bitlen m) - 53)) = Some i"
  proof (cases "bitlen m = 53")
    case True
    then show ?thesis by (auto simp: fp_trunc_def m_def Let_def)
  next
    case False
    then have "nat (53 - int (bitlen m)) = 53 - bitlen m" "int (bitlen m) - 53 < 0" using b by auto
    then show ?thesis by (auto simp: fp_trunc_def m_def Let_def)
  qed
  ultimately show ?thesis by simp
qed

text \<open>Every 32-bit integer survives the coercion to double and back.\<close>

lemma int32_double_roundtrip: "int32_of_double (double_of_int (sint (i :: 32 word))) = Some i"
proof -
  have b: "- (2 ^ 31) \<le> sint i" "sint i < 2 ^ 31"
    using sint_greater_eq [of i] sint_less [of i] by simp_all
  then have "\<bar>sint i\<bar> < 2 ^ 53" by simp
  then show ?thesis using b by (simp add: int32_of_double_def trunc_double_of_int)
qed

section \<open>Scaling by powers of two\<close>

lemma bitlen_normal: "2 ^ 52 \<le> m \<Longrightarrow> m < 2 ^ 53 \<Longrightarrow> bitlen m = 53"
proof -
  assume m: "2 ^ 52 \<le> m" "m < 2 ^ 53"
  then have b: "bitlen m \<le> 53" "m < 2 ^ bitlen m" using bitlen_le [of m 53] bitlen_bounds [of m] by auto
  then have "(2 :: nat) ^ 52 < 2 ^ bitlen m" using m(1) by linarith
  then have "52 < bitlen m" by (rule power_less_imp_less_exp [rotated]) simp
  then show ?thesis using b(1) by simp
qed

lemma fp_round_normal:
  assumes "2 ^ 52 \<le> m" "m < 2 ^ 53" "- 1074 \<le> e" "e < 972"
  shows "decode_double (word_of_nat (fp_round 52 11 s m e)) = Finite s m e"
proof -
  have b: "max (e + int (bitlen m) - int 52 - 1) (1 - fp_bias 11 - int 52) = e"
    using assms bitlen_normal [OF assms(1,2)] by (simp add: fp_bias_def)
  have "fp_round 52 11 s m e = fp_pack 52 11 s (nat (e + 1075)) (m - 2 ^ 52)"
    unfolding fp_round_def Let_def b using assms by (simp add: fp_bias_def add.commute)
  moreover have "0 < nat (e + 1075)" "nat (e + 1075) < 2047" "m - 2 ^ 52 < 2 ^ 52" using assms by auto
  moreover note fp_decode_pack [OF calculation(2-4), of s]
  ultimately show ?thesis using assms by (simp add: decode_double_def unat_of_nat)
qed

lemma decode_double_of_nat:
  assumes "0 < m" "m < 2 ^ 53"
  shows "decode_double (double_of_int (int m)) = Finite False (m * 2 ^ (53 - bitlen m)) (int (bitlen m) - 53)"
proof -
  note r = fp_round_exact(1) [OF assms, of False] fp_round_exact(2,3) [OF assms]
  have b: "0 < bitlen m" "bitlen m \<le> 53" using bitlen_bounds [OF assms(1)] bitlen_le [OF assms(2)] by auto
  note d = fp_decode_pack [where ex = "bitlen m + 1022" and fr = "m * 2 ^ (53 - bitlen m) - 2 ^ 52" and s = False]
  have w: "unat (double_of_int (int m)) = fp_pack 52 11 False (bitlen m + 1022) (m * 2 ^ (53 - bitlen m) - 2 ^ 52)"
    using d(1) r b by (simp add: double_of_int_def unat_of_nat)
  show ?thesis unfolding decode_double_def w using d(2) r b by simp
qed

end
