(* ===== verification/Messages.thy ===== *)
theory Messages
  imports Floats
begin

text \<open>
  Building messages and taking them apart (src/src/message.cpp). A message is its header fields and
  the bytes from the address on; its length field is 12 (flags and timestamp) more than their
  number. Numbers lie in memory as on a little endian host. A pointer into a message is the rest of
  its bytes; \<open>None\<close> says that the code reads behind them.
\<close>

section \<open>Messages\<close>

type_synonym O2type = char

record O2message =
  misc :: "32 word"
  timestamp :: "64 word"
  body :: "byte list"

definition data_length :: "O2message \<Rightarrow> int" where
  "data_length m = 12 + int (length (body m))"

abbreviation (input) O2_TCP_FLAG :: "32 word" where "O2_TCP_FLAG \<equiv> 1"
abbreviation (input) O2_UDP_FLAG :: "32 word" where "O2_UDP_FLAG \<equiv> 0"
abbreviation (input) O2_TAP_FLAG :: "32 word" where "O2_TAP_FLAG \<equiv> 2"

text \<open>The C string at a pointer.\<close>

definition c_str :: "byte list \<Rightarrow> string" where
  "c_str bs = map char_of_byte (takeWhile (\<lambda>b. b \<noteq> 0) bs)"

fun o2_next_o2string :: "byte list \<Rightarrow> byte list option" where
  "o2_next_o2string (a # b # c # d # rest) = (if d \<noteq> 0 then o2_next_o2string rest else Some rest)"
| "o2_next_o2string _ = None"

text \<open>The type codes, and the parameters behind the padded type string.\<close>

definition o2_msg_data_types :: "O2message \<Rightarrow> byte list option" where
  "o2_msg_data_types m = map_option tl (o2_next_o2string (body m))"

definition o2_msg_data_params :: "O2message \<Rightarrow> byte list option" where
  "o2_msg_data_params m = Option.bind (o2_next_o2string (body m)) o2_next_o2string"

definition IS_BUNDLE :: "O2message \<Rightarrow> bool" where
  "IS_BUNDLE m \<longleftrightarrow> body m \<noteq> [] \<and> hd (body m) = byte_of CHR ''#''"

section \<open>The scratch areas\<close>

record builder =
  building_message_lock :: bool
  msg_types :: string
  msg_data :: "byte list"
  is_bundle :: bool
  is_normal :: bool

definition o2_send_start :: "builder \<Rightarrow> O2err \<times> builder" where
  "o2_send_start b =
     (if building_message_lock b then (O2_FAIL, b)
      else (O2_SUCCESS, \<lparr>building_message_lock = True, msg_types = '','', msg_data = [],
                         is_bundle = False, is_normal = False\<rparr>))"

definition add_type :: "O2type \<Rightarrow> builder \<Rightarrow> builder" where
  "add_type t b = b\<lparr>msg_types := msg_types b @ [t]\<rparr>"

definition append_data :: "byte list \<Rightarrow> builder \<Rightarrow> builder" where
  "append_data bs b = b\<lparr>msg_data := msg_data b @ bs\<rparr>"

definition ADD_PADDING :: "builder \<Rightarrow> builder" where
  "ADD_PADDING b =
     (let sz = length (msg_data b); pad_len = ROUNDUP_TO_32BIT sz - sz in
      append_data (replicate pad_len 0) b)"

definition o2_add_int32_or_char :: "O2type \<Rightarrow> 32 word \<Rightarrow> builder \<Rightarrow> O2err \<times> builder" where
  "o2_add_int32_or_char code i b =
     (if is_bundle b then (O2_FAIL, b)
      else (O2_SUCCESS, add_type code (append_data (le_enc 4 i) (b\<lparr>is_normal := True\<rparr>))))"

definition o2_add_float :: "32 word \<Rightarrow> builder \<Rightarrow> O2err \<times> builder" where
  "o2_add_float f b =
     (if is_bundle b then (O2_FAIL, b)
      else (O2_SUCCESS, add_type CHR ''f'' (append_data (le_enc 4 f) (b\<lparr>is_normal := True\<rparr>))))"

definition o2_add_int64 :: "64 word \<Rightarrow> builder \<Rightarrow> O2err \<times> builder" where
  "o2_add_int64 i b =
     (if is_bundle b then (O2_FAIL, b)
      else (O2_SUCCESS, add_type CHR ''h'' (append_data (le_enc 8 i) (b\<lparr>is_normal := True\<rparr>))))"

definition o2_add_double_or_time :: "O2type \<Rightarrow> 64 word \<Rightarrow> builder \<Rightarrow> O2err \<times> builder" where
  "o2_add_double_or_time code d b =
     (if is_bundle b then (O2_FAIL, b)
      else (O2_SUCCESS, add_type code (append_data (le_enc 8 d) (b\<lparr>is_normal := True\<rparr>))))"

definition o2_add_only_typecode :: "O2type \<Rightarrow> builder \<Rightarrow> O2err \<times> builder" where
  "o2_add_only_typecode code b =
     (if is_bundle b then (O2_FAIL, b) else (O2_SUCCESS, add_type code (b\<lparr>is_normal := True\<rparr>)))"

definition o2_add_string_or_symbol :: "O2type \<Rightarrow> string \<Rightarrow> builder \<Rightarrow> O2err \<times> builder" where
  "o2_add_string_or_symbol code s b =
     (if is_bundle b then (O2_FAIL, b)
      else (O2_SUCCESS,
        add_type code (ADD_PADDING (append_data (bytes_of s @ [0]) (b\<lparr>is_normal := True\<rparr>)))))"

definition o2_add_blob_data :: "byte list \<Rightarrow> builder \<Rightarrow> O2err \<times> builder" where
  "o2_add_blob_data bs b =
     (if is_bundle b then (O2_FAIL, b)
      else let b = b\<lparr>is_normal := True\<rparr>;
               (_, b) = o2_add_int32_or_char CHR ''b'' (word_of_nat (length bs)) b in
        (O2_SUCCESS, ADD_PADDING (append_data bs b)))"

text \<open>A vector argument is its elements' bytes; \<open>length\<close> counts elements and is multiplied as an
  \<open>int32_t\<close>.\<close>

definition o2_add_vector :: "O2type \<Rightarrow> 32 word \<Rightarrow> byte list \<Rightarrow> builder \<Rightarrow> O2err \<times> builder" where
  "o2_add_vector element_type n bs b =
     (if is_bundle b then (O2_FAIL, b)
      else let b = b\<lparr>is_normal := True\<rparr> in
        if element_type \<notin> set ''ihfd'' then (O2_BAD_TYPE, b)
        else let sz = (if element_type = CHR ''d'' \<or> element_type = CHR ''h'' then 8 else 4);
                 n = n * sz;
                 (_, b) = o2_add_int32_or_char CHR ''v'' n b in
          (O2_SUCCESS, append_data (take (unat n) bs) (add_type element_type b)))"

definition o2_add_raw_bytes :: "byte list \<Rightarrow> builder \<Rightarrow> builder" where
  "o2_add_raw_bytes bs b = ADD_PADDING (append_data bs b)"

text \<open>The bytes of a message's data part, from its length field on.\<close>

definition data_bytes :: "O2message \<Rightarrow> byte list" where
  "data_bytes m = le_enc 4 (word_of_int (data_length m) :: 32 word) @ le_enc 4 (misc m) @
                  le_enc 8 (timestamp m) @ body m"

definition o2_add_message :: "O2message \<Rightarrow> builder \<Rightarrow> O2err \<times> builder" where
  "o2_add_message m b =
     (if is_normal b then (O2_FAIL, b)
      else (O2_SUCCESS, o2_add_raw_bytes (data_bytes m) (b\<lparr>is_bundle := True\<rparr>)))"

section \<open>Finishing a message\<close>

text \<open>Copy bytes to an offset of a block of memory.\<close>

definition write_at :: "nat \<Rightarrow> byte list \<Rightarrow> byte list \<Rightarrow> byte list" where
  "write_at k bs mem = take k mem @ bs @ drop (k + length bs) mem"

text \<open>
  The bytes written behind the header; \<open>junk\<close> is what the new message's memory happens to hold. The
  last word of the address and of the type string are zeroed before the text is copied in.
\<close>

definition message_memory :: "(nat \<Rightarrow> byte) \<Rightarrow> string option \<Rightarrow> string \<Rightarrow> builder \<Rightarrow> byte list" where
  "message_memory junk svc address b =
     (let service_len = (case svc of None \<Rightarrow> 0 | Some s \<Rightarrow> length s + 1);
          addr_size = ROUNDUP_TO_32BIT (service_len + length address + 1);
          types_size = (if is_bundle b then 0 else ROUNDUP_TO_32BIT (length (msg_types b) + 1));
          prefix = (if is_bundle b then CHR ''#'' else CHR ''/'');
          mem = map junk [0..<addr_size + types_size + length (msg_data b)];
          mem = write_at (addr_size - 4) [0, 0, 0, 0] mem;
          mem = (case svc of None \<Rightarrow> mem
                 | Some s \<Rightarrow> write_at 1 (bytes_of s @ [0]) (write_at 0 [byte_of prefix] mem));
          mem = write_at service_len (bytes_of address) mem;
          mem = (if is_bundle b then mem
                 else write_at addr_size (bytes_of (msg_types b))
                        (write_at (addr_size + types_size - 4) [0, 0, 0, 0] mem)) in
      write_at (addr_size + types_size) (msg_data b) mem)"

text \<open>\<open>ok\<close>: there is memory for the message.\<close>

definition o2_service_message_finish ::
  "bool \<Rightarrow> (nat \<Rightarrow> byte) \<Rightarrow> 64 word \<Rightarrow> string option \<Rightarrow> string \<Rightarrow> bool \<Rightarrow> builder \<Rightarrow> O2message option \<times> builder" where
  "o2_service_message_finish ok junk time svc address tcp_flag b =
     (if \<not> building_message_lock b then (None, b)
      else let b' = b\<lparr>building_message_lock := False\<rparr> in
        if \<not> ok then (None, b')
        else (Some \<lparr>misc = (if tcp_flag then O2_TCP_FLAG else O2_UDP_FLAG), timestamp = time,
                    body = message_memory junk svc address b\<rparr>, b'))"

definition o2_message_finish :: "bool \<Rightarrow> (nat \<Rightarrow> byte) \<Rightarrow> 64 word \<Rightarrow> string \<Rightarrow> bool \<Rightarrow> builder \<Rightarrow> O2message option \<times> builder" where
  "o2_message_finish ok junk time address tcp_flag b = o2_service_message_finish ok junk time None address tcp_flag b"

section \<open>Building from a type string\<close>

text \<open>
  The variable arguments: an argument of another type than the type string says makes \<open>va_arg\<close>
  undefined (\<open>None\<close>). After the arguments come two markers; any argument in their place is taken
  for a mismatch.
\<close>

datatype c_value = C_int "32 word" | C_int64 "64 word" | C_double "64 word" | C_string string | C_blob "byte list"

fun build_args :: "string \<Rightarrow> c_value list \<Rightarrow> builder \<Rightarrow> (c_value list \<times> builder) option" where
  "build_args [] vs b = Some (vs, b)"
| "build_args (t # ts) vs b =
     (if t \<in> set ''TFNI'' then build_args ts vs (add_type t b)
      else if t \<in> set ''ifhdtSsbcmB'' then
        (case vs of
           [] \<Rightarrow> None
         | v # vs \<Rightarrow>
             (case v of
                C_int i \<Rightarrow>
                  if t \<in> set ''icm'' then build_args ts vs (snd (o2_add_int32_or_char t i b))
                  else if t = CHR ''B'' then
                    build_args ts vs (snd (o2_add_int32_or_char t (if i \<noteq> 0 then 1 else 0) b))
                  else None
              | C_int64 i \<Rightarrow> if t = CHR ''h'' then build_args ts vs (snd (o2_add_int64 i b)) else None
              | C_double d \<Rightarrow>
                  if t = CHR ''f'' then build_args ts vs (snd (o2_add_float (float_of_double d) b))
                  else if t \<in> set ''dt'' then build_args ts vs (snd (o2_add_double_or_time t d b))
                  else None
              | C_string s \<Rightarrow>
                  if t \<in> set ''Ss'' then build_args ts vs (snd (o2_add_string_or_symbol t s b)) else None
              | C_blob bs \<Rightarrow>
                  if t = CHR ''b'' then build_args ts vs (snd (o2_add_blob_data bs b)) else None))
      else build_args ts vs b)"

definition o2_message_build :: "bool \<Rightarrow> (nat \<Rightarrow> byte) \<Rightarrow> 64 word \<Rightarrow> string option \<Rightarrow> string \<Rightarrow> string \<Rightarrow> bool \<Rightarrow> c_value list \<Rightarrow>
    builder \<Rightarrow> (O2err \<times> O2message option \<times> builder) option" where
  "o2_message_build ok junk time svc path typestring tcp_flag args b =
     (case build_args typestring args (snd (o2_send_start b)) of
        None \<Rightarrow> None
      | Some (rest, b) \<Rightarrow>
          if rest \<noteq> [] then Some (O2_BAD_ARGS, None, b)
          else let (m, b) = o2_service_message_finish ok junk time svc path tcp_flag b in
            Some (if m = None then O2_FAIL else O2_SUCCESS, m, b))"

section \<open>What the finished message holds\<close>

text \<open>A string with its zero byte and the zero padding up to a word.\<close>

definition zero_padded :: "string \<Rightarrow> byte list" where
  "zero_padded s = bytes_of s @ replicate (ROUNDUP_TO_32BIT (length s + 1) - length s) 0"

lemma length_zero_padded: "length (zero_padded s) = ROUNDUP_TO_32BIT (length s + 1)"
  using roundup_bounds(1) [of "length s + 1"] by (simp add: zero_padded_def)

lemma write_at_left: "k + length bs \<le> length xs \<Longrightarrow> write_at k bs (xs @ ys) = write_at k bs xs @ ys"
  by (simp add: write_at_def)

lemma write_at_right: "write_at (length xs + k) bs (xs @ ys) = xs @ write_at k bs ys"
  by (simp add: write_at_def)

lemma length_write_at: "k + length bs \<le> length xs \<Longrightarrow> length (write_at k bs xs) = length xs"
  by (simp add: write_at_def)

lemma write_at_all: "length ys = length bs \<Longrightarrow> write_at 0 bs ys = bs"
  by (simp add: write_at_def)

text \<open>Text over a region whose last word was zeroed first is the zero padded text.\<close>

lemma write_text:
  assumes "length mem = ROUNDUP_TO_32BIT (length s + 1)"
  shows "write_at 0 (bytes_of s) (write_at (length mem - 4) [0, 0, 0, 0] mem) = zero_padded s"
proof -
  have b: "length s + 1 \<le> length mem" "length mem < length s + 5"
    using roundup_bounds [of "length s + 1"] assms by auto
  have four: "4 \<le> length mem"
    using b roundup_dvd [of "length s + 1"] assms by (metis add_gr_0 dvd_imp_le gr0I le_zero_eq not_one_le_zero zero_less_one add_leD2)
  have "drop (length s) (write_at (length mem - 4) [0, 0, 0, 0] mem) =
      drop (length s - (length mem - 4)) [0, 0, 0, 0]"
    using b four by (simp add: write_at_def)
  also have "\<dots> = replicate (length mem - length s) 0"
  proof -
    have r: "[0, 0, 0, 0 :: byte] = replicate 4 0" by (simp add: eval_nat_numeral)
    have "4 - (length s - (length mem - 4)) = length mem - length s" using b four by simp
    then show ?thesis unfolding r by simp
  qed
  finally show ?thesis using assms by (simp add: write_at_def [of 0] zero_padded_def)
qed

lemma write_service:
  assumes "length mem = ROUNDUP_TO_32BIT (length s + 1 + length address + 1)"
  shows "write_at (length s + 1) (bytes_of address) (write_at 1 (bytes_of s @ [0])
      (write_at 0 [byte_of p] (write_at (length mem - 4) [0, 0, 0, 0] mem))) = zero_padded (p # s @ address)"
proof -
  let ?z = "write_at (length mem - 4) [0, 0, 0, 0] mem"
  have b: "length s + length address + 2 \<le> length mem" "length mem < length s + length address + 6"
    using roundup_bounds [of "length s + 1 + length address + 1"] assms by auto
  have four: "4 \<le> length mem"
    using b roundup_dvd [of "length s + 1 + length address + 1"] assms
    by (metis dvd_imp_le gr0I le_zero_eq add_is_0 zero_neq_numeral)
  have lz: "length ?z = length mem" using four by (simp add: length_write_at)
  then obtain z0 zs where z: "?z = z0 # zs" "length zs = length mem - 1"
    using b by (cases ?z) auto
  have t: "write_at 0 (bytes_of (p # s @ address)) ?z = zero_padded (p # s @ address)"
    using assms by (intro write_text) (simp add: ac_simps)
  show ?thesis
  proof (cases address)
    case Nil
    have "zs ! length s = 0"
    proof -
      have "?z ! (length s + 1) = 0"
        using b four Nil by (auto simp: write_at_def nth_append nth_Cons')
      then show ?thesis by (simp add: z)
    qed
    moreover have "length s < length zs" using b z(2) Nil by simp
    ultimately have "0 # drop (Suc (length s)) zs = drop (length s) zs"
      by (metis Cons_nth_drop_Suc)
    then show ?thesis using t Nil unfolding z by (simp add: write_at_def)
  next
    case (Cons c cs)
    then show ?thesis using t unfolding z by (simp add: write_at_def add.commute)
  qed
qed

definition full_address :: "builder \<Rightarrow> string option \<Rightarrow> string \<Rightarrow> string" where
  "full_address b svc address = (case svc of None \<Rightarrow> address
     | Some s \<Rightarrow> (if is_bundle b then CHR ''#'' else CHR ''/'') # s @ address)"

definition slash_address :: "string option \<Rightarrow> string \<Rightarrow> string" where
  "slash_address svc address = (case svc of None \<Rightarrow> address | Some s \<Rightarrow> CHR ''/'' # s @ address)"

lemma full_address_normal: "\<not> is_bundle b \<Longrightarrow> full_address b svc address = slash_address svc address"
  by (simp add: full_address_def slash_address_def split: option.split)

lemma split_three:
  assumes "length xs = A + T + D"
  obtains a b c where "xs = a @ b @ c" "length a = A" "length b = T" "length c = D"
proof
  show "xs = take A xs @ take T (drop A xs) @ drop (A + T) xs"
    by (metis append_take_drop_id drop_drop add.commute)
qed (use assms in simp_all)

text \<open>The writes into the three regions, one after the other.\<close>

lemma write_middle:
  "length a = A \<Longrightarrow> k + length bs \<le> length b \<Longrightarrow> write_at (A + k) bs (a @ b @ c) = a @ write_at k bs b @ c"
  using write_at_right [of a k bs "b @ c"] write_at_left [of k bs b c] by simp

lemma message_memory:
  "message_memory junk svc address b = zero_padded (full_address b svc address) @
     (if is_bundle b then [] else zero_padded (msg_types b)) @ msg_data b"
proof -
  define sl where "sl = (case svc of None \<Rightarrow> 0 | Some s \<Rightarrow> length s + 1)"
  define full where "full = full_address b svc address"
  define A where "A = ROUNDUP_TO_32BIT (sl + length address + 1)"
  define T where "T = (if is_bundle b then 0 else ROUNDUP_TO_32BIT (length (msg_types b) + 1))"
  define pre where "pre = (if is_bundle b then CHR ''#'' else CHR ''/'')"
  obtain ma mt md where m: "map junk [0..<A + T + length (msg_data b)] = ma @ mt @ md"
    "length ma = A" "length mt = T" "length md = length (msg_data b)"
    by (rule split_three [of "map junk [0..<A + T + length (msg_data b)]"]) auto
  have four: "4 \<le> ROUNDUP_TO_32BIT (n + 1)" for n by (simp add: ROUNDUP_TO_32BIT_def)
  have A4: "4 \<le> A" by (simp only: A_def four)
  have Ab: "sl + length address + 1 \<le> A" unfolding A_def by (rule roundup_bounds(1))
  define ma1 where "ma1 = write_at (A - 4) [0, 0, 0, 0] ma"
  define ma2 where "ma2 = (case svc of None \<Rightarrow> ma1
      | Some s \<Rightarrow> write_at 1 (bytes_of s @ [0]) (write_at 0 [byte_of pre] ma1))"
  have l1: "length ma1 = A" using m(2) A4 by (simp add: ma1_def length_write_at)
  have w1: "write_at (A - 4) [0, 0, 0, 0] (ma @ mt @ md) = ma1 @ mt @ md"
    unfolding ma1_def using m(2) A4 by (intro write_at_left) simp
  have w2: "(case svc of None \<Rightarrow> ma1 @ mt @ md
      | Some s \<Rightarrow> write_at 1 (bytes_of s @ [0]) (write_at 0 [byte_of pre] (ma1 @ mt @ md))) = ma2 @ mt @ md"
    using Ab l1 A4 by (auto simp: ma2_def sl_def write_at_left length_write_at split: option.split)
  have l2: "length ma2 = A"
    using Ab l1 A4 by (auto simp: ma2_def sl_def length_write_at split: option.split)
  have addr: "write_at sl (bytes_of address) ma2 = zero_padded full"
  proof (cases svc)
    case None
    then show ?thesis using write_text [of ma address] m(2)
      by (simp add: ma2_def ma1_def sl_def A_def full_def full_address_def)
  next
    case (Some s)
    have "length ma = ROUNDUP_TO_32BIT (length s + 1 + length address + 1)"
      using m(2) Some by (simp add: A_def sl_def)
    from write_service [OF this, of pre] show ?thesis
      using Some m(2) by (simp add: ma2_def ma1_def sl_def full_def full_address_def pre_def)
  qed
  have w3: "write_at sl (bytes_of address) (ma2 @ mt @ md) = zero_padded full @ mt @ md"
    using Ab l2 by (simp add: write_at_left addr)
  have "length full = sl + length address"
    by (simp add: full_def full_address_def sl_def split: option.split)
  then have lf: "length (zero_padded full) = A" by (simp add: length_zero_padded A_def)
  define mt1 where "mt1 = (if is_bundle b then [] else zero_padded (msg_types b))"
  have lt: "length mt1 = T" by (simp add: mt1_def T_def length_zero_padded)
  have w4: "(if is_bundle b then zero_padded full @ mt @ md
       else write_at A (bytes_of (msg_types b)) (write_at (A + T - 4) [0, 0, 0, 0] (zero_padded full @ mt @ md))) =
     zero_padded full @ mt1 @ md"
  proof (cases "is_bundle b")
    case True
    then show ?thesis using m(3) by (simp add: mt1_def T_def)
  next
    case False
    have T4: "4 \<le> T" using False four by (simp add: T_def del: add_0_right)
    have Tb: "length (msg_types b) + 1 \<le> T" using False roundup_bounds(1) [of "length (msg_types b) + 1"]
      by (simp add: T_def)
    have "write_at (A + T - 4) [0, 0, 0, 0] (zero_padded full @ mt @ md) =
        zero_padded full @ write_at (T - 4) [0, 0, 0, 0] mt @ md"
      using write_middle [OF lf, of "T - 4" "[0, 0, 0, 0]" mt md] T4 m(3) by simp
    moreover have "write_at A (bytes_of (msg_types b)) (zero_padded full @ write_at (T - 4) [0, 0, 0, 0] mt @ md) =
        zero_padded full @ write_at 0 (bytes_of (msg_types b)) (write_at (T - 4) [0, 0, 0, 0] mt) @ md"
      using write_middle [OF lf, of 0 "bytes_of (msg_types b)" "write_at (T - 4) [0, 0, 0, 0] mt" md]
        T4 Tb m(3) by (simp add: length_write_at)
    moreover have "write_at 0 (bytes_of (msg_types b)) (write_at (T - 4) [0, 0, 0, 0] mt) = mt1"
      using write_text [of mt "msg_types b"] m(3) False by (simp add: mt1_def T_def)
    ultimately show ?thesis using False by simp
  qed
  have w5: "write_at (A + T) (msg_data b) (zero_padded full @ mt1 @ md) = zero_padded full @ mt1 @ msg_data b"
    using write_at_right [of "zero_padded full @ mt1" 0 "msg_data b" md] lf lt m(4)
    by (simp add: write_at_all)
  show ?thesis
    unfolding message_memory_def Let_def sl_def [symmetric]
    unfolding A_def [symmetric] T_def [symmetric] pre_def [symmetric]
    unfolding m(1) w1 w2 w3 unfolding w4 w5 unfolding mt1_def full_def ..
qed

section \<open>Reading it back\<close>

lemma roundup_add: "4 dvd n \<Longrightarrow> ROUNDUP_TO_32BIT (n + k) = n + ROUNDUP_TO_32BIT k"
proof -
  assume "4 dvd n"
  then obtain j where "n = 4 * j" ..
  then show ?thesis by (simp add: ROUNDUP_TO_32BIT_def add.assoc)
qed

lemma zero_padded_step: "zero_padded (a # b # c # d # s) = byte_of a # byte_of b # byte_of c # byte_of d # zero_padded s"
proof -
  have "length (a # b # c # d # s) + 1 = 4 + (length s + 1)" by simp
  then have "ROUNDUP_TO_32BIT (length (a # b # c # d # s) + 1) = 4 + ROUNDUP_TO_32BIT (length s + 1)"
    using roundup_add [of 4 "length s + 1"] by (simp only: dvd_refl)
  then have "zero_padded (a # b # c # d # s) =
      bytes_of (a # b # c # d # s) @ replicate (4 + ROUNDUP_TO_32BIT (length s + 1) - length (a # b # c # d # s)) 0"
    by (simp only: zero_padded_def)
  then show ?thesis by (simp add: zero_padded_def)
qed

lemma replicate_small: "replicate 2 x = [x, x]" "replicate 3 x = [x, x, x]" "replicate 4 x = [x, x, x, x]"
  by (simp_all add: eval_nat_numeral)

lemma zero_padded_short:
  "zero_padded [] = [0, 0, 0, 0]" "zero_padded [a] = [byte_of a, 0, 0, 0]"
  "zero_padded [a, b] = [byte_of a, byte_of b, 0, 0]" "zero_padded [a, b, c] = [byte_of a, byte_of b, byte_of c, 0]"
proof -
  have r: "ROUNDUP_TO_32BIT 1 = 4" "ROUNDUP_TO_32BIT 2 = 4" "ROUNDUP_TO_32BIT 3 = 4" "ROUNDUP_TO_32BIT 4 = 4"
    by (simp_all add: ROUNDUP_TO_32BIT_def)
  show "zero_padded [] = [0, 0, 0, 0]" using r by (simp add: zero_padded_def replicate_small)
  have n: "length [a] + 1 = 2" "length [a, b] + 1 = 3" "length [a, b, c] + 1 = 4" by simp_all
  show "zero_padded [a] = [byte_of a, 0, 0, 0]" unfolding zero_padded_def n r using replicate_small by simp
  show "zero_padded [a, b] = [byte_of a, byte_of b, 0, 0]" unfolding zero_padded_def n r using replicate_small by simp
  show "zero_padded [a, b, c] = [byte_of a, byte_of b, byte_of c, 0]" unfolding zero_padded_def n r by simp
qed

lemma next_o2string_padded: "c_string s \<Longrightarrow> o2_next_o2string (zero_padded s @ rest) = Some rest"
proof (induction "length s" arbitrary: s rule: less_induct)
  case less
  consider "s = []" | a where "s = [a]" | a b where "s = [a, b]" | a b c where "s = [a, b, c]"
    | a b c d s' where "s = a # b # c # d # s'"
    by (metis list.exhaust)
  then show ?case
  proof cases
    case (5 a b c d s')
    have "byte_of d \<noteq> 0" using less.prems 5 by (auto simp: c_string_def byte_of_eq_0_iff)
    moreover have "c_string s'" using less.prems 5 by (simp add: c_string_def)
    ultimately show ?thesis using less.hyps [of s'] 5 by (simp add: zero_padded_step)
  qed (simp_all add: zero_padded_short)
qed

lemma takeWhile_padded:
  "c_string x \<Longrightarrow> takeWhile (\<lambda>b. b \<noteq> 0) (zero_padded x @ rest) = bytes_of x"
proof -
  assume c: "c_string x"
  have "ROUNDUP_TO_32BIT (length x + 1) - length x \<noteq> 0" using roundup_bounds(1) [of "length x + 1"] by simp
  then obtain k where k: "ROUNDUP_TO_32BIT (length x + 1) - length x = Suc k" by (metis not0_implies_Suc)
  have "zero_padded x @ rest = bytes_of x @ 0 # replicate k 0 @ rest" unfolding zero_padded_def k by simp
  moreover have "\<forall>b \<in> set (bytes_of x). b \<noteq> 0" using c zero_in_bytes_of by blast
  ultimately show ?thesis by (simp only: takeWhile_append) auto
qed

lemma zero_in_padded: "0 \<in> set (zero_padded x @ rest)"
proof -
  have "ROUNDUP_TO_32BIT (length x + 1) - length x \<noteq> 0" using roundup_bounds(1) [of "length x + 1"] by simp
  then show ?thesis by (simp add: zero_padded_def)
qed

lemma c_str_append: "c_string d \<Longrightarrow> c_str (bytes_of d @ x) = d @ c_str x"
proof -
  assume d: "c_string d"
  then have "\<forall>b \<in> set (bytes_of d). b \<noteq> 0" using zero_in_bytes_of by blast
  then have "takeWhile (\<lambda>b. b \<noteq> 0) (bytes_of d @ x) = bytes_of d @ takeWhile (\<lambda>b. b \<noteq> 0) x"
    by (simp add: takeWhile_append2)
  then show ?thesis by (simp add: c_str_def) (simp add: bytes_of_def comp_def)
qed

lemma c_str_padded: "c_string s \<Longrightarrow> c_str (zero_padded s @ rest) = s"
  by (simp add: c_str_def takeWhile_padded) (simp add: bytes_of_def comp_def)

section \<open>Arguments\<close>

datatype O2arg = Int32 "32 word" | Int64 "64 word" | Float "32 word" | Double "64 word" | Time "64 word"
  | Char "32 word" | Midi "32 word" | Bool "32 word" | String string | Symbol string | Blob "byte list"
  | Code O2type

definition add_arg :: "O2arg \<Rightarrow> builder \<Rightarrow> O2err \<times> builder" where
  "add_arg a = (case a of
     Int32 i \<Rightarrow> o2_add_int32_or_char CHR ''i'' i | Int64 i \<Rightarrow> o2_add_int64 i | Float f \<Rightarrow> o2_add_float f
   | Double d \<Rightarrow> o2_add_double_or_time CHR ''d'' d | Time d \<Rightarrow> o2_add_double_or_time CHR ''t'' d
   | Char i \<Rightarrow> o2_add_int32_or_char CHR ''c'' i | Midi i \<Rightarrow> o2_add_int32_or_char CHR ''m'' i
   | Bool i \<Rightarrow> o2_add_int32_or_char CHR ''B'' i | String s \<Rightarrow> o2_add_string_or_symbol CHR ''s'' s
   | Symbol s \<Rightarrow> o2_add_string_or_symbol CHR ''S'' s | Blob bs \<Rightarrow> o2_add_blob_data bs
   | Code c \<Rightarrow> o2_add_only_typecode c)"

definition arg_type :: "O2arg \<Rightarrow> O2type" where
  "arg_type a = (case a of
     Int32 _ \<Rightarrow> CHR ''i'' | Int64 _ \<Rightarrow> CHR ''h'' | Float _ \<Rightarrow> CHR ''f'' | Double _ \<Rightarrow> CHR ''d'' | Time _ \<Rightarrow> CHR ''t''
   | Char _ \<Rightarrow> CHR ''c'' | Midi _ \<Rightarrow> CHR ''m'' | Bool _ \<Rightarrow> CHR ''B'' | String _ \<Rightarrow> CHR ''s'' | Symbol _ \<Rightarrow> CHR ''S''
   | Blob _ \<Rightarrow> CHR ''b'' | Code c \<Rightarrow> c)"

definition word_padded :: "byte list \<Rightarrow> byte list" where
  "word_padded bs = bs @ replicate (ROUNDUP_TO_32BIT (length bs) - length bs) 0"

definition arg_data :: "O2arg \<Rightarrow> byte list" where
  "arg_data a = (case a of
     Int32 i \<Rightarrow> le_enc 4 i | Int64 i \<Rightarrow> le_enc 8 i | Float f \<Rightarrow> le_enc 4 f | Double d \<Rightarrow> le_enc 8 d | Time d \<Rightarrow> le_enc 8 d
   | Char i \<Rightarrow> le_enc 4 i | Midi i \<Rightarrow> le_enc 4 i | Bool i \<Rightarrow> le_enc 4 i
   | String s \<Rightarrow> zero_padded s | Symbol s \<Rightarrow> zero_padded s
   | Blob bs \<Rightarrow> le_enc 4 (word_of_nat (length bs) :: 32 word) @ word_padded bs | Code _ \<Rightarrow> [])"

lemma word_padded_zero: "word_padded (bytes_of s @ [0]) = zero_padded s"
proof -
  have "ROUNDUP_TO_32BIT (length s + 1) - length s = Suc (ROUNDUP_TO_32BIT (length s + 1) - (length s + 1))"
    using roundup_bounds(1) [of "length s + 1"] by simp
  then show ?thesis by (simp add: word_padded_def zero_padded_def)
qed

lemma add_padding_append:
  "4 dvd length (msg_data b) \<Longrightarrow> ADD_PADDING (append_data bs b) = append_data (word_padded bs) b"
  using roundup_bounds(1) [of "length bs"]
  by (simp add: ADD_PADDING_def append_data_def word_padded_def roundup_add)

lemma arg_data_dvd: "4 dvd length (arg_data a)"
proof -
  have "length (word_padded bs) = ROUNDUP_TO_32BIT (length bs)" for bs :: "byte list"
    using roundup_bounds(1) [of "length bs"] by (simp add: word_padded_def)
  then show ?thesis by (cases a) (auto simp: arg_data_def length_zero_padded)
qed

text \<open>Adding an argument appends its type code and its data, word aligned.\<close>

lemma add_arg_effect:
  assumes "4 dvd length (msg_data b)" "\<not> is_bundle b"
  shows "add_arg a b = (O2_SUCCESS, b\<lparr>msg_types := msg_types b @ [arg_type a],
     msg_data := msg_data b @ arg_data a, is_normal := True\<rparr>)"
proof -
  have pad: "ADD_PADDING (append_data bs (b\<lparr>is_normal := True\<rparr>)) = append_data (word_padded bs) (b\<lparr>is_normal := True\<rparr>)" for bs
    by (rule add_padding_append) (simp add: assms(1))
  have blob: "ADD_PADDING (append_data bs (add_type t (append_data (le_enc 4 (i :: 32 word)) (b\<lparr>is_normal := True\<rparr>)))) =
     append_data (word_padded bs) (add_type t (append_data (le_enc 4 i) (b\<lparr>is_normal := True\<rparr>)))" for bs t i
    by (rule add_padding_append) (simp add: assms(1) add_type_def append_data_def)
  show ?thesis
    using assms(2)
    by (cases a) (simp_all add: add_arg_def arg_type_def arg_data_def o2_add_int32_or_char_def o2_add_int64_def
        o2_add_float_def o2_add_double_or_time_def o2_add_string_or_symbol_def o2_add_blob_data_def pad blob
        word_padded_zero o2_add_only_typecode_def, simp_all add: add_type_def append_data_def)
qed

fun add_args :: "O2arg list \<Rightarrow> builder \<Rightarrow> builder" where
  "add_args [] b = b"
| "add_args (a # as) b = add_args as (snd (add_arg a b))"

lemma add_args_effect:
  "4 dvd length (msg_data b) \<Longrightarrow> \<not> is_bundle b \<Longrightarrow>
   msg_types (add_args as b) = msg_types b @ map arg_type as \<and>
   msg_data (add_args as b) = msg_data b @ concat (map arg_data as) \<and>
   building_message_lock (add_args as b) = building_message_lock b \<and> \<not> is_bundle (add_args as b)"
proof (induction as arbitrary: b)
  case (Cons a as)
  then show ?case using Cons.IH [of "snd (add_arg a b)"] arg_data_dvd [of a]
    by (simp add: add_arg_effect)
qed simp

lemma built_message:
  assumes "\<not> building_message_lock b0"
  shows "\<exists>m b. o2_service_message_finish True junk time svc address tcp (add_args as (snd (o2_send_start b0))) = (Some m, b) \<and>
    body m = zero_padded (slash_address svc address) @ zero_padded (CHR '','' # map arg_type as) @ concat (map arg_data as) \<and>
    timestamp m = time \<and> misc m = (if tcp then O2_TCP_FLAG else O2_UDP_FLAG) \<and> \<not> building_message_lock b"
proof -
  define b where "b = add_args as (snd (o2_send_start b0))"
  have b: "msg_types b = CHR '','' # map arg_type as" "msg_data b = concat (map arg_data as)"
    "building_message_lock b" "\<not> is_bundle b"
    using add_args_effect [of "snd (o2_send_start b0)" as] assms by (auto simp: o2_send_start_def b_def)
  define m where "m = \<lparr>misc = (if tcp then O2_TCP_FLAG else O2_UDP_FLAG), timestamp = time,
       body = message_memory junk svc address b\<rparr>"
  have mem: "body m = zero_padded (slash_address svc address) @
      zero_padded (CHR '','' # map arg_type as) @ concat (map arg_data as)"
    using b(4) by (simp add: m_def message_memory full_address_normal b)
  have fin: "o2_service_message_finish True junk time svc address tcp b = (Some m, b\<lparr>building_message_lock := False\<rparr>)"
    using b(3) by (simp add: o2_service_message_finish_def m_def)
  have flags: "timestamp m = time" "misc m = (if tcp then O2_TCP_FLAG else O2_UDP_FLAG)" by (simp_all add: m_def)
  show ?thesis unfolding b_def [symmetric]
    by (intro exI conjI, rule fin, fact mem, fact flags, fact flags, simp)
qed

lemma arg_datas_dvd: "4 dvd length (concat (map arg_data as))"
proof (induction as)
  case (Cons a as)
  then show ?case using arg_data_dvd [of a] by (simp add: dvd_add)
qed simp

text \<open>A message built from any arguments and finished for any service and address, whatever was in
  its memory before, reads back as what it was built from: the address (with the service in front),
  the type codes, the parameters word aligned one after the other, the time and the protocol flag;
  its length is a multiple of four.\<close>

theorem message_roundtrip:
  assumes "\<not> building_message_lock b0" "c_string (slash_address svc address)"
    and "c_string (map arg_type as)"
  shows "\<exists>m b. o2_service_message_finish True junk time svc address tcp (add_args as (snd (o2_send_start b0))) = (Some m, b) \<and>
    c_str (body m) = slash_address svc address \<and>
    map_option c_str (o2_msg_data_types m) = Some (map arg_type as) \<and>
    o2_msg_data_params m = Some (concat (map arg_data as)) \<and>
    timestamp m = time \<and> misc m = (if tcp then O2_TCP_FLAG else O2_UDP_FLAG) \<and>
    4 dvd length (body m) \<and> \<not> building_message_lock b"
proof -
  obtain m b where fin: "o2_service_message_finish True junk time svc address tcp (add_args as (snd (o2_send_start b0))) = (Some m, b)"
    and mem: "body m = zero_padded (slash_address svc address) @
      zero_padded (CHR '','' # map arg_type as) @ concat (map arg_data as)"
    and flags: "timestamp m = time" "misc m = (if tcp then O2_TCP_FLAG else O2_UDP_FLAG)" "\<not> building_message_lock b"
    using built_message [OF assms(1)] by blast
  have ct: "c_string (CHR '','' # map arg_type as)" using assms(3) by (simp add: c_string_def)
  have n1: "o2_next_o2string (body m) =
      Some (zero_padded (CHR '','' # map arg_type as) @ concat (map arg_data as))"
    unfolding mem by (rule next_o2string_padded [OF assms(2)])
  have "c_str (zero_padded (CHR '','' # map arg_type as) @ concat (map arg_data as)) = CHR '','' # map arg_type as"
    by (rule c_str_padded [OF ct])
  then have "c_str (tl (zero_padded (CHR '','' # map arg_type as) @ concat (map arg_data as))) = map arg_type as"
    by (auto simp: c_str_def zero_padded_def byte_of_eq_0_iff)
  then have types: "map_option c_str (o2_msg_data_types m) = Some (map arg_type as)"
    by (simp add: o2_msg_data_types_def n1)
  have params: "o2_msg_data_params m = Some (concat (map arg_data as))"
    by (simp add: o2_msg_data_params_def n1 next_o2string_padded [OF ct])
  have dvd: "4 dvd length (body m)" by (simp add: mem length_zero_padded dvd_add arg_datas_dvd)
  have addr: "c_str (body m) = slash_address svc address" unfolding mem by (rule c_str_padded [OF assms(2)])
  show ?thesis
    by (intro exI conjI, rule fin, fact addr, fact types, fact params, fact flags, fact flags, fact dvd, fact flags)
qed

definition idle_builder :: builder where
  "idle_builder = \<lparr>building_message_lock = False, msg_types = [], msg_data = [], is_bundle = False, is_normal = False\<rparr>"

theorem message_roundtrip_witness:
  "\<exists>m b. o2_service_message_finish True (\<lambda>_. 7) 0 (Some ''synth'') ''/note'' True
      (add_args [Int32 60, String ''abc'', Code CHR ''T''] (snd (o2_send_start idle_builder))) = (Some m, b) \<and>
    c_str (body m) = slash_address (Some ''synth'') ''/note'' \<and>
    map_option c_str (o2_msg_data_types m) = Some (map arg_type [Int32 60, String ''abc'', Code CHR ''T'']) \<and>
    o2_msg_data_params m = Some (concat (map arg_data [Int32 60, String ''abc'', Code CHR ''T''])) \<and>
    timestamp m = 0 \<and> misc m = (if True then O2_TCP_FLAG else O2_UDP_FLAG) \<and>
    4 dvd length (body m) \<and> \<not> building_message_lock b"
  by (rule message_roundtrip) (simp_all add: idle_builder_def c_string_def slash_address_def arg_type_def)

section \<open>Failures\<close>

definition add_item :: "O2arg + O2message \<Rightarrow> builder \<Rightarrow> O2err \<times> builder" where
  "add_item x b = (case x of Inl a \<Rightarrow> add_arg a b | Inr m \<Rightarrow> o2_add_message m b)"

lemma add_item_cases:
  "\<not> (is_bundle b \<and> is_normal b) \<Longrightarrow> \<not> (is_bundle (snd (add_item x b)) \<and> is_normal (snd (add_item x b)))"
  by (cases x; cases "projl x") (auto simp: add_item_def add_arg_def o2_add_message_def o2_add_int32_or_char_def
      o2_add_int64_def o2_add_float_def o2_add_double_or_time_def o2_add_string_or_symbol_def
      o2_add_blob_data_def o2_add_only_typecode_def o2_add_raw_bytes_def ADD_PADDING_def add_type_def append_data_def
      Let_def)

fun add_items :: "(O2arg + O2message) list \<Rightarrow> builder \<Rightarrow> builder" where
  "add_items [] b = b"
| "add_items (x # xs) b = add_items xs (snd (add_item x b))"

text \<open>A message is either a bundle or not: after an argument was added, adding a message fails and changes
  nothing; after a message was added, every argument is refused; never are both kinds in one message.\<close>

theorem bundle_or_normal:
  assumes "\<not> building_message_lock b0" and "b = add_items xs (snd (o2_send_start b0))"
  shows "\<not> (is_bundle b \<and> is_normal b) \<and>
    (is_bundle b \<longrightarrow> add_arg a b = (O2_FAIL, b)) \<and> (is_normal b \<longrightarrow> o2_add_message m b = (O2_FAIL, b))"
proof -
  have inv: "\<not> (is_bundle c \<and> is_normal c) \<Longrightarrow>
      \<not> (is_bundle (add_items xs c) \<and> is_normal (add_items xs c))" for c
    by (induction xs arbitrary: c) (simp_all del: de_Morgan_conj add: add_item_cases)
  have "\<not> (is_bundle b \<and> is_normal b)"
    unfolding assms(2) by (rule inv) (simp add: o2_send_start_def assms(1))
  moreover have "is_bundle b \<longrightarrow> add_arg a b = (O2_FAIL, b)"
    by (cases a) (simp_all add: add_arg_def o2_add_int32_or_char_def
      o2_add_int64_def o2_add_float_def o2_add_double_or_time_def o2_add_string_or_symbol_def
      o2_add_blob_data_def o2_add_only_typecode_def)
  ultimately show ?thesis by (simp add: o2_add_message_def)
qed

theorem bundle_or_normal_witness:
  "let b = add_items [Inl (Int32 5)] (snd (o2_send_start idle_builder)) in
   is_normal b \<and> \<not> is_bundle b \<and> o2_add_message \<lparr>misc = 0, timestamp = 0, body = []\<rparr> b = (O2_FAIL, b)"
proof -
  define b where "b = add_items [Inl (Int32 5)] (snd (o2_send_start idle_builder))"
  have "is_normal b" by (simp add: b_def add_item_def add_arg_def o2_add_int32_or_char_def
      o2_send_start_def idle_builder_def add_type_def append_data_def)
  moreover have "\<not> building_message_lock idle_builder" by (simp add: idle_builder_def)
  ultimately show ?thesis
    using bundle_or_normal [of idle_builder b "[Inl (Int32 5)]" "Int32 0" "\<lparr>misc = 0, timestamp = 0, body = []\<rparr>"] b_def
    by (metis (no_types))
qed

text \<open>After a call that was given too many arguments the scratch areas stay locked with what was added:
  \<open>o2_message_build\<close> ignores that \<open>o2_send_start\<close> then fails, and the next message it builds
  begins with the arguments of the one that failed.\<close>

theorem bad_args_leak:
  "\<exists>b. o2_message_build True junk 0 None ''/a'' ''i'' True [C_int 1, C_int 2] idle_builder = Some (O2_BAD_ARGS, None, b) \<and>
     building_message_lock b \<and> o2_send_start b = (O2_FAIL, b) \<and>
     (\<exists>m b'. o2_message_build True junk 0 None ''/b'' ''i'' True [C_int 5] b = Some (O2_SUCCESS, Some m, b') \<and>
       map_option c_str (o2_msg_data_types m) = Some ''ii'' \<and>
       o2_msg_data_params m = Some (le_enc 4 (1 :: 32 word) @ le_enc 4 (5 :: 32 word)))"
proof -
  define b where "b = add_args [Int32 1] (snd (o2_send_start idle_builder))"
  have b1: "b = \<lparr>building_message_lock = True, msg_types = '',i'', msg_data = le_enc 4 (1 :: 32 word), is_bundle = False, is_normal = True\<rparr>"
    by (simp add: b_def add_arg_effect o2_send_start_def idle_builder_def arg_type_def arg_data_def)
  have one: "o2_message_build True junk 0 None ''/a'' ''i'' True [C_int 1, C_int 2] idle_builder = Some (O2_BAD_ARGS, None, b)"
    by (simp add: b_def o2_message_build_def add_arg_def)
  have start: "o2_send_start b = (O2_FAIL, b)" by (simp add: b1 o2_send_start_def)
  let ?c = "\<lparr>building_message_lock = True, msg_types = '',ii'', msg_data = le_enc 4 (1 :: 32 word) @ le_enc 4 (5 :: 32 word),
      is_bundle = False, is_normal = True\<rparr>"
  have c: "snd (o2_add_int32_or_char CHR ''i'' 5 b) = ?c"
    by (simp add: b1 o2_add_int32_or_char_def add_type_def append_data_def)
  let ?m = "\<lparr>misc = O2_TCP_FLAG, timestamp = 0, body = message_memory junk None ''/b'' ?c\<rparr>"
  have two: "o2_message_build True junk 0 None ''/b'' ''i'' True [C_int 5] b =
      Some (O2_SUCCESS, Some ?m, ?c\<lparr>building_message_lock := False\<rparr>)"
    unfolding o2_message_build_def start by (simp add: c o2_service_message_finish_def)
  have mem: "body ?m = zero_padded ''/b'' @ zero_padded '',ii'' @ msg_data ?c"
    by (simp add: message_memory full_address_def)
  have cs: "c_string ''/b''" "c_string '',ii''" by (simp_all add: c_string_def)
  have n1: "o2_next_o2string (body ?m) = Some (zero_padded '',ii'' @ msg_data ?c)"
    unfolding mem by (rule next_o2string_padded [OF cs(1)])
  have "c_str (zero_padded '',ii'' @ msg_data ?c) = '',ii''" by (rule c_str_padded [OF cs(2)])
  then have "c_str (tl (zero_padded '',ii'' @ msg_data ?c)) = ''ii''"
    by (auto simp: c_str_def zero_padded_def byte_of_eq_0_iff)
  then have t: "map_option c_str (o2_msg_data_types ?m) = Some ''ii''" by (simp only: o2_msg_data_types_def n1 option.map)
  have p: "o2_msg_data_params ?m = Some (le_enc 4 (1 :: 32 word) @ le_enc 4 (5 :: 32 word))"
    by (simp only: o2_msg_data_params_def n1 bind.bind_lunit next_o2string_padded [OF cs(2)]) simp
  show ?thesis
    by (intro exI conjI, rule one, simp only: b1, simp, rule start, rule two, rule t, rule p)
qed

end
