(* ===== verification/Delivery.thy ===== *)
theory Delivery
  imports Services Messages
begin

text \<open>
  Sending and delivering messages (src/src/msgsend.cpp): the stack of messages being sent
  (\<open>o2_ctx->msgs\<close>), the queues of messages whose delivery is deferred while a handler runs, delivery to
  handlers and proxies, the parts of a bundle, and the copies for taps. What handlers do is a
  parameter: the messages they send. What happens is recorded in order; \<open>None\<close> is a failed
  assertion or an access outside of a message.
\<close>

section \<open>The queue of pending messages\<close>

text \<open>Messages are addresses; their \<open>next\<close> fields are a map.\<close>

record Pending_msgs_queue =
  head :: "nat option"
  tail :: "nat option"

type_synonym next_fields = "nat \<Rightarrow> nat option"

definition empty_queue :: Pending_msgs_queue where
  "empty_queue = \<lparr>head = None, tail = None\<rparr>"

definition enqueue :: "nat \<Rightarrow> Pending_msgs_queue \<times> next_fields \<Rightarrow> Pending_msgs_queue \<times> next_fields" where
  "enqueue msg = (\<lambda>(q, nx). case tail q of
       Some t \<Rightarrow> (q\<lparr>tail := Some msg\<rparr>, nx(t := Some msg))
     | None \<Rightarrow> (\<lparr>head = Some msg, tail = Some msg\<rparr>, nx))"

definition dequeue :: "Pending_msgs_queue \<times> next_fields \<Rightarrow> (nat \<times> Pending_msgs_queue \<times> next_fields) option" where
  "dequeue = (\<lambda>(q, nx). case head q of
       None \<Rightarrow> None
     | Some msg \<Rightarrow> Some (msg, if head q = tail q then empty_queue else q\<lparr>head := nx msg\<rparr>, nx))"

definition queue_empty :: "Pending_msgs_queue \<times> next_fields \<Rightarrow> bool" where
  "queue_empty = (\<lambda>(q, nx). head q = None)"

text \<open>What a queue promises: it is a list, first in, first out. \<open>fifo_run\<close>: what comes out of the list and what stays in it when
  messages are put in and taken out in any order; \<open>None\<close> when one is taken from an empty list or put in while it is in it.\<close>

datatype 'm queue_op = Enqueue 'm | Dequeue

fun fifo_run :: "'m queue_op list \<Rightarrow> 'm list \<Rightarrow> ('m list \<times> 'm list) option" where
  "fifo_run [] ms = Some ([], ms)"
| "fifo_run (Enqueue m # ops) ms = (if m \<in> set ms then None else fifo_run ops (ms @ [m]))"
| "fifo_run (Dequeue # ops) ms = (case ms of [] \<Rightarrow> None | m # ms \<Rightarrow> map_option (\<lambda>(out, rest). (m # out, rest)) (fifo_run ops ms))"

locale fifo =
  fixes rep :: "'q \<Rightarrow> 'm list \<Rightarrow> bool" and enq :: "'m \<Rightarrow> 'q \<Rightarrow> 'q" and deq :: "'q \<Rightarrow> ('m \<times> 'q) option"
    and is_empty :: "'q \<Rightarrow> bool"
  assumes rep_enq: "rep q ms \<Longrightarrow> m \<notin> set ms \<Longrightarrow> rep (enq m q) (ms @ [m])"
    and rep_deq: "rep q (m # ms) \<Longrightarrow> \<exists>q'. deq q = Some (m, q') \<and> rep q' ms"
    and rep_empty: "rep q ms \<Longrightarrow> is_empty q \<longleftrightarrow> ms = []"
begin

fun run :: "'m queue_op list \<Rightarrow> 'q \<Rightarrow> ('m list \<times> 'q) option" where
  "run [] q = Some ([], q)"
| "run (Enqueue m # ops) q = run ops (enq m q)"
| "run (Dequeue # ops) q = (case deq q of None \<Rightarrow> None | Some (m, q) \<Rightarrow> map_option (\<lambda>(out, q). (m # out, q)) (run ops q))"

lemma run_list: "rep q ms \<Longrightarrow> fifo_run ops ms = Some (out, rest) \<Longrightarrow> \<exists>q'. run ops q = Some (out, q') \<and> rep q' rest"
proof (induction ops ms arbitrary: q out rest rule: fifo_run.induct)
  case (2 m ops ms)
  then have "m \<notin> set ms" "fifo_run ops (ms @ [m]) = Some (out, rest)" by (auto split: if_splits)
  then show ?case using "2.IH" rep_enq [OF "2.prems"(1)] by simp
next
  case (3 ops ms)
  then obtain m ms' out' where ms: "ms = m # ms'" "fifo_run ops ms' = Some (out', rest)" "out = m # out'"
    by (auto split: list.splits)
  obtain q1 where q1: "deq q = Some (m, q1)" "rep q1 ms'" using rep_deq "3.prems"(1) ms(1) by blast
  from "3.IH" [OF ms(1) q1(2) ms(2)] obtain q' where "run ops q1 = Some (out', q')" "rep q' rest" by blast
  then show ?case using q1(1) ms(3) by simp
qed simp

lemma ops_in_order:
  "rep q [] \<Longrightarrow> fifo_run ops [] = Some (out, rest) \<Longrightarrow> \<exists>q'. run ops q = Some (out, q') \<and> (is_empty q' \<longleftrightarrow> rest = [])"
  using run_list rep_empty by blast

end

text \<open>The linked list from \<open>head\<close> to \<open>tail\<close>.\<close>

definition queue_rep :: "Pending_msgs_queue \<times> next_fields \<Rightarrow> nat list \<Rightarrow> bool" where
  "queue_rep = (\<lambda>(q, nx) ms. distinct ms \<and>
     (if ms = [] then head q = None \<and> tail q = None
      else head q = Some (hd ms) \<and> tail q = Some (last ms) \<and>
        (\<forall>i. Suc i < length ms \<longrightarrow> nx (ms ! i) = Some (ms ! Suc i))))"

lemma queue_rep_enqueue:
  assumes "queue_rep (q, nx) ms" "m \<notin> set ms"
  shows "queue_rep (enqueue m (q, nx)) (ms @ [m])"
proof (cases "ms = []")
  case True
  then show ?thesis using assms by (simp add: queue_rep_def enqueue_def)
next
  case False
  then have t: "tail q = Some (last ms)" "head q = Some (hd ms)" "distinct ms"
    and nx: "\<forall>i. Suc i < length ms \<longrightarrow> nx (ms ! i) = Some (ms ! Suc i)"
    using assms(1) by (auto simp: queue_rep_def)
  have "(nx(last ms := Some m)) ((ms @ [m]) ! i) = Some ((ms @ [m]) ! Suc i)" if "Suc i < length (ms @ [m])" for i
  proof (cases "Suc i = length ms")
    case True
    then have "ms ! i = last ms" using False by (metis last_conv_nth diff_Suc_1)
    then show ?thesis using True by (simp add: nth_append)
  next
    case neq: False
    then have "Suc i < length ms" using that by simp
    moreover from this have "ms ! i \<noteq> last ms"
      using t(3) False by (auto simp: last_conv_nth nth_eq_iff_index_eq)
    ultimately show ?thesis using nx by (simp add: nth_append)
  qed
  then show ?thesis using t False assms(2) by (simp add: queue_rep_def enqueue_def)
qed

lemma queue_rep_dequeue:
  assumes "queue_rep (q, nx) (m # ms)"
  shows "\<exists>q'. dequeue (q, nx) = Some (m, q') \<and> queue_rep q' ms"
proof (cases ms)
  case Nil
  then show ?thesis using assms by (simp add: queue_rep_def dequeue_def empty_queue_def)
next
  case (Cons m' ms')
  have "nx m = Some m'" "\<forall>i. Suc i < length ms \<longrightarrow> nx (ms ! i) = Some (ms ! Suc i)"
    using assms Cons by (auto simp: queue_rep_def)
  moreover have "head q = Some m" "tail q = Some (last ms)" "distinct (m # ms)" "m \<noteq> last ms"
    using assms Cons by (auto simp: queue_rep_def split: if_splits)
  ultimately show ?thesis using Cons by (simp add: queue_rep_def dequeue_def)
qed

interpretation pending: fifo queue_rep enqueue dequeue queue_empty
proof
  show "queue_rep (enqueue m q) (ms @ [m])" if "queue_rep q ms" "m \<notin> set ms" for q ms m
    using queue_rep_enqueue [of "fst q" "snd q"] that by simp
  show "\<exists>q'. dequeue q = Some (m, q') \<and> queue_rep q' ms" if "queue_rep q (m # ms)" for q m ms
    using queue_rep_dequeue [of "fst q" "snd q"] that by simp
  show "queue_empty q \<longleftrightarrow> ms = []" if "queue_rep q ms" for q ms
    using that by (auto simp: queue_rep_def queue_empty_def split: prod.splits if_splits)
qed

text \<open>Messages are put into the pending queue and taken out of it.\<close>

definition queue_run :: "nat queue_op list \<Rightarrow> Pending_msgs_queue \<times> next_fields \<Rightarrow>
    (nat list \<times> Pending_msgs_queue \<times> next_fields) option" where
  "queue_run = pending.run"

text \<open>C35: in whatever order messages are put into the linked list of pending messages and taken out of it, also after it was emptied
  and with messages whose memory is used again: the same messages come out as of a list, first in, first out, whatever their
  \<open>next\<close> fields were, and the queue is reported to be empty exactly when the list is (as long as no message is taken from the empty
  list or put in twice).\<close>

theorem pending_fifo:
  assumes "fifo_run ops [] = Some (out, rest)"
  shows "\<exists>q'. queue_run ops (empty_queue, nx) = Some (out, q') \<and> (queue_empty q' \<longleftrightarrow> rest = [])"
  unfolding queue_run_def
  by (rule pending.ops_in_order [OF _ assms]) (simp add: queue_rep_def empty_queue_def)

theorem pending_fifo_witness:
  "\<exists>q'. queue_run [Enqueue 3, Dequeue, Enqueue 1, Enqueue 3, Dequeue, Enqueue 2, Dequeue] (empty_queue, \<lambda>_. Some 1) = Some ([3, 1, 3], q') \<and>
    (queue_empty q' \<longleftrightarrow> [2 :: nat] = [])"
  by (rule pending_fifo) simp

section \<open>State\<close>

datatype delivery = Invoked Handler_entry O2message | Sent nat O2message | Scheduled O2message | Warned string

record send_state =
  ctx :: O2_context
  gt_last_time :: "64 word"
  gt_started :: bool
  o2_do_not_reenter :: nat
  msgs :: "O2message list"
  pending_anywhere :: "O2message list"
  pending_local :: "O2message list"
  deliveries :: "delivery list"

text \<open>The messages a handler sends when it is called with a message, and what a proxy's \<open>send\<close> returns; the proxy
  takes the message over.\<close>

record environment =
  react :: "Handler_entry \<Rightarrow> O2message \<Rightarrow> O2message list"
  proxy_result :: "nat \<Rightarrow> O2message \<Rightarrow> O2err"

definition happen :: "delivery \<Rightarrow> send_state \<Rightarrow> send_state" where
  "happen d s = s\<lparr>deliveries := deliveries s @ [d]\<rparr>"

definition o2_prepare_to_deliver :: "O2message \<Rightarrow> send_state \<Rightarrow> send_state" where
  "o2_prepare_to_deliver m s = s\<lparr>msgs := m # msgs s\<rparr>"

definition o2_postpone_delivery :: "send_state \<Rightarrow> (O2message \<times> send_state) option" where
  "o2_postpone_delivery s = (case msgs s of [] \<Rightarrow> None | m # ms \<Rightarrow> Some (m, s\<lparr>msgs := ms\<rparr>))"

definition o2_current_message :: "send_state \<Rightarrow> O2message option" where
  "o2_current_message s = (case msgs s of [] \<Rightarrow> None | m # _ \<Rightarrow> Some m)"

definition o2_complete_delivery :: "send_state \<Rightarrow> send_state option" where
  "o2_complete_delivery s = map_option snd (o2_postpone_delivery s)"

definition o2_drop_msg_data :: "string \<Rightarrow> O2message \<Rightarrow> send_state \<Rightarrow> send_state" where
  "o2_drop_msg_data warn m s = (if c_str (body m) = ''!_o2/si'' then s else happen (Warned warn) s)"

definition o2_drop_message :: "string \<Rightarrow> bool \<Rightarrow> send_state \<Rightarrow> send_state option" where
  "o2_drop_message warn free_the_msg s =
     Option.bind (o2_current_message s) (\<lambda>m.
     let s = o2_drop_msg_data warn m s in if free_the_msg then o2_complete_delivery s else Some s)"

definition tap_flag :: "O2message \<Rightarrow> bool" where
  "tap_flag m \<longleftrightarrow> misc m AND O2_TAP_FLAG \<noteq> 0"

text \<open>The deferral in \<open>o2_send_local\<close>.\<close>

definition defer_local :: "send_state \<Rightarrow> send_state option" where
  "defer_local s = map_option (\<lambda>(m, s).
     if tap_flag m then s\<lparr>pending_local := pending_local s @ [m]\<rparr>
     else s\<lparr>pending_anywhere := pending_anywhere s @ [m]\<rparr>) (o2_postpone_delivery s)"

definition proxy_send :: "environment \<Rightarrow> nat \<Rightarrow> send_state \<Rightarrow> (O2err \<times> send_state) option" where
  "proxy_send env p s = map_option (\<lambda>(m, s). (proxy_result env p m, happen (Sent p m) s)) (o2_postpone_delivery s)"

text \<open>\<open>o2_schedule\<close> with the global scheduler, of a message that is later than its last time.\<close>

definition schedule_later :: "send_state \<Rightarrow> (O2err \<times> send_state) option" where
  "schedule_later s =
     (if \<not> gt_started s then
        map_option (\<lambda>s. (O2_NO_CLOCK, s)) (o2_drop_message ''there is no clock and a non-zero timestamp'' True s)
      else map_option (\<lambda>(m, s). (O2_SUCCESS, happen (Scheduled m) s)) (o2_postpone_delivery s))"

definition schedule_before_send :: "O2_context \<Rightarrow> nat \<Rightarrow> O2message \<Rightarrow> bool" where
  "schedule_before_send c p m = (case kind (proxies c p) of
     OSC_UDP_CLIENT \<Rightarrow> \<not> IS_BUNDLE m | OSC_TCP_CLIENT \<Rightarrow> \<not> IS_BUNDLE m | BRIDGE \<Rightarrow> True | _ \<Rightarrow> False)"

section \<open>Sending\<close>

text \<open>
  Delivery is recursive: the code that delivers sends messages. The definitions take what
  \<open>o2_send_local\<close> does as an argument; the recursion is closed below.
\<close>

type_synonym local_sender = "svc_node \<Rightarrow> Services_entry option \<Rightarrow> send_state \<Rightarrow> send_state option"

definition o2_service_msg_send ::
  "environment \<Rightarrow> local_sender \<Rightarrow> svc_node option \<Rightarrow> Services_entry option \<Rightarrow> send_state \<Rightarrow> (O2err \<times> send_state) option" where
  "o2_service_msg_send env local svc ss s =
     (case svc of
        None \<Rightarrow> map_option (\<lambda>s. (O2_NO_SERVICE, s)) (o2_drop_message ''service was not found'' True s)
      | Some (Proxy p) \<Rightarrow> proxy_send env p s
      | Some (Local n) \<Rightarrow> map_option (\<lambda>s. (O2_SUCCESS, s)) (local (Local n) ss s))"

definition o2_message_send_by :: "environment \<Rightarrow> local_sender \<Rightarrow> O2message \<Rightarrow> send_state \<Rightarrow> (O2err \<times> send_state) option" where
  "o2_message_send_by env local m s =
     (let s = o2_prepare_to_deliver m s;
          later = double_less 0 (timestamp m) \<and> double_less (gt_last_time s) (timestamp m) in
      Option.bind (o2_msg_service (c_str (body m)) (tap_flag m) (ctx s)) (\<lambda>(svc, ss).
      case svc of
        Some (Proxy p) \<Rightarrow> if later \<and> schedule_before_send (ctx s) p m then schedule_later s
                          else o2_service_msg_send env local svc ss s
      | Some (Local n) \<Rightarrow> if later then schedule_later s else o2_service_msg_send env local svc ss s
      | None \<Rightarrow> o2_service_msg_send env local svc ss s))"

fun send_all :: "environment \<Rightarrow> local_sender \<Rightarrow> O2message list \<Rightarrow> send_state \<Rightarrow> send_state option" where
  "send_all env local [] s = Some s"
| "send_all env local (m # ms) s =
     Option.bind (o2_message_send_by env local m s) (\<lambda>(_, s). send_all env local ms s)"

section \<open>The parts of a bundle\<close>

text \<open>A part that does not lie in the bundle is outside of the model: the code copies what is behind it.\<close>

function embedded_msgs :: "byte list \<Rightarrow> O2message list option" where
  "embedded_msgs bs =
     (if bs = [] then Some []
      else if length bs < 4 then None
      else let len = sint (le_dec (take 4 bs) :: 32 word) in
        if len < 12 \<or> length bs < nat len + 4 then None
        else map_option (\<lambda>ms. \<lparr>misc = le_dec (take 4 (drop 4 bs)) OR O2_TCP_FLAG,
                               timestamp = le_dec (take 8 (drop 8 bs)),
                               body = take (nat len - 12) (drop 16 bs)\<rparr> # ms)
               (embedded_msgs (drop (nat len + 4) bs)))"
  by pat_completeness auto
termination
  by (relation "measure length") auto

declare embedded_msgs.simps [simp del]

definition o2_embedded_msgs_deliver :: "environment \<Rightarrow> local_sender \<Rightarrow> O2message \<Rightarrow> send_state \<Rightarrow> send_state option" where
  "o2_embedded_msgs_deliver env local m s =
     Option.bind (o2_next_o2string (body m)) (\<lambda>bs.
     Option.bind (embedded_msgs bs) (\<lambda>ms. send_all env local ms s))"

section \<open>Copies for taps\<close>

text \<open>The copy of a message with the name of the tapper in the place of the service's name.\<close>

definition tap_message :: "(nat \<Rightarrow> byte) \<Rightarrow> Service_tap \<Rightarrow> O2message \<Rightarrow> O2message option" where
  "tap_message junk tap m =
     (let cur = c_str (body m);
          curlen = (if CHR ''/'' \<in> set (tl cur) then 1 + length (segment (tl cur)) else length cur);
          newlen = length (tapper tap) + 1;
          curaddrlen = length cur;
          newaddrlen = curaddrlen - curlen + newlen;
          curaddrall = ROUNDUP_TO_32BIT (curaddrlen + 1);
          newaddrall = ROUNDUP_TO_32BIT (newaddrlen + 1);
          flags = (case send_mode tap of TAP_KEEP \<Rightarrow> misc m | TAP_RELIABLE \<Rightarrow> O2_TCP_FLAG | TAP_BEST_EFFORT \<Rightarrow> O2_UDP_FLAG | Other_mode _ \<Rightarrow> O2_UDP_FLAG) in
      if 0 \<notin> set (body m) \<or> length (body m) < curaddrall then None
      else let mem = map junk [0..<newaddrall + (length (body m) - curaddrall)];
               mem = write_at (newaddrall - 4) [0, 0, 0, 0] mem;
               mem = write_at 0 [body m ! 0] mem;
               mem = write_at 1 (bytes_of (tapper tap) @ [0]) mem;
               mem = write_at newlen (take (curaddrlen - curlen) (drop curlen (body m))) mem;
               mem = write_at newaddrall (drop curaddrall (body m)) mem in
        Some \<lparr>misc = flags OR O2_TAP_FLAG OR (misc m AND 0xFF00), timestamp = timestamp m, body = mem\<rparr>)"

definition msg_send_to_tap :: "environment \<Rightarrow> (nat \<Rightarrow> byte) \<Rightarrow> local_sender \<Rightarrow> Service_tap \<Rightarrow> send_state \<Rightarrow> send_state option" where
  "msg_send_to_tap env junk local tap s =
     Option.bind (o2_current_message s) (\<lambda>m.
     Option.bind (tap_message junk tap m) (\<lambda>new.
     let s = o2_prepare_to_deliver new s; drop = o2_drop_message ''Tapper not found'' True s in
     if ISA_REMOTE_PROC (ctx s) (Proxy (tap_proc tap)) then map_option snd (proxy_send env (tap_proc tap) s)
     else case hash_find (tapper tap) (path_tree (ctx s)) of
        None \<Rightarrow> drop
      | Some ss \<Rightarrow>
          (case proc_service_find (ctx s) local_proc ss of
             None \<Rightarrow> drop
           | Some spp \<Rightarrow>
               (case service spp of
                  Local n \<Rightarrow> local (Local n) (Some ss) s
                | Proxy p \<Rightarrow> map_option snd (proxy_send env p s)))))"

fun send_taps :: "environment \<Rightarrow> (nat \<Rightarrow> byte) \<Rightarrow> local_sender \<Rightarrow> Service_tap list \<Rightarrow> send_state \<Rightarrow> send_state option" where
  "send_taps env junk local [] s = Some s"
| "send_taps env junk local (tap # tps) s =
     Option.bind (msg_send_to_tap env junk local tap s) (send_taps env junk local tps)"

abbreviation (input) O2_MAX_TAP_FORWARDING :: int where "O2_MAX_TAP_FORWARDING \<equiv> 3"

definition mark_tapped :: "O2message \<Rightarrow> O2message" where
  "mark_tapped m = m\<lparr>misc := (misc m OR O2_TAP_FLAG) + 0x100\<rparr>"

definition o2_send_to_taps :: "environment \<Rightarrow> (nat \<Rightarrow> byte) \<Rightarrow> local_sender \<Rightarrow> Services_entry option \<Rightarrow> send_state \<Rightarrow> send_state option" where
  "o2_send_to_taps env junk local ss s =
     (case msgs s of
        [] \<Rightarrow> None
      | m # ms \<Rightarrow>
          let m = mark_tapped m; s = s\<lparr>msgs := m # ms\<rparr> in
          if sint (misc m) div 256 \<le> O2_MAX_TAP_FORWARDING then
            Option.bind ss (\<lambda>ss. send_taps env junk local (taps ss) s)
          else Some s)"

section \<open>Delivery\<close>

definition call_handler :: "environment \<Rightarrow> local_sender \<Rightarrow> Handler_entry \<Rightarrow> O2message \<Rightarrow> send_state \<Rightarrow> send_state option" where
  "call_handler env local h m s = send_all env local (react env h m) (happen (Invoked h m) s)"

fun call_handlers :: "environment \<Rightarrow> local_sender \<Rightarrow> Handler_entry list \<Rightarrow> O2message \<Rightarrow> send_state \<Rightarrow> send_state option" where
  "call_handlers env local [] m s = Some s"
| "call_handlers env local (h # hs) m s = Option.bind (call_handler env local h m s) (call_handlers env local hs m)"

abbreviation (input) O2_MAX_PROCNAME_LEN :: nat where "O2_MAX_PROCNAME_LEN \<equiv> 32"

text \<open>The key in the full path table for an address that begins with \<open>!\<close>.\<close>

definition full_path_key :: "byte list \<Rightarrow> string option" where
  "full_path_key address =
     (let a = c_str address in
      if length a > 1 \<and> a ! 1 = CHR ''@'' then
        let rest = c_str (drop 4 address) in
        if has_slash rest then
          Some (''/_o2'' @ take (O2_MAX_PROCNAME_LEN - 9) (dropWhile (\<lambda>c. c \<noteq> CHR ''/'') rest))
        else None
      else Some (CHR ''/'' # tl a))"

text \<open>Steps 3 to 5: the handlers are called; whether that counts as delivered. \<open>None\<close> for the key of
  the full path table jumps to the end: the second flag tells whether taps are served.\<close>

definition deliver_to :: "environment \<Rightarrow> local_sender \<Rightarrow> svc_node \<Rightarrow> O2message \<Rightarrow> send_state \<Rightarrow> (bool \<times> bool \<times> send_state) option" where
  "deliver_to env local svc m s =
     (let address = c_str (body m) in
      case svc of
        Local (Handler h) \<Rightarrow> map_option (\<lambda>s. (True, True, s)) (call_handler env local h m s)
      | Local (Tree t) \<Rightarrow>
          if hd address = CHR ''!'' then
            (case full_path_key (body m) of
               None \<Rightarrow> Some (False, False, s)
             | Some k \<Rightarrow>
                 (case hash_find k (full_path_table (ctx s)) of
                    None \<Rightarrow> Some (False, True, s)
                  | Some h \<Rightarrow> map_option (\<lambda>s. (True, True, s)) (call_handler env local h m s)))
          else if has_slash (tl address) then
            Option.bind (o2_find_handlers_rec (after_slash (tl address)) t) (\<lambda>(delivered, hs).
            map_option (\<lambda>s. (delivered, True, s)) (call_handlers env local hs m s))
          else map_option (\<lambda>s. (False, True, s)) (o2_drop_message ''there is no handler for this address'' False s)
      | Proxy _ \<Rightarrow> map_option (\<lambda>s. (True, True, s)) (o2_drop_message ''service is not local'' False s))"

definition done_delivery :: "bool \<Rightarrow> send_state \<Rightarrow> send_state option" where
  "done_delivery delivered s =
     Option.bind (if delivered then Some s else o2_drop_message ''no handler was found'' False s) o2_complete_delivery"

definition o2_msg_deliver_by ::
  "environment \<Rightarrow> (nat \<Rightarrow> byte) \<Rightarrow> local_sender \<Rightarrow> svc_node option \<Rightarrow> Services_entry option \<Rightarrow> send_state \<Rightarrow> send_state option" where
  "o2_msg_deliver_by env junk local svc ss s =
     Option.bind (o2_current_message s) (\<lambda>m.
     if IS_BUNDLE m then Option.bind (o2_embedded_msgs_deliver env local m s) (done_delivery True)
     else if body m = [] \<or> hd (c_str (body m)) \<notin> {CHR ''/'', CHR ''!''} then None
     else Option.bind
         (if svc = None then o2_msg_service (c_str (body m)) (tap_flag m) (ctx s) else Some (svc, ss))
         (\<lambda>(svc, ss).
       case svc of
         None \<Rightarrow> done_delivery False s
       | Some svc \<Rightarrow>
           Option.bind (deliver_to env local svc m s) (\<lambda>(delivered, with_taps, s).
           if with_taps then Option.bind (o2_send_to_taps env junk local ss s) (done_delivery delivered)
           else done_delivery delivered s)))"

text \<open>The recursion is two levels deep: a message sent during a delivery by \<open>o2_send_local\<close> is deferred.\<close>

definition o2_send_local :: "environment \<Rightarrow> (nat \<Rightarrow> byte) \<Rightarrow> local_sender" where
  "o2_send_local env junk svc ss s =
     (if o2_do_not_reenter s \<noteq> 0 then defer_local s
      else map_option (\<lambda>s. s\<lparr>o2_do_not_reenter := o2_do_not_reenter s - 1\<rparr>)
        (o2_msg_deliver_by env junk (\<lambda>_ _. defer_local) (Some svc) ss
          (s\<lparr>o2_do_not_reenter := o2_do_not_reenter s + 1\<rparr>)))"

definition o2_msg_deliver :: "environment \<Rightarrow> (nat \<Rightarrow> byte) \<Rightarrow> svc_node option \<Rightarrow> Services_entry option \<Rightarrow> send_state \<Rightarrow> send_state option" where
  "o2_msg_deliver env junk svc ss s = o2_msg_deliver_by env junk (o2_send_local env junk) svc ss s"

definition o2_message_send :: "environment \<Rightarrow> (nat \<Rightarrow> byte) \<Rightarrow> O2message \<Rightarrow> send_state \<Rightarrow> (O2err \<times> send_state) option" where
  "o2_message_send env junk m s = o2_message_send_by env (o2_send_local env junk) m s"

definition o2_msg_send_now :: "environment \<Rightarrow> (nat \<Rightarrow> byte) \<Rightarrow> send_state \<Rightarrow> (O2err \<times> send_state) option" where
  "o2_msg_send_now env junk s =
     Option.bind (o2_current_message s) (\<lambda>m.
     Option.bind (o2_msg_service (c_str (body m)) (tap_flag m) (ctx s)) (\<lambda>(svc, ss).
     o2_service_msg_send env (o2_send_local env junk) svc ss s))"

section \<open>Pending messages\<close>

text \<open>The first loop may run forever: \<open>n\<close> bounds the messages sent, \<open>None\<close> when they do not suffice.\<close>

fun deliver_anywhere :: "nat \<Rightarrow> environment \<Rightarrow> (nat \<Rightarrow> byte) \<Rightarrow> send_state \<Rightarrow> send_state option" where
  "deliver_anywhere n env junk s =
     (case pending_anywhere s of
        [] \<Rightarrow> Some s
      | m # ms \<Rightarrow>
          if o2_do_not_reenter s \<noteq> 0 then None
          else (case n of
             0 \<Rightarrow> None
           | Suc n \<Rightarrow> Option.bind (o2_message_send env junk m (s\<lparr>pending_anywhere := ms\<rparr>))
               (\<lambda>(_, s). deliver_anywhere n env junk s)))"

declare deliver_anywhere.simps [simp del]

definition deliver_local_msg :: "environment \<Rightarrow> (nat \<Rightarrow> byte) \<Rightarrow> O2message \<Rightarrow> send_state \<Rightarrow> send_state option" where
  "deliver_local_msg env junk m s =
     (case find_services (segment (tl (c_str (body m)))) (ctx s) of
        None \<Rightarrow> Some s
      | Some ss \<Rightarrow>
          (case proc_service_find (ctx s) local_proc ss of
             Some spp \<Rightarrow>
               (case service spp of
                  Local n \<Rightarrow> o2_msg_deliver env junk (Some (Local n)) (Some ss) (o2_prepare_to_deliver m s)
                | Proxy _ \<Rightarrow> Some s)
           | None \<Rightarrow> Some s))"

fun deliver_local :: "nat \<Rightarrow> environment \<Rightarrow> (nat \<Rightarrow> byte) \<Rightarrow> send_state \<Rightarrow> send_state option" where
  "deliver_local n env junk s =
     (case pending_local s of
        [] \<Rightarrow> Some s
      | m # ms \<Rightarrow>
          (case n of
             0 \<Rightarrow> None
           | Suc n \<Rightarrow> Option.bind (deliver_local_msg env junk m (s\<lparr>pending_local := ms\<rparr>))
               (deliver_local n env junk)))"

declare deliver_local.simps [simp del]

definition o2_deliver_pending :: "nat \<Rightarrow> environment \<Rightarrow> (nat \<Rightarrow> byte) \<Rightarrow> send_state \<Rightarrow> send_state option" where
  "o2_deliver_pending n env junk s = Option.bind (deliver_anywhere n env junk s) (deliver_local n env junk)"

definition o2_free_pending_msgs :: "send_state \<Rightarrow> send_state" where
  "o2_free_pending_msgs s = s\<lparr>msgs := [], pending_anywhere := [], pending_local := []\<rparr>"

section \<open>Who owns the message\<close>

definition same_context :: "send_state \<Rightarrow> send_state \<Rightarrow> bool" where
  "same_context s s' \<longleftrightarrow> ctx s' = ctx s \<and> gt_last_time s' = gt_last_time s \<and> gt_started s' = gt_started s \<and>
     o2_do_not_reenter s' = o2_do_not_reenter s"

text \<open>The operation took the current message over, left the stack alone, or changed the current message at most.\<close>

definition consumed :: "send_state \<Rightarrow> send_state \<Rightarrow> bool" where
  "consumed s s' \<longleftrightarrow> same_context s s' \<and> (\<exists>m. msgs s = m # msgs s')"

definition kept :: "send_state \<Rightarrow> send_state \<Rightarrow> bool" where
  "kept s s' \<longleftrightarrow> same_context s s' \<and> msgs s' = msgs s"

definition rest_kept :: "send_state \<Rightarrow> send_state \<Rightarrow> bool" where
  "rest_kept s s' \<longleftrightarrow> same_context s s' \<and> msgs s \<noteq> [] \<and> (\<exists>m. msgs s' = m # tl (msgs s))"

definition takes_over :: "local_sender \<Rightarrow> bool" where
  "takes_over local \<longleftrightarrow> (\<forall>svc ss s s'. local svc ss s = Some s' \<longrightarrow> consumed s s')"

lemmas ownership = consumed_def kept_def rest_kept_def same_context_def

lemma kept_refl [simp]: "kept s s"
  by (simp add: ownership)

lemma kept_trans: "kept s s' \<Longrightarrow> kept s' s'' \<Longrightarrow> kept s s''"
  by (simp add: ownership)

lemma kept_consumed: "kept s s' \<Longrightarrow> consumed s' s'' \<Longrightarrow> consumed s s''"
  by (auto simp: ownership)

lemma rest_consumed: "rest_kept s s' \<Longrightarrow> consumed s' s'' \<Longrightarrow> consumed s s''"
  by (auto simp: ownership neq_Nil_conv)

lemma prepare_consumed: "consumed (o2_prepare_to_deliver m s) s' \<Longrightarrow> kept s s'"
  by (auto simp: ownership o2_prepare_to_deliver_def)

lemma kept_happen [simp]: "kept s (happen d s)"
  by (simp add: ownership happen_def)

lemma consumed_postpone: "o2_postpone_delivery s = Some (m, s') \<Longrightarrow> consumed s s'"
  by (auto simp: o2_postpone_delivery_def ownership split: list.splits)

lemma consumed_happen: "consumed s s' \<Longrightarrow> consumed s (happen d s')"
  by (auto simp: ownership happen_def)

lemma consumed_complete: "o2_complete_delivery s = Some s' \<Longrightarrow> consumed s s'"
  by (auto simp: o2_complete_delivery_def intro: consumed_postpone)

lemma kept_drop_data: "kept s (o2_drop_msg_data w m s)"
  by (simp add: o2_drop_msg_data_def)

lemma drop_message_owner:
  "o2_drop_message w True s = Some s' \<Longrightarrow> consumed s s'"
  "o2_drop_message w False s = Some s' \<Longrightarrow> kept s s'"
  using kept_drop_data [of s w]
  by (auto simp: o2_drop_message_def bind_eq_Some_conv dest!: consumed_complete intro: kept_consumed)

lemma takes_over_defer: "takes_over (\<lambda>_ _. defer_local)"
  by (auto simp: takes_over_def defer_local_def ownership o2_postpone_delivery_def split: list.splits if_splits)

lemma proxy_send_owner: "proxy_send env p s = Some (r, s') \<Longrightarrow> consumed s s'"
  by (auto simp: proxy_send_def dest!: consumed_postpone intro: consumed_happen)

lemma schedule_later_owner: "schedule_later s = Some (r, s') \<Longrightarrow> consumed s s'"
  by (auto simp: schedule_later_def dest!: consumed_postpone drop_message_owner intro: consumed_happen split: if_splits)

lemma service_msg_send_owner:
  "takes_over local \<Longrightarrow> o2_service_msg_send env local svc ss s = Some (r, s') \<Longrightarrow> consumed s s'"
  by (auto simp: o2_service_msg_send_def takes_over_def
      dest!: proxy_send_owner drop_message_owner split: option.split_asm svc_node.split_asm)

lemma message_send_owner:
  assumes "takes_over local" "o2_message_send_by env local m s = Some (r, s')"
  shows "kept s s'"
proof -
  let ?s = "o2_prepare_to_deliver m s"
  obtain svc ss b1 b2 where "(case svc of
        Some (Proxy p) \<Rightarrow> if b1 \<and> b2 p then schedule_later ?s else o2_service_msg_send env local svc ss ?s
      | Some (Local n) \<Rightarrow> if b1 then schedule_later ?s else o2_service_msg_send env local svc ss ?s
      | None \<Rightarrow> o2_service_msg_send env local svc ss ?s) = Some (r, s')"
    using assms(2) by (auto simp: o2_message_send_by_def Let_def bind_eq_Some_conv simp del: split_paired_Ex)
  then have "consumed ?s s'"
    using service_msg_send_owner [OF assms(1)] schedule_later_owner
    by (auto split: option.split_asm svc_node.split_asm if_split_asm)
  then show ?thesis by (rule prepare_consumed)
qed

lemma send_all_owner: "takes_over local \<Longrightarrow> send_all env local ms s = Some s' \<Longrightarrow> kept s s'"
  by (induction ms arbitrary: s) (auto simp: bind_eq_Some_conv dest!: message_send_owner intro: kept_trans)

lemma send_to_tap_owner:
  assumes "takes_over local" "msg_send_to_tap env junk local tap s = Some s'"
  shows "kept s s'"
proof -
  obtain new where "(let s = o2_prepare_to_deliver new s; drop = o2_drop_message ''Tapper not found'' True s in
     if ISA_REMOTE_PROC (ctx s) (Proxy (tap_proc tap)) then map_option snd (proxy_send env (tap_proc tap) s)
     else case hash_find (tapper tap) (path_tree (ctx s)) of
        None \<Rightarrow> drop
      | Some ss \<Rightarrow>
          (case proc_service_find (ctx s) local_proc ss of
             None \<Rightarrow> drop
           | Some spp \<Rightarrow>
               (case service spp of
                  Local n \<Rightarrow> local (Local n) (Some ss) s
                | Proxy p \<Rightarrow> map_option snd (proxy_send env p s)))) = Some s'"
    using assms(2) unfolding msg_send_to_tap_def bind_eq_Some_conv by blast
  then have "consumed (o2_prepare_to_deliver new s) s'"
    using assms(1) unfolding Let_def takes_over_def
    by (auto dest!: proxy_send_owner drop_message_owner(1) split: option.split_asm svc_node.split_asm if_split_asm)
  then show ?thesis by (rule prepare_consumed)
qed

lemma send_taps_owner: "takes_over local \<Longrightarrow> send_taps env junk local tps s = Some s' \<Longrightarrow> kept s s'"
  by (induction tps arbitrary: s) (auto simp: bind_eq_Some_conv dest!: send_to_tap_owner intro: kept_trans)

lemma to_taps_owner:
  assumes "takes_over local" "o2_send_to_taps env junk local ss s = Some s'"
  shows "rest_kept s s'"
proof -
  obtain m ms where ms: "msgs s = m # ms" using assms(2) by (auto simp: o2_send_to_taps_def split: list.splits)
  let ?s = "s\<lparr>msgs := mark_tapped m # ms\<rparr>"
  have "kept ?s s'"
    using assms(2) send_taps_owner [OF assms(1)]
    by (auto simp: o2_send_to_taps_def ms Let_def bind_eq_Some_conv split: if_splits)
  then show ?thesis by (simp add: ownership ms)
qed

lemma call_handlers_owner:
  "takes_over local \<Longrightarrow> call_handlers env local hs m s = Some s' \<Longrightarrow> kept s s'"
  by (induction hs arbitrary: s)
    (auto simp: bind_eq_Some_conv call_handler_def dest!: send_all_owner intro: kept_trans kept_happen)

lemma call_handler_owner: "takes_over local \<Longrightarrow> call_handler env local h m s = Some s' \<Longrightarrow> kept s s'"
  by (auto simp: call_handler_def dest!: send_all_owner intro: kept_trans kept_happen)

lemma deliver_to_owner:
  assumes "takes_over local" "deliver_to env local svc m s = Some (d, w, s')"
  shows "kept s s'"
  using assms(2) call_handler_owner [OF assms(1)] call_handlers_owner [OF assms(1)] drop_message_owner(2)
  by (auto simp: deliver_to_def Let_def bind_eq_Some_conv
      split: option.split_asm svc_node.split_asm onode.split_asm if_split_asm)

lemma done_owner: "done_delivery d s = Some s' \<Longrightarrow> consumed s s'"
  by (auto simp: done_delivery_def bind_eq_Some_conv dest!: consumed_complete drop_message_owner(2)
      intro: kept_consumed split: if_splits)

lemma deliver_by_owner:
  assumes "takes_over local" "o2_msg_deliver_by env junk local svc ss s = Some s'"
  shows "consumed s s'"
proof -
  obtain m where m: "o2_current_message s = Some m" using assms(2)
    by (auto simp: o2_msg_deliver_by_def bind_eq_Some_conv)
  show ?thesis
  proof (cases "IS_BUNDLE m")
    case True
    then show ?thesis using assms m
      by (auto simp: o2_msg_deliver_by_def o2_embedded_msgs_deliver_def bind_eq_Some_conv
          dest!: send_all_owner [OF assms(1)] done_owner intro: kept_consumed)
  next
    case False
    then obtain svc' ss' where s': "(case svc' of None \<Rightarrow> done_delivery False s
       | Some svc \<Rightarrow> Option.bind (deliver_to env local svc m s) (\<lambda>(delivered, with_taps, s).
           if with_taps then Option.bind (o2_send_to_taps env junk local ss' s) (done_delivery delivered)
           else done_delivery delivered s)) = Some s'"
      using assms(2) m by (auto simp: o2_msg_deliver_by_def bind_eq_Some_conv split: if_splits)
    then show ?thesis
      using deliver_to_owner [OF assms(1)] to_taps_owner [OF assms(1)] done_owner
      by (auto simp: bind_eq_Some_conv split: option.splits if_splits
          dest!: intro: kept_consumed rest_consumed) (metis kept_consumed rest_consumed)+
  qed
qed

lemma takes_over_local: "takes_over (o2_send_local env junk)"
proof -
  have "consumed s s'" if sent_now: "o2_send_local env junk svc ss s = Some s'" for svc ss s s'
  proof (cases "o2_do_not_reenter s = 0")
    case True
    then obtain s1 where s1: "o2_msg_deliver_by env junk (\<lambda>_ _. defer_local) (Some svc) ss
        (s\<lparr>o2_do_not_reenter := o2_do_not_reenter s + 1\<rparr>) = Some s1"
      "s' = s1\<lparr>o2_do_not_reenter := o2_do_not_reenter s1 - 1\<rparr>"
    proof -
      have "map_option (\<lambda>s. s\<lparr>o2_do_not_reenter := o2_do_not_reenter s - 1\<rparr>) (o2_msg_deliver_by env junk (\<lambda>_ _. defer_local)
          (Some svc) ss (s\<lparr>o2_do_not_reenter := o2_do_not_reenter s + 1\<rparr>)) = Some s'"
        using sent_now True by (simp add: o2_send_local_def)
      then show thesis using that by blast
    qed
    from deliver_by_owner [OF takes_over_defer s1(1)] s1(2) show ?thesis using True by (auto simp: ownership)
  next
    case False
    then show ?thesis using that takes_over_defer by (auto simp: o2_send_local_def takes_over_def)
  qed
  then show ?thesis by (simp add: takes_over_def)
qed

text \<open>C20: ownership of messages is a stack discipline. Sending a message - through handlers that send
  messages themselves, bundles and taps - leaves the stack of current messages, the reentrancy counter
  and the directory as they were; a delivery takes exactly the current message from the stack.\<close>

theorem message_ownership:
  "(case o2_message_send env junk m s of
      None \<Rightarrow> True
    | Some (r, s') \<Rightarrow> msgs s' = msgs s \<and> o2_do_not_reenter s' = o2_do_not_reenter s \<and> ctx s' = ctx s) \<and>
   (case o2_msg_deliver env junk svc ss s of
      None \<Rightarrow> True
    | Some s' \<Rightarrow> (\<exists>m. msgs s = m # msgs s') \<and> o2_do_not_reenter s' = o2_do_not_reenter s \<and> ctx s' = ctx s)"
  using message_send_owner [OF takes_over_local] deliver_by_owner [OF takes_over_local]
  by (fastforce simp: o2_message_send_def o2_msg_deliver_def ownership split: option.split)

section \<open>Nothing is delivered while a handler runs\<close>

text \<open>C16: while the guard \<open>o2_do_not_reenter\<close> is set, a message for a local service that is not to be scheduled for later is not delivered: it goes to
  the end of a pending queue - the one for taps if it is a tap's copy - and nothing else changes, so no handler is
  entered while the guard is set. (The guard is set by deliveries of messages, but not by those of deferred copies for taps, see
  \<open>local_pending_reenters\<close>.)\<close>

theorem send_defers:
  assumes "o2_do_not_reenter s \<noteq> 0"
    and "o2_msg_service (c_str (body m)) (tap_flag m) (ctx s) = Some (Some (Local n), ss)"
    and "\<not> (double_less 0 (timestamp m) \<and> double_less (gt_last_time s) (timestamp m))"
  shows "o2_message_send env junk m s = Some (O2_SUCCESS,
     if tap_flag m then s\<lparr>pending_local := pending_local s @ [m]\<rparr>
     else s\<lparr>pending_anywhere := pending_anywhere s @ [m]\<rparr>)"
  using assms
  by (auto simp add: Let_def o2_message_send_def o2_message_send_by_def o2_service_msg_send_def o2_send_local_def
      o2_prepare_to_deliver_def defer_local_def o2_postpone_delivery_def)

text \<open>A process with one service, a handler, and handlers that send nothing.\<close>

definition quiet :: environment where
  "quiet = \<lparr>react = \<lambda>_ _. [], proxy_result = \<lambda>_ _. O2_SUCCESS\<rparr>"

definition sending :: "O2_context \<Rightarrow> nat \<Rightarrow> send_state" where
  "sending c n = \<lparr>ctx = c, gt_last_time = 0, gt_started = True, o2_do_not_reenter = n, msgs = [],
     pending_anywhere = [], pending_local = [], deliveries = []\<rparr>"

definition note_message :: O2message where
  "note_message = \<lparr>misc = O2_TCP_FLAG, timestamp = 0, body = zero_padded ''/synth'' @ zero_padded '',''\<rparr>"

lemma note_address: "c_str (body note_message) = ''/synth''"
  unfolding note_message_def O2message.simps by (rule c_str_padded) (simp add: c_string_def)

lemma double_less_irrefl: "\<not> double_less d d"
  by (auto simp: double_less_def split: fp.splits)

lemma one_handler_service:
  "\<exists>c. o2_msg_service ''/synth'' False c =
     Some (Some (Local (Handler h)), Some (Services_entry [Service_provider (Local (Handler h)) None] []))"
proof -
  let ?e = "Services_entry [Service_provider (Local (Handler h)) None] []"
  obtain t where t: "hash_ok t" "table_map t = (table_map (path_tree two_procs))(''synth'' \<mapsto> ?e)"
    using hash_insert_all [of "path_tree two_procs" "(''synth'', ?e)"] two_procs_ok(1) by (auto simp: ctx_ok_def)
  have k: "o2_string_pad ''synth'' = ''synth''" by (rule string_pad_short) simp
  have "o2_msg_service ''/synth'' False (two_procs\<lparr>path_tree := t\<rparr>) = Some (Some (Local (Handler h)), Some ?e)"
    by (simp add: o2_msg_service_def service_find_def find_services_def segment_def k hash_find [OF t(1)] t(2))
  then show ?thesis ..
qed

theorem send_defers_witness:
  "\<exists>c. o2_message_send quiet (\<lambda>_. 0) note_message (sending c 1) =
     Some (O2_SUCCESS, (sending c 1)\<lparr>pending_anywhere := [note_message]\<rparr>)"
proof -
  obtain c where c: "o2_msg_service ''/synth'' False c = Some (Some (Local (Handler (Handler_entry 1 0 None None 0 False True))),
      Some (Services_entry [Service_provider (Local (Handler (Handler_entry 1 0 None None 0 False True))) None] []))"
    using one_handler_service by blast
  have f: "\<not> tap_flag note_message" by (simp add: tap_flag_def note_message_def)
  have d: "o2_do_not_reenter (sending c 1) \<noteq> 0" "timestamp note_message = 0" "ctx (sending c 1) = c"
    by (simp_all add: sending_def note_message_def)
  have "o2_message_send quiet (\<lambda>_. 0) note_message (sending c 1) = Some (O2_SUCCESS,
     if tap_flag note_message then (sending c 1)\<lparr>pending_local := pending_local (sending c 1) @ [note_message]\<rparr>
     else (sending c 1)\<lparr>pending_anywhere := pending_anywhere (sending c 1) @ [note_message]\<rparr>)"
    by (rule send_defers) (use c f d in \<open>simp_all add: note_address double_less_irrefl\<close>)
  then show ?thesis using f by (auto simp: sending_def)
qed

section \<open>Taps\<close>

text \<open>The copy of a message for a tap differs from it in nothing but the flags and the service's name, which
  is replaced by the tapper's: the first character, the path behind the name, the types, the data and the
  time are those of the message, at the offsets the longer or shorter name requires.\<close>

theorem tap_copy:
  assumes "body m = zero_padded (p # svc @ path) @ rest" "CHR ''/'' \<notin> set svc"
    and "path = [] \<or> hd path = CHR ''/''" "c_string (p # svc @ path)"
  shows "\<exists>m'. tap_message junk tap m = Some m' \<and>
    body m' = zero_padded (p # tapper tap @ path) @ rest \<and> timestamp m' = timestamp m"
proof -
  define R where "R = length rest"
  let ?A = "ROUNDUP_TO_32BIT (length (tapper tap) + 1 + length path + 1)"
  have cur: "c_str (body m) = p # svc @ path" unfolding assms(1) by (rule c_str_padded [OF assms(4)])
  have seg: "CHR ''/'' \<in> set path \<longleftrightarrow> path \<noteq> []" "path \<noteq> [] \<Longrightarrow> segment (svc @ path) = svc"
    using assms(2,3) by (cases path; auto simp: segment_slash)+
  have curlen: "(if CHR ''/'' \<in> set (tl (p # svc @ path)) then 1 + length (segment (tl (p # svc @ path)))
      else length (p # svc @ path)) = length svc + 1"
    using assms(2) seg by auto
  have curall: "ROUNDUP_TO_32BIT (length (p # svc @ path) + 1) = length (zero_padded (p # svc @ path))"
    by (simp add: length_zero_padded)
  have nal: "length (p # svc @ path) - (length svc + 1) + (length (tapper tap) + 1) + 1 = length (tapper tap) + 1 + length path + 1"
    by simp
  have lenR: "length (body m) - length (zero_padded (p # svc @ path)) = R" by (simp add: assms(1) R_def)
  have from_path: "take (length (p # svc @ path) - (length svc + 1)) (drop (length svc + 1) (body m)) = bytes_of path"
    by (simp add: assms(1) zero_padded_def)
  have tail: "drop (length (zero_padded (p # svc @ path))) (body m) = rest" by (simp add: assms(1))
  have first: "body m ! 0 = byte_of p" by (simp add: assms(1) zero_padded_def)
  have zero: "0 \<in> set (body m)" unfolding assms(1) by (rule zero_in_padded)
  define ma md where "ma = take ?A (map junk [0..<?A + R])" and "md = drop ?A (map junk [0..<?A + R])"
  then have ma: "map junk [0..<?A + R] = ma @ md" "length ma = ?A" "length md = R" by simp_all
  have A: "length (tapper tap) + length path + 2 \<le> ?A" "4 \<le> ?A"
    using roundup_bounds(1) [of "length (tapper tap) + 1 + length path + 1"] by (simp_all add: ROUNDUP_TO_32BIT_def)
  have "write_at (length (tapper tap) + 1) (bytes_of path) (write_at 1 (bytes_of (tapper tap) @ [0])
      (write_at 0 [byte_of p] (write_at (?A - 4) [0, 0, 0, 0] (ma @ md)))) = zero_padded (p # tapper tap @ path) @ md"
    using A ma(2) write_service [of ma "tapper tap" path p] by (simp add: write_at_left length_write_at)
  then have mem: "write_at ?A rest (write_at (length (tapper tap) + 1) (bytes_of path) (write_at 1 (bytes_of (tapper tap) @ [0])
      (write_at 0 [byte_of p] (write_at (?A - 4) [0, 0, 0, 0] (ma @ md))))) = zero_padded (p # tapper tap @ path) @ rest"
    using write_at_right [of "zero_padded (p # tapper tap @ path)" 0 rest md] ma(3)
    by (simp add: length_zero_padded write_at_all R_def add.commute)
  have bound: "\<not> length (body m) < length (zero_padded (p # svc @ path))" by (simp add: assms(1))
  show ?thesis
    unfolding tap_message_def Let_def cur curlen curall nal lenR from_path tail first ma(1) mem
    using zero bound by simp
qed

theorem tap_copy_witness:
  "\<exists>m'. tap_message (\<lambda>_. 7) (Service_tap ''debugger'' 0 TAP_KEEP)
       \<lparr>misc = 1, timestamp = 0, body = zero_padded (CHR ''/'' # ''synth'' @ ''/note'') @ zero_padded '',i'' @ [60, 0, 0, 0]\<rparr> = Some m' \<and>
    body m' = zero_padded (CHR ''/'' # tapper (Service_tap ''debugger'' 0 TAP_KEEP) @ ''/note'') @ zero_padded '',i'' @ [60, 0, 0, 0] \<and>
    timestamp m' = timestamp \<lparr>misc = 1, timestamp = 0,
       body = zero_padded (CHR ''/'' # ''synth'' @ ''/note'') @ zero_padded '',i'' @ [60, 0, 0, 0]\<rparr>"
  by (rule tap_copy [where svc = "''synth''" and p = "CHR ''/''"]) (simp_all add: c_string_def)

text \<open>How often a message was forwarded to a tap, as its flags say.\<close>

definition ttl :: "O2message \<Rightarrow> nat" where
  "ttl m = unat (misc m) div 256"

lemma or_small: "unat ((w :: 32 word) OR 2) div 256 = unat w div 256"
proof -
  have "drop_bit 8 (2 :: 32 word) = 0" by (simp only: drop_bit_0_iff) simp
  then have "unat (drop_bit 8 (w OR 2)) = unat (drop_bit 8 w)" by (simp only: drop_bit_or or.right_neutral)
  then show ?thesis by (simp only: unat_drop) simp
qed

lemma ttl_mark:
  assumes "unat (misc m) < 2 ^ 15"
  shows "ttl (mark_tapped m) = ttl m + 1" "unat (misc (mark_tapped m)) < 2 ^ 16"
proof -
  let ?w = "misc m OR 2"
  have "ttl m < 128" using assms by (simp add: ttl_def)
  moreover have d: "unat ?w div 256 = ttl m" by (simp add: ttl_def or_small)
  ultimately have b: "unat ?w < 2 ^ 15" by simp
  then have "unat (?w + 256) = unat ?w + 256" by (simp add: unat_word_ariths)
  then show "ttl (mark_tapped m) = ttl m + 1" "unat (misc (mark_tapped m)) < 2 ^ 16"
    using d b by (simp_all add: ttl_def mark_tapped_def)
qed

lemma ttl_copy:
  assumes "tap_message junk tap m = Some m'" "unat (misc m) < 2 ^ 16"
  shows "ttl m' = ttl m"
proof -
  have high: "drop_bit 16 (misc m) = 0"
    using assms(2) by (simp only: drop_bit_0_iff)
  have keep: "drop_bit 8 (misc m AND 0xFF00) = drop_bit 8 (misc m)"
  proof (rule bit_word_eqI)
    fix n assume "n < LENGTH(32)"
    have "\<not> bit (misc m) (n + 8)" if "8 \<le> n"
    proof -
      have "bit (drop_bit 16 (misc m)) (n - 8) = bit (misc m) (n + 8)" using that by (simp add: bit_drop_bit_eq add.commute)
      then show ?thesis using high by simp
    qed
    then have "bit (misc m) (n + 8) \<Longrightarrow> n < 8" by (meson not_le)
    then show "bit (drop_bit 8 (misc m AND 0xFF00)) n = bit (drop_bit 8 (misc m)) n"
      by (auto simp: bit_drop_bit_eq bit_and_iff byte_masks bit_push_bit_iff bit_mask_iff add.commute [of 8])
  qed
  have small: "drop_bit 8 (2 :: 32 word) = 0" "drop_bit 8 (1 :: 32 word) = 0" by (simp_all only: drop_bit_0_iff) simp_all
  define f where "f = (case send_mode tap of TAP_KEEP \<Rightarrow> misc m | TAP_RELIABLE \<Rightarrow> 1 | TAP_BEST_EFFORT \<Rightarrow> 0 | Other_mode _ \<Rightarrow> 0)"
  have "misc m' = f OR 2 OR (misc m AND 0xFF00)"
    using assms(1) by (auto simp: tap_message_def Let_def f_def simp del: or.left_neutral split: if_splits)
  moreover have "f = misc m \<or> f = 1 \<or> f = 0" by (cases "send_mode tap") (simp_all add: f_def)
  ultimately have "drop_bit 8 (misc m') = drop_bit 8 (misc m)"
    by (auto simp only: drop_bit_or keep small or.left_neutral or.idem drop_bit_of_0)
  then have "unat (drop_bit 8 (misc m')) = unat (drop_bit 8 (misc m))" by simp
  then show ?thesis unfolding unat_drop by (simp add: ttl_def)
qed

text \<open>Taps cannot forward a message for ever: every copy for a tap counts one forwarding more than the message it
  is a copy of, and a message that was forwarded three times is not sent to any tap.\<close>

theorem tap_forwarding_ends:
  assumes "unat (misc m) < 2 ^ 15"
  shows "(\<forall>junk tap m'. tap_message junk tap (mark_tapped m) = Some m' \<longrightarrow> ttl m' = ttl m + 1) \<and>
    (3 \<le> ttl m \<longrightarrow> msgs s = m # ms \<longrightarrow>
       o2_send_to_taps env junk local ss s = Some (s\<lparr>msgs := mark_tapped m # ms\<rparr>))"
proof (intro conjI allI impI)
  fix junk tap m'
  assume "tap_message junk tap (mark_tapped m) = Some m'"
  then show "ttl m' = ttl m + 1" using ttl_copy ttl_mark [OF assms] by simp
next
  assume t: "3 \<le> ttl m" and s: "msgs s = m # ms"
  have "sint (misc (mark_tapped m)) = int (unat (misc (mark_tapped m)))"
    using ttl_mark(2) [OF assms] by (intro sint32_unat) simp
  moreover have "int (unat (misc (mark_tapped m))) div 256 = int (ttl (mark_tapped m))"
    unfolding ttl_def by (simp only: zdiv_int of_nat_numeral)
  ultimately have "\<not> sint (misc (mark_tapped m)) div 256 \<le> 3"
    using t ttl_mark(1) [OF assms] by (simp only:)
  then show "o2_send_to_taps env junk local ss s = Some (s\<lparr>msgs := mark_tapped m # ms\<rparr>)"
    by (simp add: o2_send_to_taps_def s Let_def)
qed

theorem tap_forwarding_ends_witness:
  "o2_send_to_taps quiet (\<lambda>_. 0) (\<lambda>_ _. defer_local) None ((sending two_procs 0)\<lparr>msgs := [note_message\<lparr>misc := 0x301\<rparr>]\<rparr>) =
     Some ((sending two_procs 0)\<lparr>msgs := [mark_tapped (note_message\<lparr>misc := 0x301\<rparr>)]\<rparr>)"
  using tap_forwarding_ends [of "note_message\<lparr>misc := 0x301\<rparr>" "(sending two_procs 0)\<lparr>msgs := [note_message\<lparr>misc := 0x301\<rparr>]\<rparr>" "[]"
      quiet "\<lambda>_. 0" "\<lambda>_ _. defer_local" None]
  by (simp add: ttl_def)

section \<open>Bundles\<close>

definition set_tcp :: "O2message \<Rightarrow> O2message" where
  "set_tcp m = m\<lparr>misc := misc m OR O2_TCP_FLAG\<rparr>"

lemma embedded_data_bytes:
  assumes "length (body m) < 2 ^ 31 - 12"
  shows "embedded_msgs (data_bytes m @ bs) = map_option ((#) (set_tcp m)) (embedded_msgs bs)"
proof -
  define xs where "xs = data_bytes m @ bs"
  have len: "sint (word_of_int (data_length m) :: 32 word) = 12 + int (length (body m))"
    unfolding data_length_def by (rule sint32_small) (use assms in simp_all)
  have parts: "length xs = 16 + length (body m) + length bs" "take 4 xs = le_enc 4 (word_of_int (data_length m) :: 32 word)"
    "take 4 (drop 4 xs) = le_enc 4 (misc m)" "take 8 (drop 8 xs) = le_enc 8 (timestamp m)" "drop 16 xs = body m @ bs"
    by (simp_all add: xs_def data_bytes_def)
  have rest: "drop (16 + length (body m)) xs = bs"
    using arg_cong [OF parts(5), of "drop (length (body m))"] by (simp add: add.commute)
  have n: "nat (12 + int (length (body m))) = 12 + length (body m)" by simp
  have "xs \<noteq> []" using parts(1) by auto
  then have "embedded_msgs xs = map_option ((#) \<lparr>misc = misc m OR 1, timestamp = timestamp m, body = body m\<rparr>) (embedded_msgs bs)"
    unfolding embedded_msgs.simps [of xs] parts le_dec_enc32 le_dec_enc64 len n Let_def
    by (simp add: rest parts(1))
  then show ?thesis by (cases m) (simp add: xs_def set_tcp_def)
qed

definition add_messages :: "O2message list \<Rightarrow> builder \<Rightarrow> builder" where
  "add_messages ms b = fold (\<lambda>m b. snd (o2_add_message m b)) ms b"

lemma add_messages:
  "4 dvd length (msg_data b) \<Longrightarrow> \<not> is_normal b \<Longrightarrow> \<forall>m \<in> set ms. 4 dvd length (body m) \<Longrightarrow> ms \<noteq> [] \<Longrightarrow>
   add_messages ms b = b\<lparr>is_bundle := True, msg_data := msg_data b @ concat (map data_bytes ms)\<rparr>"
proof (induction ms arbitrary: b)
  case (Cons m ms)
  have l: "length (data_bytes m) = 16 + length (body m)" by (simp add: data_bytes_def)
  have "ADD_PADDING (append_data (data_bytes m) (b\<lparr>is_bundle := True\<rparr>)) =
      append_data (word_padded (data_bytes m)) (b\<lparr>is_bundle := True\<rparr>)"
    by (rule add_padding_append) (simp add: Cons.prems)
  moreover have "word_padded (data_bytes m) = data_bytes m"
    using Cons.prems(3) by (simp add: word_padded_def l roundup_fix)
  ultimately have step: "snd (o2_add_message m b) = b\<lparr>is_bundle := True, msg_data := msg_data b @ data_bytes m\<rparr>"
    using Cons.prems(2) by (simp add: o2_add_message_def o2_add_raw_bytes_def append_data_def)
  show ?case
  proof (cases "ms = []")
    case True
    then show ?thesis by (simp add: add_messages_def step)
  next
    case False
    have "4 dvd length (msg_data (snd (o2_add_message m b)))" "\<not> is_normal (snd (o2_add_message m b))"
      using Cons.prems by (simp_all add: step l dvd_add)
    then show ?thesis using Cons.IH [of "snd (o2_add_message m b)"] Cons.prems(3) False
      by (simp add: add_messages_def) (simp add: step)
  qed
qed simp

text \<open>C28: a bundle built from messages, whatever was in its memory before, is taken for a bundle, and its delivery
  sends exactly those messages, in order, each with its own time, address and data, and all of them by
  TCP.\<close>

theorem bundle_roundtrip:
  assumes "\<not> building_message_lock b0" "ms \<noteq> []" "c_string s" "c_string address"
    and "\<forall>m \<in> set ms. 4 dvd length (body m) \<and> length (body m) < 2 ^ 31 - 12"
  shows "\<exists>m b. o2_service_message_finish True junk time (Some s) address tcp
      (add_messages ms (snd (o2_send_start b0))) = (Some m, b) \<and> IS_BUNDLE m \<and>
    (\<forall>env local st. o2_embedded_msgs_deliver env local m st = send_all env local (map set_tcp ms) st)"
proof -
  let ?b = "add_messages ms (snd (o2_send_start b0))"
  have b: "?b = (snd (o2_send_start b0))\<lparr>is_bundle := True, msg_data := concat (map data_bytes ms)\<rparr>"
    using add_messages [of "snd (o2_send_start b0)" ms] assms by (simp add: o2_send_start_def)
  let ?m = "\<lparr>misc = (if tcp then O2_TCP_FLAG else O2_UDP_FLAG), timestamp = time, body = message_memory junk (Some s) address ?b\<rparr>"
  have fin: "o2_service_message_finish True junk time (Some s) address tcp ?b = (Some ?m, ?b\<lparr>building_message_lock := False\<rparr>)"
    using assms(1) unfolding o2_service_message_finish_def b by (simp add: o2_send_start_def)
  have mem: "body ?m = zero_padded (CHR ''#'' # s @ address) @ concat (map data_bytes ms)"
    by (simp add: message_memory full_address_def b)
  have isb: "IS_BUNDLE ?m" unfolding IS_BUNDLE_def mem by (simp add: zero_padded_def)
  have cs: "c_string (CHR ''#'' # s @ address)" using assms(3,4) by (simp add: c_string_def)
  have "embedded_msgs (concat (map data_bytes ms)) = Some (map set_tcp ms)"
    using assms(5)
  proof (induction ms)
    case Nil
    then show ?case by (simp add: embedded_msgs.simps)
  next
    case (Cons m ms)
    then show ?case using embedded_data_bytes [of m] by simp
  qed
  then have "\<forall>env local st. o2_embedded_msgs_deliver env local ?m st = send_all env local (map set_tcp ms) st"
    unfolding o2_embedded_msgs_deliver_def mem next_o2string_padded [OF cs] by simp
  then show ?thesis using fin isb by blast
qed

theorem bundle_roundtrip_witness:
  "\<exists>m b. o2_service_message_finish True (\<lambda>_. 7) 0 (Some ''synth'') [] False
      (add_messages [\<lparr>misc = 0, timestamp = 5, body = replicate 8 0\<rparr>] (snd (o2_send_start idle_builder))) = (Some m, b) \<and> IS_BUNDLE m \<and>
    (\<forall>env local st. o2_embedded_msgs_deliver env local m st =
       send_all env local (map set_tcp [\<lparr>misc = 0, timestamp = 5, body = replicate 8 0\<rparr>]) st)"
  by (rule bundle_roundtrip) (simp_all add: idle_builder_def c_string_def)

section \<open>Where the guard is missing\<close>

definition plain_message :: "O2message \<Rightarrow> bool" where
  "plain_message m \<longleftrightarrow> body m \<noteq> [] \<and> \<not> IS_BUNDLE m \<and> hd (c_str (body m)) = CHR ''/'' \<and> \<not> tap_flag m \<and> timestamp m = 0"

lemma quiet_delivery:
  assumes "msgs s = m # ms" "plain_message m" "react env h m = rs" "taps ss = []"
    and "send_all env local rs (happen (Invoked h m) s) = Some u" "msgs u = m # ms"
  shows "o2_msg_deliver_by env junk local (Some (Local (Handler h))) (Some ss) s = Some (u\<lparr>msgs := ms\<rparr>)"
  using assms
  by (simp add: o2_msg_deliver_by_def plain_message_def o2_current_message_def deliver_to_def call_handler_def
      o2_send_to_taps_def Let_def done_delivery_def o2_complete_delivery_def o2_postpone_delivery_def)

text \<open>The copies for taps that wait are delivered without the guard: a message their handler sends enters another
  handler before the first returns, where after \<open>o2_send_local\<close> it would wait.\<close>

lemma local_pending_reenters:
  assumes "o2_do_not_reenter s = 0" "plain_message m" "plain_message m2"
    and "find_services (segment (tl (c_str (body m)))) (ctx s) = Some ss"
    and "proc_service_find (ctx s) local_proc ss = Some (Service_provider (Local (Handler h)) pr)" "taps ss = []"
    and "o2_msg_service (c_str (body m2)) False (ctx s) = Some (Some (Local (Handler h2)), Some ss2)" "taps ss2 = []"
    and "react env h m = [m2]" "react env h2 m2 = []"
  shows "\<exists>s'. deliver_local_msg env junk m s = Some s' \<and> pending_anywhere s' = pending_anywhere s \<and>
      deliveries s' = deliveries s @ [Invoked h m, Invoked h2 m2]"
    and "\<exists>s'. o2_send_local env junk (Local (Handler h)) (Some ss) (o2_prepare_to_deliver m s) = Some s' \<and>
      pending_anywhere s' = pending_anywhere s @ [m2] \<and> deliveries s' = deliveries s @ [Invoked h m]"
proof -
  have flags: "\<not> tap_flag m2" "timestamp m2 = 0" using assms(3) by (simp_all add: plain_message_def)
  let ?s = "o2_prepare_to_deliver m s"
  let ?u = "happen (Invoked h m) ?s"
  let ?t = "happen (Invoked h2 m2) ((o2_prepare_to_deliver m2 ?u)\<lparr>o2_do_not_reenter := 1\<rparr>)"
  have "o2_msg_deliver_by env junk (\<lambda>_ _. defer_local) (Some (Local (Handler h2))) (Some ss2)
      ((o2_prepare_to_deliver m2 ?u)\<lparr>o2_do_not_reenter := 1\<rparr>) = Some (?t\<lparr>msgs := m # msgs s\<rparr>)"
    by (rule quiet_delivery [where rs = "[]"]) (use assms in \<open>simp_all add: o2_prepare_to_deliver_def happen_def\<close>)
  then have "o2_send_local env junk (Local (Handler h2)) (Some ss2) (o2_prepare_to_deliver m2 ?u) =
      Some (?u\<lparr>deliveries := deliveries s @ [Invoked h m, Invoked h2 m2]\<rparr>)"
    using assms(1) by (simp add: o2_send_local_def o2_prepare_to_deliver_def happen_def)
  then have all: "send_all env (o2_send_local env junk) [m2] ?u = Some (?u\<lparr>deliveries := deliveries s @ [Invoked h m, Invoked h2 m2]\<rparr>)"
    using assms(7) flags
    by (simp add: o2_message_send_by_def Let_def double_less_irrefl o2_service_msg_send_def)
      (simp add: o2_prepare_to_deliver_def happen_def double_less_irrefl o2_service_msg_send_def)
  have "o2_msg_deliver env junk (Some (Local (Handler h))) (Some ss) ?s =
      Some (?u\<lparr>deliveries := deliveries s @ [Invoked h m, Invoked h2 m2], msgs := msgs s\<rparr>)"
    unfolding o2_msg_deliver_def
    by (rule quiet_delivery [where rs = "[m2]" and u = "?u\<lparr>deliveries := deliveries s @ [Invoked h m, Invoked h2 m2]\<rparr>", simplified])
      (use assms all in \<open>simp_all add: o2_prepare_to_deliver_def happen_def\<close>)
  then show "\<exists>s'. deliver_local_msg env junk m s = Some s' \<and> pending_anywhere s' = pending_anywhere s \<and>
      deliveries s' = deliveries s @ [Invoked h m, Invoked h2 m2]"
    using assms(4,5) by (simp add: deliver_local_msg_def o2_prepare_to_deliver_def happen_def)
  let ?g = "?s\<lparr>o2_do_not_reenter := 1\<rparr>"
  have all2: "send_all env (\<lambda>_ _. defer_local) [m2] (happen (Invoked h m) ?g) =
      Some ((happen (Invoked h m) ?g)\<lparr>pending_anywhere := pending_anywhere s @ [m2]\<rparr>)"
    using assms(7) flags
    by (simp add: o2_message_send_by_def Let_def o2_service_msg_send_def double_less_irrefl
        o2_prepare_to_deliver_def happen_def defer_local_def o2_postpone_delivery_def)
  have "o2_msg_deliver_by env junk (\<lambda>_ _. defer_local) (Some (Local (Handler h))) (Some ss) ?g =
      Some ((happen (Invoked h m) ?g)\<lparr>pending_anywhere := pending_anywhere s @ [m2]\<rparr>\<lparr>msgs := msgs s\<rparr>)"
    by (rule quiet_delivery [where rs = "[m2]"])
      (use assms all2 in \<open>simp_all add: o2_prepare_to_deliver_def happen_def\<close>)
  then show "\<exists>s'. o2_send_local env junk (Local (Handler h)) (Some ss) (o2_prepare_to_deliver m s) = Some s' \<and>
      pending_anywhere s' = pending_anywhere s @ [m2] \<and> deliveries s' = deliveries s @ [Invoked h m]"
    using assms(1) by (simp add: o2_send_local_def o2_prepare_to_deliver_def happen_def)
qed

end
