(* ===== verification/Methods.thy ===== *)
theory Methods
  imports Delivery
begin

text \<open>
  Installing and removing methods (\<open>o2_method_new_internal\<close> and \<open>o2_method_free\<close> in src/src/pathtree.cpp, \<open>o2_method_new\<close>
  in src/src/o2.cpp) on the local offering of a service. A handler is in two places: in the tree of its
  service, which is searched for patterns, and, as a copy, in the flat table of full paths, where addresses that
  begin with an exclamation mark are looked up. The invariant is that the two agree. \<open>None\<close>: the code
  follows a null pointer or takes a proxy for a table.
\<close>

section \<open>The code\<close>

definition set_local :: "string \<Rightarrow> nat \<Rightarrow> svc_node \<Rightarrow> O2_context \<Rightarrow> O2_context" where
  "set_local k i n c = (case hash_find k (path_tree c) of
     None \<Rightarrow> c
   | Some ss \<Rightarrow> set_entry k (Services_entry
       ((services ss)[i := Service_provider n (properties (services ss ! i))]) (taps ss)) c)"

text \<open>From \<open>remaining = slash + 1\<close> on. The tree is changed in place; handlers deleted on the way leave the full path table.\<close>

definition install_method :: "string \<Rightarrow> nat \<Rightarrow> string \<Rightarrow> Handler_entry \<Rightarrow> onode Hash_node \<Rightarrow> O2_context \<Rightarrow>
    (O2err \<times> O2_context) option" where
  "install_method k i full h t c =
     (case insert_path (after_slash (tl full)) h t of
        None \<Rightarrow> None
      | Some (del, t) \<Rightarrow>
          Option.bind (remove_full_paths del c) (\<lambda>c.
          let c = set_local k i (Local (Tree t)) c in
          map_option (\<lambda>fp. (O2_SUCCESS, c\<lparr>full_path_table := fp\<rparr>))
            (hash_insert (full, copy_handler h) (full_path_table c))))"

definition o2_method_new_internal :: "string \<Rightarrow> string option \<Rightarrow> nat \<Rightarrow> nat \<Rightarrow> bool \<Rightarrow> bool \<Rightarrow> O2_context \<Rightarrow>
    (O2err \<times> O2_context) option" where
  "o2_method_new_internal path typespec h ud coerce parse c =
     (let full = CHR ''/'' # tl path;
          service_name = segment (tl full);
          k = o2_string_pad service_name in
      case find_services service_name c of
        None \<Rightarrow> Some (O2_NO_SERVICE, c)
      | Some ss \<Rightarrow>
          (case proc_service_index c local_proc ss of
             None \<Rightarrow> Some (O2_NO_SERVICE, c)
           | Some i \<Rightarrow>
               let types_len = (case typespec of None \<Rightarrow> 0 | Some ts \<Rightarrow> length ts);
                   new_handler = (\<lambda>f. Handler_entry h ud f typespec types_len coerce parse) in
               if \<not> has_slash (tl full) then service_provider_replace k i (Local (Handler (new_handler None))) c
               else (case service (services ss ! i) of
                   Local (Handler _) \<Rightarrow>
                     Option.bind (service_provider_replace k i (Local (Tree new_Hash_node)) c) (\<lambda>(r, c).
                     if r \<noteq> O2_SUCCESS then Some (r, c)
                     else install_method k i full (new_handler (Some full)) new_Hash_node c)
                 | Local (Tree t) \<Rightarrow> install_method k i full (new_handler (Some full)) t c
                 | Proxy _ \<Rightarrow> None)))"

definition is_alpha :: "char \<Rightarrow> bool" where
  "is_alpha ch \<longleftrightarrow> (of_char ch :: nat) \<in> {65..90} \<or> (of_char ch :: nat) \<in> {97..122}"

definition o2_method_new :: "string option \<Rightarrow> string option \<Rightarrow> nat \<Rightarrow> nat \<Rightarrow> bool \<Rightarrow> bool \<Rightarrow> O2_context \<Rightarrow>
    (O2err \<times> O2_context) option" where
  "o2_method_new path typespec h ud coerce parse c =
     (if \<not> ensemble c then Some (O2_NOT_INITIALIZED, c)
      else case path of
        None \<Rightarrow> Some (O2_BAD_NAME, c)
      | Some p \<Rightarrow>
          if length p < 2 \<or> p ! 0 \<noteq> CHR ''/'' \<or> \<not> is_alpha (p ! 1) \<and> p \<noteq> ''/_o2/si'' then Some (O2_BAD_NAME, c)
          else o2_method_new_internal p typespec h ud coerce parse c)"

text \<open>The whole path is cut to the size of a buffer for a node name.\<close>

definition o2_method_free :: "string option \<Rightarrow> O2_context \<Rightarrow> (O2err \<times> O2_context) option" where
  "o2_method_free path c =
     (if \<not> ensemble c then Some (O2_NOT_INITIALIZED, c)
      else case path of
        None \<Rightarrow> Some (O2_BAD_NAME, c)
      | Some p \<Rightarrow>
          if length p < 2 \<or> p ! 0 \<noteq> CHR ''/'' then Some (O2_BAD_NAME, c)
          else
            let remaining = tl (take (NAME_BUF_LEN - 1) p); k = o2_string_pad (segment remaining) in
            case find_services (segment remaining) c of
              None \<Rightarrow> Some (O2_NO_SERVICE, c)
            | Some ss \<Rightarrow>
                Option.bind (proc_service_index c local_proc ss) (\<lambda>i.
                let n = service (services ss ! i) in
                if (case n of Local (Handler _) \<Rightarrow> True | _ \<Rightarrow> False) \<or> \<not> has_slash remaining then
                  map_option (\<lambda>c. (O2_SUCCESS, set_local k i (Local (Tree new_Hash_node)) c)) (delete_node n c)
                else (case n of
                    Local (Tree t) \<Rightarrow>
                      (case remove_method_from_tree (after_slash remaining) t of
                         None \<Rightarrow> None
                       | Some (r, del, t) \<Rightarrow>
                           map_option (\<lambda>c. (r, set_local k i (Local (Tree t)) c)) (remove_full_paths del c))
                  | _ \<Rightarrow> Some (O2_FAIL, c))))"

section \<open>What a tree deletes\<close>

lemma entries_map: "entries (map_Hash_node f t) = map (apsnd f) (entries t)"
  by (cases t) (simp add: entries_def map_concat apsnd_def map_prod_def)

lemma deleted_set: "tree_ok n \<Longrightarrow> set (deleted n) = {h. \<exists>p. tree_at n p = Some h}"
proof (induction rule: tree_ok.induct)
  case (leaf h)
  then show ?case by (auto simp: tree_at_Handler)
next
  case (node t)
  have "h \<in> set (deleted (Tree t)) \<longleftrightarrow> (\<exists>k n. (k, n) \<in> set (entries t) \<and> h \<in> set (deleted n))" for h
    by (auto simp: entries_map) (blast | force)+
  moreover have "(\<exists>p. tree_at (Tree t) p = Some h) \<longleftrightarrow> (\<exists>k n p. table_map t k = Some n \<and> tree_at n p = Some h)" for h
  proof
    assume "\<exists>p. tree_at (Tree t) p = Some h"
    then obtain p where "tree_at (Tree t) p = Some h" by blast
    then show "\<exists>k n p. table_map t k = Some n \<and> tree_at n p = Some h" by (cases p) (auto split: option.splits)
  next
    assume "\<exists>k n p. table_map t k = Some n \<and> tree_at n p = Some h"
    then obtain k n p where "table_map t k = Some n" "tree_at n p = Some h" by blast
    then have "tree_at (Tree t) (k # p) = Some h" by simp
    then show "\<exists>p. tree_at (Tree t) p = Some h" by blast
  qed
  moreover have "(k, n) \<in> set (entries t) \<Longrightarrow> h \<in> set (deleted n) \<longleftrightarrow> (\<exists>p. tree_at n p = Some h)" for k n h
    using node.IH by simp
  ultimately show ?case using entries_table_map [OF node.hyps(1)] by (simp add: set_eq_iff del: deleted.simps) metis
qed

text \<open>What installing at a path deletes: the handlers on the way to it and below it.\<close>

definition related :: "string list \<Rightarrow> string list \<Rightarrow> bool" where
  "related p q \<longleftrightarrow> prefix_of p q \<or> prefix_of q p"

lemma related_Cons: "related (s # p) q \<longleftrightarrow> (case q of [] \<Rightarrow> True | a # q \<Rightarrow> a = s \<and> related p q)"
  by (cases q) (auto simp: related_def)

lemma related_Nil [simp]: "related [] q" "related q []"
  by (simp_all add: related_def)

lemma tree_insert_node_deleted:
  assumes "hash_ok t" "tree_insert_node k t = Some (sub, del, t')"
  shows "set del = {h. table_map t k = Some (Handler h)}"
proof -
  obtain ptr t0 where lk: "lookup k t = (ptr, t0)" by fastforce
  have "deref ptr t0 = map_option (\<lambda>v. (k, v)) (table_map t k)"
    using assms(1) lk by (intro deref_lookup) (simp_all add: hash_ok_keyed)
  then show ?thesis using assms(2) lk
    by (cases "table_map t k") (auto simp: tree_insert_node_def split: onode.splits)
qed

lemma insert_path_deleted:
  "ns \<noteq> [] \<Longrightarrow> list_all node_name ns \<Longrightarrow> tree_ok (Tree t) \<Longrightarrow> insert_path (join ns) h t = Some (del, t') \<Longrightarrow>
   set del = {g. \<exists>p. related ns p \<and> tree_at (Tree t) p = Some g}"
proof (induction ns arbitrary: t del t')
  case Nil
  then show ?case by simp
next
  case (Cons s ss)
  have ok: "hash_ok t" by (rule tree_ok_hash [OF Cons.prems(3)])
  have child: "(\<exists>p. related (s # ss) p \<and> tree_at (Tree t) p = Some g) \<longleftrightarrow>
      (\<exists>n q. table_map t s = Some n \<and> related ss q \<and> tree_at n q = Some g)" for g
  proof
    assume "\<exists>p. related (s # ss) p \<and> tree_at (Tree t) p = Some g"
    then obtain p where "related (s # ss) p" "tree_at (Tree t) p = Some g" by blast
    then show "\<exists>n q. table_map t s = Some n \<and> related ss q \<and> tree_at n q = Some g"
      by (cases p) (auto simp: related_Cons split: option.splits)
  next
    assume "\<exists>n q. table_map t s = Some n \<and> related ss q \<and> tree_at n q = Some g"
    then obtain n q where "table_map t s = Some n" "related ss q" "tree_at n q = Some g" by blast
    then show "\<exists>p. related (s # ss) p \<and> tree_at (Tree t) p = Some g"
      by (intro exI [of _ "s # q"]) (simp add: related_Cons)
  qed
  show ?case
  proof (cases "ss = []")
    case True
    have "\<not> has_slash s" using Cons.prems(2) by (simp add: node_name_def)
    then have "del = (case hash_find s t of None \<Rightarrow> [] | Some n \<Rightarrow> deleted n)"
      using Cons.prems(4) True by (auto simp: insert_path.simps [of s])
    moreover have "set (deleted n) = {g. \<exists>p. tree_at n p = Some g}" if "table_map t s = Some n" for n
      using deleted_set tree_ok_child [OF Cons.prems(3) that] by blast
    ultimately show ?thesis using ok True unfolding child by (cases "table_map t s") (simp_all add: hash_find)
  next
    case False
    note parts = join_parts [OF _ False, of s]
    have nm: "node_name s" "list_all node_name ss" using Cons.prems(2) by auto
    obtain sub d1 t1 where t1: "tree_insert_node s t = Some (sub, d1, t1)" "hash_ok t1"
      "table_map t s = Some (Tree sub) \<or> sub = new_Hash_node \<and> (\<forall>u. table_map t s \<noteq> Some (Tree u))"
      using tree_insert_node_props [OF ok, of s] by blast
    obtain d2 sub' where s': "insert_path (join ss) h sub = Some (d2, sub')" "del = d1 @ d2"
      using Cons.prems(4) parts [OF nm(1)] t1(1) by (auto simp: insert_path.simps [of "join (s # ss)"] Let_def)
    have sub_ok: "tree_ok (Tree sub)"
      using t1(3) tree_ok_child [OF Cons.prems(3)] new_tree_ok by auto
    have d2: "set d2 = {g. \<exists>p. related ss p \<and> tree_at (Tree sub) p = Some g}"
      by (rule Cons.IH [OF False nm(2) sub_ok s'(1)])
    note d1 = tree_insert_node_deleted [OF ok t1(1)]
    show ?thesis unfolding child s'(2) set_append d1 d2 using t1(3)
    proof
      assume "table_map t s = Some (Tree sub)"
      then show "{h. table_map t s = Some (Handler h)} \<union> {g. \<exists>p. related ss p \<and> tree_at (Tree sub) p = Some g} =
        {x. \<exists>n q. table_map t s = Some n \<and> related ss q \<and> tree_at n q = Some x}" by simp
    next
      assume a: "sub = new_Hash_node \<and> (\<forall>u. table_map t s \<noteq> Some (Tree u))"
      then have "tree_at n q = Some x \<longleftrightarrow> n = Handler x \<and> q = []" if "table_map t s = Some n" for n q x
        using that by (cases n) (auto simp: tree_at_Handler)
      then show "{h. table_map t s = Some (Handler h)} \<union> {g. \<exists>p. related ss p \<and> tree_at (Tree sub) p = Some g} =
        {x. \<exists>n q. table_map t s = Some n \<and> related ss q \<and> tree_at n q = Some x}"
        using a by (auto simp: tree_at_new simp del: tree_at.simps)
    qed
  qed
qed

text \<open>Removing deletes the handlers at the path and below it.\<close>

lemma remove_deleted:
  "ns \<noteq> [] \<Longrightarrow> list_all node_name ns \<Longrightarrow> tree_ok (Tree t) \<Longrightarrow>
   remove_method_from_tree (join ns) t = Some (r, del, t') \<Longrightarrow>
   set del = {g. \<exists>p. prefix_of ns p \<and> tree_at (Tree t) p = Some g}"
proof (induction ns arbitrary: t r del t')
  case Nil
  then show ?case by simp
next
  case (Cons s ss)
  have ok: "hash_ok t" by (rule tree_ok_hash [OF Cons.prems(3)])
  obtain ptr t0 where lk: "lookup s t = (ptr, t0)" by fastforce
  have k: "keyed t" using ok by (simp add: hash_ok_keyed)
  have d: "deref ptr t0 = map_option (\<lambda>v. (s, v)) (table_map t s)" by (rule deref_lookup [OF k lk])
  have nm: "node_name s" "\<not> has_slash s" "o2_string_pad s = s" "list_all node_name ss"
    using Cons.prems(2) string_pad_short [of s] by (simp_all, simp_all add: node_name_def)
  have child: "(\<exists>p. prefix_of (s # ss) p \<and> tree_at (Tree t) p = Some g) \<longleftrightarrow>
      (\<exists>n q. table_map t s = Some n \<and> prefix_of ss q \<and> tree_at n q = Some g)" for g
  proof
    assume "\<exists>p. prefix_of (s # ss) p \<and> tree_at (Tree t) p = Some g"
    then obtain p where "prefix_of (s # ss) p" "tree_at (Tree t) p = Some g" by blast
    then show "\<exists>n q. table_map t s = Some n \<and> prefix_of ss q \<and> tree_at n q = Some g"
      by (cases p) (auto split: option.splits)
  next
    assume "\<exists>n q. table_map t s = Some n \<and> prefix_of ss q \<and> tree_at n q = Some g"
    then obtain n q where "table_map t s = Some n" "prefix_of ss q" "tree_at n q = Some g" by blast
    then show "\<exists>p. prefix_of (s # ss) p \<and> tree_at (Tree t) p = Some g"
      by (intro exI [of _ "s # q"]) simp
  qed
  show ?case
  proof (cases "ss = []")
    case True
    have "del = (case table_map t s of None \<Rightarrow> [] | Some n \<Rightarrow> deleted n)"
      using Cons.prems(4) True d lk nm segment_no_slash [OF nm(2)]
      by (auto simp: remove_method_from_tree.simps [of s t] split: option.splits)
    moreover have "set (deleted n) = {g. \<exists>p. tree_at n p = Some g}" if "table_map t s = Some n" for n
      using deleted_set tree_ok_child [OF Cons.prems(3) that] by blast
    ultimately show ?thesis using True unfolding child by (cases "table_map t s") simp_all
  next
    case False
    note parts = join_parts [OF nm(1) False]
    note rm = remove_method_from_tree.simps [of "join (s # ss)" t]
    show ?thesis
    proof (cases "\<exists>hn. table_map t s = Some (Tree hn)")
      case no: False
      then have "del = []" using Cons.prems(4) d lk parts by (auto simp: rm split: option.splits onode.splits)
      moreover have "\<not> (\<exists>n q. table_map t s = Some n \<and> prefix_of ss q \<and> tree_at n q = Some g)" for g
        using no False by (auto simp: tree_at_Handler elim: onode.exhaust) (metis onode.exhaust tree_at_Handler take_Nil option.distinct(1))
      ultimately show ?thesis unfolding child by simp
    next
      case True
      then obtain hn where hn: "table_map t s = Some (Tree hn)" by blast
      have hn_ok: "tree_ok (Tree hn)" using tree_ok_child [OF Cons.prems(3) hn] .
      obtain r2 d2 hn' where h': "remove_method_from_tree (join ss) hn = Some (r2, d2, hn')" "tree_ok (Tree hn')"
        using remove_all [OF False nm(4) hn_ok] by blast
      have "is_empty hn' \<Longrightarrow> set (deleted (Tree hn')) = {}"
        using deleted_set [OF h'(2)] tree_at_empty [OF tree_ok_hash [OF h'(2)]] by simp
      then have "set del = set d2" using Cons.prems(4) d lk parts hn h'(1)
        by (auto simp: rm split: if_splits simp del: deleted.simps)
      then show ?thesis unfolding child using Cons.IH [OF False nm(4) hn_ok h'(1)] hn by simp
    qed
  qed
qed

section \<open>Taking full paths out\<close>

lemma remove_full_paths_all:
  "hash_ok (full_path_table c) \<Longrightarrow> \<exists>fp. remove_full_paths hs c = Some (c\<lparr>full_path_table := fp\<rparr>) \<and> hash_ok fp \<and>
     table_map fp = (\<lambda>p. if \<exists>h \<in> set hs. full_path h = Some p then None else table_map (full_path_table c) p)"
proof (induction hs arbitrary: c)
  case Nil
  then show ?case by (intro exI [of _ "full_path_table c"]) simp
next
  case (Cons h hs)
  show ?case
  proof (cases "full_path h")
    case None
    then show ?thesis using Cons by simp
  next
    case (Some p)
    obtain fp where fp: "entry_remove_by_name (finishing c) p (full_path_table c) =
        Some (if p \<in> dom (table_map (full_path_table c)) then O2_SUCCESS else O2_FAIL,
          map_option (\<lambda>v. (p, v)) (table_map (full_path_table c) p), fp)" "hash_ok fp"
      "table_map fp = (table_map (full_path_table c))(p := None)"
      using entry_remove_all [OF Cons.prems] by blast
    obtain fp2 where "remove_full_paths hs (c\<lparr>full_path_table := fp\<rparr>) = Some (c\<lparr>full_path_table := fp2\<rparr>)" "hash_ok fp2"
      "table_map fp2 = (\<lambda>q. if \<exists>h \<in> set hs. full_path h = Some q then None else table_map fp q)"
      using Cons.IH [of "c\<lparr>full_path_table := fp\<rparr>"] fp(2) by (auto cong: if_cong)
    then show ?thesis using Some fp by (intro exI [of _ fp2]) auto
  qed
qed

section \<open>The two places agree\<close>

definition full_name :: "string \<Rightarrow> string list \<Rightarrow> string" where
  "full_name s ns = CHR ''/'' # join (s # ns)"

lemma join_inj:
  "list_all node_name xs \<Longrightarrow> list_all node_name ys \<Longrightarrow> xs \<noteq> [] \<Longrightarrow> ys \<noteq> [] \<Longrightarrow> join xs = join ys \<Longrightarrow> xs = ys"
proof (induction xs arbitrary: ys)
  case Nil
  then show ?case by simp
next
  case (Cons x xs)
  obtain y ys' where ys: "ys = y # ys'" using Cons.prems(4) by (cases ys) auto
  have nm: "\<not> has_slash x" "\<not> has_slash y" using Cons.prems(1,2) ys by (simp_all add: node_name_def)
  show ?case
  proof (cases "xs = [] \<or> ys' = []")
    case True
    then show ?thesis
      using Cons.prems nm ys join_parts(1) [of x xs] join_parts(1) [of y ys'] by (cases "xs = []"; cases "ys' = []") auto
  next
    case False
    then have p: "segment (join (x # xs)) = x" "after_slash (join (x # xs)) = join xs"
      "segment (join (y # ys')) = y" "after_slash (join (y # ys')) = join ys'"
      using join_parts [of x xs] join_parts [of y ys'] Cons.prems(1,2) ys by simp_all
    then have "x = y" "join xs = join ys'" using Cons.prems(5) ys by metis+
    then show ?thesis using Cons.IH [of ys'] Cons.prems(1,2) False ys by simp
  qed
qed

lemma full_name_inj:
  "node_name s \<Longrightarrow> node_name s' \<Longrightarrow> list_all node_name ns \<Longrightarrow> list_all node_name ns' \<Longrightarrow>
   full_name s ns = full_name s' ns' \<longleftrightarrow> s = s' \<and> ns = ns'"
  using join_inj [of "s # ns" "s' # ns'"] by (auto simp: full_name_def)

text \<open>\<open>M\<close>: the handler of a service at a path, \<open>F\<close>: the table of full paths.\<close>

definition agree :: "(string \<Rightarrow> string list \<Rightarrow> Handler_entry option) \<Rightarrow> (string \<Rightarrow> Handler_entry option) \<Rightarrow> bool" where
  "agree M F \<longleftrightarrow>
     (\<forall>s ns h. M s ns = Some h \<longrightarrow>
        (if ns = [] then full_path h = None
         else node_name s \<and> list_all node_name ns \<and> full_path h = Some (full_name s ns) \<and>
           F (full_name s ns) = Some (copy_handler h))) \<and>
     (\<forall>p g. F p = Some g \<longrightarrow> (\<exists>s ns h. ns \<noteq> [] \<and> M s ns = Some h \<and> full_path h = Some p))"

lemma agree_named:
  assumes "agree M F" "M s ns = Some h" "ns \<noteq> []"
  shows "node_name s" "list_all node_name ns" "full_path h = Some (full_name s ns)"
    "F (full_name s ns) = Some (copy_handler h)"
  using assms by (auto simp: agree_def)

lemma agree_remove:
  assumes "agree M F"
    and "M' = (\<lambda>s' ns. if s' = s \<and> P ns then None else M s' ns)"
    and "F' = (\<lambda>p. if \<exists>h \<in> {h. \<exists>ns. P ns \<and> M s ns = Some h}. full_path h = Some p then None else F p)"
  shows "agree M' F'"
  unfolding agree_def
proof (intro conjI allI impI)
  fix s' ns h
  assume h: "M' s' ns = Some h"
  then have M: "M s' ns = Some h" "\<not> (s' = s \<and> P ns)" by (auto simp: assms(2) split: if_splits)
  show "if ns = [] then full_path h = None
         else node_name s' \<and> list_all node_name ns \<and> full_path h = Some (full_name s' ns) \<and>
           F' (full_name s' ns) = Some (copy_handler h)"
  proof (cases "ns = []")
    case True
    then show ?thesis using M(1) assms(1) by (auto simp: agree_def)
  next
    case False
    note n = agree_named [OF assms(1) M(1) False]
    have "\<not> (\<exists>g \<in> {g. \<exists>ns. P ns \<and> M s ns = Some g}. full_path g = Some (full_name s' ns))"
    proof
      assume "\<exists>g \<in> {g. \<exists>ns. P ns \<and> M s ns = Some g}. full_path g = Some (full_name s' ns)"
      then obtain g q where g: "P q" "M s q = Some g" "full_path g = Some (full_name s' ns)" by blast
      then have "q \<noteq> []" using assms(1) by (auto simp: agree_def)
      then have "full_name s q = full_name s' ns" "node_name s" "list_all node_name q"
        using agree_named [OF assms(1) g(2)] g(3) by auto
      then show False using full_name_inj [of s s' q ns] n(1,2) M(2) g(1) by auto
    qed
    then show ?thesis using n False by (simp add: assms(3))
  qed
next
  fix p g
  assume g: "F' p = Some g"
  then have F: "F p = Some g" "\<And>ns h. P ns \<Longrightarrow> M s ns = Some h \<Longrightarrow> full_path h \<noteq> Some p"
    by (auto simp: assms(3) split: if_splits)
  obtain s' ns h where h: "ns \<noteq> []" "M s' ns = Some h" "full_path h = Some p"
    using assms(1) F(1) unfolding agree_def by blast
  then have "M' s' ns = Some h" using F(2) by (auto simp: assms(2))
  then show "\<exists>s ns h. ns \<noteq> [] \<and> M' s ns = Some h \<and> full_path h = Some p" using h by blast
qed

lemma agree_add:
  assumes "agree M F" "M s ns = None" "ns \<noteq> []" "node_name s" "list_all node_name ns"
    "full_path h = Some (full_name s ns)"
  shows "agree (\<lambda>s' q. if s' = s \<and> q = ns then Some h else M s' q) (F(full_name s ns \<mapsto> copy_handler h))"
  unfolding agree_def
proof (intro conjI allI impI)
  fix s' q g
  assume g: "(if s' = s \<and> q = ns then Some h else M s' q) = Some g"
  show "if q = [] then full_path g = None
         else node_name s' \<and> list_all node_name q \<and> full_path g = Some (full_name s' q) \<and>
           (F(full_name s ns \<mapsto> copy_handler h)) (full_name s' q) = Some (copy_handler g)"
  proof (cases "s' = s \<and> q = ns")
    case True
    then show ?thesis using g assms(3-) by auto
  next
    case False
    then have M: "M s' q = Some g" using g by (auto split: if_splits)
    show ?thesis
    proof (cases "q = []")
      case True
      then show ?thesis using M assms(1) by (auto simp: agree_def)
    next
      case q: False
      note n = agree_named [OF assms(1) M q]
      have "full_name s' q \<noteq> full_name s ns" using full_name_inj n(1,2) assms(4,5) False by blast
      then show ?thesis using n q by simp
    qed
  qed
next
  fix p g
  assume g: "(F(full_name s ns \<mapsto> copy_handler h)) p = Some g"
  show "\<exists>s' q g. q \<noteq> [] \<and> (if s' = s \<and> q = ns then Some h else M s' q) = Some g \<and> full_path g = Some p"
  proof (cases "p = full_name s ns")
    case True
    then show ?thesis using assms(3,6) by (intro exI [of _ s] exI [of _ ns] exI [of _ h]) simp
  next
    case False
    then obtain s' q g' where "q \<noteq> []" "M s' q = Some g'" "full_path g' = Some p"
      using g assms(1) unfolding agree_def by (metis fun_upd_other)
    then show ?thesis using assms(2) by (intro exI [of _ s'] exI [of _ q] exI [of _ g']) auto
  qed
qed

section \<open>The invariant of a process\<close>

definition local_tree :: "O2_context \<Rightarrow> string \<Rightarrow> onode option" where
  "local_tree c s = (case directory c s of
     None \<Rightarrow> None
   | Some ss \<Rightarrow> (case proc_service_index c local_proc ss of
       None \<Rightarrow> None
     | Some i \<Rightarrow> (case service (services ss ! i) of Local n \<Rightarrow> Some n | Proxy _ \<Rightarrow> None)))"

text \<open>The handler the local offering of a service has at a path; its global handler is at the empty path.\<close>

definition method_at :: "O2_context \<Rightarrow> string \<Rightarrow> string list \<Rightarrow> Handler_entry option" where
  "method_at c s ns = (case local_tree c s of None \<Rightarrow> None | Some n \<Rightarrow> tree_at n ns)"

definition methods_ok :: "O2_context \<Rightarrow> bool" where
  "methods_ok c \<longleftrightarrow> ctx_ok c \<and> hash_ok (full_path_table c) \<and>
     (\<forall>s n. local_tree c s = Some n \<longrightarrow> tree_ok n) \<and>
     agree (method_at c) (table_map (full_path_table c))"

definition local_at :: "O2_context \<Rightarrow> string \<Rightarrow> Services_entry \<Rightarrow> nat \<Rightarrow> onode \<Rightarrow> bool" where
  "local_at c s ss i n \<longleftrightarrow> directory c s = Some ss \<and> proc_service_index c local_proc ss = Some i \<and>
     service (services ss ! i) = Local n"

lemma local_tree_at: "local_tree c s = Some n \<longleftrightarrow> (\<exists>ss i. local_at c s ss i n)"
  by (auto simp: local_tree_def local_at_def split: option.splits svc_node.splits)

lemma local_at_bound: "local_at c s ss i n \<Longrightarrow> i < length (services ss)"
  by (auto simp: local_at_def proc_service_index_def find_Some_iff)

lemma index_update:
  assumes "proc_service_index c local_proc ss = Some i"
  shows "proc_service_index c local_proc (Services_entry ((services ss)[i := Service_provider (Local n) ps]) (taps ss)) = Some i"
proof -
  have "i < length (services ss)" "\<forall>j < i. \<not> offered_by c local_proc (services ss ! j)"
    using assms by (auto simp: proc_service_index_def find_Some_iff)
  then show ?thesis
    by (auto simp: proc_service_index_def find_Some_iff offered_by_def intro!: exI [of _ i])
qed

lemma offered_by_same: "proxies c' = proxies c \<Longrightarrow> offered_by c' p spp = offered_by c p spp"
  by (simp add: offered_by_def split: svc_node.split)

lemma index_same: "proxies c' = proxies c \<Longrightarrow> proc_service_index c' p ss = proc_service_index c p ss"
  by (simp add: proc_service_index_def offered_by_same [of c' c])

lemma local_tree_same:
  "path_tree c' = path_tree c \<Longrightarrow> proxies c' = proxies c \<Longrightarrow> local_tree c' = local_tree c"
  by (rule ext) (simp add: local_tree_def index_same [of c' c] split: option.split)

lemma set_local_all:
  assumes "ctx_ok c" "local_at c s ss i n"
  shows "ctx_ok (set_local s i (Local m) c)" "\<exists>ss'. local_at (set_local s i (Local m) c) s ss' i m"
    "local_tree (set_local s i (Local m) c) = (local_tree c)(s \<mapsto> m)"
    "full_path_table (set_local s i (Local m) c) = full_path_table c"
    "proxies (set_local s i (Local m) c) = proxies c" "finishing (set_local s i (Local m) c) = finishing c"
    "ensemble (set_local s i (Local m) c) = ensemble c"
proof -
  let ?ss = "Services_entry ((services ss)[i := Service_provider (Local m) (properties (services ss ! i))]) (taps ss)"
  have d: "directory c s = Some ss" using assms(2) by (simp add: local_at_def)
  then have sl: "set_local s i (Local m) c = set_entry s ?ss c"
    using assms(1) by (simp add: set_local_def find_entry)
  note se = set_entry_ok [OF assms(1), of s ?ss]
  show "ctx_ok (set_local s i (Local m) c)" unfolding sl using se d by blast
  show [simp]: "full_path_table (set_local s i (Local m) c) = full_path_table c"
    "proxies (set_local s i (Local m) c) = proxies c" "finishing (set_local s i (Local m) c) = finishing c"
    "ensemble (set_local s i (Local m) c) = ensemble c"
    by (simp_all add: sl set_entry_def)
  have dir: "directory (set_local s i (Local m) c) = (directory c)(s \<mapsto> ?ss)" unfolding sl using se d by blast
  have idx: "proc_service_index (set_local s i (Local m) c) local_proc ss' = proc_service_index c local_proc ss'" for ss'
    by (rule index_same) simp
  have i: "proc_service_index c local_proc ?ss = Some i"
    by (rule index_update) (use assms(2) in \<open>simp add: local_at_def\<close>)
  show "\<exists>ss'. local_at (set_local s i (Local m) c) s ss' i m"
    using dir idx i local_at_bound [OF assms(2)] by (auto simp: local_at_def)
  then have "local_tree (set_local s i (Local m) c) s = Some m" using local_tree_at by blast
  moreover have "local_tree (set_local s i (Local m) c) s' = local_tree c s'" if "s' \<noteq> s" for s'
    using that dir idx by (simp add: local_tree_def split: option.split)
  ultimately show "local_tree (set_local s i (Local m) c) = (local_tree c)(s \<mapsto> m)" by auto
qed

text \<open>When the tree of a service is replaced by one without the handlers at some paths, and those have left the table.\<close>

lemma methods_ok_removed:
  assumes "methods_ok c" "local_at c s ss i n" "tree_ok m"
    and "\<And>ns. tree_at m ns = (if P ns then None else tree_at n ns)"
    and "set hs = {g. \<exists>ns. P ns \<and> tree_at n ns = Some g}"
  shows "\<exists>fp. remove_full_paths hs c = Some (c\<lparr>full_path_table := fp\<rparr>) \<and>
    methods_ok (set_local s i (Local m) (c\<lparr>full_path_table := fp\<rparr>)) \<and>
    method_at (set_local s i (Local m) (c\<lparr>full_path_table := fp\<rparr>)) =
      (\<lambda>s' ns. if s' = s \<and> P ns then None else method_at c s' ns)"
proof -
  have ok: "ctx_ok c" "hash_ok (full_path_table c)" "\<And>s n. local_tree c s = Some n \<Longrightarrow> tree_ok n"
    "agree (method_at c) (table_map (full_path_table c))"
    using assms(1) by (auto simp: methods_ok_def)
  obtain fp where fp: "remove_full_paths hs c = Some (c\<lparr>full_path_table := fp\<rparr>)" "hash_ok fp"
    "table_map fp = (\<lambda>p. if \<exists>h \<in> set hs. full_path h = Some p then None else table_map (full_path_table c) p)"
    using remove_full_paths_all [OF ok(2)] by blast
  let ?c = "c\<lparr>full_path_table := fp\<rparr>"
  have at: "ctx_ok ?c" "local_at ?c s ss i n"
    using ok(1) assms(2) index_same [of ?c c] by (simp_all add: ctx_ok_def local_at_def)
  note sl = set_local_all [OF at, of m]
  have lt: "local_tree ?c = local_tree c" by (rule local_tree_same) simp_all
  have n: "local_tree c s = Some n" using assms(2) local_tree_at by blast
  have M: "method_at (set_local s i (Local m) ?c) = (\<lambda>s' ns. if s' = s \<and> P ns then None else method_at c s' ns)"
    by (intro ext) (auto simp: method_at_def sl(3) lt n assms(4))
  have "method_at c s = tree_at n" by (rule ext) (simp add: method_at_def n)
  then have "agree (method_at (set_local s i (Local m) ?c)) (table_map fp)"
    using fp(3) assms(5) by (intro agree_remove [OF ok(4) M]) simp
  then have "methods_ok (set_local s i (Local m) ?c)"
    using sl(1,4) fp(2) ok(3) assms(3) by (auto simp: methods_ok_def sl(3) lt)
  then show ?thesis using fp(1) M by blast
qed

text \<open>The same when one handler is added.\<close>

lemma methods_ok_installed:
  assumes "methods_ok c" "local_at c s ss i n" "tree_ok m" "ns \<noteq> []" "P ns" "node_name s" "list_all node_name ns"
    and "\<And>q. tree_at m q = (if q = ns then Some h else if P q then None else tree_at n q)"
    and "set hs = {g. \<exists>ns. P ns \<and> tree_at n ns = Some g}" "full_path h = Some (full_name s ns)"
  shows "\<exists>fp fp'. remove_full_paths hs c = Some (c\<lparr>full_path_table := fp\<rparr>) \<and>
    hash_insert (full_name s ns, copy_handler h) fp = Some fp' \<and>
    methods_ok ((set_local s i (Local m) (c\<lparr>full_path_table := fp\<rparr>))\<lparr>full_path_table := fp'\<rparr>) \<and>
    method_at ((set_local s i (Local m) (c\<lparr>full_path_table := fp\<rparr>))\<lparr>full_path_table := fp'\<rparr>) =
      (\<lambda>s' q. if s' = s \<and> q = ns then Some h else if s' = s \<and> P q then None else method_at c s' q)"
proof -
  have ok: "ctx_ok c" "hash_ok (full_path_table c)" "\<And>s n. local_tree c s = Some n \<Longrightarrow> tree_ok n"
    "agree (method_at c) (table_map (full_path_table c))"
    using assms(1) by (auto simp: methods_ok_def)
  obtain fp where fp: "remove_full_paths hs c = Some (c\<lparr>full_path_table := fp\<rparr>)" "hash_ok fp"
    "table_map fp = (\<lambda>p. if \<exists>h \<in> set hs. full_path h = Some p then None else table_map (full_path_table c) p)"
    using remove_full_paths_all [OF ok(2)] by blast
  obtain fp' where fp': "hash_insert (full_name s ns, copy_handler h) fp = Some fp'" "hash_ok fp'"
    "table_map fp' = (table_map fp)(full_name s ns \<mapsto> copy_handler h)"
    using names.insert [OF fp(2), of "(full_name s ns, copy_handler h)"] by auto
  let ?c1 = "c\<lparr>full_path_table := fp\<rparr>"
  let ?c = "(set_local s i (Local m) ?c1)\<lparr>full_path_table := fp'\<rparr>"
  have at: "ctx_ok ?c1" "local_at ?c1 s ss i n"
    using ok(1) assms(2) index_same [of ?c1 c] by (simp_all add: ctx_ok_def local_at_def)
  note sl = set_local_all [OF at, of m]
  have lt1: "local_tree ?c1 = local_tree c" by (rule local_tree_same) simp_all
  have lt: "local_tree ?c = (local_tree c)(s \<mapsto> m)"
    using local_tree_same [of ?c "set_local s i (Local m) ?c1"] sl(3) lt1 by simp
  have n: "local_tree c s = Some n" using assms(2) local_tree_at by blast
  have cs: "method_at c s = tree_at n" by (rule ext) (simp add: method_at_def n)
  define M where "M = (\<lambda>s' q. if s' = s \<and> P q then None else method_at c s' q)"
  have "agree M (table_map fp)"
    using fp(3) assms(9) by (intro agree_remove [OF ok(4) M_def]) (simp add: cs)
  then have a: "agree (\<lambda>s' q. if s' = s \<and> q = ns then Some h else M s' q) (table_map fp')"
    unfolding fp'(3) by (rule agree_add) (simp_all add: M_def assms(4-7,10))
  have M: "method_at ?c = (\<lambda>s' q. if s' = s \<and> q = ns then Some h else M s' q)"
    by (intro ext) (auto simp: method_at_def lt n assms(8) M_def)
  have "ctx_ok ?c" using sl(1) by (simp add: ctx_ok_def)
  then have "methods_ok ?c" using a assms(3) fp'(2) ok(3) by (auto simp: methods_ok_def lt M)
  then show ?thesis using fp(1) fp'(1) M [unfolded M_def] by blast
qed

section \<open>Installing\<close>

lemma method_path_parts:
  assumes "node_name s"
  shows "segment (tl (full_name s ns)) = s" "has_slash (tl (full_name s ns)) \<longleftrightarrow> ns \<noteq> []"
    "ns \<noteq> [] \<Longrightarrow> after_slash (tl (full_name s ns)) = join ns" "o2_string_pad s = s"
proof -
  have s: "\<not> has_slash s" using assms by (simp add: node_name_def)
  show "segment (tl (full_name s ns)) = s"
    using join_parts(2) [OF assms, of ns] segment_no_slash [OF s] by (cases "ns = []") (simp_all add: full_name_def)
  show "has_slash (tl (full_name s ns)) \<longleftrightarrow> ns \<noteq> []"
    using join_parts(1) [OF assms, of ns] s by (cases "ns = []") (simp_all add: full_name_def)
  show "ns \<noteq> [] \<Longrightarrow> after_slash (tl (full_name s ns)) = join ns"
    using join_parts(3) [OF assms, of ns] by (simp add: full_name_def)
  show "o2_string_pad s = s" using assms string_pad_short by (simp add: node_name_def)
qed

text \<open>The handler entry a method gets.\<close>

definition new_entry :: "string \<Rightarrow> string list \<Rightarrow> string option \<Rightarrow> nat \<Rightarrow> nat \<Rightarrow> bool \<Rightarrow> bool \<Rightarrow> Handler_entry" where
  "new_entry s ns typespec h ud coerce parse =
     Handler_entry h ud (if ns = [] then None else Some (full_name s ns)) typespec
       (case typespec of None \<Rightarrow> 0 | Some ts \<Rightarrow> length ts) coerce parse"

lemma install_correct:
  assumes "methods_ok c" "local_at c s ss i (Tree t)" "ns \<noteq> []" "node_name s" "list_all node_name ns"
    and "full_path h = Some (full_name s ns)"
  shows "\<exists>c'. install_method s i (full_name s ns) h t c = Some (O2_SUCCESS, c') \<and> methods_ok c' \<and>
    method_at c' = (\<lambda>s' q. if s' = s \<and> q = ns then Some h else if s' = s \<and> related ns q then None else method_at c s' q)"
proof -
  have "tree_ok (Tree t)" using assms(1,2) local_tree_at unfolding methods_ok_def by blast
  then obtain del t' where t': "insert_path (join ns) h t = Some (del, t')" "tree_ok (Tree t')"
    "\<And>p. tree_at (Tree t') p = (if p = ns then Some h
         else if prefix_of ns p \<or> prefix_of p ns then None else tree_at (Tree t) p)"
    using insert_path_all [OF assms(3,5)] by blast
  have del: "set del = {g. \<exists>p. related ns p \<and> tree_at (Tree t) p = Some g}"
    by (rule insert_path_deleted [OF assms(3,5) \<open>tree_ok (Tree t)\<close> t'(1)])
  have "related ns ns" by (simp add: related_def)
  moreover have "tree_at (Tree t') p = (if p = ns then Some h else if related ns p then None else tree_at (Tree t) p)" for p
    using t'(3) [of p] unfolding related_def .
  ultimately obtain fp fp' where "remove_full_paths del c = Some (c\<lparr>full_path_table := fp\<rparr>)"
    "hash_insert (full_name s ns, copy_handler h) fp = Some fp'"
    "methods_ok ((set_local s i (Local (Tree t')) (c\<lparr>full_path_table := fp\<rparr>))\<lparr>full_path_table := fp'\<rparr>)"
    "method_at ((set_local s i (Local (Tree t')) (c\<lparr>full_path_table := fp\<rparr>))\<lparr>full_path_table := fp'\<rparr>) =
      (\<lambda>s' q. if s' = s \<and> q = ns then Some h else if s' = s \<and> related ns q then None else method_at c s' q)"
    using methods_ok_installed [OF assms(1,2) t'(2) assms(3) _ assms(4,5) _ del assms(6)] by blast
  moreover have "full_path_table (set_local s i (Local (Tree t')) (c\<lparr>full_path_table := fp\<rparr>)) = fp"
  proof -
    have "ctx_ok (c\<lparr>full_path_table := fp\<rparr>)" "local_at (c\<lparr>full_path_table := fp\<rparr>) s ss i (Tree t)"
      using assms(1,2) index_same [of "c\<lparr>full_path_table := fp\<rparr>" c] by (simp_all add: ctx_ok_def methods_ok_def local_at_def)
    then show ?thesis using set_local_all(4) by fastforce
  qed
  ultimately show ?thesis
    using t'(1) method_path_parts(3) [OF assms(4,3)] by (simp add: install_method_def Let_def)
qed

lemma log_event_methods:
  "methods_ok (log_event e c) = methods_ok c" "method_at (log_event e c) = method_at c"
  "local_at (log_event e c) s ss i n = local_at c s ss i n"
proof -
  have t: "local_tree (log_event e c) = local_tree c" by (rule local_tree_same) (simp_all add: log_event_def)
  then show m: "method_at (log_event e c) = method_at c" by (intro ext) (simp add: method_at_def)
  show "methods_ok (log_event e c) = methods_ok c"
    using t m by (simp add: methods_ok_def) (simp add: log_event_def)
  show "local_at (log_event e c) s ss i n = local_at c s ss i n"
    using index_same [of "log_event e c" c] by (simp add: local_at_def)
qed

lemma set_local_log: "set_local s i n (log_event e c) = log_event e (set_local s i n c)"
  by (simp add: set_local_def log_event_def set_entry_def split: option.split)

lemma agree_empty: "agree M F \<Longrightarrow> M s [] = Some h \<Longrightarrow> full_path h = None"
  unfolding agree_def by (drule conjunct1, drule spec [of _ s], drule spec [of _ "[]"]) simp

lemma agree_global:
  assumes "agree (\<lambda>s' q. if s' = s then None else M s' q) F" "\<And>q. q \<noteq> [] \<Longrightarrow> f q = None" "\<And>h. f [] = Some h \<Longrightarrow> full_path h = None"
  shows "agree (\<lambda>s' q. if s' = s then f q else M s' q) F"
proof -
  let ?A = "\<lambda>s' q. if s' = s then None else M s' q" and ?B = "\<lambda>s' q. if s' = s then f q else M s' q"
  have same: "?B s' q = ?A s' q" if "q \<noteq> []" for s' q using that assms(2) by simp
  have empty: "full_path h = None" if "?B s' [] = Some h" for s' h
    using that assms(3) agree_empty [OF assms(1), of s' h] by (cases "s' = s") simp_all
  show ?thesis unfolding agree_def
  proof (intro conjI allI impI)
    fix s' q h
    assume h: "?B s' q = Some h"
    show "if q = [] then full_path h = None
       else node_name s' \<and> list_all node_name q \<and> full_path h = Some (full_name s' q) \<and>
         F (full_name s' q) = Some (copy_handler h)"
    proof (cases "q = []")
      case True
      then show ?thesis using empty [OF h [unfolded True]] by simp
    next
      case False
      then have "?A s' q = Some h" using h same by metis
      then show ?thesis using agree_named [OF assms(1), of s' q h] False by simp
    qed
  next
    fix p g
    assume "F p = Some g"
    then obtain s' q h where "q \<noteq> []" "?A s' q = Some h" "full_path h = Some p"
      using assms(1) unfolding agree_def by blast
    then show "\<exists>s' q h. q \<noteq> [] \<and> ?B s' q = Some h \<and> full_path h = Some p" using same by metis
  qed
qed

text \<open>Replacing the whole local offering, as \<open>service_provider_replace\<close> and \<open>o2_method_free\<close> do it.\<close>

lemma replace_correct:
  assumes "methods_ok c" "local_at c s ss i n" "tree_ok m" "\<And>ns. ns \<noteq> [] \<Longrightarrow> tree_at m ns = None"
    and "\<And>h. tree_at m [] = Some h \<Longrightarrow> full_path h = None"
  shows "\<exists>c1. delete_node (Local n) c = Some c1 \<and> path_tree c1 = path_tree c \<and>
    methods_ok (set_local s i (Local m) c1) \<and> (\<exists>ss'. local_at (set_local s i (Local m) c1) s ss' i m) \<and>
    method_at (set_local s i (Local m) c1) = (\<lambda>s' q. if s' = s then tree_at m q else method_at c s' q)"
proof -
  have ok: "ctx_ok c" "\<And>s n. local_tree c s = Some n \<Longrightarrow> tree_ok n" using assms(1) by (auto simp: methods_ok_def)
  have n: "tree_ok n" using ok(2) assms(2) local_tree_at by blast
  obtain fp where fp: "remove_full_paths (deleted n) c = Some (c\<lparr>full_path_table := fp\<rparr>)"
    and r: "methods_ok (set_local s i (Local (Tree new_Hash_node)) (c\<lparr>full_path_table := fp\<rparr>))"
    and ra: "method_at (set_local s i (Local (Tree new_Hash_node)) (c\<lparr>full_path_table := fp\<rparr>)) =
      (\<lambda>s' ns. if s' = s \<and> True then None else method_at c s' ns)"
    using methods_ok_removed [OF assms(1,2) new_tree_ok, of "\<lambda>_. True" "deleted n"] deleted_set [OF n]
    by (auto simp: tree_at_new simp del: tree_at.simps)
  let ?c = "c\<lparr>full_path_table := fp\<rparr>"
  let ?c1 = "log_event (Deleted (Local n)) ?c"
  have at: "ctx_ok ?c" "local_at ?c s ss i n"
    using ok(1) assms(2) index_same [of ?c c] by (simp_all add: ctx_ok_def local_at_def)
  note sl = set_local_all [OF at, of m]
  note sn = set_local_all [OF at, of "Tree new_Hash_node"]
  have ls: "local_tree (set_local s i (Local m) ?c) s = Some m" using sl(3) by simp
  have other: "local_tree (set_local s i (Local m) ?c) s' = local_tree (set_local s i (Local (Tree new_Hash_node)) ?c) s'"
    if "s' \<noteq> s" for s' using that sl(3) sn(3) by simp
  have M: "method_at (set_local s i (Local m) ?c) = (\<lambda>s' q. if s' = s then tree_at m q else method_at c s' q)"
  proof (intro ext)
    fix s' q
    show "method_at (set_local s i (Local m) ?c) s' q = (if s' = s then tree_at m q else method_at c s' q)"
      using ls other [of s'] fun_cong [OF fun_cong [OF ra, of s'], of q] by (cases "s' = s") (simp_all add: method_at_def)
  qed
  have ag: "agree (\<lambda>s' ns. if s' = s \<and> True then None else method_at c s' ns) (table_map fp)"
    using r ra sn(4) by (simp add: methods_ok_def)
  have "agree (\<lambda>s' q. if s' = s then tree_at m q else method_at c s' q) (table_map fp)"
    using ag by (intro agree_global [OF _ assms(4,5)]) simp_all
  moreover have "tree_ok n'" if "local_tree (set_local s i (Local m) ?c) s' = Some n'" for s' n'
    using that ls other [of s'] assms(3) r unfolding methods_ok_def by (cases "s' = s") auto
  ultimately have "methods_ok (set_local s i (Local m) ?c)"
    using sl(1) r sn(4) sl(4) by (simp add: methods_ok_def M)
  moreover have "\<exists>ss'. local_at (set_local s i (Local m) ?c) s ss' i m" using sl(2) by blast
  ultimately show ?thesis using fp M
    by (intro exI [of _ ?c1]) (simp add: delete_node_def set_local_log log_event_methods, simp add: log_event_def)
qed

lemma provider_replace_correct:
  assumes "methods_ok c" "local_at c s ss i n" "tree_ok m" "\<And>ns. ns \<noteq> [] \<Longrightarrow> tree_at m ns = None"
    and "\<And>h. tree_at m [] = Some h \<Longrightarrow> full_path h = None"
  shows "\<exists>c' ss'. service_provider_replace s i (Local m) c = Some (O2_SUCCESS, c') \<and> methods_ok c' \<and>
    local_at c' s ss' i m \<and> method_at c' = (\<lambda>s' q. if s' = s then tree_at m q else method_at c s' q)"
proof -
  obtain c1 where c1: "delete_node (Local n) c = Some c1" "path_tree c1 = path_tree c"
    "methods_ok (set_local s i (Local m) c1)" "\<exists>ss'. local_at (set_local s i (Local m) c1) s ss' i m"
    "method_at (set_local s i (Local m) c1) = (\<lambda>s' q. if s' = s then tree_at m q else method_at c s' q)"
    using replace_correct [OF assms] by blast
  have "hash_find s (path_tree c) = Some ss" "service (services ss ! i) = Local n"
    using assms(1,2) by (simp_all add: find_entry methods_ok_def local_at_def)
  then have "service_provider_replace s i (Local m) c = Some (O2_SUCCESS, set_local s i (Local m) c1)"
    using c1(1,2) by (simp add: service_provider_replace_def set_local_def)
  then show ?thesis using c1 by blast
qed

lemma method_new_all:
  assumes "methods_ok c" "local_tree c s \<noteq> None" "node_name s" "list_all node_name ns"
  shows "\<exists>c'. o2_method_new_internal (full_name s ns) typespec h ud coerce parse c = Some (O2_SUCCESS, c') \<and> methods_ok c' \<and>
    method_at c' = (\<lambda>s' q. if s' = s \<and> q = ns then Some (new_entry s ns typespec h ud coerce parse)
      else if s' = s \<and> related ns q then None else method_at c s' q)"
proof -
  obtain ss i n where at: "local_at c s ss i n" using assms(2) local_tree_at by fastforce
  have ok: "ctx_ok c" using assms(1) by (simp add: methods_ok_def)
  note parts = method_path_parts [OF assms(3)]
  have f: "find_services s c = Some ss" "proc_service_index c local_proc ss = Some i" "service (services ss ! i) = Local n"
    using at ok parts(4) by (simp_all add: find_services_def find_entry local_at_def)
  have key: "CHR ''/'' # tl (full_name s ns) = full_name s ns" by (simp add: full_name_def)
  define e where "e = new_entry s ns typespec h ud coerce parse"
  show ?thesis
  proof (cases "ns = []")
    case True
    let ?m = "Handler e"
    have "full_path e = None" using True by (simp add: e_def new_entry_def)
    then obtain c' where "service_provider_replace s i (Local ?m) c = Some (O2_SUCCESS, c')" "methods_ok c'"
      "method_at c' = (\<lambda>s' q. if s' = s then tree_at ?m q else method_at c s' q)"
      using provider_replace_correct [OF assms(1) at, of ?m] by (auto simp: tree_at_Handler)
    moreover have "o2_method_new_internal (full_name s ns) typespec h ud coerce parse c = service_provider_replace s i (Local ?m) c"
      using f parts True unfolding o2_method_new_internal_def key by (simp add: Let_def e_def new_entry_def)
    ultimately show ?thesis using True by (auto simp: tree_at_Handler e_def fun_eq_iff)
  next
    case False
    have full: "full_path e = Some (full_name s ns)" using False by (simp add: e_def new_entry_def)
    show ?thesis
    proof (cases n)
      case (Handler g)
      let ?m = "Tree new_Hash_node"
      obtain c1 ss1 where c1: "service_provider_replace s i (Local ?m) c = Some (O2_SUCCESS, c1)" "methods_ok c1"
        "local_at c1 s ss1 i ?m" "method_at c1 = (\<lambda>s' q. if s' = s then tree_at ?m q else method_at c s' q)"
        using provider_replace_correct [OF assms(1) at new_tree_ok] tree_at_new by (metis option.distinct(1))
      obtain c' where c': "install_method s i (full_name s ns) e new_Hash_node c1 = Some (O2_SUCCESS, c')" "methods_ok c'"
        "method_at c' = (\<lambda>s' q. if s' = s \<and> q = ns then Some e else if s' = s \<and> related ns q then None else method_at c1 s' q)"
        using install_correct [OF c1(2,3) False assms(3,4) full] by blast
      have "o2_method_new_internal (full_name s ns) typespec h ud coerce parse c = Some (O2_SUCCESS, c')"
        using f parts False Handler c1(1) c'(1) unfolding o2_method_new_internal_def key by (simp add: Let_def e_def new_entry_def)
      moreover have "method_at c s q = (if q = [] then Some g else None)" for q
        using at local_tree_at [of c s n] Handler by (auto simp: method_at_def tree_at_Handler)
      then have "method_at c' = (\<lambda>s' q. if s' = s \<and> q = ns then Some e else if s' = s \<and> related ns q then None else method_at c s' q)"
        unfolding c'(3) c1(4) by (auto simp: fun_eq_iff tree_at_new simp del: tree_at.simps)
      ultimately show ?thesis using c'(2) unfolding e_def by blast
    next
      case (Tree t)
      obtain c' where c': "install_method s i (full_name s ns) e t c = Some (O2_SUCCESS, c')" "methods_ok c'"
        "method_at c' = (\<lambda>s' q. if s' = s \<and> q = ns then Some e else if s' = s \<and> related ns q then None else method_at c s' q)"
        using install_correct [OF assms(1) _ False assms(3,4) full] at Tree by blast
      have "o2_method_new_internal (full_name s ns) typespec h ud coerce parse c = Some (O2_SUCCESS, c')"
        using f parts False Tree c'(1) unfolding o2_method_new_internal_def key by (simp add: Let_def e_def new_entry_def)
      then show ?thesis using c' unfolding e_def by blast
    qed
  qed
qed

text \<open>C10: installing a method. On a service the process offers itself, installing a handler at a path (or, with no path,
  for the whole service) succeeds, makes it the handler at this path, takes out those on the way to it and below it, and
  leaves every other path of every service as it was; the tables of full paths and the trees agree afterwards if they did.\<close>

theorem method_new_correct:
  assumes "methods_ok c" "local_tree c s \<noteq> None" "node_name s" "list_all node_name ns"
  shows "\<exists>c'. o2_method_new_internal (full_name s ns) typespec h ud coerce parse c = Some (O2_SUCCESS, c') \<and> methods_ok c' \<and>
    method_at c' = (\<lambda>s' q. if s' = s \<and> q = ns then Some (new_entry s ns typespec h ud coerce parse)
      else if s' = s \<and> related ns q then None else method_at c s' q)"
  using assms by (rule method_new_all)

section \<open>Removing\<close>

text \<open>C25: removing a method of a service that the process offers itself. The handler at the path is removed together with those at all
  paths below it, and besides them only the handler of the service for all its messages: if it has one, this handler goes whatever the
  path is (other than the interface in o2.h says, which names only the paths that start with the given one). All other handlers stay, and
  trees and table of full paths still agree.\<close>

theorem method_free_correct:
  assumes "methods_ok c" "local_tree c s \<noteq> None" "node_name s" "list_all node_name ns" "ensemble c" "s \<noteq> []"
    and "length (full_name s ns) < NAME_BUF_LEN"
  shows "\<exists>r c'. o2_method_free (Some (full_name s ns)) c = Some (r, c') \<and> methods_ok c' \<and>
    method_at c' = (\<lambda>s' q. if s' = s \<and> (prefix_of ns q \<or> q = []) then None else method_at c s' q) \<and>
    (method_at c s ns \<noteq> None \<or> ns = [] \<longrightarrow> r = O2_SUCCESS)"
proof -
  obtain ss i n where at: "local_at c s ss i n" using assms(2) local_tree_at by fastforce
  have ok: "ctx_ok c" "\<And>s n. local_tree c s = Some n \<Longrightarrow> tree_ok n" using assms(1) by (auto simp: methods_ok_def)
  have lt: "local_tree c s = Some n" using at local_tree_at by blast
  note parts = method_path_parts [OF assms(3)]
  have f: "find_services s c = Some ss" "proc_service_index c local_proc ss = Some i" "service (services ss ! i) = Local n"
    using at ok parts(4) by (simp_all add: find_services_def find_entry local_at_def)
  have cut: "take (NAME_BUF_LEN - 1) (full_name s ns) = full_name s ns" using assms(7) by simp
  have "2 \<le> length (full_name s ns)" "full_name s ns ! 0 = CHR ''/''"
    using assms(6) by (cases s; cases ns; simp add: full_name_def)+
  then have valid: "\<not> (length (full_name s ns) < 2 \<or> full_name s ns ! 0 \<noteq> CHR ''/'')" by simp
  have ma: "method_at c s q = tree_at n q" for q by (simp add: method_at_def lt)
  show ?thesis
  proof (cases "(\<exists>g. n = Handler g) \<or> ns = []")
    case True
    let ?m = "Tree new_Hash_node"
    obtain c1 where c1: "delete_node (Local n) c = Some c1" "methods_ok (set_local s i (Local ?m) c1)"
      "method_at (set_local s i (Local ?m) c1) = (\<lambda>s' q. if s' = s then tree_at ?m q else method_at c s' q)"
      using replace_correct [OF assms(1) at new_tree_ok] tree_at_new by (metis option.distinct(1))
    have "o2_method_free (Some (full_name s ns)) c = Some (O2_SUCCESS, set_local s i (Local ?m) c1)"
      using valid cut f parts c1(1) True assms(5) by (auto simp: o2_method_free_def Let_def split: onode.split)
    moreover have "tree_at n q = None" if "\<not> prefix_of ns q" "q \<noteq> []" for q
      using True that by (auto simp: tree_at_Handler)
    then have "method_at (set_local s i (Local ?m) c1) = (\<lambda>s' q. if s' = s \<and> (prefix_of ns q \<or> q = []) then None else method_at c s' q)"
      unfolding c1(3) by (auto simp: fun_eq_iff tree_at_new ma simp del: tree_at.simps)
    ultimately show ?thesis using c1(2) by blast
  next
    case False
    then obtain t where n: "n = Tree t" and ns: "ns \<noteq> []" by (cases n) auto
    have "tree_ok (Tree t)" using ok(2) lt n by simp
    then obtain r del t' where t': "remove_method_from_tree (join ns) t = Some (r, del, t')" "tree_ok (Tree t')"
      "\<And>p. tree_at (Tree t') p = (if prefix_of ns p then None else tree_at (Tree t) p)"
      "tree_at (Tree t) ns \<noteq> None \<longrightarrow> r = O2_SUCCESS"
      using remove_all [OF ns assms(4)] by blast
    have del: "set del = {g. \<exists>p. prefix_of ns p \<and> tree_at (Tree t) p = Some g}"
      by (rule remove_deleted [OF ns assms(4) \<open>tree_ok (Tree t)\<close> t'(1)])
    obtain fp where fp: "remove_full_paths del c = Some (c\<lparr>full_path_table := fp\<rparr>)"
      "methods_ok (set_local s i (Local (Tree t')) (c\<lparr>full_path_table := fp\<rparr>))"
      "method_at (set_local s i (Local (Tree t')) (c\<lparr>full_path_table := fp\<rparr>)) =
        (\<lambda>s' q. if s' = s \<and> prefix_of ns q then None else method_at c s' q)"
      using methods_ok_removed [OF assms(1) at [unfolded n] t'(2,3) del] by blast
    have "o2_method_free (Some (full_name s ns)) c = Some (r, set_local s i (Local (Tree t')) (c\<lparr>full_path_table := fp\<rparr>))"
      using valid cut f parts n ns t'(1) fp(1) assms(5) by (simp add: o2_method_free_def Let_def)
    moreover have "method_at (set_local s i (Local (Tree t')) (c\<lparr>full_path_table := fp\<rparr>)) =
        (\<lambda>s' q. if s' = s \<and> (prefix_of ns q \<or> q = []) then None else method_at c s' q)"
      unfolding fp(3) by (auto simp: fun_eq_iff ma n)
    moreover have "method_at c s ns \<noteq> None \<or> ns = [] \<longrightarrow> r = O2_SUCCESS" using t'(4) ns by (simp add: ma n)
    ultimately show ?thesis using fp(2) by blast
  qed
qed

section \<open>New services\<close>

lemma index_None: "proc_service_index c p ss = None \<longleftrightarrow> (\<forall>spp \<in> set (services ss). \<not> offered_by c p spp)"
  by (simp add: proc_service_index_def find_None_iff all_set_conv_all_nth)

lemma index_only:
  assumes "proc_service_index c local_proc ss = None" "set (services ss') \<subseteq> insert (Service_provider (Local n) ps) (set (services ss))"
    and "Service_provider (Local n) ps \<in> set (services ss')"
  shows "\<exists>i. proc_service_index c local_proc ss' = Some i \<and> services ss' ! i = Service_provider (Local n) ps"
proof -
  have "offered_by c local_proc (Service_provider (Local n) ps)" by (simp add: offered_by_def)
  then obtain i where i: "proc_service_index c local_proc ss' = Some i"
    using assms(3) index_None [of c local_proc ss'] by fastforce
  then have "i < length (services ss')" "offered_by c local_proc (services ss' ! i)"
    by (auto simp: proc_service_index_def find_Some_iff)
  then have "services ss' ! i \<in> set (services ss')" "services ss' ! i \<notin> set (services ss)"
    using assms(1) by (auto simp: index_None)
  then have "services ss' ! i = Service_provider (Local n) ps" using assms(2) by blast
  then show ?thesis using i by auto
qed

lemma add_service_set:
  "add_service c k n ps ss = Some (b, ss') \<Longrightarrow>
   set (services ss') \<subseteq> insert (Service_provider n ps) (set (services ss)) \<and> Service_provider n ps \<in> set (services ss') \<and> taps ss' = taps ss"
  using set_update_subset_insert [of "services ss @ [services ss ! 0]" 0 "Service_provider n ps"]
  by (auto simp: add_service_def Let_def set_update_memI split: if_splits)

text \<open>A new service starts without methods.\<close>

lemma service_new_methods:
  assumes "methods_ok c" "case directory c name of None \<Rightarrow> True | Some ss \<Rightarrow> proc_service_index c local_proc ss = None"
  shows "\<exists>c'. service_new name c = Some (O2_SUCCESS, c') \<and> methods_ok c' \<and> method_at c' = method_at c \<and>
    local_tree c' = (local_tree c)(name \<mapsto> Tree new_Hash_node) \<and> ensemble c' = ensemble c"
proof -
  have ok: "ctx_ok c" "hash_ok (full_path_table c)" "\<And>s n. local_tree c s = Some n \<Longrightarrow> tree_ok n"
    "agree (method_at c) (table_map (full_path_table c))"
    using assms(1) by (auto simp: methods_ok_def)
  obtain ss c1 where m: "must_get_services name c = Some (ss, c1)" "ctx_ok c1"
    "ss = (case directory c name of None \<Rightarrow> Services_entry [] [] | Some ss \<Rightarrow> ss)"
    "directory c1 = (directory c)(name \<mapsto> ss)" "c1 = c\<lparr>path_tree := path_tree c1\<rparr>"
    using must_get_all [OF ok(1)] by blast
  have same: "proxies c1 = proxies c" "full_path_table c1 = full_path_table c" "ensemble c1 = ensemble c"
    using arg_cong [OF m(5), of proxies] arg_cong [OF m(5), of full_path_table] arg_cong [OF m(5), of ensemble] by simp_all
  have idx: "proc_service_index c1 local_proc ss' = proc_service_index c local_proc ss'" for ss' by (rule index_same [OF same(1)])
  have none: "proc_service_index c local_proc ss = None"
    using assms(2) by (cases "directory c name") (simp_all add: m(3) proc_service_index_def)
  let ?n = "Local (Tree new_Hash_node)"
  obtain b ss' where a: "add_service c1 (key (proxies c1 local_proc)) ?n None ss = Some (b, ss')"
    using add_service_some [of None] by (fastforce simp: props_ok_def)
  define c2 where "c2 = set_entry name ss' c1"
  have c2: "ctx_ok c2" "directory c2 = (directory c)(name \<mapsto> ss')" "proxies c2 = proxies c" "full_path_table c2 = full_path_table c"
    "ensemble c2 = ensemble c"
    using set_entry_ok [OF m(2), of name ss'] m(4) same by (auto simp: c2_def set_entry_def)
  have idx2: "proc_service_index c2 local_proc x = proc_service_index c local_proc x" for x by (rule index_same [OF c2(3)])
  obtain j where j: "proc_service_index c local_proc ss' = Some j" "services ss' ! j = Service_provider ?n None"
    using index_only [OF none] add_service_set [OF a] by blast
  have lt: "local_tree c2 = (local_tree c)(name \<mapsto> Tree new_Hash_node)"
  proof
    fix s
    show "local_tree c2 s = ((local_tree c)(name \<mapsto> Tree new_Hash_node)) s"
      using c2(2) idx2 j by (cases "s = name") (simp_all add: local_tree_def split: option.split)
  qed
  have old: "local_tree c name = None"
    using none by (cases "directory c name") (simp_all add: m(3) local_tree_def)
  have M: "method_at c2 = method_at c"
    by (intro ext) (simp add: method_at_def lt old tree_at_new del: tree_at.simps)
  have c2_ok: "methods_ok c2"
    using c2 ok lt M new_tree_ok by (auto simp: methods_ok_def)
  have "\<exists>c3. service_provider_new name None ?n local_proc c = Some (O2_SUCCESS, c3) \<and>
    (c3 = c2 \<or> (\<exists>e. c3 = log_event e c2) \<or> (\<exists>e e'. c3 = log_event e' (log_event e c2)))"
    using m(1) none idx a by (simp add: service_provider_new_def adjust_properties_def Let_def c2_def) blast
  then obtain c3 where c3: "service_provider_new name None ?n local_proc c = Some (O2_SUCCESS, c3)"
    "c3 = c2 \<or> (\<exists>e. c3 = log_event e c2) \<or> (\<exists>e e'. c3 = log_event e' (log_event e c2))" by blast
  have log: "ensemble (log_event e x) = ensemble x" "local_tree (log_event e x) = local_tree x" for e x
    by (simp add: log_event_def) (rule local_tree_same, simp_all add: log_event_def)
  have c3_ok: "methods_ok c3" "method_at c3 = method_at c" "local_tree c3 = (local_tree c)(name \<mapsto> Tree new_Hash_node)" "ensemble c3 = ensemble c"
    using c3(2) c2_ok M lt c2(5) by (auto simp: log_event_methods log)
  then show ?thesis using c3(1)
    by (intro exI [of _ "log_event (Notify_others (Some name) True None 0) c3"]) (simp add: service_new_def log_event_methods log)
qed

section \<open>Direct and searched addresses\<close>

text \<open>C26: an address that begins with an exclamation mark is looked up in the table of full paths, one that begins with a
  slash is searched for in the tree of its service. For an address without pattern characters both reach the same
  handler or both reach none: the direct address is but the faster way.\<close>

theorem direct_address_same:
  assumes "methods_ok (ctx s)" "local_tree (ctx s) srv = Some (Tree t)" "node_name srv" "ns \<noteq> []" "list_all node_name ns"
    and "list_all (\<lambda>s. \<not> has_pattern s) ns" "srv \<noteq> []" "hd srv \<noteq> CHR ''@''"
    and "c_str (body m) = full_name srv ns" "c_str (body d) = CHR ''!'' # tl (full_name srv ns)"
  shows "deliver_to env local (Local (Tree t)) m s = (case method_at (ctx s) srv ns of
      None \<Rightarrow> Some (False, True, s)
    | Some h \<Rightarrow> map_option (\<lambda>s. (True, True, s)) (call_handler env local h m s)) \<and>
    deliver_to env local (Local (Tree t)) d s = (case method_at (ctx s) srv ns of
      None \<Rightarrow> Some (False, True, s)
    | Some h \<Rightarrow> map_option (\<lambda>s. (True, True, s)) (call_handler env local (copy_handler h) d s))"
proof
  have ok: "hash_ok (full_path_table (ctx s))" "tree_ok (Tree t)" "agree (method_at (ctx s)) (table_map (full_path_table (ctx s)))"
    using assms(1,2) by (auto simp: methods_ok_def)
  note parts = method_path_parts [OF assms(3)]
  have ma: "method_at (ctx s) srv ns = tree_at (Tree t) ns" by (simp add: method_at_def assms(2))
  have "o2_find_handlers_rec (join ns) t =
     Some (case tree_at (Tree t) ns of None \<Rightarrow> (False, []) | Some h \<Rightarrow> (True, [h]))"
    by (rule find_exact [OF assms(4-6) ok(2)])
  moreover have "hd (full_name srv ns) = CHR ''/''" by (simp add: full_name_def)
  ultimately show "deliver_to env local (Local (Tree t)) m s = (case method_at (ctx s) srv ns of
      None \<Rightarrow> Some (False, True, s)
    | Some h \<Rightarrow> map_option (\<lambda>s. (True, True, s)) (call_handler env local h m s))"
    using parts(2,3) assms(4,9) ma
    by (cases "tree_at (Tree t) ns") (auto simp: deliver_to_def Let_def bind_eq_Some_conv map_option_case split: option.split)
  have F: "table_map (full_path_table (ctx s)) (full_name srv ns) = map_option copy_handler (method_at (ctx s) srv ns)"
  proof (cases "method_at (ctx s) srv ns")
    case (Some h)
    then show ?thesis using agree_named(4) [OF ok(3) Some assms(4)] by simp
  next
    case None
    have "table_map (full_path_table (ctx s)) (full_name srv ns) \<noteq> Some g" for g
    proof
      assume "table_map (full_path_table (ctx s)) (full_name srv ns) = Some g"
      then obtain s' q h where q: "q \<noteq> []" "method_at (ctx s) s' q = Some h" "full_path h = Some (full_name srv ns)"
        using ok(3) unfolding agree_def by blast
      then have "node_name s'" "list_all node_name q" "full_name s' q = full_name srv ns"
        using agree_named [OF ok(3) q(2,1)] by auto
      then show False using full_name_inj [of s' srv q ns] assms(3,5) q(2) None by auto
    qed
    then have "table_map (full_path_table (ctx s)) (full_name srv ns) = None" by (meson not_Some_eq)
    then show ?thesis using None by simp
  qed
  have "tl (full_name srv ns) ! 0 \<noteq> CHR ''@''" "tl (full_name srv ns) \<noteq> []"
    using assms(4,7,8) by (cases srv; simp add: full_name_def join_Cons)+
  then have "full_path_key (body d) = Some (full_name srv ns)"
    using assms(10) by (simp add: full_path_key_def Let_def full_name_def)
  then show "deliver_to env local (Local (Tree t)) d s = (case method_at (ctx s) srv ns of
      None \<Rightarrow> Some (False, True, s)
    | Some h \<Rightarrow> map_option (\<lambda>s. (True, True, s)) (call_handler env local (copy_handler h) d s))"
    using assms(10) ok(1) F by (cases "method_at (ctx s) srv ns") (simp_all add: deliver_to_def Let_def hash_find)
qed

section \<open>An example\<close>

lemma no_methods: "methods_ok two_procs" "directory two_procs = Map.empty" "ensemble two_procs"
proof -
  show d: "directory two_procs = Map.empty" by (simp add: two_procs_def empty_Hash_node_ok)
  then have "local_tree two_procs s = None" for s by (simp add: local_tree_def)
  then have "method_at two_procs s ns = None" for s ns by (simp add: method_at_def)
  then show "methods_ok two_procs" using \<open>\<And>s. local_tree two_procs s = None\<close>
    by (simp add: methods_ok_def agree_def ctx_ok_def) (simp add: two_procs_def empty_Hash_node_ok)
qed (simp add: two_procs_def)

definition synth_ctx :: O2_context where
  "synth_ctx = snd (the (service_new ''synth'' two_procs))"

lemma synth_ctx: "methods_ok synth_ctx" "local_tree synth_ctx ''synth'' = Some (Tree new_Hash_node)" "ensemble synth_ctx"
  using service_new_methods [of two_procs "''synth''"] no_methods by (auto simp: synth_ctx_def)

lemma example_names: "node_name ''synth''" "list_all node_name [''note'', ''on'']"
  "list_all (\<lambda>s. \<not> has_pattern s) [''note'', ''on'']"
  by (simp_all add: node_name_def has_slash_def has_pattern_def)

theorem method_new_correct_witness:
  "\<exists>c'. o2_method_new_internal (full_name ''synth'' [''note'', ''on'']) (Some ''i'') 1 0 True True synth_ctx = Some (O2_SUCCESS, c') \<and>
    methods_ok c' \<and>
    method_at c' = (\<lambda>s' q. if s' = ''synth'' \<and> q = [''note'', ''on''] then
        Some (new_entry ''synth'' [''note'', ''on''] (Some ''i'') 1 0 True True)
      else if s' = ''synth'' \<and> related [''note'', ''on''] q then None else method_at synth_ctx s' q)"
  by (rule method_new_correct [OF synth_ctx(1) _ example_names(1,2)]) (simp add: synth_ctx(2))

definition note_entry :: Handler_entry where
  "note_entry = new_entry ''synth'' [''note'', ''on''] (Some ''i'') 1 0 True True"

definition note_ctx :: O2_context where
  "note_ctx = (snd (the (o2_method_new_internal (full_name ''synth'' [''note'', ''on'']) (Some ''i'') 1 0 True True synth_ctx)))
     \<lparr>ensemble := True\<rparr>"

lemma note_ctx:
  "methods_ok note_ctx" "method_at note_ctx ''synth'' [''note'', ''on''] = Some note_entry"
  "\<exists>t. local_tree note_ctx ''synth'' = Some (Tree t)" "ensemble note_ctx"
proof -
  let ?c = "snd (the (o2_method_new_internal (full_name ''synth'' [''note'', ''on'']) (Some ''i'') 1 0 True True synth_ctx))"
  have c: "methods_ok ?c" "method_at ?c ''synth'' [''note'', ''on''] = Some note_entry"
    using method_new_all [OF synth_ctx(1) _ example_names(1,2), of "Some ''i''" 1 0 True True] synth_ctx(2)
    by (auto simp: note_entry_def)
  have lt: "local_tree note_ctx = local_tree ?c" by (rule local_tree_same) (simp_all add: note_ctx_def)
  have m: "method_at note_ctx = method_at ?c" by (intro ext) (simp add: method_at_def lt)
  show "methods_ok note_ctx" using c(1) lt m by (simp add: methods_ok_def) (simp add: note_ctx_def ctx_ok_def)
  show "method_at note_ctx ''synth'' [''note'', ''on''] = Some note_entry" using m c(2) by simp
  then show "\<exists>t. local_tree note_ctx ''synth'' = Some (Tree t)"
    by (cases "local_tree note_ctx ''synth''"; cases "the (local_tree note_ctx ''synth'')") (auto simp: method_at_def)
  show "ensemble note_ctx" by (simp add: note_ctx_def)
qed

theorem method_free_correct_witness:
  "\<exists>r c'. o2_method_free (Some (full_name ''synth'' [''note'', ''on''])) note_ctx = Some (r, c') \<and> methods_ok c' \<and>
    method_at c' = (\<lambda>s' q. if s' = ''synth'' \<and> (prefix_of [''note'', ''on''] q \<or> q = []) then None else method_at note_ctx s' q) \<and>
    (method_at note_ctx ''synth'' [''note'', ''on''] \<noteq> None \<or> [''note'', ''on''] = [] \<longrightarrow> r = O2_SUCCESS)"
  using note_ctx(3) by (intro method_free_correct [OF note_ctx(1) _ example_names(1,2) note_ctx(4)]) (auto simp: full_name_def)

definition note_state :: send_state where
  "note_state = sending note_ctx 0"

definition note_call :: "char \<Rightarrow> O2message" where
  "note_call c = \<lparr>misc = 0, timestamp = 0, body = zero_padded (c # ''synth/note/on'') @ zero_padded '',''\<rparr>"

definition tree_of :: "onode \<Rightarrow> onode Hash_node" where
  "tree_of n = (case n of Tree t \<Rightarrow> t | Handler _ \<Rightarrow> new_Hash_node)"

theorem direct_address_same_witness:
  "deliver_to quiet (\<lambda>_ _. Some) (Local (Tree (tree_of (the (local_tree note_ctx ''synth''))))) (note_call CHR ''/'') note_state =
     map_option (\<lambda>s. (True, True, s)) (call_handler quiet (\<lambda>_ _. Some) note_entry (note_call CHR ''/'') note_state) \<and>
   deliver_to quiet (\<lambda>_ _. Some) (Local (Tree (tree_of (the (local_tree note_ctx ''synth''))))) (note_call CHR ''!'') note_state =
     map_option (\<lambda>s. (True, True, s)) (call_handler quiet (\<lambda>_ _. Some) (copy_handler note_entry) (note_call CHR ''!'') note_state)"
proof -
  have s: "ctx note_state = note_ctx" by (simp add: note_state_def sending_def)
  obtain t where t: "local_tree note_ctx ''synth'' = Some (Tree t)" using note_ctx(3) by blast
  have "c_str (body (note_call CHR ''/'')) = full_name ''synth'' [''note'', ''on'']"
    "c_str (body (note_call CHR ''!'')) = CHR ''!'' # tl (full_name ''synth'' [''note'', ''on''])"
    by (simp_all add: note_call_def full_name_def c_str_padded c_string_def)
  then show ?thesis
    using direct_address_same [of note_state "''synth''" t "[''note'', ''on'']" "note_call CHR ''/''" "note_call CHR ''!''" quiet "\<lambda>_ _. Some"]
      t note_ctx(1,2) example_names s by (simp add: tree_of_def)
qed

end
