(* ===== verification/Extract.thy ===== *)
theory Extract
  imports Messages
begin

text \<open>
  Extraction of the arguments of a message with coercion (the last part of src/src/message.cpp).
  A pointer to an argument is an offset into the message (counted from the address) or the
  index of a cell of \<open>arg_data\<close>, where converted values and vector descriptors are built. \<open>None\<close>
  says that the code reads outside of the message, or casts a floating point number to an integer type
  that cannot hold it.
\<close>

section \<open>State\<close>

datatype O2arg_ptr = Null | Data int | Arg nat | O2_got_start_array | O2_got_end_array

datatype cell = Bytes "byte list" | Vector int O2type O2arg_ptr

record extraction =
  mx_msg :: "byte list"
  mx_type_next :: int
  mx_data_next :: int
  mx_vector_to_vector_pending :: bool
  mx_array_to_vector_pending :: bool
  mx_vector_to_array :: O2type
  mx_vector_remaining :: int
  arg_cells :: "cell list"
  argv_data :: "O2arg_ptr list"

definition mx_barrier :: "extraction \<Rightarrow> int" where
  "mx_barrier s = int (length (mx_msg s))"

definition peek :: "extraction \<Rightarrow> int \<Rightarrow> nat \<Rightarrow> byte list option" where
  "peek s k n = (if 0 \<le> k \<and> k + int n \<le> mx_barrier s then Some (take n (drop (nat k) (mx_msg s))) else None)"

definition MX_32 :: "extraction \<Rightarrow> 32 word option" where
  "MX_32 s = map_option le_dec (peek s (mx_data_next s) 4)"

definition MX_64 :: "extraction \<Rightarrow> 64 word option" where
  "MX_64 s = map_option le_dec (peek s (mx_data_next s) 8)"

definition type_at :: "extraction \<Rightarrow> O2type option" where
  "type_at s = map_option (\<lambda>bs. char_of_byte (hd bs)) (peek s (mx_type_next s) 1)"

definition mx_advance :: "int \<Rightarrow> extraction \<Rightarrow> extraction" where
  "mx_advance n s = s\<lparr>mx_data_next := mx_data_next s + n\<rparr>"

definition MX_SKIP :: "int \<Rightarrow> extraction \<Rightarrow> extraction" where
  "MX_SKIP n s = mx_advance ((n + 3) div 4 * 4) s"

definition mx_strlen :: "extraction \<Rightarrow> int option" where
  "mx_strlen s =
     (if 0 \<le> mx_data_next s \<and> 0 \<in> set (drop (nat (mx_data_next s)) (mx_msg s))
      then Some (int (length (takeWhile (\<lambda>b. b \<noteq> 0) (drop (nat (mx_data_next s)) (mx_msg s)))))
      else None)"

section \<open>Starting\<close>

text \<open>The space reserved for converted values: the pointers into it stay valid while it suffices.\<close>

definition arg_needed :: "int \<Rightarrow> int \<Rightarrow> int" where
  "arg_needed types_len msg_data_len =
     (let n = types_len * 8; n = (if n > msg_data_len * 6 then msg_data_len * 6 else n) in n + 16)"

definition o2_extract_start :: "O2message \<Rightarrow> extraction \<Rightarrow> (int \<times> extraction) option" where
  "o2_extract_start m s =
     (case o2_msg_data_types m of
        None \<Rightarrow> None
      | Some ts \<Rightarrow>
          if 0 \<notin> set ts then None
          else let types = int (length (body m)) - int (length ts);
                   types_len = int (length (takeWhile (\<lambda>b. b \<noteq> 0) ts)) in
            Some (types_len,
              s\<lparr>mx_msg := body m, mx_type_next := types, mx_data_next := (types + types_len + 4) div 4 * 4,
                mx_vector_to_vector_pending := False, mx_vector_to_array := CHR 0x00,
                mx_vector_remaining := 0, arg_cells := [], argv_data := []\<rparr>))"

section \<open>Conversions\<close>

definition put :: "byte list \<Rightarrow> extraction \<Rightarrow> extraction" where
  "put bs s = s\<lparr>arg_cells := arg_cells s @ [Bytes bs]\<rparr>"

definition convert_int :: "O2type \<Rightarrow> int \<Rightarrow> extraction \<Rightarrow> O2arg_ptr \<times> extraction" where
  "convert_int to_type i s =
     (let rslt = Arg (length (arg_cells s)) in
      if to_type = CHR ''i'' then (rslt, put (le_enc 4 (word_of_int i :: 32 word)) s)
      else if to_type = CHR ''h'' then (rslt, put (le_enc 8 (word_of_int i :: 64 word)) s)
      else if to_type = CHR ''f'' then (rslt, put (le_enc 4 (float_of_int i)) s)
      else if to_type = CHR ''d'' \<or> to_type = CHR ''t'' then (rslt, put (le_enc 8 (double_of_int i)) s)
      else if to_type = CHR ''B'' then (rslt, put (le_enc 4 (if i \<noteq> 0 then 1 else 0 :: 32 word)) s)
      else if to_type = CHR ''T'' then (if i = 0 then Null else rslt, s)
      else if to_type = CHR ''F'' then (if i \<noteq> 0 then Null else rslt, s)
      else (Null, s))"

definition convert_float :: "O2type \<Rightarrow> 64 word \<Rightarrow> extraction \<Rightarrow> (O2arg_ptr \<times> extraction) option" where
  "convert_float to_type d s =
     (let rslt = Arg (length (arg_cells s)) in
      if to_type = CHR ''i'' then map_option (\<lambda>i. (rslt, put (le_enc 4 i) s)) (int32_of_double d)
      else if to_type = CHR ''h'' then map_option (\<lambda>i. (rslt, put (le_enc 8 i) s)) (int64_of_double d)
      else if to_type = CHR ''f'' then Some (rslt, put (le_enc 4 (float_of_double d)) s)
      else if to_type = CHR ''d'' \<or> to_type = CHR ''t'' then Some (rslt, put (le_enc 8 d) s)
      else if to_type = CHR ''B'' then Some (rslt, put (le_enc 4 (if double_is_zero d then 0 else 1 :: 32 word)) s)
      else if to_type = CHR ''T'' then Some (if double_is_zero d then Null else rslt, s)
      else if to_type = CHR ''F'' then Some (if double_is_zero d then rslt else Null, s)
      else Some (Null, s))"

text \<open>Convert the number of the given type at \<open>mx_data_next\<close>, without moving on.\<close>

definition convert_next :: "O2type \<Rightarrow> O2type \<Rightarrow> extraction \<Rightarrow> (O2arg_ptr \<times> extraction) option" where
  "convert_next typ to_type s =
     (if typ = CHR ''i'' \<or> typ = CHR ''B'' then map_option (\<lambda>w. convert_int to_type (sint w) s) (MX_32 s)
      else if typ = CHR ''h'' then map_option (\<lambda>w. convert_int to_type (sint w) s) (MX_64 s)
      else if typ = CHR ''f'' then Option.bind (MX_32 s) (\<lambda>w. convert_float to_type (double_of_float w) s)
      else Option.bind (MX_64 s) (\<lambda>w. convert_float to_type w s))"

definition sizeof_type :: "O2type \<Rightarrow> int" where
  "sizeof_type typ = (if typ \<in> set ''hdt'' then 8 else 4)"

section \<open>Vectors\<close>

fun convert_elements :: "nat \<Rightarrow> O2type \<Rightarrow> O2type \<Rightarrow> extraction \<Rightarrow> (bool \<times> extraction) option" where
  "convert_elements 0 typ to_type s = Some (True, s)"
| "convert_elements (Suc n) typ to_type s =
     (case convert_next typ to_type s of
        None \<Rightarrow> None
      | Some (rslt, s) \<Rightarrow>
          if rslt = Null then Some (False, s)
          else convert_elements n typ to_type (mx_advance (sizeof_type typ) s))"

definition push_arg :: "O2arg_ptr \<Rightarrow> extraction \<Rightarrow> O2arg_ptr \<times> extraction" where
  "push_arg rslt s = (rslt, s\<lparr>argv_data := argv_data s @ [rslt]\<rparr>)"

text \<open>The last cell must be the vector descriptor of the previous call.\<close>

definition get_vector :: "O2type \<Rightarrow> O2type \<Rightarrow> extraction \<Rightarrow> (O2arg_ptr \<times> extraction) option" where
  "get_vector typ to_type s =
     (case rev (arg_cells s) of
        Vector len vtyp _ # cells \<Rightarrow>
          let k = length cells;
              vi = (if to_type = typ then Data (mx_data_next s) else Arg (length (arg_cells s)));
              set_vec = (\<lambda>n s. s\<lparr>arg_cells := (arg_cells s)[k := Vector n vtyp vi]\<rparr>);
              s = set_vec len (s\<lparr>mx_vector_to_vector_pending := False\<rparr>) in
          if mx_data_next s + len > mx_barrier s then Some (Null, s)
          else let s = s\<lparr>mx_type_next := mx_type_next s + 1\<rparr> in
            if typ \<notin> set ''ihfd'' then Some (Null, s)
            else let n = len div sizeof_type typ; s = set_vec n s in
              if to_type \<noteq> typ then
                (case convert_elements (nat n) typ to_type s of
                   None \<Rightarrow> None
                 | Some (ok, s) \<Rightarrow> if ok then Some (push_arg (Arg k) s) else Some (Null, s))
              else Some (push_arg (Arg k) (MX_SKIP (sizeof_type typ * n) s))
      | _ \<Rightarrow> None)"

definition get_vector_as_array :: "O2type \<Rightarrow> extraction \<Rightarrow> (O2arg_ptr \<times> extraction) option" where
  "get_vector_as_array to_type s =
     (let typ = mx_vector_to_array s;
          s' = (if to_type = CHR '']'' then s
                else s\<lparr>mx_vector_remaining := mx_vector_remaining s -
                        (if typ = CHR ''h'' \<or> typ = CHR ''d'' then 8 else 4)\<rparr>) in
      if to_type = CHR '']'' then
        if mx_vector_remaining s \<noteq> 0 then Some (Null, s)
        else let s = s\<lparr>mx_vector_to_array := CHR 0x00\<rparr> in
          if mx_data_next s > mx_barrier s then Some (Null, s)
          else Some (push_arg O2_got_end_array s)
      else if mx_vector_remaining s' < 0 then Some (Null, s')
      else
        (case (if typ \<in> set ''ihfd'' \<and> to_type \<noteq> typ then convert_next typ to_type s'
               else Some (Data (mx_data_next s'), s')) of
           None \<Rightarrow> None
         | Some (rslt, s) \<Rightarrow>
             let s = (if typ \<in> set ''ihfd'' then mx_advance (sizeof_type typ) s else s) in
             if mx_data_next s > mx_barrier s then Some (Null, s\<lparr>mx_vector_to_array := CHR 0x00\<rparr>)
             else Some (push_arg rslt s)))"

text \<open>The type codes of the array elements are taken from the message up to the closing bracket.\<close>

fun array_elements :: "byte list \<Rightarrow> O2type \<Rightarrow> nat \<Rightarrow> extraction \<Rightarrow> (bool \<times> extraction) option" where
  "array_elements [] to_type k s = None"
| "array_elements (b # ts) to_type k s =
     (let typ = char_of_byte b in
      if typ = CHR '']'' then Some (True, s\<lparr>mx_array_to_vector_pending := False\<rparr>)
      else let s = s\<lparr>mx_type_next := mx_type_next s + 1\<rparr> in
        if typ \<notin> set ''ihfd'' then Some (False, s)
        else (case convert_next typ to_type s of
                None \<Rightarrow> None
              | Some (_, s) \<Rightarrow>
                  let s = mx_advance (sizeof_type typ) s;
                      s = (case arg_cells s ! k of
                             Vector n t vi \<Rightarrow> s\<lparr>arg_cells := (arg_cells s)[k := Vector (n + 1) t vi]\<rparr>
                           | _ \<Rightarrow> s) in
                  if mx_data_next s > mx_barrier s
                  then Some (False, s\<lparr>mx_array_to_vector_pending := False\<rparr>)
                  else array_elements ts to_type k s))"

definition get_array_as_vector :: "O2type \<Rightarrow> extraction \<Rightarrow> (O2arg_ptr \<times> extraction) option" where
  "get_array_as_vector to_type s =
     (case rev (arg_cells s) of
        Vector n _ _ # cells \<Rightarrow>
          if argv_data s = [] then None
          else let k = length cells;
                   s = s\<lparr>argv_data := butlast (argv_data s),
                         arg_cells := (arg_cells s)[k := Vector n to_type (Arg (length (arg_cells s)))]\<rparr> in
            (case array_elements (drop (nat (mx_type_next s)) (mx_msg s)) to_type k s of
               None \<Rightarrow> None
             | Some (ok, s) \<Rightarrow> if ok then Some (push_arg (Arg k) s) else Some (Null, s))
      | _ \<Rightarrow> None)"

section \<open>One argument\<close>

definition get_number :: "O2type \<Rightarrow> bool \<Rightarrow> O2type \<Rightarrow> extraction \<Rightarrow> (O2arg_ptr \<times> extraction) option" where
  "get_number typ same to_type s =
     map_option (\<lambda>(rslt, s). (rslt, mx_advance (sizeof_type typ) s))
       (if same then Some (Data (mx_data_next s), s) else convert_next typ to_type s)"

text \<open>An argument that is not part of a pending vector; the flag says whether the pointer is pushed
  and the barrier checked, or the call returns at once.\<close>

definition get_plain :: "O2type \<Rightarrow> O2type \<Rightarrow> extraction \<Rightarrow> (bool \<times> O2arg_ptr \<times> extraction) option" where
  "get_plain typ to_type s =
     (let here = Data (mx_data_next s); ok = (\<lambda>(r, s). (True, r, s)) in
      if typ \<in> set ''iBfh'' then map_option ok (get_number typ (to_type = typ) to_type s)
      else if typ = CHR ''T'' then
        Some (ok (if to_type \<noteq> CHR ''T'' then convert_int to_type 1 s else (here, s)))
      else if typ = CHR ''F'' then
        Some (ok (if to_type \<noteq> CHR ''T'' then convert_int to_type 0 s else (here, s)))
      else if typ = CHR ''S'' \<or> typ = CHR ''s'' then
        map_option (\<lambda>n. (True, if to_type = CHR ''S'' \<or> to_type = CHR ''s'' then here else Null, MX_SKIP (n + 1) s))
          (mx_strlen s)
      else if typ = CHR ''c'' then Some (True, if to_type = CHR ''c'' then here else Null, mx_advance 4 s)
      else if typ = CHR ''b'' then
        if to_type \<noteq> CHR ''b'' then Some (True, Null, s)
        else map_option (\<lambda>w. (True, here, MX_SKIP (4 + uint w) s)) (MX_32 s)
      else if typ = CHR ''d'' \<or> typ = CHR ''t'' then
        map_option ok (get_number typ (to_type = CHR ''d'' \<or> to_type = CHR ''t'') to_type s)
      else if typ = CHR ''m'' then Some (True, if to_type = CHR ''m'' then here else Null, MX_SKIP 4 s)
      else if typ = CHR ''N'' \<or> typ = CHR ''I'' then Some (True, if to_type = typ then here else Null, s)
      else if typ = CHR ''['' then
        if to_type = CHR ''['' then Some (True, O2_got_start_array, s)
        else if to_type = CHR ''v'' then
          map_option (\<lambda>t. (True, Arg (length (arg_cells s)),
              s\<lparr>mx_array_to_vector_pending := True,
                arg_cells := arg_cells s @ [Vector 0 (if t = CHR '']'' then CHR ''d'' else t) Null]\<rparr>)) (type_at s)
        else Some (True, Null, s)
      else if typ = CHR '']'' then Some (True, if to_type = CHR '']'' then O2_got_end_array else Null, s)
      else if typ = CHR ''v'' then
        if to_type = CHR ''['' then
          Option.bind (type_at s) (\<lambda>t. map_option (\<lambda>w.
              (True, if t \<noteq> CHR 0x00 then O2_got_start_array else Null,
               mx_advance 4 (s\<lparr>mx_vector_to_array := t, mx_type_next := mx_type_next s + 1,
                               mx_vector_remaining := sint w\<rparr>))) (MX_32 s))
        else if to_type = CHR ''v'' then
          Option.bind (type_at s) (\<lambda>t. map_option (\<lambda>w.
              (True, Arg (length (arg_cells s)),
               mx_advance 4 (s\<lparr>mx_vector_to_vector_pending := True,
                               arg_cells := arg_cells s @ [Vector (sint w) t Null]\<rparr>))) (MX_32 s))
        else Some (True, Null, s)
      else Some (False, Null, s))"

definition o2_get_next :: "O2type \<Rightarrow> extraction \<Rightarrow> (O2arg_ptr \<times> extraction) option" where
  "o2_get_next to_type s =
     (if mx_type_next s \<ge> mx_barrier s then Some (Null, s)
      else case type_at s of
        None \<Rightarrow> None
      | Some typ \<Rightarrow>
          if typ = CHR 0x00 then Some (Null, s)
          else if mx_vector_to_vector_pending s then get_vector typ to_type s
          else if mx_vector_to_array s \<noteq> CHR 0x00 then get_vector_as_array to_type s
          else if mx_array_to_vector_pending s then get_array_as_vector to_type s
          else (case get_plain typ to_type (s\<lparr>mx_type_next := mx_type_next s + 1\<rparr>) of
                  None \<Rightarrow> None
                | Some (go_on, rslt, s) \<Rightarrow>
                    if \<not> go_on then Some (Null, s)
                    else if mx_data_next s > mx_barrier s then Some (Null, s\<lparr>mx_data_next := mx_barrier s\<rparr>)
                    else Some (push_arg rslt s)))"

text \<open>Extract arguments of the given types, one after the other.\<close>

fun get_all :: "O2type list \<Rightarrow> extraction \<Rightarrow> (O2arg_ptr list \<times> extraction) option" where
  "get_all [] s = Some ([], s)"
| "get_all (t # ts) s = (case o2_get_next t s of
     None \<Rightarrow> None
   | Some (p, s) \<Rightarrow> (case get_all ts s of None \<Rightarrow> None | Some (ps, s) \<Rightarrow> Some (p # ps, s)))"

text \<open>What an argument pointer points to.\<close>

definition fetch :: "extraction \<Rightarrow> O2arg_ptr \<Rightarrow> nat \<Rightarrow> byte list option" where
  "fetch s p n = (case p of
     Data k \<Rightarrow> peek s k n
   | Arg i \<Rightarrow> (if i < length (arg_cells s) then
        case arg_cells s ! i of Bytes bs \<Rightarrow> if n \<le> length bs then Some (take n bs) else None | Vector _ _ _ \<Rightarrow> None
      else None)
   | _ \<Rightarrow> None)"

definition fetch_string :: "extraction \<Rightarrow> O2arg_ptr \<Rightarrow> string option" where
  "fetch_string s p = (case p of
     Data k \<Rightarrow> if 0 \<le> k \<and> 0 \<in> set (drop (nat k) (mx_msg s)) then Some (c_str (drop (nat k) (mx_msg s))) else None
   | _ \<Rightarrow> None)"

section \<open>What a built message gives back\<close>

text \<open>The arguments a caller can add: type codes without data are the four constants, and strings hold no
  zero byte.\<close>

definition valid_arg :: "O2arg \<Rightarrow> bool" where
  "valid_arg a = (case a of
     String s \<Rightarrow> c_string s | Symbol s \<Rightarrow> c_string s | Blob bs \<Rightarrow> length bs < 2 ^ 31
   | Code c \<Rightarrow> c \<in> set ''TFNI'' | _ \<Rightarrow> True)"

text \<open>The pointer for it: into the message, but for \<open>F\<close>, which goes through a conversion.\<close>

definition arg_ptr :: "O2arg \<Rightarrow> extraction \<Rightarrow> O2arg_ptr" where
  "arg_ptr a s = (if a = Code CHR ''F'' then Arg (length (arg_cells s)) else Data (mx_data_next s))"

definition reading :: "extraction \<Rightarrow> bool" where
  "reading s \<longleftrightarrow> \<not> mx_vector_to_vector_pending s \<and> \<not> mx_array_to_vector_pending s \<and> mx_vector_to_array s = CHR 0x00"

text \<open>The type codes and the data that are still to come.\<close>

definition to_come :: "extraction \<Rightarrow> byte list \<Rightarrow> byte list \<Rightarrow> bool" where
  "to_come s ts ds \<longleftrightarrow> 0 \<le> mx_type_next s \<and> drop (nat (mx_type_next s)) (mx_msg s) = ts \<and> ts \<noteq> [] \<and>
     0 \<le> mx_data_next s \<and> mx_data_next s \<le> mx_barrier s \<and> drop (nat (mx_data_next s)) (mx_msg s) = ds"

lemma to_come_type:
  assumes "to_come s (b # ts) ds"
  shows "mx_type_next s < mx_barrier s" "type_at s = Some (char_of_byte b)"
proof -
  have "nat (mx_type_next s) < length (mx_msg s)"
    using assms by (metis to_come_def drop_all list.distinct(1) not_le_imp_less)
  then show l: "mx_type_next s < mx_barrier s" using assms by (simp add: to_come_def mx_barrier_def)
  have "take 1 (b # ts) = [b]" by simp
  then show "type_at s = Some (char_of_byte b)"
    using assms l by (simp add: to_come_def type_at_def peek_def)
qed

lemma to_come_length: "to_come s ts ds \<Longrightarrow> mx_barrier s = mx_data_next s + int (length ds)"
  by (auto simp: to_come_def mx_barrier_def)

lemma to_come_MX_32:
  assumes "to_come s ts (le_enc 4 (w :: 32 word) @ ds)"
  shows "MX_32 s = Some w"
  using assms to_come_length [OF assms] by (auto simp: to_come_def MX_32_def peek_def)

lemma to_come_strlen:
  assumes "to_come s ts (zero_padded x @ ds)" "c_string x"
  shows "mx_strlen s = Some (int (length x))"
  using assms zero_in_padded [of x ds] by (simp add: to_come_def mx_strlen_def takeWhile_padded)

lemma int_roundup: "(int n + 3) div 4 * 4 = int (ROUNDUP_TO_32BIT n)"
  by (simp add: ROUNDUP_TO_32BIT_def zdiv_int)

lemma length_word_padded: "length (word_padded bs) = ROUNDUP_TO_32BIT (length bs)"
  using roundup_bounds(1) [of "length bs"] by (simp add: word_padded_def)

text \<open>One step on the plain branch.\<close>

lemma get_plain_arg:
  assumes "to_come s ts (arg_data a @ ds)" "valid_arg a"
  shows "get_plain (arg_type a) (arg_type a) s = Some (True, arg_ptr a s, mx_advance (int (length (arg_data a))) s)"
proof (cases a)
  case (String x)
  then have "mx_strlen s = Some (int (length x))"
    using assms by (intro to_come_strlen [of s ts x ds]) (auto simp: arg_data_def valid_arg_def)
  then show ?thesis using String int_roundup [of "length x + 1"]
    by (simp add: get_plain_def arg_type_def arg_ptr_def arg_data_def MX_SKIP_def length_zero_padded add.commute)
next
  case (Symbol x)
  then have "mx_strlen s = Some (int (length x))"
    using assms by (intro to_come_strlen [of s ts x ds]) (auto simp: arg_data_def valid_arg_def)
  then show ?thesis using Symbol int_roundup [of "length x + 1"]
    by (simp add: get_plain_def arg_type_def arg_ptr_def arg_data_def MX_SKIP_def length_zero_padded add.commute)
next
  case (Blob bs)
  have "MX_32 s = Some (word_of_nat (length bs))"
    using assms(1) Blob by (intro to_come_MX_32 [of s ts _ "word_padded bs @ ds"]) (simp add: arg_data_def)
  moreover have "uint (word_of_nat (length bs) :: 32 word) = int (length bs)"
    using assms(2) Blob by (simp add: valid_arg_def unsigned_of_nat take_bit_nat_eq_self)
  moreover have "ROUNDUP_TO_32BIT (4 + length bs) = 4 + ROUNDUP_TO_32BIT (length bs)"
    by (rule roundup_add) simp
  ultimately show ?thesis using Blob int_roundup [of "4 + length bs"]
    by (simp add: get_plain_def arg_type_def arg_ptr_def arg_data_def MX_SKIP_def length_word_padded)
next
  case (Code c)
  then show ?thesis using assms(2)
    by (auto simp: get_plain_def arg_type_def arg_ptr_def arg_data_def valid_arg_def convert_int_def mx_advance_def)
qed (simp_all add: get_plain_def get_number_def arg_type_def arg_ptr_def arg_data_def sizeof_type_def MX_SKIP_def)

lemma get_next_arg:
  assumes "to_come s (byte_of (arg_type a) # ts) (arg_data a @ ds)" "ts \<noteq> []" "valid_arg a" "reading s"
    and "arg_type a \<noteq> CHR 0x00"
  shows "\<exists>s'. o2_get_next (arg_type a) s = Some (arg_ptr a s, s') \<and> to_come s' ts ds \<and> reading s' \<and>
     mx_msg s' = mx_msg s \<and> arg_cells s' = arg_cells s \<and> argv_data s' = argv_data s @ [arg_ptr a s]"
proof -
  let ?s = "s\<lparr>mx_type_next := mx_type_next s + 1\<rparr>"
  have come: "to_come ?s ts (arg_data a @ ds)"
    using assms(1,2) unfolding to_come_def mx_barrier_def
    by (simp add: nat_add_distrib) (metis drop_Suc drop_Suc_Cons drop0 plus_1_eq_Suc drop_drop)
  have plain: "get_plain (arg_type a) (arg_type a) ?s =
      Some (True, arg_ptr a ?s, mx_advance (int (length (arg_data a))) ?s)"
    by (rule get_plain_arg [OF come assms(3)])
  have in_msg: "mx_data_next s + int (length (arg_data a)) \<le> mx_barrier s"
    using to_come_length [OF assms(1)] by simp
  have ptr: "arg_ptr a ?s = arg_ptr a s" by (simp add: arg_ptr_def)
  have bar: "mx_barrier (mx_advance n ?s) = mx_barrier s" for n by (simp add: mx_barrier_def mx_advance_def)
  have next_s: "o2_get_next (arg_type a) s = Some (push_arg (arg_ptr a s) (mx_advance (int (length (arg_data a))) ?s))"
    using to_come_type [OF assms(1)] assms(4,5) plain in_msg
    by (simp add: o2_get_next_def reading_def ptr bar) (simp add: mx_advance_def)
  have "to_come (snd (push_arg (arg_ptr a s) (mx_advance (int (length (arg_data a))) ?s))) ts ds"
    using come in_msg unfolding to_come_def push_arg_def mx_advance_def mx_barrier_def
    by (simp add: nat_add_distrib) (metis append_eq_conv_conj drop_drop add.commute)
  then show ?thesis
    using next_s assms(4) by (simp add: push_arg_def mx_advance_def reading_def)
qed

text \<open>What a pointer into the message points at.\<close>

definition points_to :: "byte list \<Rightarrow> O2arg_ptr \<Rightarrow> byte list \<Rightarrow> bool" where
  "points_to msg p bs = (case p of Data k \<Rightarrow> 0 \<le> k \<and> take (length bs) (drop (nat k) msg) = bs | _ \<Rightarrow> False)"

lemma get_all_args:
  assumes "to_come s (bytes_of (map arg_type as) @ 0 # rest) (concat (map arg_data as))"
    and "\<forall>a \<in> set as. valid_arg a" "reading s"
  shows "\<exists>ps s'. get_all (map arg_type as) s = Some (ps, s') \<and> length ps = length as \<and> Null \<notin> set ps \<and>
    (\<forall>i < length as. as ! i \<noteq> Code CHR ''F'' \<longrightarrow> points_to (mx_msg s) (ps ! i) (arg_data (as ! i))) \<and>
    mx_msg s' = mx_msg s \<and> argv_data s' = argv_data s @ ps \<and> to_come s' (0 # rest) []"
  using assms
proof (induction as arbitrary: s)
  case Nil
  then show ?case by simp
next
  case (Cons a as)
  have nz: "arg_type a \<noteq> CHR 0x00" using Cons.prems(2) by (cases a) (auto simp: arg_type_def valid_arg_def)
  have come: "to_come s (byte_of (arg_type a) # bytes_of (map arg_type as) @ 0 # rest) (arg_data a @ concat (map arg_data as))"
    using Cons.prems(1) by simp
  from get_next_arg [OF come _ _ Cons.prems(3) nz] Cons.prems(2)
  obtain s1 where s1: "o2_get_next (arg_type a) s = Some (arg_ptr a s, s1)"
    "to_come s1 (bytes_of (map arg_type as) @ 0 # rest) (concat (map arg_data as))" "reading s1"
    "mx_msg s1 = mx_msg s" "argv_data s1 = argv_data s @ [arg_ptr a s]"
    by auto
  from Cons.IH [OF s1(2) _ s1(3)] Cons.prems(2)
  obtain ps s2 where s2: "get_all (map arg_type as) s1 = Some (ps, s2)" "length ps = length as" "Null \<notin> set ps"
    "\<forall>i < length as. as ! i \<noteq> Code CHR ''F'' \<longrightarrow> points_to (mx_msg s1) (ps ! i) (arg_data (as ! i))"
    "mx_msg s2 = mx_msg s1" "argv_data s2 = argv_data s1 @ ps" "to_come s2 (0 # rest) []"
    by auto
  have here: "a \<noteq> Code CHR ''F'' \<longrightarrow> points_to (mx_msg s) (arg_ptr a s) (arg_data a)"
    using come by (simp add: points_to_def arg_ptr_def to_come_def)
  have "\<forall>i < length (a # as). (a # as) ! i \<noteq> Code CHR ''F'' \<longrightarrow>
      points_to (mx_msg s) ((arg_ptr a s # ps) ! i) (arg_data ((a # as) ! i))"
    using here s2(4) s1(4) by (auto simp: nth_Cons split: nat.split)
  then show ?case using s1 s2 by (simp add: arg_ptr_def)
qed

lemma extract_start_built:
  assumes "body m = zero_padded addr @ zero_padded (CHR '','' # ts) @ ds"
    and "c_string addr" "c_string ts" "\<not> mx_array_to_vector_pending s0"
  shows "\<exists>s rest. o2_extract_start m s0 = Some (int (length ts), s) \<and> reading s \<and> mx_msg s = body m \<and>
    argv_data s = [] \<and> to_come s (bytes_of ts @ 0 # rest) ds"
proof -
  let ?A = "zero_padded addr" and ?T = "zero_padded (CHR '','' # ts)"
  have "ROUNDUP_TO_32BIT (length (CHR '','' # ts) + 1) - length (CHR '','' # ts) \<noteq> 0"
    using roundup_bounds(1) [of "length (CHR '','' # ts) + 1"] by simp
  then obtain k where k: "?T = byte_of CHR '','' # bytes_of ts @ 0 # replicate k 0"
    by (metis zero_padded_def not0_implies_Suc replicate_Suc bytes_of_Cons append_Cons)
  have types: "o2_msg_data_types m = Some (bytes_of ts @ 0 # replicate k 0 @ ds)"
    by (simp add: o2_msg_data_types_def assms(1) next_o2string_padded [OF assms(2)] k)
  have len: "takeWhile (\<lambda>b. b \<noteq> 0) (bytes_of ts @ 0 # replicate k 0 @ ds) = bytes_of ts"
  proof -
    have "\<forall>b \<in> set (bytes_of ts). b \<noteq> 0" using assms(3) zero_in_bytes_of by blast
    then show ?thesis by (simp only: takeWhile_append) auto
  qed
  obtain j where j: "length ?A = 4 * j" using length_zero_padded [of addr] roundup_dvd by (metis dvdE)
  have T: "length ?T = ROUNDUP_TO_32BIT (length ts + 2)" by (simp add: length_zero_padded)
  have off: "int (length (body m)) - int (length (bytes_of ts @ 0 # replicate k 0 @ ds)) = int (length ?A) + 1"
    by (simp add: assms(1) k)
  have data: "(int (length ?A) + 1 + int (length ts) + 4) div 4 * 4 = int (length ?A + length ?T)"
  proof -
    have q: "(x + 4 * y) div 4 * 4 = x div 4 * 4 + 4 * y" for x y :: int by simp
    show ?thesis using int_roundup [of "length ts + 2"] q [of "5 + int (length ts)" "int j"]
      unfolding T j by (simp add: ac_simps)
  qed
  let ?s = "s0\<lparr>mx_msg := body m, mx_type_next := int (length ?A) + 1, mx_data_next := int (length ?A + length ?T),
     mx_vector_to_vector_pending := False, mx_vector_to_array := CHR 0x00,
     mx_vector_remaining := 0, arg_cells := [], argv_data := []\<rparr>"
  have zin: "0 \<in> set (bytes_of ts @ 0 # replicate k 0 @ ds)" by simp
  have "o2_extract_start m s0 = Some (int (length ts), ?s)"
    by (simp only: o2_extract_start_def types option.case Let_def off len data length_bytes_of zin simp_thms if_False)
  moreover have "to_come ?s (bytes_of ts @ 0 # replicate k 0 @ ds) ds"
    using assms(1) k by (simp add: to_come_def mx_barrier_def nat_add_distrib)
  ultimately show ?thesis using assms(4) by (auto simp: reading_def)
qed

text \<open>C21: what was put into a message comes out of it: extraction of a built message with the types it was built
  with counts the arguments, gives a pointer for each of them, which points at the bytes the argument
  was written as (the code \<open>F\<close> has none), fills \<open>argv\<close> with these pointers, never reads
  outside of the message, and reports the end after the last.\<close>

theorem build_extract:
  assumes "\<not> building_message_lock b0" "c_string (slash_address svc address)"
    and "\<forall>a \<in> set as. valid_arg a" "\<not> mx_array_to_vector_pending s0"
  shows "\<exists>m b s1 ps s2.
    o2_service_message_finish True junk time svc address tcp (add_args as (snd (o2_send_start b0))) = (Some m, b) \<and>
    o2_extract_start m s0 = Some (int (length as), s1) \<and>
    get_all (map arg_type as) s1 = Some (ps, s2) \<and> length ps = length as \<and> Null \<notin> set ps \<and> argv_data s2 = ps \<and>
    (\<forall>i < length as. as ! i \<noteq> Code CHR ''F'' \<longrightarrow> points_to (body m) (ps ! i) (arg_data (as ! i))) \<and>
    o2_get_next t s2 = Some (Null, s2)"
proof -
  obtain m b where fin: "o2_service_message_finish True junk time svc address tcp (add_args as (snd (o2_send_start b0))) = (Some m, b)"
    and mem: "body m = zero_padded (slash_address svc address) @
      zero_padded (CHR '','' # map arg_type as) @ concat (map arg_data as)"
    using built_message [OF assms(1)] by blast
  have "c_string (map arg_type as)"
    using assms(3) by (auto simp: c_string_def arg_type_def valid_arg_def split: O2arg.splits)
  from extract_start_built [OF mem assms(2) this assms(4)]
  obtain s1 rest where s1: "o2_extract_start m s0 = Some (int (length as), s1)" "reading s1" "mx_msg s1 = body m"
    "argv_data s1 = []" "to_come s1 (bytes_of (map arg_type as) @ 0 # rest) (concat (map arg_data as))"
    by auto
  from get_all_args [OF s1(5) assms(3) s1(2)]
  obtain ps s2 where s2: "get_all (map arg_type as) s1 = Some (ps, s2)" "length ps = length as" "Null \<notin> set ps"
    "\<forall>i < length as. as ! i \<noteq> Code CHR ''F'' \<longrightarrow> points_to (mx_msg s1) (ps ! i) (arg_data (as ! i))"
    "argv_data s2 = argv_data s1 @ ps" "to_come s2 (0 # rest) []"
    by auto
  have "char_of_byte 0 = CHR 0x00" by (simp add: char_of_byte_def char_of_def)
  then have "o2_get_next t s2 = Some (Null, s2)"
    using to_come_type [OF s2(6)] by (simp add: o2_get_next_def)
  then show ?thesis using fin s1 s2 by (intro exI [of _ m] exI [of _ b] exI [of _ s1] exI [of _ ps] exI [of _ s2]) simp
qed

definition no_extraction :: extraction where
  "no_extraction = \<lparr>mx_msg = [], mx_type_next = 0, mx_data_next = 0, mx_vector_to_vector_pending = False,
     mx_array_to_vector_pending = False, mx_vector_to_array = CHR 0x00, mx_vector_remaining = 0,
     arg_cells = [], argv_data = []\<rparr>"

theorem build_extract_witness:
  "\<exists>m b s1 ps s2.
    o2_service_message_finish True (\<lambda>_. 7) 0 (Some ''synth'') ''/note'' True
      (add_args [Int32 60, String ''abc'', Code CHR ''F'', Blob [1, 2]] (snd (o2_send_start idle_builder))) = (Some m, b) \<and>
    o2_extract_start m no_extraction = Some (int (length [Int32 60, String ''abc'', Code CHR ''F'', Blob [1, 2]]), s1) \<and>
    get_all (map arg_type [Int32 60, String ''abc'', Code CHR ''F'', Blob [1, 2]]) s1 = Some (ps, s2) \<and>
    length ps = length [Int32 60, String ''abc'', Code CHR ''F'', Blob [1, 2]] \<and> Null \<notin> set ps \<and> argv_data s2 = ps \<and>
    (\<forall>i < length [Int32 60, String ''abc'', Code CHR ''F'', Blob [1, 2]].
       [Int32 60, String ''abc'', Code CHR ''F'', Blob [1, 2]] ! i \<noteq> Code CHR ''F'' \<longrightarrow>
       points_to (body m) (ps ! i) (arg_data ([Int32 60, String ''abc'', Code CHR ''F'', Blob [1, 2]] ! i))) \<and>
    o2_get_next CHR ''i'' s2 = Some (Null, s2)"
  by (rule build_extract) (simp_all add: idle_builder_def no_extraction_def c_string_def slash_address_def valid_arg_def)

section \<open>Coercion\<close>

text \<open>An integer argument asked for as another type of number is converted into a new cell that holds exactly
  the same number: sign extended to 64 bits, or as a double that converts back to the integer; the
  message itself is not changed and the next argument follows.\<close>

theorem coerce_int32:
  assumes "to_come s (byte_of CHR ''i'' # ts) (le_enc 4 (w :: 32 word) @ ds)" "ts \<noteq> []" "reading s"
  shows "\<exists>sh sd. o2_get_next CHR ''h'' s = Some (Arg (length (arg_cells s)), sh) \<and>
      arg_cells sh = arg_cells s @ [Bytes (le_enc 8 (scast w :: 64 word))] \<and> to_come sh ts ds \<and>
    o2_get_next CHR ''d'' s = Some (Arg (length (arg_cells s)), sd) \<and>
      arg_cells sd = arg_cells s @ [Bytes (le_enc 8 (double_of_int (sint w)))] \<and> to_come sd ts ds \<and>
    int32_of_double (double_of_int (sint w)) = Some w"
proof -
  have bar: "mx_barrier (s\<lparr>mx_type_next := k, mx_data_next := n, arg_cells := c\<rparr>) = mx_barrier s" for k n c
    by (simp add: mx_barrier_def)
  have in_msg: "mx_data_next s + 4 \<le> mx_barrier s" using to_come_length [OF assms(1)] by simp
  have m32: "MX_32 (s\<lparr>mx_type_next := k\<rparr>) = Some w" for k
    using to_come_MX_32 [OF assms(1)] by (auto simp: MX_32_def peek_def mx_barrier_def split: if_splits)
  have come: "to_come (s\<lparr>mx_type_next := mx_type_next s + 1, arg_cells := c, mx_data_next := mx_data_next s + 4, argv_data := v\<rparr>) ts ds" for c v
    using assms(1,2) in_msg unfolding to_come_def mx_barrier_def
    by (simp add: nat_add_distrib)
      (metis append_eq_conv_conj drop_drop drop_Suc_Cons drop0 length_le_enc One_nat_def add.commute)
  show ?thesis
    using to_come_type [OF assms(1)] assms(3) in_msg come m32
    by (simp add: o2_get_next_def get_plain_def get_number_def convert_next_def convert_int_def put_def mx_advance_def
        sizeof_type_def push_arg_def reading_def int32_double_roundtrip mx_barrier_def)
qed

text \<open>A message with one integer, ready to be extracted.\<close>

definition one_int :: "32 word \<Rightarrow> extraction" where
  "one_int w = no_extraction\<lparr>mx_msg := [byte_of CHR ''i'', 0] @ le_enc 4 w, mx_data_next := 2\<rparr>"

theorem coerce_int32_witness:
  "\<exists>sh sd. o2_get_next CHR ''h'' (one_int (-5)) = Some (Arg (length (arg_cells (one_int (-5)))), sh) \<and>
      arg_cells sh = arg_cells (one_int (-5)) @ [Bytes (le_enc 8 (scast (-5 :: 32 word) :: 64 word))] \<and> to_come sh (0 # le_enc 4 (-5 :: 32 word)) [] \<and>
    o2_get_next CHR ''d'' (one_int (-5)) = Some (Arg (length (arg_cells (one_int (-5)))), sd) \<and>
      arg_cells sd = arg_cells (one_int (-5)) @ [Bytes (le_enc 8 (double_of_int (sint (-5 :: 32 word))))] \<and> to_come sd (0 # le_enc 4 (-5 :: 32 word)) [] \<and>
    int32_of_double (double_of_int (sint (-5 :: 32 word))) = Some (-5)"
  by (rule coerce_int32) (simp_all add: one_int_def no_extraction_def to_come_def reading_def mx_barrier_def nat_diff_distrib)

section \<open>Where extraction goes wrong\<close>

text \<open>Extract a message with the given type string and data as arguments of other types.\<close>

definition extract_as :: "string \<Rightarrow> byte list \<Rightarrow> O2type list \<Rightarrow> extraction \<Rightarrow> (O2arg_ptr list \<times> extraction) option" where
  "extract_as ts ds to_types s =
     Option.bind (o2_extract_start \<lparr>misc = 1, timestamp = 0, body = zero_padded ''/a'' @ zero_padded (CHR '','' # ts) @ ds\<rparr> s)
       (\<lambda>(_, s). get_all to_types s)"

text \<open>A false argument is accepted where a true one is asked for: the test of \<open>O2_FALSE\<close> compares with \<open>O2_TRUE\<close>.\<close>

lemma false_as_true: "map_option fst (extract_as ''F'' [] ''T'' no_extraction) = Some [Data 8]"
  by code_simp

text \<open>A vector at the end of the type string cannot be taken apart as an array: the test for the end of the types comes first.\<close>

lemma vector_as_array_at_end:
  "map_option fst (extract_as ''vi'' [8,0,0,0,1,0,0,0,2,0,0,0] ''[ii'' no_extraction) = Some [O2_got_start_array, Null, Null]"
  by code_simp

text \<open>A vector converted to another element type keeps the old type in its descriptor, and is pushed to \<open>argv\<close> twice.\<close>

lemma vector_type_and_count:
  "map_option (\<lambda>(_, s). (argv_data s, arg_cells s)) (extract_as ''vi'' [8,0,0,0,1,0,0,0,2,0,0,0] ''vh'' no_extraction) =
   Some ([Arg 0, Arg 0], [Vector 2 CHR ''i'' (Arg 1), Bytes [1,0,0,0,0,0,0,0], Bytes [2,0,0,0,0,0,0,0]])"
  by code_simp

text \<open>An array taken as a vector leaves its closing bracket, which the next argument then finds.\<close>

lemma array_end_unread:
  "map_option (\<lambda>(ps, s). (ps, argv_data s)) (extract_as ''[ii]i'' [1,0,0,0,2,0,0,0,3,0,0,0] ''vhi'' no_extraction) =
   Some ([Arg 0, Arg 0, Null], [Arg 0, Null])"
  by code_simp

text \<open>An array that cannot become a vector leaves its flag set, which starting the next message does not clear.\<close>

lemma pending_survives:
  "case extract_as ''[s]'' [0,0,0,0] ''vi'' no_extraction of
     Some (ps, s) \<Rightarrow> ps = [Arg 0, Null] \<and> mx_array_to_vector_pending s \<and>
       extract_as ''i'' [7,0,0,0] ''i'' s = None \<and>
       map_option fst (extract_as ''i'' [7,0,0,0] ''i'' no_extraction) = Some [Data 8]
   | None \<Rightarrow> False"
  by code_simp

text \<open>Codes without data need more space once they are converted than is reserved.\<close>

lemma space_too_small:
  "map_option (\<lambda>(_, s). arg_cells s) (extract_as ''TTT'' [] ''hhh'' no_extraction) = 
     Some (replicate 3 (Bytes [1,0,0,0,0,0,0,0])) \<and> arg_needed 3 0 = 16"
  by code_simp
end
