(* ===== verification/Clock.thy ===== *)
theory Clock
  imports Scheduler Services
begin

text \<open>
  Clock synchronization (src/src/clock.cpp): the map from local to global time, the ping protocol
  that estimates the reference clock, the adjustment of the rate until the estimate has caught up,
  becoming the reference, and jumps. Times are exact rationals. Reading the computer's clock is an
  argument (\<open>now\<close>); messages to the local scheduler and sent messages are recorded.
\<close>

section \<open>State\<close>

abbreviation (input) CLOCK_SYNC_HISTORY_LEN :: nat where "CLOCK_SYNC_HISTORY_LEN \<equiv> 5"

datatype clock_event =
    Catch_up_at O2time int
  | Ping_at O2time int
  | Clock_get int
  | Clock_put string int O2time
  | Announce_synchronized
  | New_service_cs
  | New_methods

record 'a clock =
  local_time_base :: O2time
  global_time_base :: O2time
  clock_rate :: rat
  o2_clock_is_synchronized :: bool
  is_refclk :: bool
  start_sync_time :: O2time
  clock_sync_id :: int
  clock_sync_send_time :: O2time
  clock_sync_reply_to :: bool
  clock_rate_id :: int
  ping_reply_count :: nat
  round_trip_time :: "O2time list"
  ref_minus_local :: "O2time list"
  time_offset :: O2time
  time_callback :: bool
  mean_rtt :: rat
  min_rtt :: rat
  ping_process_id :: int
  scheds :: "'a schedulers"
  clock_events :: "clock_event list"

definition clock_event :: "clock_event \<Rightarrow> 'a clock \<Rightarrow> 'a clock" where
  "clock_event e c = c\<lparr>clock_events := clock_events c @ [e]\<rparr>"

definition LOCAL_TO_GLOBAL :: "'a clock \<Rightarrow> O2time \<Rightarrow> O2time" where
  "LOCAL_TO_GLOBAL c t = global_time_base c + (t - local_time_base c) * clock_rate c"

section \<open>Reading the time\<close>

text \<open>\<open>native\<close> and \<open>callback\<close> are what the system clock and the client's clock say.\<close>

definition o2_local_time :: "O2time \<Rightarrow> O2time \<Rightarrow> 'a clock \<Rightarrow> O2time" where
  "o2_local_time native callback c =
     (if time_callback c then callback - time_offset c else native - time_offset c)"

definition o2_local_to_global :: "'a clock \<Rightarrow> O2time \<Rightarrow> O2time" where
  "o2_local_to_global c lt = (if is_refclk c then lt else LOCAL_TO_GLOBAL c lt)"

definition o2_time_get :: "O2time \<Rightarrow> O2time \<Rightarrow> 'a clock \<Rightarrow> O2time" where
  "o2_time_get native callback c =
     (let t = o2_local_time native callback c in if is_refclk c then t else LOCAL_TO_GLOBAL c t)"

section \<open>Obtaining and adjusting the clock\<close>

definition o2_clock_synchronized :: "O2time \<Rightarrow> O2time \<Rightarrow> 'a clock \<Rightarrow> 'a clock" where
  "o2_clock_synchronized local_time ref_time c =
     (if o2_clock_is_synchronized c then c
      else let c = c\<lparr>o2_clock_is_synchronized := True, scheds := o2_sched_start GTSCHED ref_time (scheds c)\<rparr>;
               c = (if \<not> is_refclk c
                    then c\<lparr>local_time_base := local_time, global_time_base := ref_time, clock_rate := 1\<rparr> else c) in
        clock_event Announce_synchronized c)"

definition catch_up_handler :: "int \<Rightarrow> O2time \<Rightarrow> 'a clock \<Rightarrow> 'a clock" where
  "catch_up_handler rate_id at_time c =
     (if rate_id \<noteq> clock_rate_id c then c
      else c\<lparr>global_time_base := LOCAL_TO_GLOBAL c at_time, local_time_base := at_time, clock_rate := 1\<rparr>)"

definition will_catch_up_after :: "O2time \<Rightarrow> 'a clock \<Rightarrow> 'a clock" where
  "will_catch_up_after d c = clock_event (Catch_up_at (local_time_base c + d) (clock_rate_id c)) c"

text \<open>\<open>jump\<close> is what the client's time jump callback returns (false when there is none).\<close>

definition set_clock :: "(O2time \<Rightarrow> O2time \<Rightarrow> O2time \<Rightarrow> bool) \<Rightarrow> O2time \<Rightarrow> O2time \<Rightarrow> 'a clock \<Rightarrow> 'a clock" where
  "set_clock jump local_time new_ref c =
     (let c = c\<lparr>global_time_base := LOCAL_TO_GLOBAL c local_time, local_time_base := local_time,
                clock_rate_id := clock_rate_id c + 1\<rparr>;
          clock_advance = new_ref - global_time_base c in
      if clock_advance > 1 then
        if \<not> jump (local_time_base c) (global_time_base c) new_ref
        then c\<lparr>clock_rate := 1, global_time_base := new_ref\<rparr> else c
      else if clock_advance > 0 then will_catch_up_after (clock_advance * 10) (c\<lparr>clock_rate := 11 / 10\<rparr>)
      else if clock_advance > -1 then will_catch_up_after (clock_advance * -10) (c\<lparr>clock_rate := 9 / 10\<rparr>)
      else if \<not> jump (local_time_base c) (global_time_base c) new_ref then c\<lparr>clock_rate := 0\<rparr> else c)"

section \<open>The ping protocol\<close>

text \<open>The search for the smallest round trip time: its index and the sum of all.\<close>

definition best_ping :: "O2time list \<Rightarrow> nat \<times> rat \<times> rat" where
  "best_ping rtts = foldl (\<lambda>(best_i, mn, sum_rtt) i.
       (if rtts ! i < mn then i else best_i, if rtts ! i < mn then rtts ! i else mn, sum_rtt + rtts ! i))
     (0, rtts ! 0, rtts ! 0) [1..<CLOCK_SYNC_HISTORY_LEN]"

definition cs_ping_reply_handler ::
  "(O2time \<Rightarrow> O2time \<Rightarrow> O2time \<Rightarrow> bool) \<Rightarrow> O2time \<Rightarrow> int \<Rightarrow> O2time \<Rightarrow> 'a clock \<Rightarrow> 'a clock" where
  "cs_ping_reply_handler jump now serial ref_time c =
     (if serial \<noteq> clock_sync_id c then c
      else let rtt = now - clock_sync_send_time c;
               ref_time = ref_time + rtt * (1 / 2);
               i = ping_reply_count c mod CLOCK_SYNC_HISTORY_LEN;
               c = c\<lparr>round_trip_time := (round_trip_time c)[i := rtt],
                     ref_minus_local := (ref_minus_local c)[i := ref_time - now],
                     ping_reply_count := ping_reply_count c + 1\<rparr> in
        if ping_reply_count c \<ge> CLOCK_SYNC_HISTORY_LEN then
          let (best_i, mn, sum_rtt) = best_ping (round_trip_time c);
              c = c\<lparr>min_rtt := mn, mean_rtt := sum_rtt / 5\<rparr>;
              new_ref = now + ref_minus_local c ! best_i in
          if \<not> o2_clock_is_synchronized c then o2_clock_synchronized now new_ref c
          else set_clock jump now new_ref c
        else c)"

definition o2_roundtrip :: "'a clock \<Rightarrow> O2err \<times> (rat \<times> rat) option" where
  "o2_roundtrip c =
     (if \<not> o2_clock_is_synchronized c then (O2_FAIL, None) else (O2_SUCCESS, Some (mean_rtt c, min_rtt c)))"

definition o2_clock_ping_at :: "O2time \<Rightarrow> int \<Rightarrow> 'a clock \<Rightarrow> 'a clock" where
  "o2_clock_ping_at time pid c =
     (if pid \<noteq> ping_process_id c then c
      else clock_event (Ping_at (if time < last_time (o2_ltsched (scheds c)) then last_time (o2_ltsched (scheds c)) else time) pid) c)"

definition o2_start_cs_pings :: "O2time \<Rightarrow> 'a clock \<Rightarrow> 'a clock" where
  "o2_start_cs_pings now c =
     (let c = c\<lparr>ping_process_id := ping_process_id c + 1\<rparr> in
      if is_refclk c then c\<lparr>o2_clock_is_synchronized := True\<rparr>
      else let c = (if \<not> clock_sync_reply_to c then clock_event New_methods (c\<lparr>clock_sync_reply_to := True\<rparr>) else c);
               c = c\<lparr>start_sync_time := now\<rparr> in
        o2_clock_ping_at 0 (ping_process_id c) c)"

text \<open>\<open>cs_status\<close>: the status of the clock service.\<close>

definition o2_ping_send_handler :: "O2time \<Rightarrow> int \<Rightarrow> int \<Rightarrow> 'a clock \<Rightarrow> 'a clock" where
  "o2_ping_send_handler now cs_status pid c =
     (if is_refclk c then c\<lparr>o2_clock_is_synchronized := True\<rparr>
      else let c = c\<lparr>clock_sync_send_time := now\<rparr> in
        if cs_status < 0 then c
        else let time = now + 1 / 10;
                 c = c\<lparr>clock_sync_id := clock_sync_id c + 1\<rparr>;
                 c = clock_event (Clock_get (clock_sync_id c)) c;
                 t1 = 5 * (1 / 10) - 1 / 100;
                 time = (if now - start_sync_time c > t1 then time + 4 / 10 else time);
                 time = (if now - start_sync_time c > 5 then time + 95 / 10 else time) in
          o2_clock_ping_at time pid c)"

definition o2_clock_initialize :: "'a clock \<Rightarrow> 'a clock" where
  "o2_clock_initialize c =
     clock_event New_methods (c\<lparr>local_time_base := 0, global_time_base := -1, clock_rate := 0, is_refclk := False,
       o2_clock_is_synchronized := False, time_callback := False, ping_reply_count := 0, time_offset := 0\<rparr>)"

definition o2_clock_finish :: "'a clock \<Rightarrow> 'a clock" where
  "o2_clock_finish c = c\<lparr>clock_sync_reply_to := False\<rparr>"

text \<open>The reference answers with its time.\<close>

definition cs_ping_handler :: "O2time \<Rightarrow> O2time \<Rightarrow> int \<Rightarrow> string \<Rightarrow> 'a clock \<Rightarrow> 'a clock" where
  "cs_ping_handler native callback serial_no replyto c =
     clock_event (Clock_put replyto serial_no (o2_time_get native callback c)) c"

section \<open>Becoming the reference, and jumps\<close>

text \<open>\<open>new_callback\<close>: whether the client supplies a clock, which then says \<open>callback\<close>; \<open>old_callback\<close> is what
  the former one says.\<close>

definition o2_clock_set :: "bool \<Rightarrow> bool \<Rightarrow> O2time \<Rightarrow> O2time \<Rightarrow> O2time \<Rightarrow> 'a clock \<Rightarrow> O2err \<times> 'a clock" where
  "o2_clock_set initialized new_callback native old_callback callback c =
     (if \<not> initialized then (O2_NOT_INITIALIZED, c)
      else let old_local_time = o2_local_time native old_callback c;
               c = c\<lparr>time_callback := new_callback, time_offset := 0\<rparr>;
               new_local_time = o2_local_time native callback c;
               c = c\<lparr>time_offset := new_local_time - old_local_time\<rparr> in
        if is_refclk c then (O2_SUCCESS, c)
        else let c = o2_clock_synchronized new_local_time new_local_time c;
                 c = c\<lparr>is_refclk := True\<rparr> in
          (O2_SUCCESS, clock_event New_methods (clock_event New_service_cs c)))"

text \<open>The loop of \<open>o2_clock_jump\<close> walks over the table it has just cleared.\<close>

definition o2_clock_jump :: "O2time \<Rightarrow> O2time \<Rightarrow> bool \<Rightarrow> 'a clock \<Rightarrow> O2err \<times> 'a clock" where
  "o2_clock_jump local_time global_time adjust c =
     (let advance = global_time - LOCAL_TO_GLOBAL c local_time;
          c = (if adjust then
                 let g = o2_gtsched (scheds c);
                     g = g\<lparr>last_time := global_time - 2 / 100\<rparr>;
                     g = g\<lparr>last_bin := int (O2_SCHED_INDEX (last_time g))\<rparr>;
                     g = g\<lparr>table := replicate O2_SCHED_TABLE_LEN []\<rparr>;
                     g = fold (\<lambda>msgs g. fold (\<lambda>m g. snd (snd (o2_schedule True (o2_gtsched_started (scheds c)) g
                               (m\<lparr>timestamp := timestamp m + advance\<rparr>)))) msgs g) (table g) g in
                 c\<lparr>scheds := (scheds c)\<lparr>o2_gtsched := g\<rparr>\<rparr>
               else c) in
      (O2_SUCCESS, c\<lparr>local_time_base := local_time, global_time_base := global_time, clock_rate := 1\<rparr>))"

section \<open>Reporting status changes\<close>

text \<open>For every service whose active provider is local (when the status is \<open>O2_LOCAL\<close>, 4) or is the proxy
  (when it is \<open>O2_REMOTE\<close>, 5, or \<open>O2_BRIDGE\<close>, 6).\<close>

definition status_event :: "O2_context \<Rightarrow> int \<Rightarrow> nat \<Rightarrow> string \<times> Services_entry \<Rightarrow> event list" where
  "status_event ctx status p = (\<lambda>(k, ss).
     if services ss = [] then []
     else let spp = services ss ! 0; props = (case properties spp of None \<Rightarrow> [] | Some ps \<Rightarrow> tl ps) in
       if status = 4 then
         (case service spp of Local _ \<Rightarrow> [Send_si k 4 ''_o2'' props] | Proxy _ \<Rightarrow> [])
       else if (status = 5 \<or> status = 6) \<and> service spp = Proxy p then
         [Send_si k status (if key (proxies ctx p) \<noteq> [] then key (proxies ctx p) else ''_o2'') props]
       else [])"

definition o2_clock_status_change :: "bool \<Rightarrow> int \<Rightarrow> nat \<Rightarrow> O2_context \<Rightarrow> O2_context" where
  "o2_clock_status_change synchronized status p ctx =
     (if \<not> synchronized then ctx
      else ctx\<lparr>events := events ctx @ concat (map (status_event ctx status p) (entries (path_tree ctx)))\<rparr>)"

section \<open>How good the estimate is\<close>

lemma five: "i < (5 :: nat) \<longleftrightarrow> i = 0 \<or> i = 1 \<or> i = 2 \<or> i = 3 \<or> i = 4"
  by auto

lemma best_ping_least:
  assumes "best_ping rtts = (i, mn, sum_rtt)"
  shows "i < 5 \<and> mn = rtts ! i \<and> (\<forall>j < 5. mn \<le> rtts ! j)"
proof -
  have "[1..<5] = [1, 2, 3, 4 :: nat]" by (simp add: upt_conv_Cons)
  then show ?thesis
    using assms unfolding best_ping_def by (auto simp: five split: if_splits)
qed

text \<open>The last replies: each of the offsets differs from the true one by half the round trip at most.\<close>

definition samples_ok :: "rat \<Rightarrow> 'a clock \<Rightarrow> bool" where
  "samples_ok offset c \<longleftrightarrow> length (round_trip_time c) = 5 \<and> length (ref_minus_local c) = 5 \<and>
     (\<forall>i < 5. i < ping_reply_count c \<longrightarrow> \<bar>ref_minus_local c ! i - offset\<bar> \<le> round_trip_time c ! i / 2)"

definition record_reply :: "O2time \<Rightarrow> O2time \<Rightarrow> 'a clock \<Rightarrow> 'a clock" where
  "record_reply now ref_time c =
     (let rtt = now - clock_sync_send_time c; i = ping_reply_count c mod 5 in
      c\<lparr>round_trip_time := (round_trip_time c)[i := rtt],
        ref_minus_local := (ref_minus_local c)[i := ref_time + rtt * (1 / 2) - now],
        ping_reply_count := ping_reply_count c + 1\<rparr>)"

lemma record_reply_ok:
  assumes "samples_ok offset c" "clock_sync_send_time c \<le> s" "s \<le> now"
  shows "samples_ok offset (record_reply now (s + offset) c)"
proof -
  have "\<bar>s + offset + (now - clock_sync_send_time c) * (1 / 2) - now - offset\<bar> \<le> (now - clock_sync_send_time c) / 2"
    using assms(2,3) by (simp add: abs_le_iff field_simps)
  then show ?thesis
    using assms(1) by (auto simp: samples_ok_def record_reply_def Let_def nth_list_update less_Suc_eq)
qed

lemma reply_handler_eq:
  "cs_ping_reply_handler jump now serial ref_time c =
     (if serial \<noteq> clock_sync_id c then c
      else let c = record_reply now ref_time c in
        if ping_reply_count c \<ge> 5 then
          let (i, mn, sum_rtt) = best_ping (round_trip_time c);
              c = c\<lparr>min_rtt := mn, mean_rtt := sum_rtt / 5\<rparr>; new_ref = now + ref_minus_local c ! i in
          if \<not> o2_clock_is_synchronized c then o2_clock_synchronized now new_ref c
          else set_clock jump now new_ref c
        else c)"
  by (simp add: cs_ping_reply_handler_def record_reply_def Let_def)

text \<open>C11: clock synchronization is as accurate as its messages are fast. When the reference reads its clock
  anywhere between the ping and its reply, the process is not synchronized before five replies; then its global time
  differs from the reference's by at most half of the shortest of the last five round trips, and the
  global scheduler starts at that time.\<close>

theorem sync_accuracy:
  assumes "samples_ok offset c" "clock_sync_send_time c \<le> s" "s \<le> now"
    and "\<not> o2_clock_is_synchronized c" "\<not> is_refclk c"
    and "c' = cs_ping_reply_handler jump now (clock_sync_id c) (s + offset) c"
  shows "samples_ok offset c' \<and> (o2_clock_is_synchronized c' \<longleftrightarrow> ping_reply_count c' \<ge> 5) \<and>
    (o2_clock_is_synchronized c' \<longrightarrow>
      (\<forall>i < 5. min_rtt c' \<le> round_trip_time c' ! i) \<and>
      (\<forall>t. \<bar>o2_local_to_global c' t - (t + offset)\<bar> \<le> min_rtt c' / 2) \<and>
      last_time (o2_gtsched (scheds c')) = o2_local_to_global c' now)"
proof -
  let ?r = "record_reply now (s + offset) c"
  have ok: "samples_ok offset ?r" by (rule record_reply_ok [OF assms(1-3)])
  have r: "\<not> o2_clock_is_synchronized ?r" "\<not> is_refclk ?r" using assms(4,5) by (simp_all add: record_reply_def Let_def)
  show ?thesis
  proof (cases "ping_reply_count ?r \<ge> 5")
    case False
    then show ?thesis using ok r by (simp add: assms(6) reply_handler_eq)
  next
    case True
    obtain i mn sum_rtt where b: "best_ping (round_trip_time ?r) = (i, mn, sum_rtt)" by (cases "best_ping (round_trip_time ?r)")
    note least = best_ping_least [OF b]
    have c': "c' = o2_clock_synchronized now (now + ref_minus_local ?r ! i) (?r\<lparr>min_rtt := mn, mean_rtt := sum_rtt / 5\<rparr>)"
      using True r by (simp add: assms(6) reply_handler_eq b Let_def)
    have near: "\<bar>ref_minus_local ?r ! i - offset\<bar> \<le> mn / 2"
      using ok least True by (simp add: samples_ok_def)
    have fields: "round_trip_time c' = round_trip_time ?r" "ref_minus_local c' = ref_minus_local ?r"
      "ping_reply_count c' = ping_reply_count ?r" "min_rtt c' = mn" "o2_clock_is_synchronized c'"
      "o2_local_to_global c' t = t + ref_minus_local ?r ! i" "last_time (o2_gtsched (scheds c')) = now + ref_minus_local ?r ! i" for t
      using r by (simp_all add: c' o2_clock_synchronized_def clock_event_def Let_def o2_sched_start_def
          o2_local_to_global_def LOCAL_TO_GLOBAL_def)
    have "samples_ok offset c'" using ok by (simp add: samples_ok_def fields)
    then show ?thesis using True least near by (auto simp: fields)
  qed
qed

definition unsynchronized :: "nat clock" where
  "unsynchronized = \<lparr>local_time_base = 0, global_time_base = -1, clock_rate = 0, o2_clock_is_synchronized = False,
     is_refclk = False, start_sync_time = 0, clock_sync_id = 5, clock_sync_send_time = 7, clock_sync_reply_to = True,
     clock_rate_id = 0, ping_reply_count = 4, round_trip_time = [2, 1, 1/2, 1, 0], ref_minus_local = [11, 10, 10, 10, 0],
     time_offset = 0, time_callback = False, mean_rtt = 0, min_rtt = 0, ping_process_id = 1,
     scheds = \<lparr>o2_ltsched = example_wheel, o2_gtsched = example_wheel, o2_gtsched_started = False\<rparr>, clock_events = []\<rparr>"

theorem sync_accuracy_witness:
  "let c' = cs_ping_reply_handler (\<lambda>_ _ _. False) 9 5 (8 + 10) unsynchronized in
   o2_clock_is_synchronized c' \<and> (\<forall>t. \<bar>o2_local_to_global c' t - (t + 10)\<bar> \<le> min_rtt c' / 2)"
proof -
  have ok: "samples_ok 10 unsynchronized" by (auto simp: samples_ok_def unsynchronized_def five)
  have n: "clock_sync_id unsynchronized = 5" by (simp add: unsynchronized_def)
  have "ping_reply_count (cs_ping_reply_handler (\<lambda>_ _ _. False) 9 5 (8 + 10) unsynchronized) \<ge> 5"
    by (auto simp: reply_handler_eq unsynchronized_def record_reply_def Let_def o2_clock_synchronized_def clock_event_def split: prod.split)
  then show ?thesis
    using sync_accuracy [OF ok, of 8 9 "cs_ping_reply_handler (\<lambda>_ _ _. False) 9 5 (8 + 10) unsynchronized" "\<lambda>_ _ _. False"]
    unfolding n by (simp add: Let_def) (simp add: unsynchronized_def)
qed

section \<open>Catching up\<close>

definition no_jump :: "O2time \<Rightarrow> O2time \<Rightarrow> O2time \<Rightarrow> bool" where
  "no_jump local old new = False"

text \<open>A clock that is up to a second off catches up exactly: at the time for which the message to
  \<open>catch_up_handler\<close> was scheduled, the clock shows what the new estimate of the reference shows, and keeps
  doing so; a clock that is further behind does so at once. A message from before is ignored.\<close>

theorem catch_up_exact:
  assumes "adv = new_ref - LOCAL_TO_GLOBAL c now" "-1 < adv" "adv \<le> 1"
    and "c1 = set_clock no_jump now new_ref c" "c2 = catch_up_handler (clock_rate_id c1) (now + 10 * \<bar>adv\<bar>) c1"
  shows "clock_events c1 = clock_events c @ [Catch_up_at (now + 10 * \<bar>adv\<bar>) (clock_rate_id c1)] \<and>
    LOCAL_TO_GLOBAL c1 now = LOCAL_TO_GLOBAL c now \<and>
    LOCAL_TO_GLOBAL c2 t = new_ref + (t - now) \<and>
    (k \<noteq> clock_rate_id c1 \<longrightarrow> catch_up_handler k t c1 = c1)"
proof -
  have base: "global_time_base c1 = LOCAL_TO_GLOBAL c now" "local_time_base c1 = now"
    "clock_rate c1 = (if adv > 0 then 11 / 10 else 9 / 10)"
    "clock_events c1 = clock_events c @ [Catch_up_at (now + 10 * \<bar>adv\<bar>) (clock_rate_id c1)]"
    using assms(1-4) by (auto simp: set_clock_def Let_def will_catch_up_after_def clock_event_def)
  have "LOCAL_TO_GLOBAL c2 t = new_ref + (t - now)"
    using assms(1) by (simp add: assms(5) catch_up_handler_def LOCAL_TO_GLOBAL_def [of c1] base)
      (simp add: LOCAL_TO_GLOBAL_def abs_if field_simps split: if_splits)
  then show ?thesis using base by (simp add: LOCAL_TO_GLOBAL_def [of c1] catch_up_handler_def)
qed

theorem catch_up_exact_witness:
  "let c1 = set_clock no_jump 9 (19/2) (unsynchronized\<lparr>global_time_base := 0, clock_rate := 1\<rparr>) in
   LOCAL_TO_GLOBAL (catch_up_handler (clock_rate_id c1) (9 + 10 * \<bar>1/2\<bar>) c1) 20 = 19/2 + (20 - 9)"
  using catch_up_exact [of "1/2" "19/2" "unsynchronized\<lparr>global_time_base := 0, clock_rate := 1\<rparr>" 9
      "set_clock no_jump 9 (19/2) (unsynchronized\<lparr>global_time_base := 0, clock_rate := 1\<rparr>)" _ 20]
  by (simp add: Let_def LOCAL_TO_GLOBAL_def unsynchronized_def)

section \<open>The clock runs forward\<close>

text \<open>What happens to the clock, at a local time: time passes, the first estimate, a new estimate, and the end of
  catching up, whose message was scheduled for a time and is handled then or later. \<open>late\<close> sums up the delays of these messages.\<close>

inductive clock_step :: "O2time \<times> O2time \<times> 'a clock \<Rightarrow> O2time \<times> O2time \<times> 'a clock \<Rightarrow> bool" where
  tick: "now \<le> now' \<Longrightarrow> clock_step (now, late, c) (now', late, c)"
| first: "-1 \<le> ref \<Longrightarrow> clock_step (now, late, c) (now, late, o2_clock_synchronized now ref c)"
| adjust: "o2_clock_is_synchronized c \<Longrightarrow> clock_step (now, late, c) (now, late, set_clock no_jump now new_ref c)"
| caught_up: "o2_clock_is_synchronized c \<Longrightarrow> Catch_up_at at_time k \<in> set (clock_events c) \<Longrightarrow> at_time \<le> now \<Longrightarrow>
    clock_step (now, late, c) (now, late + (now - at_time), catch_up_handler k at_time c)"

definition clock_ok :: "'a clock \<Rightarrow> bool" where
  "clock_ok c \<longleftrightarrow> \<not> is_refclk c \<and> 0 \<le> clock_rate c \<and> clock_rate c \<le> 11 / 10 \<and>
     (\<not> o2_clock_is_synchronized c \<longrightarrow> global_time_base c = -1 \<and> clock_rate c = 0)"

text \<open>When the message that ends catching up is handled later than scheduled, the clock steps back by a tenth of the
  delay if it was running fast.\<close>

lemma late_catch_up:
  "LOCAL_TO_GLOBAL (catch_up_handler (clock_rate_id c) at_time c) now =
   LOCAL_TO_GLOBAL c now - (clock_rate c - 1) * (now - at_time)"
  by (simp add: catch_up_handler_def LOCAL_TO_GLOBAL_def algebra_simps)

lemma clock_step_forward:
  assumes "clock_step (now, late, c) (now', late', c')" "clock_ok c"
  shows "clock_ok c' \<and> LOCAL_TO_GLOBAL c now - (late' - late) / 10 \<le> LOCAL_TO_GLOBAL c' now' \<and> late \<le> late'"
  using assms(1)
proof cases
  case tick
  have "now - local_time_base c \<le> now' - local_time_base c" "0 \<le> clock_rate c"
    using tick assms(2) by (simp_all add: clock_ok_def)
  then have "(now - local_time_base c) * clock_rate c \<le> (now' - local_time_base c) * clock_rate c"
    by (rule mult_right_mono)
  then show ?thesis using tick assms(2) by (simp add: LOCAL_TO_GLOBAL_def)
next
  case (first ref)
  then show ?thesis using assms(2)
    by (auto simp: o2_clock_synchronized_def clock_event_def clock_ok_def LOCAL_TO_GLOBAL_def Let_def)
next
  case (adjust new_ref)
  then show ?thesis using assms(2)
    by (auto simp: set_clock_def will_catch_up_after_def clock_event_def clock_ok_def LOCAL_TO_GLOBAL_def Let_def no_jump_def)
next
  case (caught_up at_time k)
  have "(clock_rate c - 1) * (now - at_time) \<le> 1 / 10 * (now - at_time)"
    using caught_up assms(2) by (intro mult_right_mono) (simp_all add: clock_ok_def)
  moreover have "clock_ok (catch_up_handler k at_time c)"
    using assms(2) caught_up(4) by (simp add: catch_up_handler_def clock_ok_def)
  moreover have "LOCAL_TO_GLOBAL c' now = LOCAL_TO_GLOBAL c now \<or>
      LOCAL_TO_GLOBAL c' now = LOCAL_TO_GLOBAL c now - (clock_rate c - 1) * (now - at_time)"
    using late_catch_up [of c at_time now] unfolding caught_up(3) by (auto simp: catch_up_handler_def)
  ultimately show ?thesis using caught_up by auto
qed

text \<open>C31: in a process that is not the reference and has no time jump callback, global time does not run backward through any
  sequence of estimates and adjustments, but for the delays of the messages that end catching up: when they are handled
  at the times they were scheduled for (\<open>late\<close> does not grow), the time a client reads later is not less than the time it read before, and
  otherwise it is less by at most a tenth of the sum of their delays. Before the first estimate it is -1.\<close>

theorem clock_runs_forward:
  assumes "clock_step\<^sup>*\<^sup>* (now, late, c) (now', late', c')" "clock_ok c"
  shows "clock_ok c' \<and> LOCAL_TO_GLOBAL c now - (late' - late) / 10 \<le> LOCAL_TO_GLOBAL c' now' \<and> late \<le> late' \<and>
    (\<not> o2_clock_is_synchronized c' \<longrightarrow> LOCAL_TO_GLOBAL c' now' = -1)"
proof -
  have "clock_ok (snd (snd x)) \<Longrightarrow> clock_ok (snd (snd y)) \<and> fst (snd x) \<le> fst (snd y) \<and>
      LOCAL_TO_GLOBAL (snd (snd x)) (fst x) - (fst (snd y) - fst (snd x)) / 10 \<le> LOCAL_TO_GLOBAL (snd (snd y)) (fst y)"
    if "clock_step\<^sup>*\<^sup>* x y" for x y :: "O2time \<times> O2time \<times> 'a clock"
    using that
  proof (induction rule: rtranclp_induct)
    case (step y z)
    then show ?case using clock_step_forward [of "fst y" "fst (snd y)" "snd (snd y)" "fst z" "fst (snd z)" "snd (snd z)"]
      by (fastforce simp: field_simps)
  qed simp
  from this [OF assms(1)] assms(2) show ?thesis by (auto simp: clock_ok_def LOCAL_TO_GLOBAL_def)
qed

text \<open>A clock that runs fast from 12 on, and stops doing so 2 seconds late.\<close>

theorem clock_runs_forward_witness:
  "let c1 = o2_clock_synchronized 9 20 unsynchronized; c2 = set_clock no_jump 12 (47 / 2) c1; c3 = catch_up_handler (clock_rate_id c2) 17 c2 in
   LOCAL_TO_GLOBAL unsynchronized 9 - 2 / 10 \<le> LOCAL_TO_GLOBAL c3 19"
proof -
  define c1 where "c1 = o2_clock_synchronized 9 20 unsynchronized"
  define c2 where "c2 = set_clock no_jump 12 (47 / 2) c1"
  define c3 where "c3 = catch_up_handler (clock_rate_id c2) 17 c2"
  have e: "o2_clock_is_synchronized c1" "o2_clock_is_synchronized c2" "Catch_up_at 17 (clock_rate_id c2) \<in> set (clock_events c2)"
    by (simp_all add: c2_def c1_def o2_clock_synchronized_def clock_event_def Let_def unsynchronized_def set_clock_def will_catch_up_after_def
        LOCAL_TO_GLOBAL_def)
  have "clock_step (9, 0, unsynchronized) (9, 0, c1)" unfolding c1_def by (rule first) simp
  moreover have "clock_step (9, 0, c1) (12, 0, c1)" by (rule tick) simp
  moreover have "clock_step (12, 0, c1) (12, 0, c2)" unfolding c2_def by (rule adjust [OF e(1)])
  moreover have "clock_step (12, 0, c2) (19, 0, c2)" by (rule tick) simp
  moreover have "clock_step (19, 0, c2) (19, 0 + (19 - 17), c3)" unfolding c3_def by (rule caught_up [OF e(2,3)]) simp
  ultimately have "clock_step\<^sup>*\<^sup>* (9, 0, unsynchronized) (19, 0 + (19 - 17), c3)"
    by (meson rtranclp.rtrancl_into_rtrancl rtranclp.rtrancl_refl)
  from clock_runs_forward [OF this] show ?thesis unfolding Let_def c1_def [symmetric] c2_def [symmetric] c3_def [symmetric]
    by (simp add: clock_ok_def unsynchronized_def)
qed

section \<open>Pings\<close>

text \<open>While the clock service is there and the process is not the reference, each ping sends one request with a new
  number and schedules the next ping of the same sequence 0.1 seconds later, 0.5 seconds when more than
  0.49 seconds have passed since the sequence began, 10 seconds when more than 5 have; a ping of a
  sequence that was replaced schedules no further one.\<close>

theorem ping_intervals:
  assumes "\<not> is_refclk c" "0 \<le> cs_status" "last_time (o2_ltsched (scheds c)) \<le> now"
  shows "clock_events (o2_ping_send_handler now cs_status pid c) = clock_events c @ [Clock_get (clock_sync_id c + 1)] @
    (if pid \<noteq> ping_process_id c then []
     else [Ping_at (now + (if now - start_sync_time c > 5 then 10
                           else if now - start_sync_time c > 49 / 100 then 1 / 2 else 1 / 10)) pid])"
  using assms by (simp add: o2_ping_send_handler_def o2_clock_ping_at_def clock_event_def Let_def)

theorem ping_intervals_witness:
  "clock_events (o2_ping_send_handler 9 4 1 unsynchronized) = [Clock_get 6, Ping_at (9 + 10) 1]"
  using ping_intervals [of unsynchronized 4 9 1]
  by (simp add: unsynchronized_def example_wheel_def o2_schedule_def example_msg_def Let_def)

section \<open>Where the clock goes wrong\<close>

text \<open>Changing the clock's source does not make the local time jump. But the global scheduler of a process that was
  not synchronized is then started at what the new source says, which is not the time the process reads
  afterwards: with a source that is ahead, every message the client schedules up to that time counts as
  late and is delivered at once.\<close>

theorem clock_set_mismatch:
  assumes "\<not> is_refclk c" "\<not> o2_clock_is_synchronized c" "o2_clock_set True True native old callback c = (r, c')"
  shows "r = O2_SUCCESS \<and> o2_local_time native callback c' = o2_local_time native old c \<and>
    o2_time_get native callback c' = o2_local_time native old c \<and>
    last_time (o2_gtsched (scheds c')) = callback \<and>
    (timestamp m < callback \<longrightarrow> o2_schedule True True (o2_gtsched (scheds c')) m =
       (O2_SUCCESS, Delivered_Now, o2_gtsched (scheds c')))"
  using assms
  by (auto simp: o2_clock_set_def o2_clock_synchronized_def o2_local_time_def o2_time_get_def clock_event_def
      o2_sched_start_def o2_schedule_def Let_def)

theorem clock_set_mismatch_witness:
  "let c' = snd (o2_clock_set True True 5 0 1000 unsynchronized) in
   o2_time_get 5 1000 c' = 5 \<and> o2_schedule True True (o2_gtsched (scheds c')) \<lparr>timestamp = 100, content = 1\<rparr> =
     (O2_SUCCESS, Delivered_Now, o2_gtsched (scheds c'))"
  using clock_set_mismatch [of unsynchronized 5 0 1000 "fst (o2_clock_set True True 5 0 1000 unsynchronized)"
      "snd (o2_clock_set True True 5 0 1000 unsynchronized)" "\<lparr>timestamp = 100, content = 1\<rparr>"]
  by (simp add: Let_def o2_local_time_def) (simp add: unsynchronized_def)

text \<open>\<open>o2_clock_jump\<close> with \<open>adjust\<close> loses every message of the global scheduler: it empties the table and
  then moves the messages it finds in it. It leaves the scheduler at a bin that is an index into
  the table instead of the bin of its time.\<close>

theorem clock_jump_loses:
  assumes "o2_clock_jump local_time global_time True c = (r, c')"
  shows "pending (o2_gtsched (scheds c')) = {#} \<and>
    last_time (o2_gtsched (scheds c')) = global_time - 2 / 100 \<and>
    last_bin (o2_gtsched (scheds c')) = O2_SCHED_BIN (global_time - 2 / 100) mod 128 \<and>
    LOCAL_TO_GLOBAL c' t = global_time + (t - local_time)"
proof -
  let ?g = "(o2_gtsched (scheds c))\<lparr>last_time := global_time - 2 / 100,
     last_bin := int (O2_SCHED_INDEX (global_time - 2 / 100)), table := replicate 128 []\<rparr>"
  have empty: "fold (\<lambda>msgs g. fold (f :: 'a smsg \<Rightarrow> 'a O2sched \<Rightarrow> 'a O2sched) msgs g) (replicate n []) g = g" for f n g
    by (induction n) simp_all
  have "o2_gtsched (scheds c') = ?g"
    using assms by (auto simp: o2_clock_jump_def Let_def empty)
  moreover have "LOCAL_TO_GLOBAL c' t = global_time + (t - local_time)"
    using assms by (auto simp: o2_clock_jump_def LOCAL_TO_GLOBAL_def Let_def)
  ultimately show ?thesis
    by (simp add: pending_def concat_replicate_trivial O2_SCHED_INDEX_def O2_SCHED_BIN_TO_INDEX_def)
qed

theorem clock_jump_loses_witness:
  "pending (o2_gtsched (scheds (snd (o2_clock_jump 9 30 True unsynchronized)))) = {#} \<and>
   pending (o2_gtsched (scheds unsynchronized)) \<noteq> {#}"
proof -
  have "pending (o2_gtsched (scheds unsynchronized)) \<noteq> {#}"
    using example_wheel_ok by (simp add: unsynchronized_def)
  then show ?thesis
    using clock_jump_loses [of 9 30 unsynchronized "fst (o2_clock_jump 9 30 True unsynchronized)"] by simp
qed

end
