(* ===== verification/Sha1.thy ===== *)
theory Sha1
  imports Prelude
begin

text \<open>
  The answer to a web socket handshake (src/src/o2sha1.cpp): the SHA-1 digest of the client's key
  and a fixed text, in base 64. The code always hashes two blocks; the reference definitions at the
  end are those of the standards (FIPS 180-4 and RFC 4648).
\<close>

section \<open>The code\<close>

definition BASE64CONVERT :: string where
  "BASE64CONVERT = ''ABCDEFGHIJKLMNOPQRSTUVWXYZabcdefghijklmnopqrstuvwxyz0123456789+/=''"

text \<open>The arguments are widened to 64 bits, the result is cut to 32.\<close>

definition left_rotate :: "32 word \<Rightarrow> nat \<Rightarrow> 32 word" where
  "left_rotate n b = ucast (push_bit b (ucast n :: 64 word) OR drop_bit (32 - b) (ucast n :: 64 word))"

definition chunk_word :: "byte list \<Rightarrow> nat \<Rightarrow> 32 word" where
  "chunk_word chunk i = foldl (\<lambda>s j. push_bit 8 s + (ucast (chunk ! (i * 4 + j)) AND 0xff)) 0 [0..<4]"

definition chunk_words :: "byte list \<Rightarrow> 32 word list" where
  "chunk_words chunk =
     foldl (\<lambda>w i. w[i := left_rotate (w ! (i - 3) XOR w ! (i - 8) XOR w ! (i - 14) XOR w ! (i - 16)) 1])
       (foldl (\<lambda>w i. w[i := chunk_word chunk i]) (replicate 80 0) [0..<16]) [16..<80]"

type_synonym digest = "32 word \<times> 32 word \<times> 32 word \<times> 32 word \<times> 32 word"

definition sha1_round :: "32 word list \<Rightarrow> digest \<Rightarrow> nat \<Rightarrow> digest" where
  "sha1_round w = (\<lambda>(a, b, c, d, e) i.
     let (f, k) = (if i \<le> 19 then (d XOR (b AND (c XOR d)), 0x5A827999)
                   else if i \<le> 39 then (b XOR c XOR d, 0x6ED9EBA1)
                   else if i \<le> 59 then ((b AND c) OR (b AND d) OR (c AND d), 0x8F1BBCDC)
                   else (b XOR c XOR d, 0xCA62C1D6)) in
     (left_rotate a 5 + f + e + k + w ! i, a, left_rotate b 30, c, d))"

definition add_digest :: "digest \<Rightarrow> digest \<Rightarrow> digest" where
  "add_digest = (\<lambda>(a, b, c, d, e) (a', b', c', d', e'). (a + a', b + b', c + c', d + d', e + e'))"

definition process_chunk :: "digest \<Rightarrow> byte list \<Rightarrow> digest" where
  "process_chunk hash chunk = add_digest hash (foldl (sha1_round (chunk_words chunk)) hash [0..<80])"

definition initial_hash :: digest where
  "initial_hash = (0x67452301, 0xEFCDAB89, 0x98BADCFE, 0x10325476, 0xC3D2E1F0)"

definition magic :: string where
  "magic = ''258EAFA5-E914-47DA-95CA-C5AB0DC85B11''"

text \<open>The block of 128 bytes that is hashed.\<close>

definition message_block :: "string \<Rightarrow> byte list" where
  "message_block key =
     (let len = length key + length magic; bits = len * 8 in
      bytes_of key @ bytes_of magic @ [128] @ replicate (126 - (len + 1)) 0 @
      [word_of_nat (bits div 256), word_of_nat (bits mod 256)])"

text \<open>Pairs of bits, and three of them to a character.\<close>

definition left_right :: "32 word \<Rightarrow> nat list" where
  "left_right h = map (\<lambda>j. unat (drop_bit (30 - 2 * j) h AND 3)) [0..<16]"

definition digest_list :: "digest \<Rightarrow> 32 word list" where
  "digest_list = (\<lambda>(a, b, c, d, e). [a, b, c, d, e])"

definition base64_text :: "digest \<Rightarrow> string" where
  "base64_text hash =
     (let lr = concat (map left_right (digest_list hash)) @ replicate 4 0 in
      map (\<lambda>j. BASE64CONVERT ! (lr ! (3 * j) * 16 + lr ! (3 * j + 1) * 4 + lr ! (3 * j + 2))) [0..<27] @ ''='')"

definition sha1_with_magic :: "string \<Rightarrow> string" where
  "sha1_with_magic key =
     (if length key + length magic \<ge> 64 then []
      else let message = message_block key in
        base64_text (process_chunk (process_chunk initial_hash (take 64 message)) (drop 64 message)))"

section \<open>The standards\<close>

definition ROTL :: "nat \<Rightarrow> 32 word \<Rightarrow> 32 word" where
  "ROTL n x = word_rotl n x"

definition Ch :: "32 word \<Rightarrow> 32 word \<Rightarrow> 32 word \<Rightarrow> 32 word" where
  "Ch x y z = (x AND y) XOR (NOT x AND z)"

definition Parity :: "32 word \<Rightarrow> 32 word \<Rightarrow> 32 word \<Rightarrow> 32 word" where
  "Parity x y z = x XOR y XOR z"

definition Maj :: "32 word \<Rightarrow> 32 word \<Rightarrow> 32 word \<Rightarrow> 32 word" where
  "Maj x y z = (x AND y) XOR (x AND z) XOR (y AND z)"

definition sha_f :: "nat \<Rightarrow> 32 word \<Rightarrow> 32 word \<Rightarrow> 32 word \<Rightarrow> 32 word" where
  "sha_f t = (if t \<le> 19 then Ch else if t \<le> 39 then Parity else if t \<le> 59 then Maj else Parity)"

definition sha_K :: "nat \<Rightarrow> 32 word" where
  "sha_K t = (if t \<le> 19 then 0x5a827999 else if t \<le> 39 then 0x6ed9eba1 else if t \<le> 59 then 0x8f1bbcdc else 0xca62c1d6)"

fun schedule_word :: "byte list \<Rightarrow> nat \<Rightarrow> 32 word" where
  "schedule_word M t =
     (if t < 16 then be_dec (take 4 (drop (4 * t) M))
      else ROTL 1 (schedule_word M (t - 3) XOR schedule_word M (t - 8) XOR schedule_word M (t - 14) XOR schedule_word M (t - 16)))"

declare schedule_word.simps [simp del]

definition SHA1_block :: "digest \<Rightarrow> byte list \<Rightarrow> digest" where
  "SHA1_block H M = add_digest H (foldl (\<lambda>(a, b, c, d, e) t.
     (ROTL 5 a + sha_f t b c d + e + sha_K t + schedule_word M t, a, ROTL 30 b, c, d)) H [0..<80])"

fun blocks :: "byte list \<Rightarrow> byte list list" where
  "blocks M = (if length M < 64 then [] else take 64 M # blocks (drop 64 M))"

declare blocks.simps [simp del]

definition SHA1_pad :: "byte list \<Rightarrow> byte list" where
  "SHA1_pad M = M @ [0x80] @ replicate ((119 - length M mod 64) mod 64) 0 @ be_enc 8 (word_of_nat (8 * length M) :: 64 word)"

definition SHA1 :: "byte list \<Rightarrow> byte list" where
  "SHA1 M = concat (map (be_enc 4) (digest_list (foldl SHA1_block initial_hash (blocks (SHA1_pad M)))))"

fun base64 :: "byte list \<Rightarrow> string" where
  "base64 (a # b # c # rest) =
     BASE64CONVERT ! (unat a div 4) # BASE64CONVERT ! (unat a mod 4 * 16 + unat b div 16) #
     BASE64CONVERT ! (unat b mod 16 * 4 + unat c div 64) # BASE64CONVERT ! (unat c mod 64) # base64 rest"
| "base64 [a, b] =
     [BASE64CONVERT ! (unat a div 4), BASE64CONVERT ! (unat a mod 4 * 16 + unat b div 16), BASE64CONVERT ! (unat b mod 16 * 4), CHR ''='']"
| "base64 [a] = [BASE64CONVERT ! (unat a div 4), BASE64CONVERT ! (unat a mod 4 * 16), CHR ''='', CHR ''='']"
| "base64 [] = []"

section \<open>The code computes the standards\<close>

lemma left_rotate: "0 < b \<Longrightarrow> b < 32 \<Longrightarrow> left_rotate n b = ROTL b n"
proof (rule bit_word_eqI)
  fix k assume b: "0 < b" "b < 32" "k < LENGTH(32)"
  have idx: "(k + (32 - b)) mod 32 = (if k < b then k + 32 - b else k - b)"
  proof (cases "k < b")
    case False
    then have "k + (32 - b) = (k - b) + 32" using b(2) by simp
    moreover have "(k - b + 32) mod 32 = k - b" using b(3) by (simp add: mod_add_self2)
    ultimately show ?thesis using False by simp
  qed (use b in simp)
  then have idx': "(32 + k - b) mod 32 = (if k < b then 32 + k - b else k - b)"
    using b by (simp add: add.commute)
  show "bit (left_rotate n b) k \<longleftrightarrow> bit (ROTL b n) k"
    using b unfolding left_rotate_def ROTL_def bit_word_rotl_iff
    by (cases "k < b") (auto simp: bit_simps idx' add.commute [of k 32] dest: bit_imp_le_length)
qed

lemma choose_eq: "d XOR (b AND (c XOR d)) = Ch b c d"
  unfolding Ch_def by (rule bit_word_eqI) (auto simp: bit_simps)

lemma maj_eq: "(b AND c) OR (b AND d) OR (c AND d) = Maj b c d"
  unfolding Maj_def by (rule bit_word_eqI) (auto simp: bit_simps)

lemma round_eq:
  "i < 80 \<Longrightarrow> w ! i = schedule_word M i \<Longrightarrow>
   sha1_round w (a, b, c, d, e) i = (ROTL 5 a + sha_f i b c d + e + sha_K i + schedule_word M i, a, ROTL 30 b, c, d)"
  by (simp add: sha1_round_def sha_f_def sha_K_def left_rotate choose_eq maj_eq Parity_def)

lemma add_byte: "push_bit 8 s + (ucast (x :: byte) AND 0xff) = push_bit 8 s OR (ucast x :: 32 word)"
proof -
  have "(ucast x AND 0xff :: 32 word) = ucast x"
    by (rule bit_word_eqI) (auto simp: byte_masks bit_simps dest: bit_imp_le_length)
  moreover have "push_bit 8 s + (ucast x :: 32 word) = push_bit 8 s OR ucast x"
    by (rule disjunctive_add_eq_or, rule bit_word_eqI) (auto simp: bit_simps dest: bit_imp_le_length)
  ultimately show ?thesis by simp
qed

lemma upt_0_4: "[0..<4] = [0, 1, 2, 3 :: nat]" by (simp add: upt_conv_Cons)

lemma four_bytes:
  assumes "k + 4 \<le> length M"
  shows "take 4 (drop k M) = [M ! k, M ! (k + 1), M ! (k + 2), M ! (k + 3)]"
proof -
  have "drop k M = M ! k # M ! (k + 1) # M ! (k + 2) # M ! (k + 3) # drop (k + 4) M"
    using assms by (simp add: Cons_nth_drop_Suc numeral_eq_Suc)
  then show ?thesis by simp
qed

lemma chunk_word_eq:
  assumes "i < 16" "length M = 64"
  shows "chunk_word M i = schedule_word M i"
proof -
  have "take 4 (drop (4 * i) M) = [M ! (i * 4), M ! (i * 4 + 1), M ! (i * 4 + 2), M ! (i * 4 + 3)]"
    using four_bytes [of "4 * i" M] assms by (simp add: mult.commute)
  then show ?thesis
    using assms(1) by (simp add: chunk_word_def schedule_word.simps [of M i] be_dec_def upt_0_4 add_byte or.commute)
qed

lemma foldl_fill:
  "n \<le> length xs \<Longrightarrow> foldl (\<lambda>w i. w[i := f i]) xs [0..<n] = map f [0..<n] @ drop n xs"
proof (induction n)
  case (Suc n)
  then show ?case by (simp add: list_update_append Cons_nth_drop_Suc [symmetric])
qed simp

lemma chunk_words_eq:
  assumes "length M = 64"
  shows "i < 80 \<Longrightarrow> chunk_words M ! i = schedule_word M i"
proof -
  define w0 where "w0 = foldl (\<lambda>w i. w[i := chunk_word M i]) (replicate 80 0) [0..<16]"
  define extend where "extend = (\<lambda>(w :: 32 word list) i. w[i := left_rotate (w ! (i - 3) XOR w ! (i - 8) XOR w ! (i - 14) XOR w ! (i - 16)) 1])"
  have w0: "w0 = map (chunk_word M) [0..<16] @ replicate 64 0"
    by (simp add: w0_def foldl_fill)
  have step: "length (foldl extend w0 [16..<16 + n]) = 80 \<and>
      (\<forall>i < 16 + n. foldl extend w0 [16..<16 + n] ! i = schedule_word M i)" if "n \<le> 64" for n
    using that
  proof (induction n)
    case 0
    then show ?case using assms by (simp add: w0 nth_append chunk_word_eq)
  next
    case (Suc n)
    define w where "w = foldl extend w0 [16..<16 + n]"
    have ih: "length w = 80" "i < 16 + n \<Longrightarrow> w ! i = schedule_word M i" for i
      using Suc by (simp_all add: w_def)
    have "foldl extend w0 [16..<16 + Suc n] = extend w (16 + n)"
      using upt_Suc_append [of 16 "16 + n"] by (simp add: w_def del: upt_Suc)
    also have "\<dots> = w[16 + n := schedule_word M (16 + n)]"
      using ih Suc.prems by (simp add: extend_def left_rotate schedule_word.simps [of M "16 + n"])
    finally have "foldl extend w0 [16..<16 + Suc n] = w[16 + n := schedule_word M (16 + n)]" .
    then show ?case using ih Suc.prems by (auto simp: nth_list_update less_Suc_eq)
  qed
  have eighty: "(80 :: nat) = 16 + 64" by simp
  have chunks: "chunk_words M = foldl extend w0 [16..<16 + 64]"
    unfolding chunk_words_def w0_def extend_def eighty by (rule refl)
  from step [OF order_refl] show "i < 80 \<Longrightarrow> chunk_words M ! i = schedule_word M i"
    unfolding chunks eighty by blast
qed

lemma process_chunk_eq:
  assumes "length M = 64"
  shows "process_chunk H M = SHA1_block H M"
  unfolding process_chunk_def SHA1_block_def
  by (intro arg_cong [where f = "add_digest H"] foldl_cong) (auto simp: round_eq chunk_words_eq [OF assms])

lemma blocks_two: "length M = 128 \<Longrightarrow> blocks M = [take 64 M, drop 64 M]"
  by (simp add: blocks.simps)

lemma length_magic: "length magic = 36"
  by (simp add: magic_def)

lemma message_block_eq:
  assumes "20 \<le> length k" "length k < 28"
  shows "message_block k = SHA1_pad (bytes_of (k @ magic))" "length (message_block k) = 128"
proof -
  have zeros: "replicate (m + 6) (0 :: byte) = replicate m 0 @ [0, 0, 0, 0, 0, 0]" for m
    by (subst replicate_add) (simp add: numeral_eq_Suc)
  have "length k \<in> {20, 21, 22, 23, 24, 25, 26, 27}" using assms by auto
  then show "message_block k = SHA1_pad (bytes_of (k @ magic))" "length (message_block k) = 128"
    by (auto simp: message_block_def SHA1_pad_def length_magic be_enc_def le_enc8 Let_def
      zeros [of 56, simplified] zeros [of 57, simplified] zeros [of 58, simplified] zeros [of 59, simplified]
      zeros [of 60, simplified] zeros [of 61, simplified] zeros [of 62, simplified] zeros [of 63, simplified])
qed

text \<open>Base 64 by pairs of bits.\<close>

definition crumbs :: "byte \<Rightarrow> nat list" where
  "crumbs b = [unat b div 64, unat b div 16 mod 4, unat b div 4 mod 4, unat b mod 4]"

fun sextets :: "nat list \<Rightarrow> string" where
  "sextets (x # y # z # r) = BASE64CONVERT ! (x * 16 + y * 4 + z) # sextets r"
| "sextets _ = []"

lemma sextets_take:
  "3 * n \<le> length xs \<Longrightarrow>
   map (\<lambda>j. BASE64CONVERT ! (xs ! (3 * j) * 16 + xs ! (3 * j + 1) * 4 + xs ! (3 * j + 2))) [0..<n] = sextets (take (3 * n) xs)"
proof (induction n arbitrary: xs)
  case (Suc n)
  then obtain x y z r where xs: "xs = x # y # z # r" "3 * n \<le> length r"
    by (cases xs; cases "tl xs"; cases "tl (tl xs)") auto
  have "map (\<lambda>j. BASE64CONVERT ! (xs ! (3 * j) * 16 + xs ! (3 * j + 1) * 4 + xs ! (3 * j + 2))) [0..<Suc n] =
    BASE64CONVERT ! (x * 16 + y * 4 + z) #
    map (\<lambda>j. BASE64CONVERT ! (r ! (3 * j) * 16 + r ! (3 * j + 1) * 4 + r ! (3 * j + 2))) [0..<n]"
    by (simp add: map_upt_Suc xs del: upt_Suc)
  moreover have "take (3 * Suc n) xs = x # y # z # take (3 * n) r"
    by (simp add: xs take_Cons' numeral_eq_Suc)
  ultimately show ?case using Suc.IH [OF xs(2)] by (simp del: upt_Suc)
qed simp

lemma two_crumbs: "x div 4 mod 4 * 4 + x mod 4 = x mod (16 :: nat)"
  using mod_mult2_eq [of x 4 4] by simp

lemma sextet_eqs:
  fixes a b c :: nat
  shows "a div 64 * 16 + a div 16 mod 4 * 4 + a div 4 mod 4 = a div 4"
    and "a mod 4 * 16 + b div 64 * 4 + b div 16 mod 4 = a mod 4 * 16 + b div 16"
    and "b div 4 mod 4 * 16 + b mod 4 * 4 + c div 64 = b mod 16 * 4 + c div 64"
    and "c div 16 mod 4 * 16 + c div 4 mod 4 * 4 + c mod 4 = c mod 64"
proof -
  have "a div 64 = a div 4 div 16" "a div 16 = a div 4 div 4" by (simp_all flip: div_mult2_eq)
  then show "a div 64 * 16 + a div 16 mod 4 * 4 + a div 4 mod 4 = a div 4"
    using two_crumbs [of "a div 4"] div_mult_mod_eq [of "a div 4" 16] by (simp add: add.assoc)
  have "b div 64 = b div 16 div 4" by (simp flip: div_mult2_eq)
  then show "a mod 4 * 16 + b div 64 * 4 + b div 16 mod 4 = a mod 4 * 16 + b div 16"
    using div_mult_mod_eq [of "b div 16" 4] by simp
  show "b div 4 mod 4 * 16 + b mod 4 * 4 + c div 64 = b mod 16 * 4 + c div 64"
    using two_crumbs [of b] by simp
  have "c div 16 = c div 4 div 4" by (simp flip: div_mult2_eq)
  then show "c div 16 mod 4 * 16 + c div 4 mod 4 * 4 + c mod 4 = c mod 64"
    using two_crumbs [of "c div 4"] mod_mult2_eq [of c 4 16] by simp
qed

lemma base64_sextets:
  "length bs mod 3 = 2 \<Longrightarrow> base64 bs = sextets (concat (map crumbs bs) @ [0]) @ ''=''"
proof (induction bs rule: base64.induct)
  case (1 a b c rest)
  have "length (a # b # c # rest) = length rest + 3" by simp
  then have "length rest mod 3 = 2" using 1(2) by (metis mod_add_self2)
  then show ?case using 1(1) by (simp add: crumbs_def sextet_eqs)
next
  case (2 a b)
  show ?case using sextet_eqs(3) [of "unat b" 0] by (simp add: crumbs_def sextet_eqs)
qed simp_all

lemma crumb_of_byte:
  fixes x :: nat
  shows "x mod 256 div 64 = x div 64 mod 4" "x mod 256 div 16 mod 4 = x div 16 mod 4"
    "x mod 256 div 4 mod 4 = x div 4 mod 4" "x mod 256 mod 4 = x mod 4"
proof -
  have "x mod 256 = 64 * (x div 64 mod 4) + x mod 64" using mod_mult2_eq [of x 64 4] by simp
  then show "x mod 256 div 64 = x div 64 mod 4" by simp
  have "x mod 256 = 16 * (x div 16 mod 16) + x mod 16" using mod_mult2_eq [of x 16 16] by simp
  then show "x mod 256 div 16 mod 4 = x div 16 mod 4" by (simp add: mod_mod_cancel)
  have "x mod 256 = 4 * (x div 4 mod 64) + x mod 4" using mod_mult2_eq [of x 4 64] by simp
  then show "x mod 256 div 4 mod 4 = x div 4 mod 4" by (simp add: mod_mod_cancel)
  show "x mod 256 mod 4 = x mod 4" by (simp add: mod_mod_cancel)
qed

lemma and_3: "unat (w AND 3 :: 32 word) = unat w mod 4"
proof -
  have "w AND 3 = take_bit 2 w" by (simp add: take_bit_eq_mask mask_eq_exp_minus_1)
  then show ?thesis by (simp add: unat_mod take_bit_eq_mod)
qed

lemma unat_byte: "unat (ucast (w :: 32 word) :: byte) = unat w mod 256"
  by (simp add: unsigned_ucast_eq take_bit_eq_mod)

lemma upt_0_16: "[0..<16] = [0, 1, 2, 3, 4, 5, 6, 7, 8, 9, 10, 11, 12, 13, 14, 15 :: nat]"
  by (simp add: upt_conv_Cons)

lemma left_right_crumbs: "left_right h = concat (map crumbs (be_enc 4 h))"
proof -
  have "unat h div 1073741824 mod 4 = unat h div 16777216 div 64 mod 4" by (simp flip: div_mult2_eq)
  then show ?thesis
    by (simp add: left_right_def upt_0_16 be_enc_def le_enc4 crumbs_def unat_byte crumb_of_byte and_3 unat_drop div_mult2_eq [symmetric])
qed

lemma base64_text_eq: "base64_text H = base64 (concat (map (be_enc 4) (digest_list H)))"
proof -
  obtain a b c d e where H: "H = (a, b, c, d, e)" by (cases H)
  define bs where "bs = concat (map (be_enc 4) (digest_list H))"
  have "length bs = 20" by (simp add: bs_def H digest_list_def be32.length_enc)
  have lr: "concat (map left_right (digest_list H)) = concat (map crumbs bs)"
    by (simp add: bs_def H digest_list_def left_right_crumbs)
  have len: "length (concat (map crumbs xs)) = 4 * length xs" for xs
    by (induction xs) (simp_all add: crumbs_def)
  show ?thesis
    using base64_sextets [of bs] \<open>length bs = 20\<close> sextets_take [of 27 "concat (map crumbs bs) @ replicate 4 0"]
    by (simp add: base64_text_def lr Let_def bs_def [symmetric] len)
qed

text \<open>C32: for a key of 20 to 27 characters (that of a web socket handshake has 24) the answer is the base 64
  text of the SHA-1 digest of the key followed by the fixed text; a longer key is refused with an empty
  answer.\<close>

theorem sha1_with_magic_correct:
  assumes "20 \<le> length k"
  shows "sha1_with_magic k = (if length k < 28 then base64 (SHA1 (bytes_of (k @ magic))) else [])"
  using message_block_eq [OF assms]
  by (simp add: sha1_with_magic_def length_magic Let_def base64_text_eq SHA1_def process_chunk_eq blocks_two)

theorem sha1_with_magic_correct_witness:
  "sha1_with_magic ''dGhlIHNhbXBsZSBub25jZQ=='' = base64 (SHA1 (bytes_of (''dGhlIHNhbXBsZSBub25jZQ=='' @ magic)))"
  using sha1_with_magic_correct [of "''dGhlIHNhbXBsZSBub25jZQ==''"] by simp

end
