(* ===== verification/Properties.thy ===== *)
theory Properties
  imports Services
begin

text \<open>
  The list of services a client can ask for and the properties of services
  (src/src/properties.cpp). A property string is \<open>;attr:value;attr:value;...;\<close> where backslashes escape
  the special characters of a value. A pointer into such a string is an index. At the end the
  strings are related to association lists of attributes and values, on which the operations are
  lookup, update and deletion.
\<close>

section \<open>The list of services\<close>

record service_info =
  sip_name :: string
  sip_service_type :: int
  sip_process :: string
  sip_properties :: "string option"

text \<open>The status values of src/src/o2.h.\<close>

abbreviation (input) O2_LOCAL :: int where "O2_LOCAL \<equiv> 4"
abbreviation (input) O2_REMOTE :: int where "O2_REMOTE \<equiv> 5"
abbreviation (input) O2_BRIDGE :: int where "O2_BRIDGE \<equiv> 6"
abbreviation (input) O2_TO_OSC :: int where "O2_TO_OSC \<equiv> 7"
abbreviation (input) O2_TAP :: int where "O2_TAP \<equiv> 8"

definition provider_type :: "O2_context \<Rightarrow> svc_node \<Rightarrow> int" where
  "provider_type c n = (case n of
     Local _ \<Rightarrow> O2_LOCAL
   | Proxy p \<Rightarrow> if kind (proxies c p) = PROC then O2_REMOTE
                else if kind (proxies c p) = BRIDGE then O2_BRIDGE
                else if kind (proxies c p) \<in> {OSC_UDP_CLIENT, OSC_TCP_CLIENT} then O2_TO_OSC
                else O2_LOCAL)"

definition entry_infos :: "O2_context \<Rightarrow> string \<times> Services_entry \<Rightarrow> service_info list" where
  "entry_infos c = (\<lambda>(k, ss).
     (if length (services ss) > 0 then
        let spp = services ss ! 0 in
        [\<lparr>sip_name = k, sip_service_type = provider_type c (service spp),
          sip_process = get_proc_name c (service spp), sip_properties = properties spp\<rparr>]
      else []) @
     map (\<lambda>stp. \<lparr>sip_name = k, sip_service_type = O2_TAP,
            sip_process = (if key (proxies c (tap_proc stp)) \<noteq> [] then key (proxies c (tap_proc stp)) else ''local''),
            sip_properties = Some (tapper stp)\<rparr>) (taps ss))"

definition o2_services_list_free :: "service_info list \<Rightarrow> O2err \<times> service_info list" where
  "o2_services_list_free service_list = (O2_SUCCESS, [])"

definition o2_services_list :: "O2_context \<Rightarrow> service_info list \<Rightarrow> O2err \<times> service_info list" where
  "o2_services_list c service_list =
     (if \<not> ensemble c then (O2_NOT_INITIALIZED, service_list)
      else let service_list = snd (o2_services_list_free service_list) in
        (O2_SUCCESS, service_list @ concat (map (entry_infos c) (entries (path_tree c)))))"

definition in_range :: "int \<Rightarrow> service_info list \<Rightarrow> bool" where
  "in_range i sl \<longleftrightarrow> i \<ge> 0 \<and> i < int (length sl)"

definition o2_service_name :: "service_info list \<Rightarrow> int \<Rightarrow> string option" where
  "o2_service_name sl i = (if in_range i sl then Some (sip_name (sl ! nat i)) else None)"

definition o2_service_type :: "service_info list \<Rightarrow> int \<Rightarrow> int" where
  "o2_service_type sl i = (if in_range i sl then sip_service_type (sl ! nat i) else O2err_value O2_FAIL)"

definition o2_service_process :: "service_info list \<Rightarrow> int \<Rightarrow> string option" where
  "o2_service_process sl i = (if in_range i sl then Some (sip_process (sl ! nat i)) else None)"

definition o2_service_tapper :: "service_info list \<Rightarrow> int \<Rightarrow> string option" where
  "o2_service_tapper sl i =
     (if in_range i sl then
        if sip_service_type (sl ! nat i) \<noteq> O2_TAP then None else sip_properties (sl ! nat i)
      else None)"

text \<open>The returned pointer is just after the semicolon the string starts with; here it is that whole string.\<close>

definition o2_service_properties :: "service_info list \<Rightarrow> int \<Rightarrow> string option" where
  "o2_service_properties sl i =
     (if in_range i sl then
        if sip_service_type (sl ! nat i) = O2_TAP then None
        else Some (case sip_properties (sl ! nat i) of Some ps \<Rightarrow> ps | None \<Rightarrow> '';'')
      else None)"

section \<open>Property strings\<close>

abbreviation (input) MAX_SERVICE_LEN :: nat where "MAX_SERVICE_LEN \<equiv> 64"
abbreviation (input) O2_MAX_MSG_SIZE :: nat where "O2_MAX_MSG_SIZE \<equiv> 32768"

definition starts_with :: "string \<Rightarrow> string \<Rightarrow> bool" where
  "starts_with pat s \<longleftrightarrow> take (length pat) s = pat"

text \<open>C's \<open>strstr\<close>: the index of the first occurrence.\<close>

fun strstr :: "string \<Rightarrow> string \<Rightarrow> nat option" where
  "strstr s pat = (if starts_with pat s then Some 0
                   else case s of [] \<Rightarrow> None | _ # s' \<Rightarrow> map_option Suc (strstr s' pat))"

declare strstr.simps [simp del]

definition find_attribute_end :: "string \<Rightarrow> string option \<Rightarrow> nat option" where
  "find_attribute_end attr props = (case props of None \<Rightarrow> None
     | Some s \<Rightarrow> let len = length attr in
         if len + 3 > MAX_SERVICE_LEN then None
         else map_option (\<lambda>loc. loc + len + 2) (strstr s ('';'' @ attr @ '':'')))"

text \<open>\<open>None\<close>: a backslash is the last character, the loop steps over the end of the string.\<close>

fun value_len :: "string \<Rightarrow> nat option" where
  "value_len [] = Some 0"
| "value_len (c # s) =
     (if c = CHR '';'' then Some 0
      else if c = CHR 0x5C then (case s of [] \<Rightarrow> None | _ # s' \<Rightarrow> map_option ((+) 2) (value_len s'))
      else map_option Suc (value_len s))"

definition special :: "char \<Rightarrow> bool" where
  "special c \<longleftrightarrow> c = CHR 0x5C \<or> c = CHR '':'' \<or> c = CHR '';''"

definition value_encoded_len :: "string \<Rightarrow> nat" where
  "value_encoded_len v = foldl (\<lambda>len c. (if special c then len + 1 else len) + 1) 0 v"

text \<open>The copy without escape characters; \<open>value_len\<close> never stops after one.\<close>

fun remove_escapes :: "string \<Rightarrow> string" where
  "remove_escapes (c # s) =
     (if c = CHR 0x5C then (case s of [] \<Rightarrow> [] | d # s' \<Rightarrow> d # remove_escapes s') else c # remove_escapes s)"
| "remove_escapes [] = []"

definition getprop :: "string \<Rightarrow> string \<Rightarrow> string option" where
  "getprop attr p =
     Option.bind (find_attribute_end attr (Some p)) (\<lambda>loc.
     map_option (\<lambda>len. remove_escapes (take len (drop loc p))) (value_len (drop loc p)))"

definition o2_service_getprop :: "service_info list \<Rightarrow> int \<Rightarrow> string \<Rightarrow> string option" where
  "o2_service_getprop sl i attr = Option.bind (o2_service_properties sl i) (getprop attr)"

definition property_matches :: "string \<Rightarrow> string \<Rightarrow> string \<Rightarrow> bool" where
  "property_matches attr val p =
     (case find_attribute_end attr (Some p) of None \<Rightarrow> False
      | Some v \<Rightarrow> (case value_len (drop v p) of None \<Rightarrow> False
         | Some len \<Rightarrow> (case strstr (drop (v - 1) p) val of None \<Rightarrow> False
            | Some loc \<Rightarrow> v - 1 + loc \<le> v + len)))"

function o2_service_search :: "service_info list \<Rightarrow> int \<Rightarrow> string \<Rightarrow> string \<Rightarrow> int" where
  "o2_service_search sl i attr val =
     (if in_range i sl then
        if (case o2_service_properties sl i of None \<Rightarrow> False | Some p \<Rightarrow> property_matches attr val p) then i
        else o2_service_search sl (i + 1) attr val
      else -1)"
  by auto
termination
  by (relation "measure (\<lambda>(sl, i, _, _). nat (int (length sl) - i))") (auto simp: in_range_def)

declare o2_service_search.simps [simp del]

section \<open>Changing properties\<close>

definition encode_value :: "string \<Rightarrow> string" where
  "encode_value v = concat (map (\<lambda>c. if special c then [CHR 0x5C, c] else [c]) v)"

text \<open>The string with the attribute spliced out, when it is there. \<open>None\<close>: nothing is changed.\<close>

definition service_property_free :: "string option \<Rightarrow> string \<Rightarrow> string option" where
  "service_property_free props attr =
     Option.bind (find_attribute_end attr props) (\<lambda>attr_end.
     Option.bind props (\<lambda>s.
     map_option (\<lambda>len. take (attr_end - length attr - 1) s @ drop (attr_end + len + 1) s)
       (value_len (drop attr_end s))))"

definition o2_status :: "string option \<Rightarrow> O2_context \<Rightarrow> int option" where
  "o2_status name c =
     (if \<not> ensemble c then Some (O2err_value O2_NOT_INITIALIZED)
      else case name of None \<Rightarrow> Some (O2err_value O2_BAD_NAME)
      | Some s \<Rightarrow> if s = [] \<or> CHR ''/'' \<in> set s \<or> CHR ''!'' \<in> set s then Some (O2err_value O2_BAD_NAME)
          else map_option (\<lambda>(entry, _). case entry of Some n \<Rightarrow> node_status c n | None \<Rightarrow> O2_UNKNOWN) (service_find s c))"

text \<open>The provider is element \<open>i\<close> of the entry that \<open>find\<close> finds under the padded name.\<close>

definition set_props :: "nat \<Rightarrow> string \<Rightarrow> string option \<Rightarrow> O2_context \<Rightarrow> O2_context option" where
  "set_props i name props c =
     map_option (\<lambda>ss. set_entry (o2_string_pad name)
         (Services_entry ((services ss)[i := Service_provider (service (services ss ! i)) props]) (taps ss)) c)
       (find_services name c)"

definition o2_set_service_properties :: "nat \<Rightarrow> string \<Rightarrow> string option \<Rightarrow> O2_context \<Rightarrow> O2_context option" where
  "o2_set_service_properties i name props c =
     Option.bind (set_props i name props c) (\<lambda>c.
     let c = log_event (Notify_properties name props) c in
     if key (proxies c local_proc) \<noteq> [] then
       map_option (\<lambda>st. log_event (Send_si name st (key (proxies c local_proc))
           (case props of Some p \<Rightarrow> tl p | None \<Rightarrow> [])) c) (o2_status (Some name) c)
     else Some c)"

text \<open>The new string of a property that is added.\<close>

definition prepend_property :: "string \<Rightarrow> string \<Rightarrow> string option \<Rightarrow> string option" where
  "prepend_property attr val p =
     (let old_p = (case p of Some s \<Rightarrow> s | None \<Rightarrow> '';'') in
      if length attr + value_encoded_len val + length old_p + 3 > O2_MAX_MSG_SIZE then None
      else Some ('';'' @ attr @ '':'' @ encode_value val @ '';'' @ tl old_p))"

definition service_property_add :: "nat \<Rightarrow> string \<Rightarrow> string \<Rightarrow> string option \<Rightarrow> O2_context \<Rightarrow> O2_context option" where
  "service_property_add i name attr val c =
     Option.bind (find_services name c) (\<lambda>ss.
     let freed = service_property_free (properties (services ss ! i)) attr;
         changed = (freed \<noteq> None);
         p = (if changed then freed else properties (services ss ! i)) in
     Option.bind (if changed then set_props i name p c else Some c) (\<lambda>c.
     case val of
       Some v \<Rightarrow> (case prepend_property attr v p of
           None \<Rightarrow> Some c
         | Some p' \<Rightarrow> o2_set_service_properties i name (Some p') c)
     | None \<Rightarrow> if changed then o2_set_service_properties i name p c else Some c))"

definition o2_service_set_property :: "string \<Rightarrow> string \<Rightarrow> string option \<Rightarrow> O2_context \<Rightarrow>
    (O2err \<times> O2_context) option" where
  "o2_service_set_property name attr val c =
     (if \<not> ensemble c then Some (O2_NOT_INITIALIZED, c)
      else case Option.bind (find_services name c) (proc_service_index c local_proc) of
        Some i \<Rightarrow> map_option (\<lambda>c. (O2_SUCCESS, c)) (service_property_add i name attr val c)
      | None \<Rightarrow> Some (O2_FAIL, c))"

definition o2_service_property_free :: "string \<Rightarrow> string \<Rightarrow> O2_context \<Rightarrow> (O2err \<times> O2_context) option" where
  "o2_service_property_free name attr c = o2_service_set_property name attr None c"

section \<open>What a property string stands for\<close>

definition plain :: "string \<Rightarrow> bool" where
  "plain a \<longleftrightarrow> (\<forall>c \<in> set a. \<not> special c)"

definition encode_pair :: "string \<times> string \<Rightarrow> string" where
  "encode_pair = (\<lambda>(a, v). a @ '':'' @ encode_value v @ '';'')"

definition encode_props :: "(string \<times> string) list \<Rightarrow> string" where
  "encode_props ps = '';'' @ concat (map encode_pair ps)"

definition props_ok :: "(string \<times> string) list \<Rightarrow> bool" where
  "props_ok ps \<longleftrightarrow> distinct (map fst ps) \<and> (\<forall>(a, v) \<in> set ps. plain a)"

definition remove_key :: "string \<Rightarrow> (string \<times> string) list \<Rightarrow> (string \<times> string) list" where
  "remove_key a ps = filter (\<lambda>(b, v). b \<noteq> a) ps"

lemma encode_value_simps [simp]:
  "encode_value [] = []"
  "encode_value (c # v) = (if special c then CHR 0x5C # c # encode_value v else c # encode_value v)"
  by (simp_all add: encode_value_def)

lemma encoded_len: "value_encoded_len v = length (encode_value v)"
proof -
  have "foldl (\<lambda>len c. (if special c then len + 1 else len) + 1) n v = n + length (encode_value v)" for n
    by (induction v arbitrary: n) simp_all
  then show ?thesis by (simp add: value_encoded_len_def)
qed

lemma value_len_encoded: "value_len (encode_value v @ CHR '';'' # r) = Some (length (encode_value v))"
  by (induction v) (auto simp: special_def)

lemma remove_escapes_encoded: "remove_escapes (encode_value v) = v"
  by (induction v) (auto simp: special_def)

subsection \<open>Searching\<close>

lemma starts_with_simps [simp]:
  "starts_with [] s" "\<not> starts_with (x # xs) []" "starts_with (x # xs) (y # s) \<longleftrightarrow> x = y \<and> starts_with xs s"
  by (auto simp: starts_with_def)

lemma strstr_skip:
  "(\<And>n. n < length xs \<Longrightarrow> \<not> starts_with pat (drop n (xs @ s))) \<Longrightarrow>
   strstr (xs @ s) pat = map_option ((+) (length xs)) (strstr s pat)"
proof (induction xs)
  case Nil
  then show ?case by (cases "strstr s pat") simp_all
next
  case (Cons x xs)
  have "\<not> starts_with pat (x # xs @ s)" using Cons.prems [of 0] by simp
  moreover have "strstr (xs @ s) pat = map_option ((+) (length xs)) (strstr s pat)"
  proof (rule Cons.IH)
    fix n assume "n < length xs"
    then show "\<not> starts_with pat (drop n (xs @ s))" using Cons.prems [of "Suc n"] by simp
  qed
  ultimately show ?case
    by (cases "strstr s pat") (simp_all add: strstr.simps [of "x # xs @ s"])
qed

lemma plain_Cons [simp]: "plain (c # a) \<longleftrightarrow> \<not> special c \<and> plain a"
  by (auto simp: plain_def)

lemma not_in_value:
  "plain attr \<Longrightarrow> \<not> starts_with (attr @ '':'') (encode_value v @ CHR '';'' # r)"
proof (induction attr arbitrary: v)
  case Nil
  then show ?case by (cases v) (auto simp: special_def)
next
  case (Cons x xs)
  then show ?case by (cases v) (auto simp: special_def)
qed

lemma no_match_in_value:
  assumes "plain attr"
  shows "n < length (encode_value v) \<Longrightarrow>
    \<not> starts_with (CHR '';'' # attr @ '':'') (drop n (encode_value v @ CHR '';'' # r))"
proof (induction v arbitrary: n)
  case (Cons c v)
  show ?case
  proof (cases "special c")
    case True
    consider "n = 0" | "n = 1" | m where "n = Suc (Suc m)" by (cases n; cases "n - 1") auto
    then show ?thesis
      using Cons True not_in_value [OF assms, of v r] by cases auto
  next
    case False
    then show ?thesis using Cons by (cases n) (auto simp: special_def)
  qed
qed simp

lemma same_attr:
  "plain a \<Longrightarrow> plain attr \<Longrightarrow> starts_with (attr @ '':'') (a @ CHR '':'' # r) \<longleftrightarrow> a = attr"
proof (induction attr arbitrary: a)
  case Nil
  then show ?case by (cases a) (auto simp: special_def)
next
  case (Cons x xs)
  then show ?case by (cases a) (auto simp: special_def)
qed

lemma strstr_here:
  "plain a \<Longrightarrow> strstr (CHR '';'' # a @ CHR '':'' # r) (CHR '';'' # a @ '':'') = Some 0"
  using same_attr [of a a] by (simp add: strstr.simps)

lemma strstr_other:
  assumes "plain a" "plain attr" "a \<noteq> attr"
  shows "strstr (CHR '';'' # encode_pair (a, v) @ r) (CHR '';'' # attr @ '':'') =
    map_option ((+) (length (encode_pair (a, v)))) (strstr (CHR '';'' # r) (CHR '';'' # attr @ '':''))"
proof -
  let ?pat = "CHR '';'' # attr @ '':''"
  let ?pre = "CHR '';'' # a @ CHR '':'' # encode_value v" and ?s = "CHR '';'' # r"
  have "strstr (?pre @ ?s) ?pat = map_option ((+) (length ?pre)) (strstr ?s ?pat)"
  proof (rule strstr_skip)
    fix n assume n: "n < length ?pre"
    consider "n = 0" | m where "n = Suc m" "m < length a" | "n = Suc (length a)"
      | m where "n = Suc (Suc (length a)) + m" "m < length (encode_value v)"
      using that(1) that(2) [of "n - 1"] that(3) that(4) [of "n - Suc (Suc (length a))"] n by fastforce
    then show "\<not> starts_with ?pat (drop n (?pre @ ?s))"
    proof cases
      case 1
      then show ?thesis using same_attr [OF assms(1,2)] assms(3) by simp
    next
      case (2 m)
      have "a ! m \<noteq> CHR '';''" using assms(1) 2 by (auto simp: plain_def special_def dest: nth_mem)
      moreover have "drop n (?pre @ ?s) = a ! m # drop (Suc m) a @ CHR '':'' # encode_value v @ ?s"
        using 2 by (simp add: Cons_nth_drop_Suc [symmetric])
      ultimately show ?thesis by simp
    next
      case 3
      then show ?thesis by simp
    next
      case (4 m)
      then show ?thesis using no_match_in_value [OF assms(2) 4(2), of r] by simp
    qed
  qed
  then show ?thesis by (simp add: encode_pair_def)
qed

lemma strstr_skip_pairs:
  assumes "plain attr"
  shows "(\<And>a v. (a, v) \<in> set ps \<Longrightarrow> plain a \<and> a \<noteq> attr) \<Longrightarrow>
    strstr (CHR '';'' # concat (map encode_pair ps) @ r) (CHR '';'' # attr @ '':'') =
    map_option ((+) (length (concat (map encode_pair ps)))) (strstr (CHR '';'' # r) (CHR '';'' # attr @ '':''))"
proof (induction ps)
  case Nil
  then show ?case by (cases "strstr (CHR '';'' # r) (CHR '';'' # attr @ '':'')") simp_all
next
  case (Cons p ps)
  obtain a v where p: "p = (a, v)" by (cases p)
  have a: "plain a" "a \<noteq> attr" using Cons.prems [of a v] by (simp_all add: p)
  have rest: "(b, w) \<in> set ps \<Longrightarrow> plain b \<and> b \<noteq> attr" for b w using Cons.prems [of b w] by simp
  show ?case
    using strstr_other [OF a(1) assms a(2), of v "concat (map encode_pair ps) @ r"] Cons.IH [OF rest]
    by (cases "strstr (CHR '';'' # r) (CHR '';'' # attr @ '':'')") (simp_all add: p)
qed

lemma find_absent:
  assumes "props_ok ps" "plain attr" "attr \<notin> fst ` set ps"
  shows "find_attribute_end attr (Some (encode_props ps)) = None"
proof -
  have "(a, v) \<in> set ps \<Longrightarrow> plain a \<and> a \<noteq> attr" for a v
    using assms(1,3) by (force simp: props_ok_def)
  from strstr_skip_pairs [OF assms(2) this, where r = "[]"] show ?thesis
    by (simp add: find_attribute_end_def encode_props_def Let_def strstr.simps starts_with_def)
qed

lemma find_present:
  assumes "props_ok ps" "ps = before @ (attr, v) # after" "length attr \<le> 61"
  shows "find_attribute_end attr (Some (encode_props ps)) =
      Some (length (concat (map encode_pair before)) + length attr + 2)"
    and "encode_props ps = ('';'' @ concat (map encode_pair before)) @ attr @ '':'' @
      encode_value v @ CHR '';'' # concat (map encode_pair after)"
proof -
  have b: "(a, w) \<in> set before \<Longrightarrow> plain a \<and> a \<noteq> attr" for a w
    using assms(1,2) by (force simp: props_ok_def)
  have p: "plain attr" using assms(1,2) by (simp add: props_ok_def)
  have "strstr (CHR '';'' # attr @ CHR '':'' # r) (CHR '';'' # attr @ '':'') = Some 0" for r
    by (rule strstr_here [OF p])
  then have "strstr (encode_props ps) (CHR '';'' # attr @ '':'') = Some (length (concat (map encode_pair before)))"
    using strstr_skip_pairs [OF p b, where r = "encode_pair (attr, v) @ concat (map encode_pair after)"]
    by (simp add: encode_props_def assms(2) encode_pair_def)
  then show "find_attribute_end attr (Some (encode_props ps)) =
      Some (length (concat (map encode_pair before)) + length attr + 2)"
    using assms(3) by (simp add: find_attribute_end_def Let_def)
  show "encode_props ps = ('';'' @ concat (map encode_pair before)) @ attr @ '':'' @
      encode_value v @ CHR '';'' # concat (map encode_pair after)"
    by (simp add: encode_props_def assms(2) encode_pair_def)
qed

lemma split_props:
  assumes "props_ok ps" "map_of ps attr = Some v"
  obtains before after where "ps = before @ (attr, v) # after" "remove_key attr ps = before @ after"
proof -
  obtain before after where ps: "ps = before @ (attr, v) # after"
    using map_of_SomeD [OF assms(2)] by (auto dest: split_list)
  then have "attr \<notin> fst ` set before" "attr \<notin> fst ` set after"
    using assms(1) by (auto simp: props_ok_def)
  then have "remove_key attr before = before" "remove_key attr after = after"
    by (force simp: remove_key_def filter_id_conv)+
  then show thesis using that ps by (simp add: remove_key_def)
qed

lemma absent_remove: "map_of ps attr = None \<Longrightarrow> remove_key attr ps = ps"
  by (force simp: remove_key_def filter_id_conv map_of_eq_None_iff)

lemma getprop_map:
  assumes "props_ok ps" "plain attr" "length attr \<le> 61"
  shows "getprop attr (encode_props ps) = map_of ps attr"
proof (cases "map_of ps attr")
  case None
  then show ?thesis
    using find_absent [OF assms(1,2)] by (simp add: getprop_def) (simp add: map_of_eq_None_iff)
next
  case (Some v)
  then obtain before after where ps: "ps = before @ (attr, v) # after" by (rule split_props [OF assms(1)])
  note f = find_present [OF assms(1) ps assms(3)]
  have "drop (length (concat (map encode_pair before)) + length attr + 2) (encode_props ps) =
      encode_value v @ CHR '';'' # concat (map encode_pair after)"
    by (simp add: f(2))
  then show ?thesis by (simp add: getprop_def f(1) value_len_encoded remove_escapes_encoded Some)
qed

lemma property_free_map:
  assumes "props_ok ps" "plain attr" "length attr \<le> 61"
  shows "service_property_free (Some (encode_props ps)) attr =
    (if map_of ps attr = None then None else Some (encode_props (remove_key attr ps)))"
proof (cases "map_of ps attr")
  case None
  then show ?thesis
    using find_absent [OF assms(1,2)] by (simp add: service_property_free_def) (simp add: map_of_eq_None_iff)
next
  case (Some v)
  then obtain before after where ps: "ps = before @ (attr, v) # after" "remove_key attr ps = before @ after"
    by (rule split_props [OF assms(1)])
  note f = find_present [OF assms(1) ps(1) assms(3)]
  have "drop (length (concat (map encode_pair before)) + length attr + 2) (encode_props ps) =
      encode_value v @ CHR '';'' # concat (map encode_pair after)"
    "drop (length (concat (map encode_pair before)) + length attr + 2 + length (encode_value v) + 1) (encode_props ps) =
      concat (map encode_pair after)"
    "take (length (concat (map encode_pair before)) + 1) (encode_props ps) = '';'' @ concat (map encode_pair before)"
    by (simp_all add: f(2))
  then show ?thesis
    by (simp add: service_property_free_def f(1) value_len_encoded Some ps(2)) (simp add: encode_props_def)
qed

lemma props_ok_remove: "props_ok ps \<Longrightarrow> props_ok (remove_key a ps)"
  by (auto simp: props_ok_def remove_key_def distinct_map_filter split: prod.splits)

lemma map_of_remove: "map_of (remove_key a ps) = (map_of ps)(a := None)"
  by (induction ps) (auto simp: remove_key_def fun_eq_iff)

lemma prepend_map:
  assumes "length attr + length (encode_value v) + length (encode_props ps) + 3 \<le> O2_MAX_MSG_SIZE"
  shows "prepend_property attr v (Some (encode_props ps)) = Some (encode_props ((attr, v) # ps))"
  using assms by (simp add: prepend_property_def encoded_len encode_props_def encode_pair_def)

lemma prepend_none: "prepend_property attr v None = prepend_property attr v (Some (encode_props []))"
  by (simp add: prepend_property_def encode_props_def)

text \<open>The search returns the first service from \<open>i\<close> on that matches, and -1 when none does.\<close>

definition service_matches :: "service_info list \<Rightarrow> string \<Rightarrow> string \<Rightarrow> int \<Rightarrow> bool" where
  "service_matches sl attr val j =
     (case o2_service_properties sl j of None \<Rightarrow> False | Some p \<Rightarrow> property_matches attr val p)"

lemma service_search_first:
  assumes "0 \<le> i"
  shows "(o2_service_search sl i attr val = -1 \<and> (\<forall>k. i \<le> k \<longrightarrow> k < int (length sl) \<longrightarrow> \<not> service_matches sl attr val k)) \<or>
    (\<exists>j. o2_service_search sl i attr val = j \<and> i \<le> j \<and> j < int (length sl) \<and> service_matches sl attr val j \<and>
       (\<forall>k. i \<le> k \<longrightarrow> k < j \<longrightarrow> \<not> service_matches sl attr val k))"
  using assms
proof (induction sl i attr val rule: o2_service_search.induct)
  case (1 sl i attr val)
  show ?case
  proof (cases "in_range i sl \<and> \<not> service_matches sl attr val i")
    case True
    then have eq: "o2_service_search sl i attr val = o2_service_search sl (i + 1) attr val"
      by (simp add: o2_service_search.simps [of sl i] service_matches_def)
    have later: "i + 1 \<le> k \<or> \<not> service_matches sl attr val k" if "i \<le> k" for k
      using that True by (cases "k = i") auto
    show ?thesis unfolding eq using "1.IH" "1.prems" True later
      by (simp add: service_matches_def) (smt (verit))
  next
    case False
    then show ?thesis using "1.prems"
      by (auto simp: o2_service_search.simps [of sl i] service_matches_def in_range_def)
  qed
qed

section \<open>Setting a property\<close>

definition holds :: "string option \<Rightarrow> (string \<times> string) list \<Rightarrow> bool" where
  "holds props ps \<longleftrightarrow> props_ok ps \<and> (case props of None \<Rightarrow> ps = [] | Some s \<Rightarrow> s = encode_props ps)"

definition with_props :: "nat \<Rightarrow> string option \<Rightarrow> Services_entry \<Rightarrow> Services_entry" where
  "with_props i props ss =
     Services_entry ((services ss)[i := Service_provider (service (services ss ! i)) props]) (taps ss)"

lemma with_props_twice [simp]: "with_props i p (with_props i q ss) = with_props i p ss"
  by (cases "i < length (services ss)") (simp_all add: with_props_def list_update_beyond)

lemma find_services_directory: "ctx_ok c \<Longrightarrow> find_services name c = directory c (o2_string_pad name)"
  by (simp add: find_services_def ctx_ok_def hash_find)

lemma set_props_ok:
  assumes "ctx_ok c" "find_services name c = Some ss"
  obtains c' where "set_props i name props c = Some c'" "ctx_ok c'" "find_services name c' = Some (with_props i props ss)"
    "directory c' = (directory c)(o2_string_pad name \<mapsto> with_props i props ss)"
proof -
  let ?c' = "set_entry (o2_string_pad name) (with_props i props ss) c"
  have dom: "o2_string_pad name \<in> dom (directory c)"
    using assms by (auto simp: find_services_directory)
  note se = set_entry_ok [OF assms(1) dom, of "with_props i props ss"]
  have "set_props i name props c = Some ?c'" by (simp add: set_props_def with_props_def assms(2))
  then show thesis using that se by (simp add: find_services_directory)
qed

lemma log_event_same [simp]:
  "ctx_ok (log_event e c) = ctx_ok c" "directory (log_event e c) = directory c"
  "find_services name (log_event e c) = find_services name c"
  by (simp_all add: log_event_def ctx_ok_def find_services_def)

lemma o2_set_service_properties_ok:
  assumes "ctx_ok c" "find_services name c = Some ss"
  shows "\<exists>c'. o2_set_service_properties i name props c = Some c' \<and> ctx_ok c' \<and>
    directory c' = (directory c)(o2_string_pad name \<mapsto> with_props i props ss)"
proof -
  obtain c1 where c1: "set_props i name props c = Some c1" "ctx_ok c1"
    "find_services name c1 = Some (with_props i props ss)"
    "directory c1 = (directory c)(o2_string_pad name \<mapsto> with_props i props ss)"
    by (rule set_props_ok [OF assms])
  have "o2_status (Some name) (log_event (Notify_properties name props) c1) \<noteq> None"
    using c1(3) by (simp add: o2_status_def service_find_def)
  then obtain st where "o2_status (Some name) (log_event (Notify_properties name props) c1) = Some st" by blast
  then show ?thesis
    using c1 by (simp add: o2_set_service_properties_def Let_def)
qed

lemma property_change:
  assumes "holds props ps" "plain attr" "length attr \<le> 61"
    and "\<And>v. val = Some v \<Longrightarrow> length attr + length (encode_value v) + length (encode_props ps) + 3 \<le> O2_MAX_MSG_SIZE"
    and "freed = service_property_free props attr" "p = (if freed \<noteq> None then freed else props)"
  shows "(freed \<noteq> None \<longleftrightarrow> map_of ps attr \<noteq> None) \<and> holds p (remove_key attr ps) \<and>
    (case val of None \<Rightarrow> True
     | Some v \<Rightarrow> \<exists>p'. prepend_property attr v p = Some p' \<and> holds (Some p') ((attr, v) # remove_key attr ps))"
proof -
  let ?qs = "remove_key attr ps"
  have ok: "props_ok ps" "props_ok ?qs" using assms(1) by (auto simp: holds_def props_ok_remove)
  have "(freed \<noteq> None \<longleftrightarrow> map_of ps attr \<noteq> None) \<and> holds p ?qs"
  proof (cases props)
    case None
    then show ?thesis using assms(1,5,6)
      by (auto simp: holds_def service_property_free_def find_attribute_end_def remove_key_def)
  next
    case (Some s)
    then show ?thesis using assms(1,5,6) property_free_map [OF ok(1) assms(2,3)] absent_remove [of ps attr] ok
      by (auto simp: holds_def)
  qed
  moreover have "case val of None \<Rightarrow> True
     | Some v \<Rightarrow> \<exists>p'. prepend_property attr v p = Some p' \<and> holds (Some p') ((attr, v) # ?qs)"
  proof (cases val)
    case (Some v)
    have shorter: "length (encode_props ?qs) \<le> length (encode_props ps)"
      unfolding encode_props_def remove_key_def by (induction ps) auto
    then have "prepend_property attr v (Some (encode_props ?qs)) = Some (encode_props ((attr, v) # ?qs))"
      using assms(4) [OF Some] by (intro prepend_map) linarith
    moreover have "prepend_property attr v p = prepend_property attr v (Some (encode_props ?qs))"
      using calculation \<open>_ \<and> holds p ?qs\<close> prepend_none by (auto simp: holds_def split: option.splits)
    moreover have "props_ok ((attr, v) # ?qs)"
      using ok(2) assms(2) by (auto simp: props_ok_def remove_key_def)
    ultimately show ?thesis by (simp add: Some holds_def)
  qed simp
  ultimately show ?thesis by simp
qed

text \<open>C29: setting a property of a service this process offers, or removing it (no value), is an update of the map from
  attributes to values: it succeeds, the property string of the provider then stands for the updated
  map, every attribute reads back its value with escapes removed, whatever characters the values contain,
  and nothing else changes in the directory.\<close>

theorem set_property_correct:
  assumes "ctx_ok c" "ensemble c" "find_services name c = Some ss" "proc_service_index c local_proc ss = Some i"
    and "holds (properties (services ss ! i)) ps" "plain attr" "length attr \<le> 61"
    and "\<And>v. val = Some v \<Longrightarrow> length attr + length (encode_value v) + length (encode_props ps) + 3 \<le> 32768"
  shows "\<exists>c' props qs. o2_service_set_property name attr val c = Some (O2_SUCCESS, c') \<and> ctx_ok c' \<and>
    holds props qs \<and> map_of qs = (map_of ps)(attr := val) \<and>
    directory c' = (directory c)(o2_string_pad name \<mapsto> with_props i props ss) \<and>
    (\<forall>a. plain a \<longrightarrow> length a \<le> 61 \<longrightarrow> getprop a (case props of Some s \<Rightarrow> s | None \<Rightarrow> '';'') = ((map_of ps)(attr := val)) a)"
proof -
  define freed where "freed = service_property_free (properties (services ss ! i)) attr"
  define p where "p = (if freed \<noteq> None then freed else properties (services ss ! i))"
  have change: "(freed \<noteq> None \<longleftrightarrow> map_of ps attr \<noteq> None) \<and> holds p (remove_key attr ps) \<and>
    (case val of None \<Rightarrow> True
     | Some v \<Rightarrow> \<exists>p'. prepend_property attr v p = Some p' \<and> holds (Some p') ((attr, v) # remove_key attr ps))"
    by (rule property_change [OF assms(5-7) _ freed_def p_def]) (rule assms(8))
  have dir: "directory c (o2_string_pad name) = Some ss"
    using assms(1,3) by (simp add: find_services_directory)
  have i: "i < length (services ss)"
    using assms(4) by (auto simp: proc_service_index_def find_Some_iff)
  obtain c1 where c1: "(if freed \<noteq> None then set_props i name p c else Some c) = Some c1" "ctx_ok c1"
    "find_services name c1 = Some (with_props i p ss)"
    "directory c1 = (directory c)(o2_string_pad name \<mapsto> with_props i p ss)"
  proof (cases "freed \<noteq> None")
    case True
    then show thesis using set_props_ok [OF assms(1,3), of i p] that by metis
  next
    case False
    then have "with_props i p ss = ss" using i by (simp add: p_def with_props_def)
    then show thesis using that [of c] False assms(1,3) dir by (simp add: fun_upd_idem)
  qed
  have add: "service_property_add i name attr val c =
      (case val of Some v \<Rightarrow> (case prepend_property attr v p of None \<Rightarrow> Some c1
         | Some p' \<Rightarrow> o2_set_service_properties i name (Some p') c1)
       | None \<Rightarrow> if freed \<noteq> None then o2_set_service_properties i name p c1 else Some c1)"
  proof -
    have "service_property_add i name attr val c =
      Option.bind (if freed \<noteq> None then set_props i name p c else Some c) (\<lambda>c.
        case val of Some v \<Rightarrow> (case prepend_property attr v p of None \<Rightarrow> Some c
           | Some p' \<Rightarrow> o2_set_service_properties i name (Some p') c)
         | None \<Rightarrow> if freed \<noteq> None then o2_set_service_properties i name p c else Some c)"
      unfolding service_property_add_def assms(3) freed_def p_def Let_def by simp
    then show ?thesis unfolding c1(1) by simp
  qed
  have "\<exists>c' props qs. service_property_add i name attr val c = Some c' \<and> ctx_ok c' \<and> holds props qs \<and>
      map_of qs = (map_of ps)(attr := val) \<and>
      directory c' = (directory c)(o2_string_pad name \<mapsto> with_props i props ss)"
  proof (cases val)
    case None
    have "\<exists>c'. service_property_add i name attr val c = Some c' \<and> ctx_ok c' \<and>
      directory c' = (directory c)(o2_string_pad name \<mapsto> with_props i p ss)"
    proof (cases "freed = None")
      case True
      then show ?thesis using add c1(2,4) by (simp add: None)
    next
      case False
      then show ?thesis
        using add o2_set_service_properties_ok [OF c1(2,3), of i p] by (simp add: None c1(4))
    qed
    moreover have "holds p (remove_key attr ps)" using change by blast
    ultimately show ?thesis using map_of_remove [of attr ps] unfolding None by blast
  next
    case (Some v)
    then obtain p' where p': "prepend_property attr v p = Some p'" "holds (Some p') ((attr, v) # remove_key attr ps)"
      using change by auto
    have "\<exists>c'. service_property_add i name attr val c = Some c' \<and> ctx_ok c' \<and>
      directory c' = (directory c)(o2_string_pad name \<mapsto> with_props i (Some p') ss)"
      using add o2_set_service_properties_ok [OF c1(2,3), of i "Some p'"] by (simp add: Some p'(1) c1(4))
    moreover have "map_of ((attr, v) # remove_key attr ps) = (map_of ps)(attr := val)"
      by (simp add: map_of_remove Some)
    ultimately show ?thesis using p'(2) by blast
  qed
  then obtain c' props qs where r: "service_property_add i name attr val c = Some c'" "ctx_ok c'" "holds props qs"
      "map_of qs = (map_of ps)(attr := val)" "directory c' = (directory c)(o2_string_pad name \<mapsto> with_props i props ss)"
    by blast
  have "(case props of Some s \<Rightarrow> s | None \<Rightarrow> '';'') = encode_props qs" "props_ok qs"
    using r(3) by (auto simp: holds_def encode_props_def split: option.splits)
  then have "plain a \<Longrightarrow> length a \<le> 61 \<Longrightarrow> getprop a (case props of Some s \<Rightarrow> s | None \<Rightarrow> '';'') = map_of qs a" for a
    by (simp add: getprop_map)
  then show ?thesis
    using r assms(2,3,4) by (intro exI [of _ c'] exI [of _ props] exI [of _ qs]) (simp add: o2_service_set_property_def)
qed

definition color_service :: O2_context where
  "color_service = two_procs\<lparr>path_tree := the (hash_insert
     (''synth'', Services_entry [Service_provider (Proxy 0) (Some (encode_props [(''color'', ''re:d'')]))] []) empty_Hash_node)\<rparr>"

theorem set_property_correct_witness:
  "\<exists>c' props. o2_service_set_property ''synth'' ''size'' (Some ''a;b'') color_service = Some (O2_SUCCESS, c') \<and>
    directory c' = (directory color_service)(o2_string_pad ''synth'' \<mapsto>
      with_props 0 props (Services_entry [Service_provider (Proxy 0) (Some (encode_props [(''color'', ''re:d'')]))] [])) \<and>
    getprop ''size'' (case props of Some s \<Rightarrow> s | None \<Rightarrow> '';'') = Some ''a;b'' \<and>
    getprop ''color'' (case props of Some s \<Rightarrow> s | None \<Rightarrow> '';'') = Some ''re:d''"
proof -
  let ?ss = "Services_entry [Service_provider (Proxy 0) (Some (encode_props [(''color'', ''re:d'')]))] []"
  have ok: "ctx_ok color_service" "directory color_service = [''synth'' \<mapsto> ?ss]"
    using names.insert [OF empty_Hash_node_ok(1), of "(''synth'', ?ss)"]
    by (auto simp: color_service_def ctx_ok_def empty_Hash_node_ok)
  have "o2_string_pad ''synth'' = ''synth''" by (rule string_pad_short) simp
  then have found: "find_services ''synth'' color_service = Some ?ss"
    using ok by (simp add: find_services_directory)
  have "proc_service_index color_service 0 ?ss = Some 0" "ensemble color_service"
    by (simp_all add: proc_service_index_def offered_by_def color_service_def two_procs_def)
  moreover have "holds (properties (services ?ss ! 0)) [(''color'', ''re:d'')]"
    by (simp add: holds_def props_ok_def plain_def special_def encode_props_def encode_pair_def)
  moreover have "plain ''size''" "plain ''color''" by (simp_all add: plain_def special_def)
  ultimately show ?thesis
    using set_property_correct [OF ok(1) _ found, of 0 "[(''color'', ''re:d'')]" "''size''" "Some ''a;b''"]
    by (fastforce simp: special_def encode_props_def encode_pair_def)
qed

section \<open>Where the properties go wrong\<close>

text \<open>A search for the whole value finds a service whose value only ends with it, after a colon.\<close>

lemma search_not_exact:
  "property_matches ''x'' '':b;'' (encode_props [(''x'', ''a:b'')])"
  by (simp add: property_matches_def encode_props_def encode_pair_def special_def find_attribute_end_def
      strstr.simps starts_with_def)

text \<open>An attribute of 62 characters or more is stored, but neither read nor replaced nor removed afterwards.\<close>

lemma long_attribute:
  assumes "62 \<le> length attr"
  shows "getprop attr p = None" "service_property_free props attr = None"
  using assms by (simp_all add: getprop_def service_property_free_def find_attribute_end_def split: option.split)

text \<open>A value that is too large is refused without an error, after the former value was removed, and nobody is told.\<close>

lemma too_large_loses:
  assumes "o2_service_set_property name attr (Some v) c = Some (r, c')" "ensemble c" "find_services name c = Some ss"
    and "proc_service_index c local_proc ss = Some i" "32768 \<le> length v"
    and "service_property_free (properties (services ss ! i)) attr = Some s"
  shows "r = O2_SUCCESS \<and> events c' = events c \<and> set_props i name (Some s) c = Some c'"
proof -
  have "length v \<le> value_encoded_len v" unfolding encoded_len by (induction v) auto
  then have "prepend_property attr v p = None" for p
    using assms(5) by (simp add: prepend_property_def)
  then show ?thesis
    using assms by (auto simp: o2_service_set_property_def service_property_add_def set_props_def set_entry_def)
qed

end
