(* ===== verification/Endian.thy ===== *)
theory Endian
  imports Messages
begin

text \<open>
  Network byte order: \<open>o2_msg_swap_endian\<close> (src/src/message.cpp) reverses the numbers of a message in
  place, before a message is sent to another process and after one was received. The bytes of a
  message from its flags on are a list, \<open>limit\<close> is how far the end of the message is from the byte at
  hand, as the code computes it from a length field. \<open>None\<close>: the code leaves the bytes of the
  (outermost) message.
\<close>

section \<open>The code\<close>

definition swap_bytes :: "nat \<Rightarrow> byte list \<Rightarrow> byte list" where
  "swap_bytes n mem = rev (take n mem) @ drop n mem"

definition read_int32 :: "byte list \<Rightarrow> int" where
  "read_int32 mem = sint (le_dec (take 4 mem) :: 32 word)"

text \<open>The length that was read before the swap is the one in host order if the message was.\<close>

definition host_length :: "bool \<Rightarrow> byte list \<Rightarrow> int" where
  "host_length is_host_order mem = (if is_host_order then read_int32 mem else read_int32 (swap_bytes 4 mem))"

text \<open>One argument: \<open>Inl\<close> is a return with an error, \<open>Inr\<close> how many bytes to go on. A blob of negative size makes
  the code go back (\<open>None\<close>). A vector's length is skipped but its elements are not: the code takes the
  code of the vector for the element type, so its loop over elements does nothing.\<close>

definition word_type :: "O2type \<Rightarrow> bool" where
  "word_type t \<longleftrightarrow> t \<in> set ''iBmfc''"

definition dword_type :: "O2type \<Rightarrow> bool" where
  "dword_type t \<longleftrightarrow> t \<in> set ''thd''"

definition text_type :: "O2type \<Rightarrow> bool" where
  "text_type t \<longleftrightarrow> t \<in> set ''sS''"

definition empty_type :: "O2type \<Rightarrow> bool" where
  "empty_type t \<longleftrightarrow> t \<in> set ''TFNI''"

definition swap_step :: "bool \<Rightarrow> O2type \<Rightarrow> int \<Rightarrow> byte list \<Rightarrow> (O2err \<times> byte list + nat \<times> byte list) option" where
  "swap_step ho t limit mem =
     (if word_type t then
        if 4 > limit then Some (Inl (O2_INVALID_MSG, mem))
        else if length mem < 4 then None else Some (Inr (4, swap_bytes 4 mem))
      else if t = CHR ''b'' then
        if 4 > limit then Some (Inl (O2_INVALID_MSG, mem))
        else if length mem < 4 then None
        else let sz = host_length ho mem in
          if 4 + sz > limit then Some (Inl (O2_INVALID_MSG, swap_bytes 4 mem))
          else if sz < 0 \<or> length mem < 4 + nat sz then None
          else Some (Inr (4 + nat sz, swap_bytes 4 mem))
      else if dword_type t then
        if 8 > limit then Some (Inl (O2_INVALID_MSG, mem))
        else if length mem < 8 then None else Some (Inr (8, swap_bytes 8 mem))
      else if text_type t then
        let sz = o2_strsize (c_str mem) in
          if int sz > limit then Some (Inl (O2_INVALID_MSG, mem))
          else if length mem < sz then None else Some (Inr (sz, mem))
      else if empty_type t then Some (Inr (0, mem))
      else if t = CHR ''v'' then
        if 4 > limit then Some (Inl (O2_INVALID_MSG, mem))
        else if length mem < 4 then None
        else if 4 + host_length ho mem > limit then Some (Inl (O2_INVALID_MSG, swap_bytes 4 mem))
        else Some (Inr (4, swap_bytes 4 mem))
      else Some (Inl (O2_INVALID_MSG, mem)))"

text \<open>A vector also skips the next type; as the last one it makes the code read types behind the type string (\<open>None\<close>).\<close>

function swap_args :: "bool \<Rightarrow> string \<Rightarrow> int \<Rightarrow> byte list \<Rightarrow> (O2err \<times> byte list) option" where
  "swap_args ho types limit mem =
     (case types of [] \<Rightarrow> Some (O2_SUCCESS, mem)
      | t # types \<Rightarrow>
          if 0 \<ge> limit then Some (O2_FAIL, mem)
          else (case swap_step ho t limit mem of
            None \<Rightarrow> None
          | Some (Inl x) \<Rightarrow> Some x
          | Some (Inr (n, mem)) \<Rightarrow>
              if t = CHR ''v'' \<and> types = [] then None
              else map_option (map_prod id ((@) (take n mem)))
                (swap_args ho (if t = CHR ''v'' then tl types else types) (limit - int n) (drop n mem))))"
  by auto
termination
  by (relation "measure (\<lambda>(_, types, _, _). length types)") auto

declare swap_args.simps [simp del]

text \<open>\<open>len\<close> is what the length field holds when the message is swapped: that of an embedded message was swapped just
  before, whatever its order was. An embedded message with a negative length is \<open>None\<close> (the code goes
  back or never ends). That swapping keeps the number of bytes is tested for the sake of the termination proof
  only.\<close>

function swap_msg :: "bool \<Rightarrow> int \<Rightarrow> byte list \<Rightarrow> (O2err \<times> byte list) option"
  and swap_embedded :: "bool \<Rightarrow> int \<Rightarrow> int \<Rightarrow> byte list \<Rightarrow> (O2err \<times> byte list) option" where
  "swap_msg ho len mem =
     (if length mem \<le> 12 then None
      else let body = drop 12 mem; header = rev (take 4 mem) @ rev (take 8 (drop 4 mem)) in
        Option.bind (o2_next_o2string body) (\<lambda>tys.
        if hd body = byte_of CHR ''#'' then
          let k = length body - length tys in
          map_option (map_prod id ((@) (header @ take k body)))
            (if length tys \<le> length body then swap_embedded ho len (len - 12 - int k) tys else None)
        else Option.bind (o2_next_o2string tys) (\<lambda>params.
          let k = length body - length params in
          map_option (map_prod id ((@) (header @ take k body)))
            (swap_args ho (c_str (tl tys)) (len - 12 - int k) params))))"
| "swap_embedded ho outer limit mem =
     (if limit \<le> 0 then Some (O2_SUCCESS, mem)
      else if length mem < 4 then None
      else let len = host_length ho mem; mem = swap_bytes 4 mem in
        if len > outer then Some (O2_FAIL, mem)
        else Option.bind (swap_msg ho (read_int32 mem) (drop 4 mem)) (\<lambda>(_, mem').
          if len < 0 \<or> length mem' \<noteq> length mem - 4 then None
          else map_option (map_prod id ((@) (take 4 mem @ take (nat len) mem')))
                 (swap_embedded ho outer (limit - 4 - len) (drop (nat len) mem'))))"
  by pat_completeness auto
termination
  by (relation "measure (\<lambda>x. case x of Inl (_, _, mem) \<Rightarrow> length mem | Inr (_, _, _, mem) \<Rightarrow> length mem)")
    (auto simp: swap_bytes_def)

declare swap_msg.simps [simp del] swap_embedded.simps [simp del]

definition header_bytes :: "O2message \<Rightarrow> byte list" where
  "header_bytes m = le_enc 4 (misc m) @ le_enc 8 (timestamp m)"

definition message_of :: "byte list \<Rightarrow> O2message" where
  "message_of mem = \<lparr>misc = le_dec (take 4 mem), timestamp = le_dec (take 8 (drop 4 mem)), body = drop 12 mem\<rparr>"

definition o2_msg_swap_endian :: "bool \<Rightarrow> O2message \<Rightarrow> (O2err \<times> O2message) option" where
  "o2_msg_swap_endian ho m =
     map_option (map_prod id message_of) (swap_msg ho (data_length m) (header_bytes m @ body m))"

section \<open>There and back\<close>

lemma swap_bytes_twice: "n \<le> length mem \<Longrightarrow> swap_bytes n (swap_bytes n mem) = mem"
  by (simp add: swap_bytes_def)

lemma length_swap_bytes [simp]: "length (swap_bytes n mem) = length mem"
  by (simp add: swap_bytes_def)

lemma host_length_swapped:
  "4 \<le> length mem \<Longrightarrow> host_length (\<not> ho) (swap_bytes 4 mem) = host_length ho mem"
  by (simp add: host_length_def swap_bytes_twice)

lemma swap_prefix_twice:
  "k \<le> n \<Longrightarrow> n \<le> length mem \<Longrightarrow> swap_bytes k (take n (swap_bytes k mem) @ rest) = take n mem @ rest"
proof -
  assume k: "k \<le> n" "n \<le> length mem"
  have "take n mem = take k mem @ take (n - k) (drop k mem)"
    using k by (metis le_add_diff_inverse take_add)
  then show ?thesis using k by (simp add: swap_bytes_def min_absorb2)
qed

lemma drop_swap_bytes: "k \<le> n \<Longrightarrow> k \<le> length mem \<Longrightarrow> drop n (swap_bytes k mem) = drop n mem"
  by (simp add: swap_bytes_def)

lemma host_length_prefix:
  "4 \<le> n \<Longrightarrow> n \<le> length mem \<Longrightarrow> host_length ho (take n mem @ rest) = host_length ho mem"
  by (simp add: host_length_def read_int32_def swap_bytes_def min_absorb1)

lemma strsize_prefix:
  assumes "o2_strsize (c_str mem) = n" "n \<le> length mem"
  shows "o2_strsize (c_str (take n mem @ rest)) = n"
proof -
  let ?nz = "\<lambda>b :: byte. b \<noteq> 0"
  let ?k = "length (takeWhile ?nz mem)"
  have k: "?k < n" using assms(1) strsize_bounds(1) [of "c_str mem"] by (simp add: c_str_def)
  then have z: "mem ! ?k = 0" using nth_length_takeWhile [of ?nz mem] assms(2) by simp
  have "mem ! ?k \<in> set (take n mem)" using k assms(2) by (auto simp: in_set_conv_nth)
  then have "takeWhile ?nz (take n mem @ rest) = takeWhile ?nz (take n mem)"
    using z by (intro takeWhile_append1) auto
  moreover have "takeWhile ?nz mem = takeWhile ?nz (take n mem @ drop n mem)" by simp
  moreover have "takeWhile ?nz (take n mem @ drop n mem) = takeWhile ?nz (take n mem)"
    using \<open>mem ! ?k \<in> _\<close> z by (intro takeWhile_append1) auto
  ultimately show ?thesis using assms(1) by (simp add: c_str_def)
qed

lemma type_kinds:
  "word_type t \<Longrightarrow> t \<noteq> CHR ''b'' \<and> \<not> dword_type t \<and> \<not> text_type t \<and> \<not> empty_type t \<and> t \<noteq> CHR ''v''"
  "dword_type t \<Longrightarrow> \<not> word_type t \<and> t \<noteq> CHR ''b'' \<and> \<not> text_type t \<and> \<not> empty_type t \<and> t \<noteq> CHR ''v''"
  "text_type t \<Longrightarrow> \<not> word_type t \<and> t \<noteq> CHR ''b'' \<and> \<not> dword_type t \<and> \<not> empty_type t \<and> t \<noteq> CHR ''v''"
  "empty_type t \<Longrightarrow> \<not> word_type t \<and> t \<noteq> CHR ''b'' \<and> \<not> dword_type t \<and> \<not> text_type t \<and> t \<noteq> CHR ''v''"
  "\<not> word_type CHR ''b''" "\<not> word_type CHR ''v''" "\<not> dword_type CHR ''v''" "\<not> text_type CHR ''v''" "\<not> empty_type CHR ''v''"
  by (auto simp: word_type_def dword_type_def text_type_def empty_type_def)

definition step_back :: "bool \<Rightarrow> O2type \<Rightarrow> int \<Rightarrow> byte list \<Rightarrow> (O2err \<times> byte list + nat \<times> byte list) \<Rightarrow> bool" where
  "step_back ho t limit mem x = (case x of
     Inl (r, mem') \<Rightarrow> length mem' = length mem \<and> swap_step (\<not> ho) t limit mem' = Some (Inl (r, mem))
   | Inr (n, mem') \<Rightarrow> length mem' = length mem \<and> n \<le> length mem \<and> drop n mem' = drop n mem \<and>
       (\<forall>rest. length rest = length mem - n \<longrightarrow>
          swap_step (\<not> ho) t limit (take n mem' @ rest) = Some (Inr (n, take n mem @ rest))))"

lemma swap_step_back:
  assumes "swap_step ho t limit mem = Some x"
  shows "step_back ho t limit mem x"
proof -
  consider "word_type t" | "t = CHR ''b''" | "dword_type t" | "text_type t" | "empty_type t" | "t = CHR ''v''"
    | "\<not> word_type t" "t \<noteq> CHR ''b''" "\<not> dword_type t" "\<not> text_type t" "\<not> empty_type t" "t \<noteq> CHR ''v''" by blast
  then show ?thesis
  proof cases
    case 1
    have e: "swap_step ho t limit mem = (if 4 > limit then Some (Inl (O2_INVALID_MSG, mem))
        else if length mem < 4 then None else Some (Inr (4, swap_bytes 4 mem)))" for ho mem
      using 1 by (simp add: swap_step_def)
    show ?thesis using assms unfolding e step_back_def
      by (auto simp: drop_swap_bytes swap_prefix_twice split: if_splits)
  next
    case 2
    have e: "swap_step ho t limit mem = (if 4 > limit then Some (Inl (O2_INVALID_MSG, mem))
        else if length mem < 4 then None
        else if 4 + host_length ho mem > limit then Some (Inl (O2_INVALID_MSG, swap_bytes 4 mem))
        else if host_length ho mem < 0 \<or> length mem < 4 + nat (host_length ho mem) then None
        else Some (Inr (4 + nat (host_length ho mem), swap_bytes 4 mem)))" for ho mem
      using 2 type_kinds(5) by (simp add: swap_step_def Let_def)
    show ?thesis using assms unfolding e step_back_def
      by (auto simp: drop_swap_bytes swap_prefix_twice host_length_prefix host_length_swapped swap_bytes_twice split: if_splits)
  next
    case 3
    have e: "swap_step ho t limit mem = (if 8 > limit then Some (Inl (O2_INVALID_MSG, mem))
        else if length mem < 8 then None else Some (Inr (8, swap_bytes 8 mem)))" for ho mem
      using 3 type_kinds(2) by (simp add: swap_step_def)
    show ?thesis using assms unfolding e step_back_def
      by (auto simp: drop_swap_bytes swap_prefix_twice split: if_splits)
  next
    case 4
    have e: "swap_step ho t limit mem = (if int (o2_strsize (c_str mem)) > limit then Some (Inl (O2_INVALID_MSG, mem))
        else if length mem < o2_strsize (c_str mem) then None else Some (Inr (o2_strsize (c_str mem), mem)))" for ho mem
      using 4 type_kinds(3) by (simp add: swap_step_def Let_def)
    show ?thesis using assms strsize_prefix [OF refl, of mem] unfolding e step_back_def
      by (auto split: if_splits)
  next
    case 5
    have e: "swap_step ho t limit mem = Some (Inr (0, mem))" for ho mem
      using 5 type_kinds(4) by (simp add: swap_step_def)
    show ?thesis using assms unfolding e step_back_def by auto
  next
    case 6
    have e: "swap_step ho t limit mem = (if 4 > limit then Some (Inl (O2_INVALID_MSG, mem))
        else if length mem < 4 then None
        else if 4 + host_length ho mem > limit then Some (Inl (O2_INVALID_MSG, swap_bytes 4 mem))
        else Some (Inr (4, swap_bytes 4 mem)))" for ho mem
      using 6 type_kinds(6-9) by (simp add: swap_step_def)
    show ?thesis using assms unfolding e step_back_def
      by (auto simp: drop_swap_bytes swap_prefix_twice host_length_prefix host_length_swapped swap_bytes_twice split: if_splits)
  next
    case 7
    have e: "swap_step ho t limit mem = Some (Inl (O2_INVALID_MSG, mem))" for ho mem
      using 7 by (simp add: swap_step_def)
    show ?thesis using assms unfolding e step_back_def by auto
  qed
qed

lemma swap_args_back:
  "swap_args ho types limit mem = Some (r, mem') \<Longrightarrow>
   length mem' = length mem \<and> swap_args (\<not> ho) types limit mem' = Some (r, mem)"
proof (induction ho types limit mem arbitrary: r mem' rule: swap_args.induct)
  case (1 ho types limit mem)
  show ?case
  proof (cases types)
    case Nil
    then show ?thesis using "1.prems" by (simp add: swap_args.simps)
  next
    case (Cons t types')
    show ?thesis
    proof (cases "0 \<ge> limit")
      case True
      then show ?thesis using "1.prems" Cons by (simp add: swap_args.simps)
    next
      case False
      then obtain x where x: "swap_step ho t limit mem = Some x"
        using "1.prems" Cons by (cases "swap_step ho t limit mem") (simp_all add: swap_args.simps [of ho "t # types'"])
      note undo = swap_step_back [OF x, unfolded step_back_def]
      show ?thesis
      proof (cases x)
        case (Inl y)
        then have "y = (r, mem')" using "1.prems" Cons False x by (simp add: swap_args.simps [of ho "t # types'"])
        then show ?thesis using undo Inl Cons False by (simp add: swap_args.simps [of "\<not> ho" "t # types'"])
      next
        case (Inr y)
        obtain n m where y: "y = (n, m)" by (cases y)
        define ts where "ts = (if t = CHR ''v'' then tl types' else types')"
        have v: "\<not> (t = CHR ''v'' \<and> types' = [])" using "1.prems" Cons False x Inr y by (auto simp: swap_args.simps [of ho "t # types'"])
        obtain tail' where tail': "swap_args ho ts (limit - int n) (drop n m) = Some (r, tail')" "mem' = take n m @ tail'"
          using "1.prems" Cons False x Inr y v unfolding ts_def
          by (auto simp: swap_args.simps [of ho "t # types'"] map_prod_def split: prod.splits)
        note ih = "1.IH" [OF Cons False x Inr y [symmetric] v, folded ts_def, OF tail'(1)]
        have n: "length m = length mem" "n \<le> length mem" "drop n m = drop n mem" using undo Inr y by auto
        have "swap_step (\<not> ho) t limit mem' = Some (Inr (n, take n mem @ tail'))"
          using undo Inr y tail'(2) ih n by simp
        then have "swap_args (\<not> ho) types limit mem' =
            map_option (map_prod id ((@) (take n mem))) (swap_args (\<not> ho) ts (limit - int n) tail')"
          using Cons False v n by (auto simp: swap_args.simps [of "\<not> ho" "t # types'"] ts_def)
        then show ?thesis using ih tail'(2) n by simp
      qed
    qed
  qed
qed

lemma next_o2string_prefix:
  "o2_next_o2string bs = Some rest \<Longrightarrow>
   \<exists>pre. bs = pre @ rest \<and> 4 \<le> length pre \<and> 0 \<in> set (tl pre) \<and> (\<forall>rest'. o2_next_o2string (pre @ rest') = Some rest')"
proof (induction bs rule: o2_next_o2string.induct)
  case (1 a b c d r)
  show ?case
  proof (cases "d = 0")
    case True
    then show ?thesis using 1 by (intro exI [of _ "[a, b, c, d]"]) simp
  next
    case False
    then obtain pre where "r = pre @ rest" "0 \<in> set (tl pre)" "\<forall>rest'. o2_next_o2string (pre @ rest') = Some rest'"
      using 1 by auto
    moreover have "0 \<in> set pre" using calculation(2) by (cases pre) auto
    ultimately show ?thesis using False by (intro exI [of _ "a # b # c # d # pre"]) auto
  qed
qed simp_all

lemma c_str_prefix: "0 \<in> set bs \<Longrightarrow> c_str (bs @ rest) = c_str bs"
  by (simp add: c_str_def takeWhile_append1)

text \<open>A message that is not a bundle: the address, the type string, the parameters.\<close>

lemma message_parts:
  assumes "o2_next_o2string (body m) = Some tys" "o2_next_o2string tys = Some params"
  obtains addr ts where "body m = addr @ ts @ params" "tys = ts @ params" "addr \<noteq> []"
    "\<And>p. o2_next_o2string (addr @ ts @ p) = Some (ts @ p)" "\<And>p. o2_next_o2string (ts @ p) = Some p"
    "\<And>p. c_str (tl (ts @ p)) = c_str (tl ts)"
proof -
  obtain addr where addr: "body m = addr @ tys" "4 \<le> length addr" "\<And>r. o2_next_o2string (addr @ r) = Some r"
    using next_o2string_prefix [OF assms(1)] by blast
  obtain ts where ts: "tys = ts @ params" "4 \<le> length ts" "0 \<in> set (tl ts)" "\<And>r. o2_next_o2string (ts @ r) = Some r"
    using next_o2string_prefix [OF assms(2)] by blast
  have "ts \<noteq> []" "addr \<noteq> []" using ts(2) addr(2) by auto
  then have "tl (ts @ p) = tl ts @ p" for p by simp
  then show thesis using that [of addr ts] addr ts \<open>addr \<noteq> []\<close> by (simp add: c_str_prefix)
qed

lemma swap_msg_normal:
  assumes "body m = addr @ ts @ params" "addr \<noteq> []" "\<not> IS_BUNDLE m"
    "\<And>p. o2_next_o2string (addr @ ts @ p) = Some (ts @ p)" "\<And>p. o2_next_o2string (ts @ p) = Some p"
    "\<And>p. c_str (tl (ts @ p)) = c_str (tl ts)"
  shows "o2_msg_swap_endian ho m =
    map_option (\<lambda>(r, p). (r, \<lparr>misc = swap32 (misc m), timestamp = swap64 (timestamp m), body = addr @ ts @ p\<rparr>))
      (swap_args ho (c_str (tl ts)) (int (length params)) params)"
proof -
  have "swap_msg ho (data_length m) (header_bytes m @ body m) =
    map_option (map_prod id ((@) (le_enc 4 (swap32 (misc m)) @ le_enc 8 (swap64 (timestamp m)) @ addr @ ts)))
      (swap_args ho (c_str (tl ts)) (int (length params)) params)"
    using assms(2,3) by (simp add: swap_msg.simps header_bytes_def IS_BUNDLE_def Let_def swap32_bytes swap64_bytes
        assms(1,4-6) data_length_def)
  then show ?thesis
    by (auto simp: o2_msg_swap_endian_def option.map_comp message_of_def intro!: option.map_cong)
qed

lemma swap_back:
  assumes "o2_msg_swap_endian ho m = Some (r, m')" "\<not> IS_BUNDLE m"
  shows "o2_msg_swap_endian (\<not> ho) m' = Some (r, m) \<and> data_length m' = data_length m \<and> \<not> IS_BUNDLE m'"
proof -
  obtain tys params where n: "o2_next_o2string (body m) = Some tys" "o2_next_o2string tys = Some params"
    using assms by (auto simp: o2_msg_swap_endian_def swap_msg.simps header_bytes_def IS_BUNDLE_def Let_def
        bind_eq_Some_conv split: if_splits)
  then obtain addr ts where parts: "body m = addr @ ts @ params" "addr \<noteq> []"
    "\<And>p. o2_next_o2string (addr @ ts @ p) = Some (ts @ p)" "\<And>p. o2_next_o2string (ts @ p) = Some p"
    "\<And>p. c_str (tl (ts @ p)) = c_str (tl ts)" by (rule message_parts) blast
  obtain p where p: "swap_args ho (c_str (tl ts)) (int (length params)) params = Some (r, p)"
    "m' = \<lparr>misc = swap32 (misc m), timestamp = swap64 (timestamp m), body = addr @ ts @ p\<rparr>"
    using assms(1) unfolding swap_msg_normal [OF parts(1,2) assms(2) parts(3-5)] by auto
  note undo = swap_args_back [OF p(1)]
  have nb: "\<not> IS_BUNDLE m'" using assms(2) parts(1,2) by (simp add: p(2) IS_BUNDLE_def)
  have "body m' = addr @ ts @ p" by (simp add: p(2))
  with nb have "o2_msg_swap_endian (\<not> ho) m' = Some (r, m)"
    using swap_msg_normal [of m' addr ts p "\<not> ho", OF _ parts(2) _ parts(3-5)] undo parts(1) by (simp add: p(2))
  moreover have "data_length m' = data_length m" using undo by (simp add: data_length_def p(2) parts(1))
  ultimately show ?thesis using nb by blast
qed

text \<open>C14: byte order conversion of messages that are no bundles is reversible: what one process converted before sending (\<open>ho\<close>)
  another one converts back into the same message, with the same result code; its length does not change. The message
  may be malformed (then the code is an error and a part of it is converted), as long as the conversion stays within its bytes (it is
  not \<open>None\<close>). Bundles are not restored (\<open>embedded_not_converted\<close>).\<close>

theorem swap_there_and_back:
  assumes "o2_msg_swap_endian ho m = Some (r, m')" "\<not> IS_BUNDLE m"
  shows "o2_msg_swap_endian (\<not> ho) m' = Some (r, m) \<and> data_length m' = data_length m"
  using swap_back [OF assms] by blast

definition small_message :: O2message where
  "small_message = \<lparr>misc = 1, timestamp = 0, body = zero_padded ''/a'' @ zero_padded '',i'' @ [1, 2, 3, 4]\<rparr>"

lemma small_not_bundle: "\<not> IS_BUNDLE small_message"
  by (simp add: small_message_def IS_BUNDLE_def zero_padded_short)

lemma small_message_swapped:
  "o2_msg_swap_endian True small_message = Some (O2_SUCCESS,
     \<lparr>misc = swap32 1, timestamp = swap64 0, body = zero_padded ''/a'' @ zero_padded '',i'' @ [4, 3, 2, 1]\<rparr>)"
proof -
  have b: "body small_message = zero_padded ''/a'' @ zero_padded '',i'' @ [1, 2, 3, 4]"
    by (simp add: small_message_def)
  have cs: "c_string ''/a''" "c_string '',i''" "c_string ''i''" by (simp_all add: c_string_def)
  have "c_str (tl (zero_padded '',i'' @ p)) = ''i''" for p
    using c_str_padded [OF cs(2), of p] by (auto simp: c_str_def zero_padded_def byte_of_eq_0_iff)
  then have t: "c_str (tl (zero_padded '',i'' @ p)) = c_str (tl (zero_padded '',i''))" "c_str (tl (zero_padded '',i'')) = ''i''" for p
    by (metis append_Nil2)+
  have "zero_padded ''/a'' \<noteq> []" by (simp add: zero_padded_short)
  from swap_msg_normal [OF b this small_not_bundle next_o2string_padded [OF cs(1)] next_o2string_padded [OF cs(2)] t(1), of True]
  show ?thesis
    by (simp add: t(2) swap_args.simps swap_step_def word_type_def swap_bytes_def) (simp add: small_message_def)
qed

theorem swap_there_and_back_witness:
  "\<exists>m'. o2_msg_swap_endian True small_message = Some (O2_SUCCESS, m') \<and>
     o2_msg_swap_endian False m' = Some (O2_SUCCESS, small_message)"
proof -
  from swap_there_and_back [OF small_message_swapped small_not_bundle] show ?thesis
    using small_message_swapped by auto
qed

section \<open>What is sent\<close>

text \<open>The arguments in network byte order.\<close>

definition wire_data :: "O2arg \<Rightarrow> byte list" where
  "wire_data a = (case a of
     Int32 i \<Rightarrow> be_enc 4 i | Int64 i \<Rightarrow> be_enc 8 i | Float f \<Rightarrow> be_enc 4 f | Double d \<Rightarrow> be_enc 8 d | Time d \<Rightarrow> be_enc 8 d
   | Char i \<Rightarrow> be_enc 4 i | Midi i \<Rightarrow> be_enc 4 i | Bool i \<Rightarrow> be_enc 4 i
   | String s \<Rightarrow> zero_padded s | Symbol s \<Rightarrow> zero_padded s
   | Blob bs \<Rightarrow> be_enc 4 (word_of_nat (length bs) :: 32 word) @ word_padded bs | Code _ \<Rightarrow> [])"

definition sendable :: "O2arg \<Rightarrow> bool" where
  "sendable a = (case a of String s \<Rightarrow> c_string s | Symbol s \<Rightarrow> c_string s
     | Blob bs \<Rightarrow> 4 dvd length bs \<and> length bs < 2 ^ 31 | Code c \<Rightarrow> empty_type c | _ \<Rightarrow> True)"

lemma length_wire_data: "length (wire_data a) = length (arg_data a)"
  by (cases a) (simp_all add: wire_data_def arg_data_def be_enc_def)

lemma swap_number:
  "swap_bytes 4 (le_enc 4 (i :: 32 word) @ rest) = be_enc 4 i @ rest"
  "swap_bytes 8 (le_enc 8 (j :: 64 word) @ rest) = be_enc 8 j @ rest"
  by (simp_all add: swap_bytes_def be_enc_def)

lemma blob_length:
  "n < 2 ^ 31 \<Longrightarrow> host_length True (le_enc 4 (word_of_nat n :: 32 word) @ rest) = int n"
proof -
  assume n: "n < 2 ^ 31"
  then have "unat (word_of_nat n :: 32 word) = n" by (simp add: unat_of_nat)
  then show ?thesis using sint32_unat [of "word_of_nat n"] n by (simp add: host_length_def read_int32_def)
qed

lemma padded_blob: "4 dvd length bs \<Longrightarrow> word_padded bs = bs"
  by (simp add: word_padded_def roundup_fix)

lemma strsize_zero_padded: "c_string s \<Longrightarrow> o2_strsize (c_str (zero_padded s @ rest)) = length (zero_padded s)"
  by (simp add: c_str_padded length_zero_padded strsize_roundup)

lemma swap_step_arg:
  assumes "sendable a"
  shows "swap_step True (arg_type a) (int (length (arg_data a @ rest))) (arg_data a @ rest) =
    Some (Inr (length (arg_data a), wire_data a @ rest))"
proof -
  have w: "word_type CHR ''i''" "word_type CHR ''f''" "word_type CHR ''c''" "word_type CHR ''m''" "word_type CHR ''B''"
    "dword_type CHR ''h''" "dword_type CHR ''d''" "dword_type CHR ''t''" "text_type CHR ''s''" "text_type CHR ''S''"
    by (simp_all add: word_type_def dword_type_def text_type_def)
  note d = w(6-8) [THEN type_kinds(2)] w(9,10) [THEN type_kinds(3)]
  show ?thesis
  proof (cases a)
    case (Blob bs)
    then have "4 dvd length bs" "length bs < 2 ^ 31" using assms by (simp_all add: sendable_def)
    then show ?thesis using type_kinds(5) Blob
      by (simp add: swap_step_def arg_type_def arg_data_def wire_data_def padded_blob blob_length swap_number)
  next
    case (String s)
    then show ?thesis using assms w d
      by (simp add: swap_step_def arg_type_def arg_data_def wire_data_def sendable_def strsize_zero_padded)
  next
    case (Symbol s)
    then show ?thesis using assms w d
      by (simp add: swap_step_def arg_type_def arg_data_def wire_data_def sendable_def strsize_zero_padded)
  next
    case (Code c)
    then have "empty_type c" using assms by (simp add: sendable_def)
    then show ?thesis using Code type_kinds(4) [of c]
      by (simp add: swap_step_def arg_type_def arg_data_def wire_data_def)
  qed (use w d in \<open>simp_all add: swap_step_def arg_type_def arg_data_def wire_data_def swap_number\<close>)
qed

lemma not_vector: "sendable a \<Longrightarrow> arg_type a \<noteq> CHR ''v''"
  using type_kinds(9) by (cases a) (auto simp: arg_type_def sendable_def)

lemma swap_args_data:
  "\<forall>a \<in> set as. sendable a \<Longrightarrow> as = [] \<or> arg_data (last as) \<noteq> [] \<Longrightarrow>
   swap_args True (map arg_type as) (int (length (concat (map arg_data as)))) (concat (map arg_data as)) =
   Some (O2_SUCCESS, concat (map wire_data as))"
proof (induction as)
  case Nil
  then show ?case by (simp add: swap_args.simps)
next
  case (Cons a as)
  let ?rest = "concat (map arg_data as)"
  have ih: "swap_args True (map arg_type as) (int (length ?rest)) ?rest = Some (O2_SUCCESS, concat (map wire_data as))"
    using Cons by (cases as) (auto simp: swap_args.simps)
  have "arg_data a @ ?rest \<noteq> []"
  proof
    assume e: "arg_data a @ ?rest = []"
    then have "as \<noteq> []" using Cons.prems(2) by auto
    then have "last as \<in> set as" "arg_data (last as) \<noteq> []" using Cons.prems(2) by auto
    then show False using e by auto
  qed
  then have "0 < length (arg_data a @ ?rest)" by (rule length_greater_0_conv [THEN iffD2])
  then have pos: "\<not> (0 \<ge> int (length (arg_data a @ ?rest)))" by linarith
  have a: "sendable a" using Cons.prems(1) by simp
  show ?case
    using swap_step_arg [OF a, of ?rest] pos ih not_vector [OF a]
    by (simp add: swap_args.simps [of True "arg_type a # map arg_type as"] length_wire_data)
qed

lemma swap_body:
  assumes "body m = zero_padded addr @ zero_padded (CHR '','' # map arg_type as) @ concat (map arg_data as)"
    and "c_string addr" "addr \<noteq> []" "hd addr \<noteq> CHR ''#''" "\<forall>a \<in> set as. sendable a" "as = [] \<or> arg_data (last as) \<noteq> []"
  shows "\<not> IS_BUNDLE m \<and> o2_msg_swap_endian True m = Some (O2_SUCCESS,
    \<lparr>misc = swap32 (misc m), timestamp = swap64 (timestamp m),
     body = zero_padded addr @ zero_padded (CHR '','' # map arg_type as) @ concat (map wire_data as)\<rparr>)"
proof -
  let ?addr = "zero_padded addr" and ?ts = "zero_padded (CHR '','' # map arg_type as)"
  have codes: "c_string (map arg_type as)"
  proof -
    have "sendable a \<Longrightarrow> arg_type a \<noteq> CHR 0x00" for a
      by (cases a) (auto simp: sendable_def arg_type_def empty_type_def)
    then show ?thesis using assms(5) by (fastforce simp: c_string_def)
  qed
  then have ct: "c_string (CHR '','' # map arg_type as)" by (simp add: c_string_def)
  have "byte_of (hd addr) = hd ?addr" using assms(3) by (cases addr) (simp_all add: zero_padded_def)
  then have "hd ?addr \<noteq> byte_of CHR ''#''" using assms(4) by (metis byte_of_eq_iff)
  moreover have ne: "?addr \<noteq> []" using assms(3) by (simp add: zero_padded_def bytes_of_def)
  ultimately have nb: "\<not> IS_BUNDLE m" by (simp add: IS_BUNDLE_def assms(1))
  have tl: "c_str (tl (?ts @ p)) = map arg_type as" for p
    using c_str_padded [OF ct, of p] by (auto simp: c_str_def zero_padded_def byte_of_eq_0_iff)
  have tl': "c_str (tl ?ts) = map arg_type as" using tl [of "[]"] by simp
  show ?thesis
    unfolding swap_msg_normal [OF assms(1) ne nb next_o2string_padded [OF assms(2)] next_o2string_padded [OF ct]
        trans [OF tl tl' [symmetric]]] tl'
    by (simp add: swap_args_data [OF assms(5,6)] nb)
qed

text \<open>What is sent. A message built from arguments is converted with success into the message with the same address
  and types whose numbers are in network byte order, when every blob's size is a multiple of four and its
  last argument is not a mere type code (true, false, nil, infinitum).\<close>

theorem swap_to_network:
  assumes "\<not> building_message_lock b0" "c_string (slash_address svc address)" "slash_address svc address \<noteq> []"
    and "hd (slash_address svc address) \<noteq> CHR ''#''"
    and "\<forall>a \<in> set as. sendable a" "as = [] \<or> arg_data (last as) \<noteq> []"
    and "o2_service_message_finish True junk time svc address tcp (add_args as (snd (o2_send_start b0))) = (Some m, b)"
  shows "o2_msg_swap_endian True m = Some (O2_SUCCESS,
    \<lparr>misc = swap32 (misc m), timestamp = swap64 (timestamp m),
     body = zero_padded (slash_address svc address) @ zero_padded (CHR '','' # map arg_type as) @ concat (map wire_data as)\<rparr>)"
  using swap_body [OF _ assms(2-6), of m] built_message [OF assms(1), of junk time svc address tcp as] assms(7) by auto

theorem swap_to_network_witness:
  "\<exists>m b. o2_service_message_finish True (\<lambda>_. 7) 0 (Some ''synth'') ''/note'' True
      (add_args [String ''abc'', Int32 60] (snd (o2_send_start idle_builder))) = (Some m, b) \<and>
    o2_msg_swap_endian True m = Some (O2_SUCCESS, \<lparr>misc = swap32 (misc m), timestamp = swap64 (timestamp m),
      body = zero_padded (slash_address (Some ''synth'') ''/note'') @
        zero_padded (CHR '','' # map arg_type [String ''abc'', Int32 60]) @ concat (map wire_data [String ''abc'', Int32 60])\<rparr>)"
proof -
  have idle: "\<not> building_message_lock idle_builder" by (simp add: idle_builder_def)
  obtain m b where f: "o2_service_message_finish True (\<lambda>_. 7) 0 (Some ''synth'') ''/note'' True
      (add_args [String ''abc'', Int32 60] (snd (o2_send_start idle_builder))) = (Some m, b)"
    using built_message [OF idle] by blast
  have "o2_msg_swap_endian True m = Some (O2_SUCCESS, \<lparr>misc = swap32 (misc m), timestamp = swap64 (timestamp m),
      body = zero_padded (slash_address (Some ''synth'') ''/note'') @
        zero_padded (CHR '','' # map arg_type [String ''abc'', Int32 60]) @ concat (map wire_data [String ''abc'', Int32 60])\<rparr>)"
    by (rule swap_to_network [OF idle _ _ _ _ _ f])
      (simp_all add: slash_address_def c_string_def sendable_def arg_data_def le_enc4)
  then show ?thesis using f by blast
qed

section \<open>Where the conversion goes wrong\<close>

text \<open>A message that ends with a mere type code, \<open>,T\<close>, is refused, after its header was converted.\<close>

lemma trailing_code_refused: "swap_args ho (t # types) 0 mem = Some (O2_FAIL, mem)"
  by (simp add: swap_args.simps)

text \<open>The padding of a blob is not skipped: the integer 5 after a blob of one byte is not converted, but moved.\<close>

lemma blob_padding_not_skipped:
  "swap_args True ''bi'' 12 [1, 0, 0, 0, 7, 0, 0, 0, 5, 0, 0, 0] =
   Some (O2_SUCCESS, [0, 0, 0, 1, 7, 5, 0, 0, 0, 0, 0, 0])"
  using blob_length [of 1 "[7, 0, 0, 0, 5, 0, 0, 0]"] type_kinds(5)
  by (simp add: swap_args.simps swap_step_def word_type_def swap_bytes_def le_enc4 nat_add_distrib)

text \<open>The elements of a vector are not converted.\<close>

lemma vector_not_converted:
  "swap_args True ''vi'' 8 [4, 0, 0, 0, 5, 0, 0, 0] = Some (O2_SUCCESS, [0, 0, 0, 4, 5, 0, 0, 0])"
  using blob_length [of 4 "[5, 0, 0, 0]"] type_kinds(6-9)
  by (simp add: swap_args.simps swap_step_def swap_bytes_def le_enc4)

text \<open>Before sending, the length of an embedded message has been converted when the message is; when its last byte is
  128 or more it then looks negative, and the arguments are not converted (the result is ignored): the
  receiver, which converts all, gets other numbers.\<close>

lemma embedded_not_converted:
  assumes "swap_msg True len (header_bytes m @ body m) = Some (r, mem)" "len < 0"
    and "o2_next_o2string (body m) = Some tys" "o2_next_o2string tys = Some params" "c_str (tl tys) \<noteq> []" "\<not> IS_BUNDLE m"
  shows "r = O2_FAIL \<and> drop 12 mem = body m"
proof -
  have "body m \<noteq> []" using assms(3) by auto
  moreover have "length params \<le> length (body m)"
    using next_o2string_prefix [OF assms(3)] next_o2string_prefix [OF assms(4)] by auto
  moreover have "swap_args True (c_str (tl tys)) (len - 12 - k) params = Some (O2_FAIL, params)" if "0 \<le> k" for k
    using assms(2,5) that by (cases "c_str (tl tys)") (simp_all add: swap_args.simps)
  moreover have "take (length (body m) - length params) (body m) @ params = body m"
    using next_o2string_prefix [OF assms(3)] next_o2string_prefix [OF assms(4)] by auto
  ultimately show ?thesis
    using assms by (auto simp: swap_msg.simps header_bytes_def IS_BUNDLE_def Let_def)
qed

lemma negative_length: "read_int32 (swap_bytes 4 (le_enc 4 (200 :: 32 word))) < 0"
  by (simp add: read_int32_def swap_bytes_def le_enc4)

end
