(* ===== verification/WebSock.thy ===== *)
theory WebSock
  imports Extract Sha1 Numerals
begin

text \<open>
  Web socket connections (src/src/websock.cpp): the frames a client sends are collected from the
  chunks in which the network delivers them, unmasked, taken apart into fields and made into O2
  messages. What the C library makes of the text of a floating point number is an argument, as is
  what the delivery of a message does to the connection. \<open>None\<close>: the code goes outside of an array or, in the loop
  over frames, does not end within the given number of rounds.
\<close>

section \<open>State\<close>

abbreviation (input) WSOP_TEXT :: byte where "WSOP_TEXT \<equiv> 1"
abbreviation (input) WSOP_CLOSE :: byte where "WSOP_CLOSE \<equiv> 8"
abbreviation (input) WSOP_PING :: byte where "WSOP_PING \<equiv> 9"
abbreviation (input) WSOP_PONG :: byte where "WSOP_PONG \<equiv> 10"
abbreviation (input) WSBIT_FIN :: byte where "WSBIT_FIN \<equiv> 128"
abbreviation (input) WSBIT_MASK :: byte where "WSBIT_MASK \<equiv> 128"
abbreviation (input) ETX :: byte where "ETX \<equiv> 3"

datatype ws_event = Send_tcp "byte list" | Message_sent O2message | Close_socket bool | Open_file string

record Http_conn =
  inbuf :: "byte list"
  ws_msg_len :: int
  maskx :: nat
  is_web_socket :: bool
  sent_close_command :: bool
  confirmed_ensemble :: bool
  scratch :: builder
  ws_events :: "ws_event list"

text \<open>\<open>confirms\<close>: the message is the one by which the client names the right ensemble.\<close>

record ws_env =
  atof :: "string \<Rightarrow> 64 word"
  new_memory :: "nat \<Rightarrow> byte"
  confirms :: "O2message \<Rightarrow> bool"

definition ws_event :: "ws_event \<Rightarrow> Http_conn \<Rightarrow> Http_conn" where
  "ws_event e c = c\<lparr>ws_events := ws_events c @ [e]\<rparr>"

section \<open>Frames\<close>

text \<open>The bytes of a length are signed.\<close>

definition length_code :: "byte list \<Rightarrow> nat" where
  "length_code p = unat (p ! 1 AND 127)"

definition length_16 :: "byte list \<Rightarrow> int" where
  "length_16 p = sint (p ! 2) * 256 + sint (p ! 3)"

definition ws_msg_is_complete :: "Http_conn \<Rightarrow> O2err \<times> Http_conn" where
  "ws_msg_is_complete c =
     (let inbuf_size = int (length (inbuf c)) in
      if ws_msg_len c \<ge> 0 \<and> ws_msg_len c \<le> inbuf_size then (O2_SUCCESS, c)
      else if inbuf_size < 6 then (O2_FAIL, c)
      else let p = inbuf c;
               payload_length = int (length_code p);
               c = c\<lparr>maskx := 2\<rparr> in
        if payload_length = 126 \<and> inbuf_size < 134 then (O2_FAIL, c)
        else if payload_length = 127 then (O2_INVALID_MSG, c)
        else let (payload_length, c) =
                   (if payload_length = 126 then (length_16 p, c\<lparr>maskx := 4\<rparr>)
                    else (payload_length, c));
                 c = c\<lparr>ws_msg_len := payload_length + int (maskx c) + 4\<rparr> in
          (if ws_msg_len c \<le> inbuf_size then O2_SUCCESS else O2_FAIL, c))"

definition unmask :: "byte list \<Rightarrow> byte list \<Rightarrow> byte list" where
  "unmask mkey payload = map (\<lambda>i. payload ! i XOR mkey ! (i mod 4)) [0..<length payload]"

section \<open>Fields\<close>

function split_fields :: "byte list \<Rightarrow> byte list list" where
  "split_fields bs =
     (if bs = [] then []
      else takeWhile (\<lambda>b. b \<noteq> ETX) bs # split_fields (tl (dropWhile (\<lambda>b. b \<noteq> ETX) bs)))"
  by auto
termination
proof (relation "measure length")
  fix bs :: "byte list"
  assume "bs \<noteq> []"
  then show "(tl (dropWhile (\<lambda>b. b \<noteq> ETX) bs), bs) \<in> measure length"
    using length_dropWhile_le [of "\<lambda>b. b \<noteq> ETX" bs] by (cases bs) (auto simp: le_diff_conv2)
qed simp

declare split_fields.simps [simp del]

text \<open>The code writes the address of one field too many behind the array before it notices (the outer \<open>None\<close>).
  An empty payload has no field (what the code finds in front of it makes no difference).\<close>

definition ws_msg_parse :: "byte list \<Rightarrow> nat \<Rightarrow> byte list list option option" where
  "ws_msg_parse payload flen =
     (if payload = [] then Some (Some [])
      else if last payload \<noteq> ETX then Some None
      else let flds = split_fields payload in
        if length flds > flen then None else Some (Some flds))"

definition add_field :: "ws_env \<Rightarrow> O2type \<Rightarrow> string \<Rightarrow> builder \<Rightarrow> builder" where
  "add_field env t field b =
     (if t = CHR ''i'' then snd (o2_add_int32_or_char CHR ''i'' (atoi field) b)
      else if t = CHR ''f'' then snd (o2_add_float (float_of_double (atof env field)) b)
      else if t = CHR ''d'' then snd (o2_add_double_or_time CHR ''d'' (atof env field) b)
      else if t = CHR ''t'' then snd (o2_add_double_or_time CHR ''t'' (atof env field) b)
      else snd (o2_add_string_or_symbol CHR ''s'' field b))"

text \<open>The flag says that there were enough fields.\<close>

fun add_fields :: "ws_env \<Rightarrow> string \<Rightarrow> byte list list \<Rightarrow> builder \<Rightarrow> bool \<times> builder" where
  "add_fields env [] flds b = (True, b)"
| "add_fields env (t # types) [] b = (False, b)"
| "add_fields env (t # types) (f # flds) b = add_fields env types flds (add_field env t (c_str f) b)"

section \<open>One frame\<close>

definition drop_msg :: "Http_conn \<Rightarrow> Http_conn" where
  "drop_msg c = c\<lparr>inbuf := drop (nat (ws_msg_len c)) (inbuf c), ws_msg_len := -1\<rparr>"

definition handle_control :: "byte \<Rightarrow> byte list \<Rightarrow> Http_conn \<Rightarrow> O2err \<times> Http_conn" where
  "handle_control opcode payload c =
     (let payload_len = length payload in
      if payload_len < 126 then
        let c = ws_event (Send_tcp ((WSBIT_FIN OR (if opcode = WSOP_PING then WSOP_PONG else WSOP_CLOSE)) #
                   word_of_nat payload_len # payload)) c;
            c = drop_msg c in
        if opcode = WSOP_CLOSE then (O2_FAIL, c\<lparr>sent_close_command := True\<rparr>) else (O2_SUCCESS, c)
      else (O2_SUCCESS, c))"

text \<open>An address without even a first character makes the code compare the types.\<close>

definition handle_text :: "ws_env \<Rightarrow> byte list \<Rightarrow> Http_conn \<Rightarrow> (O2err \<times> Http_conn) option" where
  "handle_text env payload c =
     Option.bind (ws_msg_parse payload 32) (\<lambda>parsed.
     case parsed of
       None \<Rightarrow> Some (O2_INVALID_MSG, drop_msg c)
     | Some flds \<Rightarrow>
         if length flds < 4 then Some (O2_INVALID_MSG, drop_msg c)
         else let b = snd (o2_send_start (scratch c));
                  address = c_str (flds ! 0);
                  types = c_str (flds ! 1);
                  time = atof env (c_str (flds ! 2));
                  tcp_flag = (flds ! 3 \<noteq> [] \<and> hd (flds ! 3) = byte_of CHR ''T'');
                  (enough, b) = add_fields env types (drop 4 flds) b;
                  c = c\<lparr>scratch := b\<rparr> in
           if \<not> enough then Some (O2_INVALID_MSG, drop_msg c)
           else if \<not> confirmed_ensemble c \<and>
                   (if flds ! 0 = [] then types else c_str (tl (flds ! 0))) \<noteq> ''_o2/ws/dy'' then Some (O2_FAIL, c)
           else (case o2_message_finish True (new_memory env) time address tcp_flag b of
               (None, b) \<Rightarrow> None
             | (Some to_send, b) \<Rightarrow>
                 Some (O2_SUCCESS, ws_event (Message_sent to_send) (drop_msg
                   (c\<lparr>scratch := b, confirmed_ensemble := (confirmed_ensemble c \<or> confirms env to_send)\<rparr>)))))"

definition handle_websocket_msg :: "ws_env \<Rightarrow> Http_conn \<Rightarrow> (O2err \<times> Http_conn) option" where
  "handle_websocket_msg env c =
     (let msg = inbuf c; header = msg ! 0; opcode = header AND 15 in
      if header AND WSBIT_FIN = 0 then Some (O2_INVALID_MSG, c)
      else if opcode \<noteq> WSOP_TEXT \<and> opcode \<noteq> WSOP_PING \<and> opcode \<noteq> WSOP_CLOSE then Some (O2_INVALID_MSG, c)
      else if msg ! 1 AND WSBIT_MASK = 0 then Some (O2_INVALID_MSG, c)
      else let payloadx = maskx c + 4; payload_len = ws_msg_len c - int payloadx in
        if payload_len < 0 then
          if opcode = WSOP_TEXT \<and> ws_msg_len c > 0 then Some (O2_INVALID_MSG, drop_msg c)
          else if opcode = WSOP_CLOSE \<and> sent_close_command c then Some (O2_FAIL, c) else None
        else let payload = unmask (take 4 (drop (maskx c) msg)) (take (nat payload_len) (drop payloadx msg));
                 c = c\<lparr>inbuf := take payloadx msg @ payload @ drop (payloadx + length payload) msg\<rparr> in
          if opcode = WSOP_PING \<or> opcode = WSOP_CLOSE \<and> \<not> sent_close_command c then
            Some (handle_control opcode payload c)
          else if opcode = WSOP_CLOSE then Some (O2_FAIL, c)
          else handle_text env payload c)"

text \<open>The loop over complete messages. A message that is too long is not reported: the loop ends and the connection
  stays open.\<close>

fun ws_loop :: "nat \<Rightarrow> ws_env \<Rightarrow> Http_conn \<Rightarrow> Http_conn option" where
  "ws_loop 0 env c = None"
| "ws_loop (Suc n) env c =
     (case ws_msg_is_complete c of (rslt, c) \<Rightarrow>
        if rslt \<noteq> O2_SUCCESS then Some c
        else (case handle_websocket_msg env c of
            None \<Rightarrow> None
          | Some (err, c) \<Rightarrow>
              if err \<noteq> O2_SUCCESS then Some (ws_event (Close_socket False) c) else ws_loop n env c))"

definition deliver_ws :: "nat \<Rightarrow> ws_env \<Rightarrow> byte list \<Rightarrow> Http_conn \<Rightarrow> Http_conn option" where
  "deliver_ws n env bytes c = ws_loop n env (c\<lparr>inbuf := inbuf c @ bytes\<rparr>)"

section \<open>What a client sends\<close>

text \<open>A frame as the protocol's standard (RFC 6455) has it: final, text, masked, with its length in one or two more bytes.\<close>

definition frame_header :: "nat \<Rightarrow> byte list" where
  "frame_header n = 0x81 # (if n < 126 then [0x80 OR word_of_nat n]
     else [0xFE, word_of_nat (n div 256), word_of_nat (n mod 256)])"

definition ws_frame :: "byte list \<Rightarrow> byte list \<Rightarrow> byte list" where
  "ws_frame mkey payload = frame_header (length payload) @ mkey @ unmask mkey payload"

definition text_payload :: "string list \<Rightarrow> byte list" where
  "text_payload fs = concat (map (\<lambda>f. bytes_of f @ [ETX]) fs)"

text \<open>Lengths whose bytes do not look negative.\<close>

definition length_ok :: "nat \<Rightarrow> bool" where
  "length_ok n \<longleftrightarrow> n < 126 \<or> n div 256 < 128 \<and> n mod 256 < 128"

definition text_ok :: "string list \<Rightarrow> bool" where
  "text_ok fs \<longleftrightarrow> 4 \<le> length fs \<and> length fs \<le> 32 \<and> length (fs ! 1) + 4 \<le> length fs \<and>
     (\<forall>f \<in> set fs. c_string f \<and> CHR 0x03 \<notin> set f) \<and> length_ok (length (text_payload fs))"

definition frame_ok :: "byte list \<times> string list \<Rightarrow> bool" where
  "frame_ok = (\<lambda>(mkey, fs). length mkey = 4 \<and> text_ok fs)"

definition frame_of :: "byte list \<times> string list \<Rightarrow> byte list" where
  "frame_of = (\<lambda>(mkey, fs). ws_frame mkey (text_payload fs))"

lemma length_unmask [simp]: "length (unmask mkey payload) = length payload"
  by (simp add: unmask_def)

lemma unmask_twice: "unmask mkey (unmask mkey payload) = payload"
  by (rule nth_equalityI) (simp_all add: unmask_def xor.assoc)

lemma length_frame_header: "length (frame_header n) = (if n < 126 then 2 else 4)"
  by (simp add: frame_header_def)

lemma etx_byte: "byte_of c = 3 \<longleftrightarrow> c = CHR 0x03"
proof -
  have "byte_of CHR 0x03 = 3" by (simp add: byte_of_def)
  then show ?thesis by (metis byte_of_eq_iff)
qed

lemma split_text_payload:
  "\<forall>f \<in> set fs. CHR 0x03 \<notin> set f \<Longrightarrow> split_fields (text_payload fs) = map bytes_of fs"
proof (induction fs)
  case Nil
  then show ?case by (simp add: text_payload_def split_fields.simps)
next
  case (Cons f fs)
  have no: "\<forall>b \<in> set (bytes_of f). b \<noteq> ETX"
    using Cons.prems by (auto simp: bytes_of_def etx_byte)
  have e: "text_payload (f # fs) = bytes_of f @ ETX # text_payload fs" by (simp add: text_payload_def)
  have "takeWhile (\<lambda>b. b \<noteq> ETX) (text_payload (f # fs)) = bytes_of f"
    "dropWhile (\<lambda>b. b \<noteq> ETX) (text_payload (f # fs)) = ETX # text_payload fs"
    unfolding e using no by (simp_all add: takeWhile_append2 dropWhile_append2)
  then show ?case using Cons by (simp add: split_fields.simps [of "text_payload (f # fs)"]) (simp add: e)
qed

lemma parse_text_payload:
  assumes "text_ok fs"
  shows "ws_msg_parse (text_payload fs) 32 = Some (Some (map bytes_of fs))"
proof -
  have "fs \<noteq> []" using assms by (auto simp: text_ok_def)
  then obtain fs' f where fs: "fs = fs' @ [f]" by (metis rev_exhaust)
  have "text_payload fs \<noteq> []" "last (text_payload fs) = ETX" by (simp_all add: fs text_payload_def)
  moreover have "split_fields (text_payload fs) = map bytes_of fs"
    using assms by (intro split_text_payload) (auto simp: text_ok_def)
  ultimately show ?thesis using assms by (simp add: ws_msg_parse_def text_ok_def)
qed

lemma c_str_bytes_of: "c_string f \<Longrightarrow> c_str (bytes_of f) = f"
proof -
  assume "c_string f"
  then have "\<forall>b \<in> set (bytes_of f). b \<noteq> 0" using zero_in_bytes_of by blast
  then have "takeWhile (\<lambda>b. b \<noteq> 0) (bytes_of f) = bytes_of f" by (simp add: takeWhile_eq_all_conv)
  then show ?thesis unfolding c_str_def by (simp only:) (simp add: bytes_of_def comp_def)
qed

lemma add_fields_enough: "length types \<le> length flds \<Longrightarrow> fst (add_fields env types flds b)"
  by (induction env types flds b rule: add_fields.induct) auto

definition message_of_fields :: "ws_env \<Rightarrow> string list \<Rightarrow> O2message option" where
  "message_of_fields env fs =
     fst (o2_message_finish True (new_memory env) (atof env (fs ! 2)) (fs ! 0) (fs ! 3 \<noteq> [] \<and> hd (fs ! 3) = CHR ''T'')
       (snd (add_fields env (fs ! 1) (map bytes_of (drop 4 fs)) (snd (o2_send_start idle_builder)))))"

lemma add_fields_locked:
  "building_message_lock b \<Longrightarrow> building_message_lock (snd (add_fields env types flds b))"
proof (induction env types flds b rule: add_fields.induct)
  case (3 env t types f flds b)
  have "building_message_lock (add_field env t s b)" for s
    using "3.prems" by (auto simp: add_field_def o2_add_int32_or_char_def o2_add_float_def o2_add_double_or_time_def
        o2_add_string_or_symbol_def add_type_def append_data_def ADD_PADDING_def Let_def)
  then show ?case using "3.IH" by simp
qed auto

section \<open>Handling a frame\<close>

definition ready :: "Http_conn \<Rightarrow> bool" where
  "ready c \<longleftrightarrow> confirmed_ensemble c \<and> \<not> building_message_lock (scratch c)"

lemma handle_text_ok:
  assumes "ready c" "text_ok fs"
  obtains m c' where "message_of_fields env fs = Some m" "handle_text env (text_payload fs) c = Some (O2_SUCCESS, c')"
    "ready c'" "inbuf c' = drop (nat (ws_msg_len c)) (inbuf c)" "ws_msg_len c' = -1"
    "ws_events c' = ws_events c @ [Message_sent m]" "is_web_socket c' = is_web_socket c"
proof -
  have start: "snd (o2_send_start (scratch c)) = snd (o2_send_start idle_builder)"
    using assms(1) by (simp add: ready_def o2_send_start_def idle_builder_def)
  have ok: "4 \<le> length fs" "\<And>i. i < length fs \<Longrightarrow> c_str (bytes_of (fs ! i)) = fs ! i" "length (fs ! 1) \<le> length (drop 4 fs)"
    using assms(2) by (auto simp: text_ok_def c_str_bytes_of)
  have "fs \<noteq> []" using ok(1) by auto
  obtain enough b where b: "add_fields env (fs ! 1) (map bytes_of (drop 4 fs)) (snd (o2_send_start idle_builder)) = (enough, b)"
    by fastforce
  have enough unfolding arg_cong [OF b, of fst, simplified, symmetric] using ok(3) by (intro add_fields_enough) simp
  have lock: "building_message_lock b" unfolding arg_cong [OF b, of snd, simplified, symmetric]
    by (rule add_fields_locked) (simp add: o2_send_start_def idle_builder_def)
  have tcp: "(bytes_of (fs ! 3) \<noteq> [] \<and> hd (bytes_of (fs ! 3)) = byte_of CHR ''T'') =
      (fs ! 3 \<noteq> [] \<and> hd (fs ! 3) = CHR ''T'')" by (cases "fs ! 3") simp_all
  obtain m b' where fin: "o2_message_finish True (new_memory env) (atof env (fs ! 2)) (fs ! 0)
      (fs ! 3 \<noteq> [] \<and> hd (fs ! 3) = CHR ''T'') b = (Some m, b')" "\<not> building_message_lock b'"
    using lock by (simp add: o2_message_finish_def o2_service_message_finish_def)
  have m: "message_of_fields env fs = Some m" using fin(1) b by (simp add: message_of_fields_def)
  have at: "map bytes_of fs ! 0 = bytes_of (fs ! 0)" "map bytes_of fs ! 1 = bytes_of (fs ! 1)"
    "map bytes_of fs ! 2 = bytes_of (fs ! 2)" "map bytes_of fs ! 3 = bytes_of (fs ! 3)"
    "c_str (bytes_of (fs ! 0)) = fs ! 0" "c_str (bytes_of (fs ! 1)) = fs ! 1" "c_str (bytes_of (fs ! 2)) = fs ! 2"
    using ok(1,2) \<open>fs \<noteq> []\<close> by simp_all
  show thesis
  proof (rule that [OF m])
    have "handle_text env (text_payload fs) c =
       (let c = c\<lparr>scratch := b\<rparr> in Some (O2_SUCCESS, ws_event (Message_sent m) (drop_msg
          (c\<lparr>scratch := b', confirmed_ensemble := (confirmed_ensemble c \<or> confirms env m)\<rparr>))))"
      unfolding handle_text_def parse_text_payload [OF assms(2)] Let_def start
      using assms(1) ok(1) \<open>enough\<close> b fin(1) by (simp only: at drop_map bind.bind_lunit option.case tcp) (simp add: ready_def)
    then show "handle_text env (text_payload fs) c = Some (O2_SUCCESS, ws_event (Message_sent m) (drop_msg
        (c\<lparr>scratch := b', confirmed_ensemble := True\<rparr>)))"
      using assms(1) by (simp add: ready_def)
  qed (use assms(1) fin(2) in \<open>simp_all add: ready_def ws_event_def drop_msg_def\<close>)
qed

lemma low_bits: "n < 126 \<Longrightarrow> unat ((0x80 OR word_of_nat n) AND 127 :: byte) = n"
proof -
  assume n: "n < 126"
  have "(0x80 OR word_of_nat n) AND 127 = (word_of_nat n AND 127 :: byte)"
    by (simp add: word_ao_dist)
  also have "\<dots> = take_bit 7 (word_of_nat n)" by (simp add: take_bit_eq_mask mask_eq_exp_minus_1)
  also have "\<dots> = word_of_nat n mod 2 ^ 7" by (rule take_bit_eq_mod)
  finally show ?thesis using n by (simp add: unat_mod unat_of_nat)
qed

lemma small_byte: "n < 128 \<Longrightarrow> sint (word_of_nat n :: byte) = int n"
proof -
  assume "n < 128"
  then have "sint (word_of_int (int n) :: byte) = int n"
    by (simp only: signed_of_int) (simp add: signed_take_bit_int_eq_self)
  then show ?thesis by simp
qed

lemma header_length:
  assumes "length_ok n" "n < 65536"
  shows "n < 126 \<Longrightarrow> length_code (frame_header n @ r) = n"
    and "\<not> n < 126 \<Longrightarrow> length_code (frame_header n @ r) = 126 \<and> length_16 (frame_header n @ r) = int n"
proof -
  show "n < 126 \<Longrightarrow> length_code (frame_header n @ r) = n"
    using low_bits [of n] by (simp add: frame_header_def length_code_def)
  assume n: "\<not> n < 126"
  then have "n div 256 < 128" "n mod 256 < 128" using assms by (auto simp: length_ok_def)
  moreover have "int (n div 256) * 256 + int (n mod 256) = int n"
    by (metis div_mult_mod_eq of_nat_add of_nat_mult of_nat_numeral)
  ultimately show "length_code (frame_header n @ r) = 126 \<and> length_16 (frame_header n @ r) = int n"
    using n small_byte [of "n div 256"] small_byte [of "n mod 256"]
    by (simp add: frame_header_def length_code_def length_16_def)
qed

lemma length_ok_bound: "length_ok n \<Longrightarrow> n < 65536"
proof -
  assume "length_ok n"
  then have "n < 126 \<or> n div 256 < 256" by (auto simp: length_ok_def)
  then show ?thesis by (auto simp: div_less_iff_less_mult)
qed

text \<open>What the connection knows about the frame at the beginning of \<open>inbuf\<close>: nothing, or its length.\<close>

definition header_size :: "nat \<Rightarrow> nat" where
  "header_size n = (if n < 126 then 2 else 4)"

definition knows :: "Http_conn \<Rightarrow> nat \<Rightarrow> bool" where
  "knows c n \<longleftrightarrow> ws_msg_len c = -1 \<or> ws_msg_len c = int (header_size n + 4 + n) \<and> maskx c = header_size n \<and>
       (n < 126 \<or> 134 \<le> length (inbuf c))"

lemma complete_full:
  assumes "inbuf c = frame_header n @ r" "n + 4 \<le> length r" "length_ok n" "knows c n"
  shows "ws_msg_is_complete c = (O2_SUCCESS, c\<lparr>ws_msg_len := int (header_size n + 4 + n), maskx := header_size n\<rparr>)"
proof (cases "ws_msg_len c = -1")
  case True
  note h = header_length [OF assms(3) length_ok_bound [OF assms(3)], of r]
  show ?thesis
  proof (cases "n < 126")
    case small: True
    then show ?thesis using True assms(1,2) h(1)
      by (simp add: ws_msg_is_complete_def Let_def length_frame_header header_size_def)
  next
    case False
    then show ?thesis using True assms(1,2) h(2)
      by (simp add: ws_msg_is_complete_def Let_def length_frame_header header_size_def)
  qed
next
  case False
  then have "ws_msg_len c = int (header_size n + 4 + n)" "maskx c = header_size n" using assms(4) by (simp_all add: knows_def)
  then show ?thesis using assms(1,2)
    by (simp add: ws_msg_is_complete_def length_frame_header header_size_def)
qed

lemma complete_partial:
  assumes "inbuf c @ s = frame_header n @ r" "length (inbuf c) < header_size n + 4 + n" "length_ok n" "knows c n"
  obtains c' where "ws_msg_is_complete c = (O2_FAIL, c')" "knows c' n"
    "c' = c\<lparr>ws_msg_len := ws_msg_len c', maskx := maskx c'\<rparr>"
proof (cases "length (inbuf c) < 6")
  case True
  then have "ws_msg_is_complete c = (O2_FAIL, c)"
    using assms(2,4) by (auto simp: ws_msg_is_complete_def knows_def)
  then show thesis using that [of c] assms(4) by simp
next
  case False
  note h = header_length [OF assms(3) length_ok_bound [OF assms(3)], of r]
  have len: "\<not> (ws_msg_len c \<ge> 0 \<and> ws_msg_len c \<le> int (length (inbuf c)))"
    using assms(2,4) by (auto simp: knows_def)
  have code: "length_code (inbuf c) = length_code (frame_header n @ r)" "length_16 (inbuf c) = length_16 (frame_header n @ r)"
    using False unfolding length_code_def length_16_def assms(1) [symmetric] by (simp_all add: nth_append)
  show thesis
  proof (cases "n < 126")
    case True
    then have "ws_msg_is_complete c = (O2_FAIL, c\<lparr>ws_msg_len := int (header_size n + 4 + n), maskx := header_size n\<rparr>)"
      using False len h(1) assms(2) code by (simp add: ws_msg_is_complete_def Let_def header_size_def)
    then show thesis using that True by (simp add: knows_def)
  next
    case big: False
    show thesis
    proof (cases "length (inbuf c) < 134")
      case True
      then have "ws_msg_is_complete c = (O2_FAIL, c\<lparr>maskx := 2\<rparr>)"
        using False len h(2) [OF big] code by (simp add: ws_msg_is_complete_def Let_def)
      moreover have "knows (c\<lparr>maskx := 2\<rparr>) n" using assms(4) True big by (auto simp: knows_def)
      ultimately show thesis using that by simp
    next
      case long: False
      then have "ws_msg_is_complete c = (O2_FAIL, c\<lparr>ws_msg_len := int (header_size n + 4 + n), maskx := header_size n\<rparr>)"
        using False big len h(2) [OF big] assms(2) code
        by (simp add: ws_msg_is_complete_def Let_def header_size_def)
      then show thesis using that long by (simp add: knows_def)
    qed
  qed
qed

lemma control_bits:
  "(0x81 :: byte) AND 128 \<noteq> 0" "(0x81 :: byte) AND 15 = 1" "(0xFE :: byte) AND 128 \<noteq> 0"
  "(0x80 OR w :: byte) AND 128 \<noteq> 0"
proof -
  show "(0x80 OR w :: byte) AND 128 \<noteq> 0" by (simp add: word_ao_dist)
qed simp_all

lemma header_fields:
  "(frame_header n @ r) ! 0 = 0x81" "(frame_header n @ r) ! 1 AND 128 \<noteq> 0"
  using control_bits by (auto simp: frame_header_def)

lemma handle_frame:
  assumes "ready c" "frame_ok (mkey, fs)" "inbuf c = frame_of (mkey, fs) @ rest"
    and "ws_msg_len c = int (length (frame_of (mkey, fs)))" "maskx c = header_size (length (text_payload fs))"
  obtains m c' where "message_of_fields env fs = Some m" "handle_websocket_msg env c = Some (O2_SUCCESS, c')"
    "ready c'" "inbuf c' = rest" "ws_msg_len c' = -1" "ws_events c' = ws_events c @ [Message_sent m]"
    "is_web_socket c' = is_web_socket c"
proof -
  define n where "n = length (text_payload fs)"
  have k: "length mkey = 4" "text_ok fs" using assms(2) by (simp_all add: frame_ok_def)
  have hl: "length (frame_header n) = header_size n" by (simp add: length_frame_header header_size_def)
  have inb: "inbuf c = frame_header n @ mkey @ unmask mkey (text_payload fs) @ rest"
    using assms(3) by (simp add: frame_of_def ws_frame_def n_def)
  have len: "ws_msg_len c = int (header_size n + 4 + n)"
    using assms(4) k(1) hl by (simp add: frame_of_def ws_frame_def n_def)
  have mx: "maskx c = header_size n" using assms(5) by (simp add: n_def)
  have parts: "take 4 (drop (maskx c) (inbuf c)) = mkey"
    "take n (drop (maskx c + 4) (inbuf c)) = unmask mkey (text_payload fs)"
    "drop (maskx c + 4 + n) (inbuf c) = rest" "take (maskx c + 4) (inbuf c) = frame_header n @ mkey"
    using k(1) hl by (simp_all add: inb mx n_def)
  define c1 where "c1 = c\<lparr>inbuf := frame_header n @ mkey @ text_payload fs @ rest\<rparr>"
  have "handle_websocket_msg env c = handle_text env (text_payload fs) c1"
  proof -
    have h: "inbuf c ! 0 = 0x81" "inbuf c ! 1 AND 128 \<noteq> 0" unfolding inb by (rule header_fields)+
    have pl: "ws_msg_len c - int (maskx c + 4) = int n" by (simp add: len mx)
    have un: "unmask mkey (unmask mkey (text_payload fs)) = text_payload fs" by (rule unmask_twice)
    have bits: "(0x81 :: byte) AND 128 \<noteq> 0" "(0x81 :: byte) AND 15 = 1" by simp_all
    show ?thesis
      unfolding handle_websocket_msg_def Let_def h(1) pl nat_int
      using h(2) bits parts un by (simp add: c1_def n_def)
  qed
  moreover have "ready c1" using assms(1) by (simp add: c1_def ready_def)
  then obtain m c' where "message_of_fields env fs = Some m" "handle_text env (text_payload fs) c1 = Some (O2_SUCCESS, c')"
    "ready c'" "inbuf c' = drop (nat (ws_msg_len c1)) (inbuf c1)" "ws_msg_len c' = -1"
    "ws_events c' = ws_events c1 @ [Message_sent m]" "is_web_socket c' = is_web_socket c1"
    by (rule handle_text_ok [OF _ k(2)])
  moreover have "drop (nat (ws_msg_len c1)) (inbuf c1) = rest"
    using hl k(1) by (simp add: c1_def len n_def nat_add_distrib)
  ultimately show thesis using that by (simp add: c1_def)
qed

section \<open>The stream of frames\<close>

text \<open>What the connection has received is the beginning of a sequence of frames.\<close>

definition knows_first :: "Http_conn \<Rightarrow> (byte list \<times> string list) list \<Rightarrow> bool" where
  "knows_first c todo \<longleftrightarrow>
     (case todo of [] \<Rightarrow> ws_msg_len c = -1 | fm # _ \<Rightarrow> knows c (length (text_payload (snd fm))))"

definition sent :: "ws_env \<Rightarrow> (byte list \<times> string list) list \<Rightarrow> ws_event list" where
  "sent env fms = concat (map (\<lambda>(_, fs). case message_of_fields env fs of None \<Rightarrow> [] | Some m \<Rightarrow> [Message_sent m]) fms)"

lemma loop_stream:
  assumes "length fms < n" "\<forall>fm \<in> set fms. frame_ok fm" "ready c" "knows_first c fms"
    and "inbuf c @ rest = concat (map frame_of fms)"
  shows "\<exists>c' done todo. ws_loop n env c = Some c' \<and> fms = done @ todo \<and> ready c' \<and> knows_first c' todo \<and>
    inbuf c' @ rest = concat (map frame_of todo) \<and>
    (case todo of [] \<Rightarrow> True | fm # _ \<Rightarrow> length (inbuf c') < length (frame_of fm)) \<and>
    ws_events c' = ws_events c @ sent env done \<and> is_web_socket c' = is_web_socket c"
  using assms
proof (induction n arbitrary: c fms)
  case 0
  then show ?case by simp
next
  case (Suc n)
  show ?case
  proof (cases fms)
    case Nil
    then have "inbuf c = []" "rest = []" "ws_msg_len c = -1" using Suc.prems by (simp_all add: knows_first_def)
    then have "ws_loop (Suc n) env c = Some c" by (simp add: ws_msg_is_complete_def)
    then show ?thesis using Suc.prems Nil by (intro exI [of _ c] exI [of _ "[]"]) (simp add: sent_def)
  next
    case (Cons fm fms')
    obtain mkey fs where fm: "fm = (mkey, fs)" by (cases fm)
    define k where "k = length (text_payload fs)"
    have ok: "frame_ok (mkey, fs)" "length mkey = 4" "length_ok k"
      using Suc.prems(2) Cons by (auto simp: fm frame_ok_def text_ok_def k_def)
    have hl: "length (frame_header k) = header_size k" by (simp add: length_frame_header header_size_def)
    have fl: "length (frame_of fm) = header_size k + 4 + k"
      using ok(2) hl by (simp add: fm frame_of_def ws_frame_def k_def)
    have kn: "knows c k" using Suc.prems(4) by (simp add: knows_first_def Cons fm k_def)
    have stream: "inbuf c @ rest = frame_header k @ mkey @ unmask mkey (text_payload fs) @ concat (map frame_of fms')"
      using Suc.prems(5) by (simp add: Cons fm frame_of_def ws_frame_def k_def)
    show ?thesis
    proof (cases "length (inbuf c) < length (frame_of fm)")
      case True
      obtain c' where c': "ws_msg_is_complete c = (O2_FAIL, c')" "knows c' k"
        "c' = c\<lparr>ws_msg_len := ws_msg_len c', maskx := maskx c'\<rparr>"
        by (rule complete_partial [OF stream _ ok(3) kn]) (use True fl in simp)
      have same: "inbuf c' = inbuf c" "ready c' = ready c" "ws_events c' = ws_events c" "is_web_socket c' = is_web_socket c"
        by (subst c'(3), simp add: ready_def)+
      have "ws_loop (Suc n) env c = Some c'" using c'(1) by simp
      then show ?thesis using Suc.prems Cons c'(2) same True
        by (intro exI [of _ c'] exI [of _ "[]"] exI [of _ fms]) (simp add: knows_first_def fm k_def sent_def)
    next
      case False
      have "take (length (frame_of fm)) (inbuf c @ rest) = frame_of fm" using Suc.prems(5) Cons by simp
      then have pre: "inbuf c = frame_of fm @ drop (length (frame_of fm)) (inbuf c)"
        using False by (metis append_take_drop_id diff_is_0_eq not_less take_0 take_append append_Nil2)
      define r where "r = drop (length (frame_of fm)) (inbuf c)"
      have r: "inbuf c = frame_header k @ mkey @ unmask mkey (text_payload fs) @ r"
        using pre by (simp add: r_def fm frame_of_def ws_frame_def k_def)
      define c1 where "c1 = c\<lparr>ws_msg_len := int (header_size k + 4 + k), maskx := header_size k\<rparr>"
      have c1: "ws_msg_is_complete c = (O2_SUCCESS, c1)"
        unfolding c1_def by (rule complete_full [OF r _ ok(3) kn]) (simp add: ok(2) k_def)
      obtain m c2 where c2: "message_of_fields env fs = Some m" "handle_websocket_msg env c1 = Some (O2_SUCCESS, c2)"
        "ready c2" "inbuf c2 = r" "ws_msg_len c2 = -1" "ws_events c2 = ws_events c1 @ [Message_sent m]"
        "is_web_socket c2 = is_web_socket c1"
      proof (rule handle_frame [OF _ ok(1), of c1 r])
        show "ready c1" using Suc.prems(3) by (simp add: c1_def ready_def)
        show "inbuf c1 = frame_of (mkey, fs) @ r" using pre by (simp add: c1_def r_def fm)
        show "ws_msg_len c1 = int (length (frame_of (mkey, fs)))" using fl by (simp add: c1_def fm)
        show "maskx c1 = header_size (length (text_payload fs))" by (simp add: c1_def k_def)
      qed
      have loop: "ws_loop (Suc n) env c = ws_loop n env c2" by (simp add: c1 c2(2))
      have rest: "inbuf c2 @ rest = concat (map frame_of fms')"
        using Suc.prems(5) pre Cons by (simp add: c2(4) r_def) (metis append.assoc same_append_eq)
      have k2: "knows_first c2 fms'" by (cases fms') (simp_all add: knows_first_def knows_def c2(5))
      have "length fms' < n" "\<forall>fm \<in> set fms'. frame_ok fm" using Suc.prems(1,2) Cons by auto
      from Suc.IH [OF this c2(3) k2 rest] obtain c' don todo where ih:
        "ws_loop n env c2 = Some c'" "fms' = don @ todo" "ready c'" "knows_first c' todo"
        "inbuf c' @ rest = concat (map frame_of todo)"
        "case todo of [] \<Rightarrow> True | fm # _ \<Rightarrow> length (inbuf c') < length (frame_of fm)"
        "ws_events c' = ws_events c2 @ sent env don" "is_web_socket c' = is_web_socket c2"
        by blast
      have ev: "ws_events c2 = ws_events c @ [Message_sent m]" using c2(6) by (simp add: c1_def)
      have es: "ws_events c' = ws_events c @ sent env (fm # don)"
        using ih(7) ev c2(1) by (simp add: sent_def fm)
      show ?thesis
        using ih es ev c2(1,7) loop
        by (intro exI [of _ c'] exI [of _ "fm # don"] exI [of _ todo]) (simp add: Cons fm c1_def)
    qed
  qed
qed

fun deliver_all :: "nat \<Rightarrow> ws_env \<Rightarrow> byte list list \<Rightarrow> Http_conn \<Rightarrow> Http_conn option" where
  "deliver_all n env [] c = Some c"
| "deliver_all n env (x # xs) c = Option.bind (deliver_ws n env x c) (deliver_all n env xs)"

lemma knows_first_more:
  "knows_first c todo \<Longrightarrow> knows_first (c\<lparr>inbuf := inbuf c @ x\<rparr>) todo"
  by (cases todo) (auto simp: knows_first_def knows_def)

lemma sent_append: "sent env (xs @ ys) = sent env xs @ sent env ys"
  by (simp add: sent_def)

definition too_short :: "Http_conn \<Rightarrow> (byte list \<times> string list) list \<Rightarrow> bool" where
  "too_short c todo \<longleftrightarrow> (case todo of [] \<Rightarrow> True | fm # _ \<Rightarrow> length (inbuf c) < length (frame_of fm))"

lemma deliver_all_stream:
  assumes "length fms < n" "\<forall>fm \<in> set fms. frame_ok fm" "ready c" "knows_first c fms" "too_short c fms"
    and "inbuf c @ concat chunks @ rest = concat (map frame_of fms)"
  shows "\<exists>c' done todo. deliver_all n env chunks c = Some c' \<and> fms = done @ todo \<and>
    inbuf c' @ rest = concat (map frame_of todo) \<and> too_short c' todo \<and> ws_events c' = ws_events c @ sent env done"
  using assms
proof (induction chunks arbitrary: c fms)
  case Nil
  then show ?case by (intro exI [of _ c] exI [of _ "[]"] exI [of _ fms]) (simp add: sent_def)
next
  case (Cons x xs)
  let ?c = "c\<lparr>inbuf := inbuf c @ x\<rparr>"
  have "ready ?c" using Cons.prems(3) by (simp add: ready_def)
  moreover have "inbuf ?c @ concat xs @ rest = concat (map frame_of fms)" using Cons.prems(6) by simp
  ultimately obtain c1 don todo where c1: "ws_loop n env ?c = Some c1" "fms = don @ todo" "ready c1" "knows_first c1 todo"
    "inbuf c1 @ concat xs @ rest = concat (map frame_of todo)"
    "case todo of [] \<Rightarrow> True | fm # _ \<Rightarrow> length (inbuf c1) < length (frame_of fm)"
    "ws_events c1 = ws_events ?c @ sent env don"
    using loop_stream [OF Cons.prems(1,2) _ knows_first_more [OF Cons.prems(4)], of x "concat xs @ rest" env] by blast
  have "length todo < n" "\<forall>fm \<in> set todo. frame_ok fm" using Cons.prems(1,2) c1(2) by auto
  from Cons.IH [OF this c1(3,4) _ c1(5)] c1(6) obtain c' don' todo' where c': "deliver_all n env xs c1 = Some c'"
    "todo = don' @ todo'" "inbuf c' @ rest = concat (map frame_of todo')" "too_short c' todo'"
    "ws_events c' = ws_events c1 @ sent env don'"
    unfolding too_short_def by blast
  have "deliver_all n env (x # xs) c = Some c'" by (simp add: deliver_ws_def c1(1) c'(1))
  then show ?case using c1(2,7) c' by (intro exI [of _ c'] exI [of _ "don @ don'"] exI [of _ todo']) (simp add: sent_append)
qed

text \<open>C7: the messages of a confirmed web socket client arrive whatever way the network cuts them into chunks: when the bytes received
  so far are a beginning of the masked text frames (\<open>frame_ok\<close>: each with the fields of a message, at most 32, and both bytes of the length of its
  payload below 128, as others are misread, see \<open>length_taken_negative\<close>) of a sequence of messages, those messages have been sent, in
  order, whose frames are complete, each once and each as the message its fields say, and the connection keeps
  exactly the incomplete rest. The loop over the frames always ends.\<close>

theorem ws_stream:
  assumes "length fms < n" "\<forall>fm \<in> set fms. frame_ok fm" "ready c" "inbuf c = []" "ws_msg_len c = -1"
    and "concat chunks @ rest = concat (map frame_of fms)"
  shows "\<exists>c' done todo. deliver_all n env chunks c = Some c' \<and> fms = done @ todo \<and>
    concat chunks = concat (map frame_of done) @ inbuf c' \<and>
    (case todo of [] \<Rightarrow> inbuf c' = [] | fm # _ \<Rightarrow> length (inbuf c') < length (frame_of fm)) \<and>
    ws_events c' = ws_events c @ sent env done"
proof -
  have k: "knows_first c fms" "too_short c fms"
  proof -
    show "knows_first c fms" using assms(5) by (cases fms) (simp_all add: knows_first_def knows_def)
    have "0 < length (frame_of fm)" for fm by (cases fm) (simp add: frame_of_def ws_frame_def frame_header_def)
    then show "too_short c fms" using assms(4) by (cases fms) (simp_all add: too_short_def)
  qed
  have "inbuf c @ concat chunks @ rest = concat (map frame_of fms)" using assms(4,6) by simp
  from deliver_all_stream [OF assms(1-3) k this] obtain c' don todo where
    d: "deliver_all n env chunks c = Some c'" "fms = don @ todo" "inbuf c' @ rest = concat (map frame_of todo)"
      "too_short c' todo" "ws_events c' = ws_events c @ sent env don" by blast
  have "concat chunks @ rest = concat (map frame_of don) @ inbuf c' @ rest"
    using assms(6) d(2,3) by simp
  then have "concat chunks = concat (map frame_of don) @ inbuf c'"
    by (metis append.assoc append_same_eq)
  moreover have "todo = [] \<Longrightarrow> inbuf c' = []" using d(3) by simp
  ultimately show ?thesis
    using d(1,2,4,5) by (intro exI [of _ c'] exI [of _ don] exI [of _ todo]) (auto simp: too_short_def split: list.splits)
qed

definition plain_env :: ws_env where
  "plain_env = \<lparr>atof = (\<lambda>_. 0), new_memory = (\<lambda>_. 7), confirms = (\<lambda>_. False)\<rparr>"

definition open_conn :: Http_conn where
  "open_conn = \<lparr>inbuf = [], ws_msg_len = -1, maskx = 0, is_web_socket = True, sent_close_command = False,
     confirmed_ensemble = True, scratch = idle_builder, ws_events = []\<rparr>"

definition play_note :: "byte list \<times> string list" where
  "play_note = ([1, 2, 3, 4], [''/synth/note'', ''i'', ''0'', ''T'', ''60''])"

theorem ws_stream_witness:
  "\<exists>c' done todo. deliver_all 3 plain_env [take 9 (frame_of play_note @ frame_of play_note),
       drop 9 (frame_of play_note @ frame_of play_note)] open_conn = Some c' \<and> [play_note, play_note] = done @ todo \<and>
    concat [take 9 (frame_of play_note @ frame_of play_note), drop 9 (frame_of play_note @ frame_of play_note)] =
      concat (map frame_of done) @ inbuf c' \<and>
    (case todo of [] \<Rightarrow> inbuf c' = [] | fm # _ \<Rightarrow> length (inbuf c') < length (frame_of fm)) \<and>
    ws_events c' = ws_events open_conn @ sent plain_env done"
proof (rule ws_stream)
  show "\<forall>fm \<in> set [play_note, play_note]. frame_ok fm"
    by (simp add: play_note_def frame_ok_def text_ok_def c_string_def length_ok_def text_payload_def)
  show "ready open_conn" by (simp add: ready_def open_conn_def idle_builder_def)
  show "concat [take 9 (frame_of play_note @ frame_of play_note), drop 9 (frame_of play_note @ frame_of play_note)] @ [] =
      concat (map frame_of [play_note, play_note])" by (simp del: take_append drop_append)
qed (simp_all add: open_conn_def)

section \<open>Control frames\<close>

text \<open>The beginning of the buffer is a complete, final and masked frame with the operation code \<open>opcode\<close> and \<open>n\<close> bytes of payload.\<close>

definition complete_frame :: "byte \<Rightarrow> nat \<Rightarrow> Http_conn \<Rightarrow> bool" where
  "complete_frame opcode n c \<longleftrightarrow> inbuf c ! 0 AND WSBIT_FIN \<noteq> 0 \<and> inbuf c ! 0 AND 15 = opcode \<and>
     inbuf c ! 1 AND WSBIT_MASK \<noteq> 0 \<and> 2 \<le> maskx c \<and> ws_msg_len c = int (maskx c + 4 + n) \<and>
     maskx c + 4 + n \<le> length (inbuf c)"

lemma complete_frame_length:
  "complete_frame opcode n c \<Longrightarrow> min (length (inbuf c) - (maskx c + 4)) n = n"
  "complete_frame opcode n c \<Longrightarrow> min (length (inbuf c)) (maskx c + 4) = maskx c + 4"
  by (auto simp: complete_frame_def min_def)

lemma handle_ping:
  assumes "complete_frame WSOP_PING n c"
  shows "handle_websocket_msg env c = Some (handle_control WSOP_PING
      (unmask (take 4 (drop (maskx c) (inbuf c))) (take n (drop (maskx c + 4) (inbuf c))))
      (c\<lparr>inbuf := take (maskx c + 4) (inbuf c) @ unmask (take 4 (drop (maskx c) (inbuf c)))
          (take n (drop (maskx c + 4) (inbuf c))) @ drop (maskx c + 4 + n) (inbuf c)\<rparr>))"
proof -
  have "ws_msg_len c - int (maskx c + 4) = int n" using assms by (simp add: complete_frame_def)
  moreover have "length (take n (drop (maskx c + 4) (inbuf c))) = n" using complete_frame_length [OF assms] by simp
  ultimately show ?thesis using assms
    by (simp add: handle_websocket_msg_def complete_frame_def Let_def)
qed

text \<open>A ping with less than 126 bytes is answered with a pong of the same bytes, and is gone from the buffer.\<close>

lemma ping_answered:
  assumes "complete_frame WSOP_PING n c" "n < 126"
    and "payload = unmask (take 4 (drop (maskx c) (inbuf c))) (take n (drop (maskx c + 4) (inbuf c)))"
  shows "\<exists>c'. handle_websocket_msg env c = Some (O2_SUCCESS, c') \<and>
    ws_events c' = ws_events c @ [Send_tcp (0x8A # word_of_nat n # payload)] \<and>
    inbuf c' = drop (maskx c + 4 + n) (inbuf c) \<and> ws_msg_len c' = -1"
proof -
  have l: "length payload = n" using complete_frame_length [OF assms(1)] by (simp add: assms(3))
  have "nat (ws_msg_len c) = maskx c + 4 + n" using assms(1) by (simp add: complete_frame_def nat_add_distrib)
  moreover have "length (take (maskx c + 4) (inbuf c)) = maskx c + 4" using assms(1) by (simp add: complete_frame_def)
  ultimately show ?thesis using l assms(2)
    by (simp add: handle_ping [OF assms(1)] handle_control_def assms(3) [symmetric] drop_msg_def ws_event_def)
qed

text \<open>A longer ping stays in the buffer: the loop over the frames never ends, whatever the number of rounds.\<close>

lemma long_ping_stays:
  assumes "complete_frame WSOP_PING n c" "126 \<le> n"
  shows "\<exists>c'. handle_websocket_msg env c = Some (O2_SUCCESS, c') \<and> complete_frame WSOP_PING n c' \<and>
    ws_msg_is_complete c = (O2_SUCCESS, c)"
proof -
  have l: "length (take (maskx c + 4) (inbuf c)) = maskx c + 4" using assms(1) by (simp add: complete_frame_def)
  have "(take (maskx c + 4) (inbuf c) @ ys) ! i = inbuf c ! i" if "i < 2" for ys i
    using that l by (simp add: nth_append)
  then show ?thesis using assms l complete_frame_length [OF assms(1)]
    by (simp add: handle_ping [OF assms(1)] handle_control_def Let_def) (simp add: complete_frame_def ws_msg_is_complete_def)
qed

lemma long_ping_never_ends:
  "complete_frame WSOP_PING n c \<Longrightarrow> 126 \<le> n \<Longrightarrow> ws_loop k env c = None"
proof (induction k arbitrary: c)
  case (Suc k)
  obtain c' where "handle_websocket_msg env c = Some (O2_SUCCESS, c')" "complete_frame WSOP_PING n c'"
    "ws_msg_is_complete c = (O2_SUCCESS, c)"
    using long_ping_stays [OF Suc.prems] by blast
  then show ?case using Suc by simp
qed simp

text \<open>A length whose low byte is 128 or more is taken for a negative one: the frame counts as complete at once.\<close>

lemma length_taken_negative:
  assumes "inbuf c = frame_header n @ r" "128 \<le> n" "n < 256" "130 \<le> length r" "ws_msg_len c = -1"
  shows "\<exists>c'. ws_msg_is_complete c = (O2_SUCCESS, c') \<and> ws_msg_len c' = int n - 256 + 8"
proof -
  have "sint (word_of_nat n :: byte) = int n - 256"
  proof -
    have "sint (word_of_int (int n) :: byte) = signed_take_bit 7 (int n)" by (simp only: signed_of_int) simp
    also have "\<dots> = (int n + 128) mod 256 - 128"
      by (simp add: signed_take_bit_eq_take_bit_shift take_bit_eq_mod)
    also have "(int n + 128) mod 256 = int n - 128"
      using mod_add_self2 [of "int n - 128" 256] assms(2,3) by (simp add: add.commute)
    finally show ?thesis by simp
  qed
  then have "length_16 (inbuf c) = int n - 256" "length_code (inbuf c) = 126"
    using assms(1-3) by (simp_all add: frame_header_def length_16_def length_code_def)
  then show ?thesis using assms
    by (simp add: ws_msg_is_complete_def Let_def length_frame_header)
qed

end
