(* ===== verification/WsSend.thy ===== *)
theory WsSend
  imports WebSock Delivery
begin

text \<open>
  Messages to a web socket client (\<open>Http_conn::send\<close> in src/src/websock.cpp): the message is written as
  text, one field for each argument, into the area in which messages are built, and sent in one
  frame. Before that the copies for taps are sent; a message that arrives while a delivery runs
  waits at the connection. What \<open>sprintf\<close> makes of a floating point number is an argument, as is
  what the network layer answers. \<open>None\<close>: the code follows a null pointer (an argument that cannot be
  had as the type asked for), writes behind the 32 bytes of \<open>timestr\<close> or fails an assertion.
\<close>

section \<open>The code\<close>

text \<open>\<open>%.3f\<close> and \<open>%g\<close>.\<close>

record formats =
  fmt_3f :: "64 word \<Rightarrow> string"
  fmt_g :: "64 word \<Rightarrow> string"

text \<open>\<open>sprintf\<close> into \<open>char timestr[32]\<close>: the number, \<open>behind\<close> characters behind it, and the end of the string. Integers
  always fit.\<close>

definition in_timestr :: "nat \<Rightarrow> string \<Rightarrow> string option" where
  "in_timestr behind str = (if length str + behind + 1 \<le> 32 then Some str else None)"

text \<open>The text of the next argument. For a type that has no text the argument is not extracted.\<close>

definition param_text :: "formats \<Rightarrow> O2type \<Rightarrow> extraction \<Rightarrow> (string \<times> extraction) option" where
  "param_text fm t s =
     (let got = (\<lambda>n f. Option.bind (o2_get_next t s) (\<lambda>(p, s). Option.bind (fetch s p n) (\<lambda>bs. map_option (\<lambda>str. (str, s)) (f bs)))) in
      if t = CHR ''i'' then got 4 (\<lambda>bs. Some (show_int (sint (le_dec bs :: 32 word))))
      else if t = CHR ''h'' then got 8 (\<lambda>bs. Some (show_int (sint (le_dec bs :: 64 word))))
      else if t = CHR ''f'' then got 4 (\<lambda>bs. in_timestr 1 (fmt_g fm (double_of_float (le_dec bs))))
      else if t = CHR ''d'' then got 8 (\<lambda>bs. in_timestr 1 (fmt_g fm (le_dec bs)))
      else if t = CHR ''t'' then got 8 (\<lambda>bs. in_timestr 1 (fmt_3f fm (le_dec bs)))
      else if t = CHR ''S'' \<or> t = CHR ''s'' then
        Option.bind (o2_get_next t s) (\<lambda>(p, s). map_option (\<lambda>str. (str, s)) (fetch_string s p))
      else Some (''?'', s))"

fun params_text :: "formats \<Rightarrow> string \<Rightarrow> extraction \<Rightarrow> byte list option" where
  "params_text fm [] s = Some []"
| "params_text fm (t # types) s =
     Option.bind (param_text fm t s) (\<lambda>(str, s).
     map_option (\<lambda>bs. bytes_of str @ [ETX] @ bs) (params_text fm types s))"

definition trim_time :: "string \<Rightarrow> string" where
  "trim_time timestr =
     (let s = rev (dropWhile (\<lambda>c. c = CHR ''0'') (rev timestr)) in
      if s \<noteq> [] \<and> last s = CHR ''.'' then butlast s else s)"

definition message_text :: "formats \<Rightarrow> O2message \<Rightarrow> extraction \<Rightarrow> byte list option" where
  "message_text fm m s =
     Option.bind (o2_extract_start m s) (\<lambda>(_, s).
     Option.bind (o2_msg_data_types m) (\<lambda>types.
     Option.bind (in_timestr 0 (fmt_3f fm (timestamp m))) (\<lambda>timestr.
     map_option (\<lambda>params. bytes_of (c_str (body m)) @ [ETX] @ bytes_of (c_str types) @ [ETX] @
         bytes_of (trim_time timestr) @ [ETX] @
         [byte_of (if misc m AND O2_TCP_FLAG \<noteq> 0 then CHR ''T'' else CHR ''F'')] @ [ETX] @ params)
       (params_text fm (c_str types) s))))"

definition ws_heading :: "nat \<Rightarrow> byte list" where
  "ws_heading len = (if len < 126 then [WSBIT_FIN OR WSOP_TEXT, word_of_nat len]
     else [WSBIT_FIN OR WSOP_TEXT, 126, word_of_nat (len div 256), word_of_nat len])"

text \<open>The messages that wait at each connection, and the connections at which messages wait. Connections have numbers.\<close>

record ws_waiting =
  outgoing :: "nat \<Rightarrow> O2message list"
  pending_ws_senders :: "nat list"

definition insert_pending_ws_sender :: "nat \<Rightarrow> ws_waiting \<Rightarrow> ws_waiting" where
  "insert_pending_ws_sender i w =
     (if i \<in> set (pending_ws_senders w) then w else w\<lparr>pending_ws_senders := pending_ws_senders w @ [i]\<rparr>)"

definition send_msg_later :: "nat \<Rightarrow> send_state \<Rightarrow> ws_waiting \<Rightarrow> (O2err \<times> send_state \<times> ws_waiting) option" where
  "send_msg_later i s w = map_option (\<lambda>(m, s).
     (O2_SUCCESS, s, insert_pending_ws_sender i (w\<lparr>outgoing := (outgoing w)(i := outgoing w i @ [m])\<rparr>)))
     (o2_postpone_delivery s)"

definition send_to_taps :: "environment \<Rightarrow> (nat \<Rightarrow> byte) \<Rightarrow> O2message \<Rightarrow> send_state \<Rightarrow> send_state option" where
  "send_to_taps env junk m s =
     Option.bind (o2_msg_service (c_str (body m)) (tap_flag m) (ctx s)) (\<lambda>(svc, ss).
     if svc = None then Some s else o2_send_to_taps env junk (o2_send_local env junk) ss s)"

text \<open>The frame for the current message, which is then freed. \<open>ok\<close>: there is memory for the frame. \<open>net\<close>: the answer of the network
  layer. When the text is too long the building area stays locked.\<close>

definition send_frame :: "bool \<Rightarrow> (byte list \<Rightarrow> O2err) \<Rightarrow> formats \<Rightarrow> extraction \<Rightarrow> send_state \<Rightarrow> Http_conn \<Rightarrow>
    (O2err \<times> send_state \<times> Http_conn) option" where
  "send_frame ok net fm x s c =
     Option.bind (o2_current_message s) (\<lambda>m.
     if building_message_lock (scratch c) then None
     else Option.bind (message_text fm m x) (\<lambda>wsmsg.
     map_option (\<lambda>s.
       let b = (snd (o2_send_start (scratch c)))\<lparr>msg_data := wsmsg\<rparr> in
       if length wsmsg \<ge> 65535 then (O2_FAIL, s, c\<lparr>scratch := b\<rparr>)
       else let c = c\<lparr>scratch := b\<lparr>building_message_lock := False\<rparr>\<rparr>; frame = ws_heading (length wsmsg) @ wsmsg in
         if \<not> ok then (O2_FAIL, s, c) else (net frame, s, ws_event (Send_tcp frame) c))
     (o2_complete_delivery s)))"

definition Http_conn_send :: "bool \<Rightarrow> (byte list \<Rightarrow> O2err) \<Rightarrow> formats \<Rightarrow> environment \<Rightarrow> (nat \<Rightarrow> byte) \<Rightarrow> extraction \<Rightarrow> nat \<Rightarrow>
    send_state \<Rightarrow> ws_waiting \<Rightarrow> Http_conn \<Rightarrow> (O2err \<times> send_state \<times> ws_waiting \<times> Http_conn) option" where
  "Http_conn_send ok net fm env junk x i s w c =
     (if o2_do_not_reenter s \<noteq> 0 then map_option (\<lambda>(r, s, w). (r, s, w, c)) (send_msg_later i s w)
      else Option.bind (o2_current_message s) (\<lambda>m.
        Option.bind (send_to_taps env junk m s) (\<lambda>s.
        map_option (\<lambda>(r, s, c). (r, s, w, c)) (send_frame ok net fm x s c))))"

section \<open>What the client reads\<close>

text \<open>A final text frame without mask, as in the standard: its payload.\<close>

definition client_payload :: "byte list \<Rightarrow> byte list option" where
  "client_payload bs = (case bs of
     b0 # b1 # rest \<Rightarrow>
       if b0 \<noteq> 0x81 \<or> unat b1 \<ge> 127 then None
       else if unat b1 < 126 then (if unat b1 \<le> length rest then Some (take (unat b1) rest) else None)
       else (case rest of
           h # l # rest \<Rightarrow> let n = unat h * 256 + unat l in if n \<le> length rest then Some (take n rest) else None
         | _ \<Rightarrow> None)
   | _ \<Rightarrow> None)"

lemma unat_small: "n < 256 \<Longrightarrow> unat (word_of_nat n :: byte) = n"
  by (simp add: unat_of_nat)

lemma client_reads:
  assumes "length wsmsg < 65536"
  shows "client_payload (ws_heading (length wsmsg) @ wsmsg) = Some wsmsg"
proof (cases "length wsmsg < 126")
  case True
  then show ?thesis by (simp add: ws_heading_def client_payload_def unat_small)
next
  case False
  have "unat (word_of_nat (length wsmsg) :: byte) = length wsmsg mod 256"
    by (simp add: unat_of_nat)
  moreover have "unat (word_of_nat (length wsmsg div 256) :: byte) = length wsmsg div 256"
    using assms by (intro unat_small) (simp add: div_less_iff_less_mult)
  moreover have "length wsmsg div 256 * 256 + length wsmsg mod 256 = length wsmsg" by (rule div_mult_mod_eq)
  ultimately show ?thesis using False by (simp add: ws_heading_def client_payload_def Let_def)
qed

text \<open>The field of an argument.\<close>

definition arg_text :: "formats \<Rightarrow> O2arg \<Rightarrow> string" where
  "arg_text fm a = (case a of
     Int32 i \<Rightarrow> show_int (sint i) | Int64 i \<Rightarrow> show_int (sint i) | Float f \<Rightarrow> fmt_g fm (double_of_float f)
   | Double d \<Rightarrow> fmt_g fm d | Time d \<Rightarrow> fmt_3f fm d | String s \<Rightarrow> s | Symbol s \<Rightarrow> s | _ \<Rightarrow> ''?'')"

definition has_text :: "O2arg \<Rightarrow> bool" where
  "has_text a = (case a of
     Int32 _ \<Rightarrow> True | Int64 _ \<Rightarrow> True | Float _ \<Rightarrow> True | Double _ \<Rightarrow> True | Time _ \<Rightarrow> True
   | String s \<Rightarrow> c_string s | Symbol s \<Rightarrow> c_string s | _ \<Rightarrow> False)"

text \<open>The texts of floating point numbers fit in \<open>timestr\<close>.\<close>

definition fits_timestr :: "formats \<Rightarrow> O2arg \<Rightarrow> bool" where
  "fits_timestr fm a = (case a of
     Float _ \<Rightarrow> length (arg_text fm a) \<le> 30 | Double _ \<Rightarrow> length (arg_text fm a) \<le> 30
   | Time _ \<Rightarrow> length (arg_text fm a) \<le> 30 | _ \<Rightarrow> True)"

lemma to_come_fetch:
  assumes "to_come s ts (bs @ ds)" "mx_msg s' = mx_msg s"
  shows "fetch s' (Data (mx_data_next s)) (length bs) = Some bs"
  using to_come_length [OF assms(1)] assms by (simp add: fetch_def peek_def to_come_def mx_barrier_def)

lemma param_text_arg:
  assumes "to_come s (byte_of (arg_type a) # ts) (arg_data a @ ds)" "ts \<noteq> []" "has_text a" "reading s"
    and "fits_timestr fm a"
  shows "\<exists>s'. param_text fm (arg_type a) s = Some (arg_text fm a, s') \<and> to_come s' ts ds \<and> reading s' \<and> mx_msg s' = mx_msg s"
proof -
  have v: "valid_arg a" "arg_type a \<noteq> CHR 0x00" "arg_ptr a s = Data (mx_data_next s)"
    using assms(3) by (cases a; simp add: has_text_def valid_arg_def arg_type_def arg_ptr_def)+
  obtain s' where s': "o2_get_next (arg_type a) s = Some (Data (mx_data_next s), s')" "to_come s' ts ds" "reading s'"
    "mx_msg s' = mx_msg s"
    using get_next_arg [OF assms(1,2) v(1) assms(4) v(2)] v(3) by auto
  have f: "fetch s' (Data (mx_data_next s)) (length (arg_data a)) = Some (arg_data a)"
    by (rule to_come_fetch [OF assms(1) s'(4)])
  have str: "fetch_string s' (Data (mx_data_next s)) = Some x" if "arg_data a = zero_padded x" "c_string x" for x
    using assms(1) s'(4) that zero_in_padded [of x ds] by (simp add: fetch_string_def to_come_def c_str_padded)
  have "param_text fm (arg_type a) s = Some (arg_text fm a, s')"
    using assms(3,5) s'(1) f str
    by (cases a) (simp_all add: param_text_def in_timestr_def fits_timestr_def arg_type_def arg_text_def has_text_def arg_data_def)
  then show ?thesis using s' by blast
qed

lemma params_text_args:
  assumes "to_come s (bytes_of (map arg_type as) @ 0 # rest) (concat (map arg_data as))"
    and "\<forall>a \<in> set as. has_text a \<and> fits_timestr fm a" "reading s"
  shows "params_text fm (map arg_type as) s = Some (text_payload (map (arg_text fm) as))"
  using assms
proof (induction as arbitrary: s)
  case Nil
  then show ?case by (simp add: text_payload_def)
next
  case (Cons a as)
  have come: "to_come s (byte_of (arg_type a) # bytes_of (map arg_type as) @ 0 # rest) (arg_data a @ concat (map arg_data as))"
    using Cons.prems(1) by simp
  obtain s1 where s1: "param_text fm (arg_type a) s = Some (arg_text fm a, s1)"
    "to_come s1 (bytes_of (map arg_type as) @ 0 # rest) (concat (map arg_data as))" "reading s1"
    using param_text_arg [OF come _ _ Cons.prems(3), of fm] Cons.prems(2) by auto
  then show ?case using Cons.IH [OF s1(2) _ s1(3)] Cons.prems(2) by (simp add: text_payload_def)
qed

text \<open>What the copies for taps leave of the state: the message is marked and stays on top.\<close>

lemma taps_leave_message:
  assumes "send_to_taps env junk m s = Some s'" "msgs s = m # ms"
  shows "same_context s s' \<and> (\<exists>m'. msgs s' = m' # ms \<and> m' \<in> {m, mark_tapped m})"
proof -
  have kept: "kept (s\<lparr>msgs := mark_tapped m # ms\<rparr>) s'" if "o2_send_to_taps env junk (o2_send_local env junk) ss s = Some s'" for ss
    using that assms(2) send_taps_owner [OF takes_over_local]
    by (auto simp: o2_send_to_taps_def Let_def bind_eq_Some_conv split: if_splits)
  show ?thesis
    using assms kept by (fastforce simp: send_to_taps_def bind_eq_Some_conv kept_def same_context_def split: if_splits)
qed

lemma message_text_built:
  assumes "c_string address" "\<forall>a \<in> set as. has_text a \<and> fits_timestr fm a"
    and "body m = zero_padded address @ zero_padded (CHR '','' # map arg_type as) @ concat (map arg_data as)"
    and "length (fmt_3f fm (timestamp m)) \<le> 31" "\<not> mx_array_to_vector_pending x"
  shows "message_text fm m x = Some (text_payload ([address, map arg_type as, trim_time (fmt_3f fm (timestamp m)),
    if misc m AND O2_TCP_FLAG \<noteq> 0 then ''T'' else ''F''] @ map (arg_text fm) as))"
proof -
  have codes: "c_string (map arg_type as)"
  proof -
    have "has_text a \<Longrightarrow> arg_type a \<noteq> CHR 0x00" for a by (cases a) (auto simp: has_text_def arg_type_def)
    then show ?thesis using assms(2) by (fastforce simp: c_string_def)
  qed
  have ct: "c_string (CHR '','' # map arg_type as)" using codes by (simp add: c_string_def)
  obtain s1 rest where s1: "o2_extract_start m x = Some (int (length (map arg_type as)), s1)" "reading s1"
    "to_come s1 (bytes_of (map arg_type as) @ 0 # rest) (concat (map arg_data as))"
    using extract_start_built [OF assms(3,1) codes assms(5)] by blast
  have "c_str (tl (zero_padded (CHR '','' # map arg_type as) @ p)) = map arg_type as" for p
    using c_str_padded [OF ct, of p] by (auto simp: c_str_def zero_padded_def byte_of_eq_0_iff)
  then obtain types where types: "o2_msg_data_types m = Some types" "c_str types = map arg_type as"
    by (simp add: o2_msg_data_types_def assms(3) next_o2string_padded [OF assms(1)])
  show ?thesis
    using s1(1) types params_text_args [OF s1(3) assms(2) s1(2)] assms(4)
    by (simp add: message_text_def assms(3) c_str_padded [OF assms(1)] text_payload_def in_timestr_def)
qed

text \<open>C33: what a client receives. A message built from numbers and strings that is sent to a web socket client while no delivery
  runs, after its copies for taps, is handed to the network as one text frame whose fields are the address, the type codes, the
  time, the protocol and one text for each argument; it is then freed, and the building areas are not locked. (The text of
  the time has at most 31 characters, that of a floating point argument at most 30, and that of the message less than 65535.)\<close>

theorem ws_send_correct:
  assumes "\<not> building_message_lock b0" "c_string (slash_address svc address)"
    and "\<forall>a \<in> set as. has_text a \<and> fits_timestr fm a" "length (fmt_3f fm time) \<le> 31"
    and "o2_service_message_finish True mem time svc address tcp (add_args as (snd (o2_send_start b0))) = (Some m, b)"
    and "o2_do_not_reenter s = 0" "msgs s = m # ms" "send_to_taps env junk m s = Some tapped"
    and "\<not> mx_array_to_vector_pending x" "\<not> building_message_lock (scratch c)"
    and "wsmsg = text_payload ([slash_address svc address, map arg_type as, trim_time (fmt_3f fm time),
           if tcp then ''T'' else ''F''] @ map (arg_text fm) as)" "length wsmsg < 65535"
  shows "\<exists>c' frame. Http_conn_send True net fm env junk x i s w c = Some (net frame, tapped\<lparr>msgs := ms\<rparr>, w, c') \<and>
    ws_events c' = ws_events c @ [Send_tcp frame] \<and> client_payload frame = Some wsmsg \<and> \<not> building_message_lock (scratch c')"
proof -
  have m: "body m = zero_padded (slash_address svc address) @ zero_padded (CHR '','' # map arg_type as) @ concat (map arg_data as)"
    "timestamp m = time" "misc m = (if tcp then O2_TCP_FLAG else O2_UDP_FLAG)"
    using built_message [OF assms(1), of mem time svc address tcp as] assms(5) by auto
  obtain m' where m': "msgs tapped = m' # ms" "m' \<in> {m, mark_tapped m}" using taps_leave_message [OF assms(8,7)] by blast
  then have same: "body m' = body m" "timestamp m' = time" "misc m' AND O2_TCP_FLAG \<noteq> 0 \<longleftrightarrow> tcp"
    using m by (auto simp: mark_tapped_def split: if_splits)
  have "message_text fm m' x = Some wsmsg"
    using message_text_built [OF assms(2,3), of m' x] m(1) same assms(4,9,11) by simp
  then show ?thesis
    using client_reads [of wsmsg] assms(6-8,10,12) m'(1)
    by (simp add: Http_conn_send_def send_frame_def o2_current_message_def o2_complete_delivery_def o2_postpone_delivery_def
        Let_def ws_event_def)
qed

text \<open>While a delivery runs the message waits at the connection, behind those that wait there, and nothing is sent.\<close>

lemma send_waits:
  assumes "o2_do_not_reenter s \<noteq> 0" "msgs s = m # ms"
  shows "\<exists>w'. Http_conn_send ok net fm env junk x i s w c = Some (O2_SUCCESS, s\<lparr>msgs := ms\<rparr>, w', c) \<and>
    outgoing w' = (outgoing w)(i := outgoing w i @ [m]) \<and> set (pending_ws_senders w') = insert i (set (pending_ws_senders w)) \<and>
    (distinct (pending_ws_senders w) \<longrightarrow> distinct (pending_ws_senders w'))"
  using assms by (auto simp: Http_conn_send_def send_msg_later_def o2_postpone_delivery_def insert_pending_ws_sender_def)

text \<open>A time whose text is longer than 31 characters is written behind the end of \<open>timestr\<close>.\<close>

lemma long_time_overflows:
  "length (fmt_3f fm (timestamp m)) > 31 \<Longrightarrow> message_text fm m x = None"
  by (cases "o2_extract_start m x") (auto simp: message_text_def in_timestr_def bind_eq_None_conv)

definition zero_formats :: formats where
  "zero_formats = \<lparr>fmt_3f = (\<lambda>_. ''0.000''), fmt_g = (\<lambda>_. ''0'')\<rparr>"

definition no_extraction :: extraction where
  "no_extraction = \<lparr>mx_msg = [], mx_type_next = 0, mx_data_next = 0, mx_vector_to_vector_pending = False,
     mx_array_to_vector_pending = False, mx_vector_to_array = CHR 0x00, mx_vector_remaining = 0, arg_cells = [], argv_data = []\<rparr>"

lemma one_proxy_service:
  "\<exists>c. o2_msg_service ''/synth/note'' False c =
     Some (Some (Proxy p), Some (Services_entry [Service_provider (Proxy p) None] []))"
proof -
  let ?e = "Services_entry [Service_provider (Proxy p) None] []"
  obtain t where t: "hash_ok t" "table_map t = (table_map (path_tree two_procs))(''synth'' \<mapsto> ?e)"
    using hash_insert_all [of "path_tree two_procs" "(''synth'', ?e)"] two_procs_ok(1) by (auto simp: ctx_ok_def)
  have k: "o2_string_pad ''synth'' = ''synth''" by (rule string_pad_short) simp
  have "o2_msg_service ''/synth/note'' False (two_procs\<lparr>path_tree := t\<rparr>) = Some (Some (Proxy p), Some ?e)"
    by (simp add: o2_msg_service_def service_find_def find_services_def segment_def k hash_find [OF t(1)] t(2))
  then show ?thesis ..
qed

theorem ws_send_correct_witness:
  "\<exists>m k c' frame s'. Http_conn_send True (\<lambda>_. O2_SUCCESS) zero_formats quiet (\<lambda>_. 0) no_extraction 3 ((sending k 0)\<lparr>msgs := [m]\<rparr>)
      \<lparr>outgoing = \<lambda>_. [], pending_ws_senders = []\<rparr> open_conn = Some (O2_SUCCESS, s', \<lparr>outgoing = \<lambda>_. [], pending_ws_senders = []\<rparr>, c') \<and>
    msgs s' = [] \<and> ws_events c' = [Send_tcp frame] \<and>
    client_payload frame = Some (text_payload [''/synth/note'', ''is'', ''0'', ''F'', ''-5'', ''abc''])"
proof -
  have idle: "\<not> building_message_lock idle_builder" by (simp add: idle_builder_def)
  obtain m b where f: "o2_service_message_finish True (\<lambda>_. 7) 0 (Some ''synth'') ''/note'' False
      (add_args [Int32 (-5), String ''abc''] (snd (o2_send_start idle_builder))) = (Some m, b)"
    and m: "body m = zero_padded (slash_address (Some ''synth'') ''/note'') @ zero_padded (CHR '','' # map arg_type [Int32 (-5), String ''abc'']) @
      concat (map arg_data [Int32 (-5), String ''abc''])" "misc m = O2_UDP_FLAG"
    using built_message [OF idle, of "\<lambda>_. 7" 0 "Some ''synth''" "''/note''" False "[Int32 (-5), String ''abc'']"] by auto
  have address: "c_str (body m) = ''/synth/note''" unfolding m(1) by (subst c_str_padded) (simp_all add: slash_address_def c_string_def)
  obtain k where k: "o2_msg_service ''/synth/note'' False k = Some (Some (Proxy 1), Some (Services_entry [Service_provider (Proxy 1) None] []))"
    using one_proxy_service by blast
  let ?s = "(sending k 0)\<lparr>msgs := [m]\<rparr>" and ?w = "\<lparr>outgoing = \<lambda>_. [], pending_ws_senders = []\<rparr>"
  have taps: "send_to_taps quiet (\<lambda>_. 0) m ?s = Some (?s\<lparr>msgs := [mark_tapped m]\<rparr>)"
    using k m(2) by (simp add: send_to_taps_def address tap_flag_def sending_def o2_send_to_taps_def Let_def)
  have "show_int (sint (-5 :: 32 word)) = ''-5''" by (simp add: show_int_def show_nat.simps digit_def)
  then have p: "text_payload [''/synth/note'', ''is'', ''0'', ''F'', ''-5'', ''abc''] =
      text_payload ([slash_address (Some ''synth'') ''/note'', map arg_type [Int32 (-5), String ''abc''],
        trim_time (fmt_3f zero_formats 0), if False then ''T'' else ''F''] @ map (arg_text zero_formats) [Int32 (-5), String ''abc''])"
    by (simp add: slash_address_def arg_type_def arg_text_def trim_time_def zero_formats_def)
  have "\<exists>c' frame. Http_conn_send True (\<lambda>_. O2_SUCCESS) zero_formats quiet (\<lambda>_. 0) no_extraction 3 ?s ?w open_conn =
      Some (O2_SUCCESS, ?s\<lparr>msgs := [mark_tapped m], msgs := []\<rparr>, ?w, c') \<and>
    ws_events c' = ws_events open_conn @ [Send_tcp frame] \<and>
    client_payload frame = Some (text_payload [''/synth/note'', ''is'', ''0'', ''F'', ''-5'', ''abc'']) \<and>
    \<not> building_message_lock (scratch c')"
    by (rule ws_send_correct [OF idle _ _ _ f _ _ taps _ _ p])
      (simp_all add: slash_address_def c_string_def has_text_def fits_timestr_def no_extraction_def open_conn_def idle_builder_def
        text_payload_def zero_formats_def sending_def)
  then show ?thesis by (intro exI [of _ m] exI [of _ k]) (auto simp: open_conn_def)
qed

text \<open>A number that is sent as text is read as the same number by the other side's \<open>atoi\<close>.\<close>

lemma show_nat_not_empty: "show_nat n \<noteq> []"
  by (subst show_nat.simps) simp

lemma strtol_show_int:
  assumes "- (2 ^ 63) \<le> i" "i < 2 ^ 63"
  shows "strtol (show_int i) = i"
proof -
  have no_space: "\<not> is_space c" "c \<noteq> CHR ''-''" "c \<noteq> CHR ''+''" if "is_digit c" for c
    using that by (auto simp: is_digit_def is_space_def)
  have digits: "takeWhile is_digit (show_nat n) = show_nat n" for n
    using show_nat_digits [of n] by (simp add: takeWhile_eq_all_conv)
  show ?thesis
  proof (cases "i < 0")
    case True
    have "\<not> is_space CHR ''-''" by (simp add: is_space_def)
    then show ?thesis using True assms
      by (simp add: strtol_def show_int_def digits digits_value_show Let_def)
  next
    case False
    obtain c cs where s: "show_nat (nat i) = c # cs" using show_nat_not_empty by (cases "show_nat (nat i)") auto
    then have "is_digit c" using show_nat_digits [of "nat i"] by simp
    moreover have cs: "takeWhile is_digit cs = cs"
      using show_nat_digits [of "nat i"] s by (intro takeWhile_eq_all_conv [THEN iffD2]) simp
    ultimately show ?thesis using False assms digits_value_show [of "nat i"] no_space [of c]
      by (simp add: strtol_def show_int_def s cs Let_def)
  qed
qed

text \<open>Where it goes wrong: a character (or any other type without text) is not extracted; the integer after it is then
  asked for in its place, cannot be had, and a null pointer is followed.\<close>

lemma char_then_int_fails:
  assumes "to_come s (byte_of CHR ''c'' # ts) (le_enc 4 (x :: 32 word) @ ds)" "reading s"
  shows "params_text fm ''ci'' s = None"
proof -
  have "o2_get_next CHR ''i'' s = Some (push_arg Null (mx_advance 4 (s\<lparr>mx_type_next := mx_type_next s + 1\<rparr>)))"
    using to_come_type [OF assms(1)] to_come_length [OF assms(1)] assms(2)
    by (simp add: o2_get_next_def reading_def get_plain_def mx_advance_def mx_barrier_def)
  then show ?thesis by (simp add: param_text_def push_arg_def fetch_def)
qed

end
