(* ===== verification/Http.thy ===== *)
theory Http
  imports WebSock
begin

text \<open>
  The HTTP side of a web socket connection (\<open>Http_conn::deliver\<close>, \<open>find_field\<close> and \<open>websocket_upgrade\<close> in
  src/src/websock.cpp): collecting a request, the upgrade to a web socket, the path of the file that
  is served, and error replies. Whether a file can be opened is an argument. \<open>None\<close>: the code follows a null
  pointer (a zero byte hides the character it looks for).
\<close>

section \<open>The code\<close>

definition prefix_of :: "byte list \<Rightarrow> byte list \<Rightarrow> bool" where
  "prefix_of pat s \<longleftrightarrow> take (length pat) s = pat"

text \<open>The index of the first occurrence of the needle in the bytes of the haystack.\<close>

fun strnstr :: "byte list \<Rightarrow> byte list \<Rightarrow> nat option" where
  "strnstr haystack needle =
     (if prefix_of needle haystack then Some 0
      else case haystack of [] \<Rightarrow> None | _ # rest \<Rightarrow> map_option Suc (strnstr rest needle))"

declare strnstr.simps [simp del]

definition until_zero :: "byte list \<Rightarrow> byte list" where
  "until_zero bs = takeWhile (\<lambda>b. b \<noteq> 0) bs"

definition CR :: byte where "CR = 13"
definition LF :: byte where "LF = 10"

definition crlf :: "byte list" where
  "crlf = [CR, LF]"

text \<open>\<open>strstr\<close> looks at the request up to its first zero byte. The result is an index into \<open>inbuf\<close>.\<close>

definition find_field :: "byte list \<Rightarrow> string option \<Rightarrow> nat \<Rightarrow> Http_conn \<Rightarrow> nat option" where
  "find_field name val len c =
     (let request = until_zero (take len (inbuf c)) in
      case strnstr request name of
        None \<Rightarrow> None
      | Some i \<Rightarrow>
          let start = i + length name; here = drop start request in
          if here \<noteq> [] \<and> hd here = CR then None
          else (case val of
              None \<Rightarrow> Some start
            | Some v \<Rightarrow> if strnstr here (bytes_of v) \<noteq> None then Some start else None))"

definition websocket_upgrade :: "string \<Rightarrow> nat \<Rightarrow> Http_conn \<Rightarrow> Http_conn" where
  "websocket_upgrade k msg_len c =
     (let c = ws_event (Send_tcp (take 511 (
            bytes_of ''HTTP/1.1 101 Switching Protocols'' @ crlf @ bytes_of ''Upgrade: websocket'' @ crlf @
            bytes_of ''Connection: Upgrade'' @ crlf @ bytes_of ''Sec-WebSocket-Accept: '' @
            bytes_of (sha1_with_magic k) @ crlf @ crlf))) c in
      c\<lparr>ws_msg_len := -1, inbuf := drop msg_len (inbuf c), is_web_socket := True, confirmed_ensemble := False\<rparr>)"

text \<open>The path asked for: from the slash to the next space.\<close>

definition request_path :: "string \<Rightarrow> byte list \<Rightarrow> byte list option" where
  "request_path dir request =
     (let rest = drop 4 (request @ [byte_of CHR '' '']); upto = takeWhile (\<lambda>b. b \<noteq> byte_of CHR '' '' \<and> b \<noteq> 0) rest in
      if rest ! length upto = 0 then None
      else let path = bytes_of dir @ upto in
        Some (if path \<noteq> [] \<and> last path = byte_of CHR ''/'' then path @ bytes_of ''index.htm'' else path))"

definition show_length :: "nat \<Rightarrow> string" where
  "show_length n = (if n < 100 then '''' else [''0123456789'' ! (n div 100 mod 10)]) @
     (if n < 10 then '''' else [''0123456789'' ! (n div 10 mod 10)]) @ [''0123456789'' ! (n mod 10)]"

text \<open>The page holds at most 255 characters.\<close>

definition error_reply :: "string \<Rightarrow> string \<Rightarrow> string \<Rightarrow> byte list" where
  "error_reply response msg1 msg2 =
     (let content = take 255 (bytes_of (''<html><head><title>'' @ response @ ''</title></head>'' @
            ''<body><h1>Error</h1><p>'' @ msg1 @ msg2 @ ''</p></body></html>'') @ crlf) in
      bytes_of ''<HTTP/1.1 '' @ bytes_of response @ bytes_of '' '' @ crlf @ bytes_of ''Server: O2 Http_server'' @ crlf @
      bytes_of ''Content-Length: '' @ bytes_of (show_length (length content)) @ crlf @ bytes_of ''Content-Type: text/html'' @ crlf @
      bytes_of ''Connection: Closed'' @ crlf @ crlf @ content)"

definition refuse :: "string \<Rightarrow> string \<Rightarrow> string \<Rightarrow> nat \<Rightarrow> Http_conn \<Rightarrow> Http_conn" where
  "refuse response msg1 msg2 msg_len c =
     ws_event (Close_socket False) (ws_event (Send_tcp (error_reply response msg1 msg2))
       (c\<lparr>inbuf := drop msg_len (inbuf c)\<rparr>))"

definition handle_request :: "string \<Rightarrow> (string \<Rightarrow> bool) \<Rightarrow> nat \<Rightarrow> Http_conn \<Rightarrow> Http_conn option" where
  "handle_request dir exists msg_len c =
     (let bad = refuse ''400 Bad Request'' ''The URL path was too long or malformed.'' '''' msg_len in
      case (if find_field (crlf @ bytes_of ''Connection: '') (Some ''Upgrade'') msg_len c \<noteq> None \<and>
               find_field (crlf @ bytes_of ''Upgrade: '') (Some ''websocket'') msg_len c \<noteq> None
            then find_field (crlf @ bytes_of ''Sec-WebSocket-Key: '') None msg_len c else None) of
        Some i \<Rightarrow>
          let here = until_zero (drop i (inbuf c)) in
          if CR \<notin> set here then None
          else Some (websocket_upgrade (c_str (takeWhile (\<lambda>b. b \<noteq> CR) here)) msg_len c)
      | None \<Rightarrow>
          if take 5 (inbuf c) = bytes_of ''GET /'' then
            Option.bind (request_path dir (inbuf c)) (\<lambda>path.
            let c_path = c_str path in
            if strnstr (bytes_of c_path) (bytes_of ''..'') = None then
              if exists c_path then Some (ws_event (Open_file c_path) (c\<lparr>inbuf := drop msg_len (inbuf c)\<rparr>))
              else Some (refuse ''404 Not Found'' ''The requested URL was not found: '' (drop (length dir + 1) c_path) msg_len c)
            else Some (bad c))
          else Some (bad c))"

text \<open>The search starts three bytes before the new ones.\<close>

definition deliver_http :: "string \<Rightarrow> (string \<Rightarrow> bool) \<Rightarrow> byte list \<Rightarrow> Http_conn \<Rightarrow> Http_conn option" where
  "deliver_http dir exists bytes c =
     (let prev_index = length (inbuf c);
          c = c\<lparr>inbuf := inbuf c @ bytes\<rparr>;
          prev_index = prev_index - (if prev_index > 3 then 3 else prev_index) in
      case strnstr (drop prev_index (inbuf c)) (crlf @ crlf) of
        None \<Rightarrow> Some c
      | Some i \<Rightarrow> handle_request dir exists (prev_index + i + 4) c)"

definition deliver :: "nat \<Rightarrow> ws_env \<Rightarrow> string \<Rightarrow> (string \<Rightarrow> bool) \<Rightarrow> byte list \<Rightarrow> Http_conn \<Rightarrow> Http_conn option" where
  "deliver n env dir exists bytes c =
     (if is_web_socket c then deliver_ws n env bytes c else deliver_http dir exists bytes c)"

section \<open>Requests in pieces\<close>

lemma prefix_of_append: "length pat \<le> length s \<Longrightarrow> prefix_of pat (s @ t) = prefix_of pat s"
  by (simp add: prefix_of_def)

lemma strnstr_skip:
  "(\<And>n. n < length xs \<Longrightarrow> \<not> prefix_of pat (drop n (xs @ s))) \<Longrightarrow>
   strnstr (xs @ s) pat = map_option ((+) (length xs)) (strnstr s pat)"
proof (induction xs)
  case Nil
  then show ?case by (cases "strnstr s pat") simp_all
next
  case (Cons x xs)
  have "\<not> prefix_of pat (x # xs @ s)" using Cons.prems [of 0] by simp
  moreover have "strnstr (xs @ s) pat = map_option ((+) (length xs)) (strnstr s pat)"
  proof (rule Cons.IH)
    fix n assume "n < length xs"
    then show "\<not> prefix_of pat (drop n (xs @ s))" using Cons.prems [of "Suc n"] by simp
  qed
  ultimately show ?case by (cases "strnstr s pat") (simp_all add: strnstr.simps [of "x # xs @ s"])
qed

lemma strnstr_None: "strnstr s pat = None \<longleftrightarrow> (\<forall>n \<le> length s. \<not> prefix_of pat (drop n s))"
proof (induction s)
  case Nil
  then show ?case by (simp add: strnstr.simps)
next
  case (Cons x s)
  have "(\<forall>n \<le> length (x # s). \<not> prefix_of pat (drop n (x # s))) \<longleftrightarrow>
      \<not> prefix_of pat (x # s) \<and> (\<forall>n \<le> length s. \<not> prefix_of pat (drop n s))"
    by (metis Suc_le_mono drop0 drop_Suc_Cons le0 length_Cons not0_implies_Suc)
  then show ?case using Cons by (simp add: strnstr.simps [of "x # s"])
qed

text \<open>When the needle is not in the bytes searched before, the search may start where it could still begin.\<close>

lemma strnstr_resume:
  assumes "strnstr s pat = None" "pat \<noteq> []" "k = length s - (length pat - 1)"
  shows "strnstr (s @ t) pat = map_option ((+) k) (strnstr (drop k (s @ t)) pat)"
proof -
  have len: "length (take k (s @ t)) = k" using assms(3) by simp
  have "strnstr (take k (s @ t) @ drop k (s @ t)) pat =
      map_option ((+) (length (take k (s @ t)))) (strnstr (drop k (s @ t)) pat)"
  proof (rule strnstr_skip)
    fix n assume n: "n < length (take k (s @ t))"
    then have nk: "n + length pat \<le> length s" using assms(2,3) len by (cases pat) auto
    have "\<not> prefix_of pat (drop n s)" using assms(1) nk by (simp add: strnstr_None)
    then have "\<not> prefix_of pat (drop n s @ t)" using nk prefix_of_append [of pat "drop n s" t] by simp
    then show "\<not> prefix_of pat (drop n (take k (s @ t) @ drop k (s @ t)))" unfolding append_take_drop_id using nk by simp
  qed
  then show ?thesis unfolding len append_take_drop_id .
qed

lemma deliver_http_whole:
  assumes "strnstr (inbuf c) (crlf @ crlf) = None"
  shows "deliver_http dir exists bytes c =
    (case strnstr (inbuf c @ bytes) (crlf @ crlf) of
       None \<Rightarrow> Some (c\<lparr>inbuf := inbuf c @ bytes\<rparr>)
     | Some i \<Rightarrow> handle_request dir exists (i + 4) (c\<lparr>inbuf := inbuf c @ bytes\<rparr>))"
proof -
  define k where "k = length (inbuf c) - 3"
  have "length (inbuf c) - (if length (inbuf c) > 3 then 3 else length (inbuf c)) = k" by (simp add: k_def)
  moreover have "strnstr (inbuf c @ bytes) (crlf @ crlf) =
      map_option ((+) k) (strnstr (drop k (inbuf c @ bytes)) (crlf @ crlf))"
    by (rule strnstr_resume [OF assms]) (simp_all add: crlf_def k_def)
  ultimately show ?thesis
    by (cases "strnstr (drop k (inbuf c @ bytes)) (crlf @ crlf)")
      (simp_all add: deliver_http_def Let_def add.assoc del: drop_append split del: if_split)
qed

text \<open>An HTTP request is handled the same however the network cuts it: as long as the bytes received do not hold the
  empty line that ends a request, delivering the next bytes in one piece or in two makes no difference.\<close>

theorem http_pieces:
  assumes "strnstr (inbuf c) (crlf @ crlf) = None" "strnstr (inbuf c @ x) (crlf @ crlf) = None" "\<not> is_web_socket c"
  shows "deliver n env dir exists (x @ y) c = Option.bind (deliver n env dir exists x c) (deliver n env dir exists y)"
proof -
  let ?c = "c\<lparr>inbuf := inbuf c @ x\<rparr>"
  have "deliver_http dir exists x c = Some ?c" using assms(2) by (simp add: deliver_http_whole [OF assms(1)])
  moreover have "strnstr (inbuf ?c) (crlf @ crlf) = None" using assms(2) by simp
  ultimately show ?thesis
    using assms(3) deliver_http_whole [OF assms(1), of dir exists "x @ y"] deliver_http_whole [of ?c dir exists y]
    by (cases "strnstr (inbuf c @ x @ y) (crlf @ crlf)") (simp_all add: deliver_def)
qed

section \<open>Files outside of the root directory\<close>

lemma c_str_slash: "c_str (byte_of CHR ''/'' # x) = CHR ''/'' # c_str x"
  using c_str_append [of "''/''" x] by (simp add: c_string_def bytes_of_def)

lemma request_path_under:
  assumes "request_path dir request = Some bs" "take 5 request = bytes_of ''GET /''" "c_string dir"
  shows "\<exists>p. c_str bs = dir @ CHR ''/'' # p"
proof -
  define r where "r = drop 5 request"
  have r: "request = bytes_of ''GET '' @ byte_of CHR ''/'' # r"
    using assms(2) append_take_drop_id [of 5 request] by (simp add: r_def bytes_of_def)
  have "drop 4 (request @ [byte_of CHR '' '']) = byte_of CHR ''/'' # r @ [byte_of CHR '' '']"
    by (simp add: r bytes_of_def)
  moreover have "byte_of CHR ''/'' \<noteq> 0" "byte_of CHR ''/'' \<noteq> byte_of CHR '' ''" by (simp_all add: byte_of_def)
  ultimately have "\<exists>p. bs = bytes_of dir @ byte_of CHR ''/'' # p"
    using assms(1) by (auto simp: request_path_def Let_def split: if_split_asm)
  then show ?thesis using assms(3) by (auto simp: c_str_append c_str_slash)
qed

lemma strnstr_dots:
  assumes "strnstr (bytes_of path) (bytes_of ''..'') = None"
  shows "take 2 (drop i path) \<noteq> ''..''"
proof
  assume e: "take 2 (drop i path) = ''..''"
  then have "i \<le> length (bytes_of path)" by (cases "i \<le> length path") (auto simp: bytes_of_def)
  then have "\<not> prefix_of (bytes_of ''..'') (drop i (bytes_of path))"
    using assms unfolding strnstr_None by blast
  moreover have "take 2 (drop i (bytes_of path)) = bytes_of (take 2 (drop i path))"
    by (simp add: bytes_of_def take_map drop_map)
  moreover have "length (bytes_of ''..'') = 2" by (simp add: bytes_of_def)
  ultimately show False using e unfolding prefix_of_def by (simp add: numeral_2_eq_2)
qed

lemma refuse_opens: "Open_file path \<notin> set (drop (length (ws_events c)) (ws_events (refuse r a b m c)))"
  by (simp add: refuse_def ws_event_def)

lemma upgrade_opens: "Open_file path \<notin> set (drop (length (ws_events c)) (ws_events (websocket_upgrade k m c)))"
  by (simp add: websocket_upgrade_def ws_event_def)

lemma handle_request_opens:
  assumes "handle_request dir exists msg_len c = Some c'"
    and "Open_file path \<in> set (drop (length (ws_events c)) (ws_events c'))"
  shows "take 5 (inbuf c) = bytes_of ''GET /'' \<and> (\<exists>bs. request_path dir (inbuf c) = Some bs \<and> path = c_str bs \<and>
    strnstr (bytes_of (c_str bs)) (bytes_of ''..'') = None \<and> exists (c_str bs))"
proof -
  have r: "c' \<noteq> refuse r a b m c" for r a b m using assms(2) refuse_opens by metis
  have u: "c' \<noteq> websocket_upgrade k m c" for k m using assms(2) upgrade_opens by metis
  have g: "take 5 (inbuf c) = bytes_of ''GET /''"
    using assms(1) r [symmetric] u [symmetric]
    by (simp add: handle_request_def Let_def split: if_split_asm option.split_asm)
  then obtain bs where bs: "request_path dir (inbuf c) = Some bs"
    and h: "(if strnstr (bytes_of (c_str bs)) (bytes_of ''..'') = None then
        if exists (c_str bs) then Some (ws_event (Open_file (c_str bs)) (c\<lparr>inbuf := drop msg_len (inbuf c)\<rparr>))
        else Some (refuse ''404 Not Found'' ''The requested URL was not found: '' (drop (length dir + 1) (c_str bs)) msg_len c)
      else Some (refuse ''400 Bad Request'' ''The URL path was too long or malformed.'' '''' msg_len c)) = Some c'"
    using assms(1) u [symmetric] unfolding handle_request_def Let_def
    by (auto simp: bind_eq_Some_conv split: if_split_asm option.split_asm)
  then have s: "strnstr (bytes_of (c_str bs)) (bytes_of ''..'') = None" "exists (c_str bs)"
    "c' = ws_event (Open_file (c_str bs)) (c\<lparr>inbuf := drop msg_len (inbuf c)\<rparr>)"
    using r [symmetric] by (simp_all split: if_split_asm)
  then have "path = c_str bs" using assms(2) by (simp add: ws_event_def)
  then show ?thesis using g bs s by blast
qed

text \<open>C34: whatever a client asks for, the only file that is opened is one whose path is the root followed by a path that
  starts with a slash and has no two dots in a row anywhere; otherwise an error is sent and the socket closed.\<close>

theorem no_file_outside_root:
  assumes "handle_request dir exists msg_len c = Some c'" "c_string dir"
    and "Open_file path \<in> set (drop (length (ws_events c)) (ws_events c'))"
  shows "\<exists>p. path = dir @ CHR ''/'' # p \<and> (\<forall>i. take 2 (drop i path) \<noteq> ''..'') \<and> exists path"
  using handle_request_opens [OF assms(1,3)] request_path_under [OF _ _ assms(2)] strnstr_dots [of path] by blast

definition web_conn :: Http_conn where
  "web_conn = open_conn\<lparr>is_web_socket := False\<rparr>"

definition get_request :: "byte list" where
  "get_request = bytes_of ''GET /a HTTP/1.1'' @ crlf @ crlf"

theorem no_file_outside_root_witness:
  "\<exists>c'. handle_request ''/www'' (\<lambda>p. p = ''/www/a'') 19 (web_conn\<lparr>inbuf := get_request\<rparr>) = Some c' \<and>
    (\<exists>p. ''/www/a'' = ''/www'' @ CHR ''/'' # p \<and> (\<forall>i. take 2 (drop i ''/www/a'') \<noteq> ''..''))"
proof -
  let ?c = "web_conn\<lparr>inbuf := get_request\<rparr>"
  have h: "handle_request ''/www'' (\<lambda>p. p = ''/www/a'') 19 ?c = Some (ws_event (Open_file ''/www/a'') (?c\<lparr>inbuf := []\<rparr>))"
    by code_simp
  have "\<exists>p. ''/www/a'' = ''/www'' @ CHR ''/'' # p \<and> (\<forall>i. take 2 (drop i ''/www/a'') \<noteq> ''..'') \<and> ''/www/a'' = ''/www/a''"
    by (rule no_file_outside_root [OF h]) (simp_all add: c_string_def ws_event_def web_conn_def open_conn_def)
  then show ?thesis using h by blast
qed

theorem http_pieces_witness:
  "deliver 1 plain_env ''/www'' (\<lambda>p. p = ''/www/a'') (take 18 get_request @ drop 18 get_request) web_conn =
     Option.bind (deliver 1 plain_env ''/www'' (\<lambda>p. p = ''/www/a'') (take 18 get_request) web_conn)
       (deliver 1 plain_env ''/www'' (\<lambda>p. p = ''/www/a'') (drop 18 get_request))"
proof (rule http_pieces)
  show "strnstr (inbuf web_conn) (crlf @ crlf) = None" by code_simp
  show "strnstr (inbuf web_conn @ take 18 get_request) (crlf @ crlf) = None" by code_simp
  show "\<not> is_web_socket web_conn" by (simp add: web_conn_def)
qed

end
