(* ===== verification/Network.thy ===== *)
theory Network
  imports Prelude
begin

text \<open>
  Connections (src/src/o2network.cpp): messages are cut out of the stream of bytes a TCP socket delivers, queued and
  written to it, sockets are polled, closed and taken out of the list. What the operating system does is data in
  the state: the chunks that arrive at a socket and how many bytes it takes at each write. What the owner of
  a connection does with a message is an argument. \<open>None\<close> in the description of a message that is
  delivered: the owner reads from the socket itself.
\<close>

section \<open>State\<close>

datatype Net_tag = NET_UDP_SERVER | NET_TCP_SERVER | NET_TCP_CONNECTING | NET_TCP_CLIENT | NET_TCP_CONNECTION |
  NET_INFO_CLOSED | NET_INFILE

datatype Read_type = READ_O2 | READ_RAW | READ_CUSTOM
datatype Write_type = WRITE_O2 | WRITE_CUSTOM

text \<open>What is to be read at a socket, and what \<open>send\<close> answers.\<close>

datatype arrival = Chunk "byte list" | Hangup | Read_error | Connection "arrival list" "send_result list"
  and send_result = Took nat | Send_again | Send_error

record O2netmsg =
  msg_length :: int
  payload :: "byte list"

text \<open>
  \<open>in_length_bytes\<close> are the bytes of \<open>in_length\<close> that have come, \<open>in_message\<close> those of the message. \<open>socket_open\<close> and
  \<open>pollout\<close> are the entry of the socket in \<open>o2n_fds\<close>; \<open>wire\<close> is what the operating system has taken.
\<close>

record Fds_info =
  net_tag :: Net_tag
  fds_index :: nat
  delete_me :: nat
  read_type :: Read_type
  write_type :: Write_type
  in_length_bytes :: "byte list"
  in_message :: "byte list option"
  out_message :: "byte list list"
  out_msg_sent :: nat
  owner :: "nat option"
  socket_open :: bool
  pollout :: bool
  incoming :: "arrival list"
  outcomes :: "send_result list"
  wire :: "byte list"

datatype net_event = Delivered nat "O2netmsg option" | Removed nat

record network =
  infos :: "Fds_info list"
  socket_delete_flag :: bool
  in_o2n_recv :: bool
  running :: bool
  net_log :: "net_event list"

text \<open>The owner's methods, called with the owner and the index of the connection. \<open>closes\<close>: the connections whose owners are
  deleted with an owner: those of the clients of a web server. The constructor of \<open>Fds_info\<close> leaves \<open>write_type\<close> as it finds it: \<open>any_write_type\<close>.\<close>

record owners =
  deliver :: "nat \<Rightarrow> nat \<Rightarrow> O2netmsg option \<Rightarrow> network \<Rightarrow> O2err \<times> network"
  accepted :: "nat \<Rightarrow> nat \<Rightarrow> network \<Rightarrow> network"
  connected :: "nat \<Rightarrow> nat \<Rightarrow> network \<Rightarrow> network"
  writeable :: "nat \<Rightarrow> nat \<Rightarrow> network \<Rightarrow> network"
  closes :: "nat \<Rightarrow> Fds_info \<Rightarrow> bool"
  any_write_type :: Write_type

definition put :: "nat \<Rightarrow> Fds_info \<Rightarrow> network \<Rightarrow> network" where
  "put i c n = n\<lparr>infos := (infos n)[i := c]\<rparr>"

definition net_happen :: "net_event \<Rightarrow> network \<Rightarrow> network" where
  "net_happen e n = n\<lparr>net_log := net_log n @ [e]\<rparr>"

definition new_Fds_info :: "owners \<Rightarrow> Net_tag \<Rightarrow> nat option \<Rightarrow> arrival list \<Rightarrow> send_result list \<Rightarrow> network \<Rightarrow> network" where
  "new_Fds_info env tag own arr outs n = n\<lparr>infos := infos n @ [\<lparr>net_tag = tag, fds_index = length (infos n), delete_me = 0,
     read_type = READ_O2, write_type = any_write_type env, in_length_bytes = [], in_message = None, out_message = [], out_msg_sent = 0,
     owner = own, socket_open = True, pollout = False, incoming = arr, outcomes = outs, wire = []\<rparr>]\<rparr>"

section \<open>Reading\<close>

datatype received = Got "byte list" | Again | Failed

text \<open>\<open>recvfrom\<close> with room for \<open>k\<close> bytes: it may return fewer. No bytes: the other side has closed the connection.\<close>

definition recvfrom :: "nat \<Rightarrow> Fds_info \<Rightarrow> received \<times> Fds_info" where
  "recvfrom k c = (case incoming c of
     [] \<Rightarrow> (Again, c)
   | Chunk bs # arr \<Rightarrow> (Got (take k bs), c\<lparr>incoming := (if drop k bs = [] then arr else Chunk (drop k bs) # arr)\<rparr>)
   | Hangup # arr \<Rightarrow> (Got [], c)
   | Read_error # arr \<Rightarrow> (Failed, c)
   | Connection _ _ # arr \<Rightarrow> (Failed, c))"

definition message_cleanup :: "Fds_info \<Rightarrow> Fds_info" where
  "message_cleanup c = c\<lparr>in_message := None, in_length_bytes := []\<rparr>"

definition in_length :: "Fds_info \<Rightarrow> int" where
  "in_length c = sint (be_dec (in_length_bytes c) :: 32 word)"

text \<open>The error exit.\<close>

definition read_failed :: "received \<Rightarrow> Fds_info \<Rightarrow> O2err \<times> Fds_info" where
  "read_failed r c = (case r of Again \<Rightarrow> (O2_FAIL, c) | _ \<Rightarrow> (O2_TCP_HUP, message_cleanup c))"

definition read_raw :: "Fds_info \<Rightarrow> O2err \<times> Fds_info" where
  "read_raw c = (let c = c\<lparr>in_message := Some []\<rparr> in
     case recvfrom 512 c of
       (Got bs, c) \<Rightarrow> (O2_SUCCESS, c\<lparr>in_message := Some bs\<rparr>)
     | (r, c) \<Rightarrow> read_failed r c)"

definition read_payload :: "Fds_info \<Rightarrow> O2err \<times> Fds_info" where
  "read_payload c =
     (let msg = the (in_message c); got = int (length msg) in
      if got < in_length c then
        (case recvfrom (nat (in_length c - got)) c of
           (Got bs, c) \<Rightarrow>
             if bs = [] then read_failed (Got []) c
             else let c = c\<lparr>in_message := Some (msg @ bs)\<rparr> in
               (if got + int (length bs) < in_length c then O2_FAIL else O2_SUCCESS, c)
         | (r, c) \<Rightarrow> read_failed r c)
      else (O2_SUCCESS, c))"

definition read_o2 :: "Fds_info \<Rightarrow> O2err \<times> Fds_info" where
  "read_o2 c =
     (if length (in_length_bytes c) < 4 then
        (case recvfrom (4 - length (in_length_bytes c)) c of
           (Got bs, c) \<Rightarrow>
             if bs = [] then read_failed (Got []) c
             else let c = c\<lparr>in_length_bytes := in_length_bytes c @ bs\<rparr> in
               if length (in_length_bytes c) < 4 then (O2_FAIL, c)
               else if in_length c \<ge> 0x10000 then read_failed (Got []) c
               else read_payload (c\<lparr>in_message := Some []\<rparr>)
         | (r, c) \<Rightarrow> read_failed r c)
      else read_payload c)"

definition read_whole_message :: "Fds_info \<Rightarrow> O2err \<times> Fds_info" where
  "read_whole_message c = (case read_type c of
     READ_RAW \<Rightarrow> read_raw c | READ_O2 \<Rightarrow> read_o2 c | READ_CUSTOM \<Rightarrow> (O2_SUCCESS, c))"

section \<open>Closing\<close>

definition reset :: "Fds_info \<Rightarrow> Fds_info" where
  "reset c = c\<lparr>in_message := None, out_message := []\<rparr>"

definition mark_deleted :: "nat \<Rightarrow> Fds_info \<Rightarrow> network \<Rightarrow> network" where
  "mark_deleted i c n = (put i (c\<lparr>delete_me := 2, socket_open := False, net_tag := NET_INFO_CLOSED\<rparr>) n)\<lparr>socket_delete_flag := True\<rparr>"

text \<open>A socket that O2 reads itself.\<close>

definition shut_socket :: "bool \<Rightarrow> nat \<Rightarrow> network \<Rightarrow> network" where
  "shut_socket now i n =
     (let c = reset (infos n ! i) in
      if socket_open c \<and> net_tag c \<in> {NET_TCP_CLIENT, NET_TCP_CONNECTION} \<and> \<not> now
      then put i (c\<lparr>delete_me := 1, pollout := True\<rparr>) n else mark_deleted i c n)"

text \<open>\<open>None\<close>: a socket that its owner reads, without an owner, whose null pointer the code follows.\<close>

definition close_socket :: "bool \<Rightarrow> nat \<Rightarrow> network \<Rightarrow> network option" where
  "close_socket now i n =
     (let c = reset (infos n ! i) in
      if read_type c = READ_CUSTOM then
        (case owner c of
           None \<Rightarrow> None
         | Some own \<Rightarrow> Some (mark_deleted i (c\<lparr>owner := None\<rparr>) (net_happen (Removed own) n)))
      else Some (shut_socket now i n))"

text \<open>The owner of a connection that O2 reads itself gives it up.\<close>

definition delete_fds_info :: "nat \<Rightarrow> network \<Rightarrow> network" where
  "delete_fds_info i n = shut_socket False i (put i ((infos n ! i)\<lparr>owner := None\<rparr>) n)"

section \<open>Writing\<close>

text \<open>The bytes of a message on the wire: raw, or behind its length in network byte order.\<close>

definition wire_bytes :: "Read_type \<Rightarrow> byte list \<Rightarrow> byte list" where
  "wire_bytes rt msg = (if rt = READ_RAW then msg else be_enc 4 (word_of_nat (length msg) :: 32 word) @ msg)"

text \<open>
  The loop of \<open>send\<close>, one round for each answer of the operating system; without an answer, blocking never ends (\<open>None\<close>). A
  terminating error closes the socket: the flag.
\<close>

function send_loop :: "bool \<Rightarrow> Fds_info \<Rightarrow> (O2err \<times> bool \<times> Fds_info) option" where
  "send_loop block c =
     (case out_message c of
        [] \<Rightarrow> Some (O2_SUCCESS, False, c)
      | msg # next \<Rightarrow>
          let n = drop (out_msg_sent c) (wire_bytes (read_type c) msg) in
          (case outcomes c of
             [] \<Rightarrow> if block then None else Some (O2_BLOCKED, False, c\<lparr>pollout := True\<rparr>)
           | Send_again # outs \<Rightarrow>
               let c = c\<lparr>outcomes := outs\<rparr> in
               if block then send_loop block c else Some (O2_BLOCKED, False, c\<lparr>pollout := True\<rparr>)
           | Send_error # outs \<Rightarrow> Some (O2_FAIL, True, c\<lparr>outcomes := outs\<rparr>)
           | Took k # outs \<Rightarrow>
               let c = c\<lparr>outcomes := outs, wire := wire c @ take k n, out_msg_sent := out_msg_sent c + min k (length n)\<rparr> in
               if k \<ge> length n then send_loop block (c\<lparr>out_msg_sent := 0, out_message := next\<rparr>)
               else if \<not> block then Some (O2_BLOCKED, False, c\<lparr>pollout := True\<rparr>)
               else send_loop block c))"
  by pat_completeness auto
termination
  by (relation "measure (\<lambda>(block, c). length (outcomes c))") auto

declare send_loop.simps [simp del]

text \<open>Outside of the model: the wait for a connection (a blocking \<open>send\<close> while it is not yet made).\<close>

definition send :: "bool \<Rightarrow> nat \<Rightarrow> network \<Rightarrow> (O2err \<times> network) option" where
  "send block i n =
     (let c = infos n ! i in
      if net_tag c = NET_INFO_CLOSED then Some (O2_FAIL, n)
      else if net_tag c = NET_TCP_CONNECTING \<and> block then None
      else Option.bind (send_loop block c) (\<lambda>(r, failed, c).
        map_option (\<lambda>n. (r, n)) (if failed then close_socket True i (put i c n) else Some (put i c n))))"

definition enqueue :: "byte list \<Rightarrow> nat \<Rightarrow> network \<Rightarrow> network option" where
  "enqueue msg i n =
     (let c = infos n ! i in
      if out_message c = [] \<and> net_tag c \<noteq> NET_TCP_CONNECTING then
        map_option snd (send False i (put i (c\<lparr>out_message := [msg], out_msg_sent := 0\<rparr>) n))
      else Some (put i (c\<lparr>out_message := out_message c @ [msg]\<rparr>) n))"

definition can_send :: "Fds_info \<Rightarrow> O2err" where
  "can_send c =
     (if net_tag c \<in> {NET_TCP_SERVER, NET_TCP_CLIENT, NET_TCP_CONNECTION}
      then if out_message c = [] then O2_SUCCESS else O2_BLOCKED
      else if net_tag c = NET_TCP_CONNECTING then O2_BLOCKED else O2_FAIL)"

definition send_tcp :: "bool \<Rightarrow> byte list \<Rightarrow> nat \<Rightarrow> network \<Rightarrow> (O2err \<times> network) option" where
  "send_tcp block msg i n =
     (if out_message (infos n ! i) \<noteq> [] \<and> block then
        Option.bind (send True i n) (\<lambda>(r, n).
        if r \<noteq> O2_SUCCESS then Some (r, n) else map_option (\<lambda>n. (O2_SUCCESS, n)) (enqueue msg i n))
      else map_option (\<lambda>n. (O2_SUCCESS, n)) (enqueue msg i n))"

section \<open>Events\<close>

definition deliver_message :: "owners \<Rightarrow> nat \<Rightarrow> O2netmsg option \<Rightarrow> network \<Rightarrow> network option" where
  "deliver_message env i msg n =
     (let c = message_cleanup (infos n ! i); n = put i c n;
          (err, n) = (case owner c of
             Some own \<Rightarrow> if delete_me c = 0 then deliver env own i msg (net_happen (Delivered i msg) n) else (O2_FAIL, n)
           | None \<Rightarrow> (O2_FAIL, n)) in
      if err \<noteq> O2_SUCCESS \<and> net_tag (infos n ! i) \<in> {NET_TCP_CONNECTING, NET_TCP_CLIENT, NET_TCP_CONNECTION}
      then close_socket True i n else Some n)"

text \<open>The message that was read: its length is the one announced in the stream, or what came.\<close>

definition read_message :: "Fds_info \<Rightarrow> O2netmsg option" where
  "read_message c = map_option (\<lambda>bs. \<lparr>msg_length = (if read_type c = READ_O2 then in_length c else int (length bs)), payload = bs\<rparr>)
     (in_message c)"

definition read_udp :: "owners \<Rightarrow> nat \<Rightarrow> network \<Rightarrow> (O2err \<times> network) option" where
  "read_udp env i n = (case incoming (infos n ! i) of
     Chunk bs # arr \<Rightarrow>
       let n = put i ((infos n ! i)\<lparr>incoming := arr\<rparr>) n in
       if bs = [] then Some (O2_FAIL, n)
       else map_option (\<lambda>n. (O2_SUCCESS, n)) (deliver_message env i (Some \<lparr>msg_length = int (length bs), payload = bs\<rparr>) n)
   | _ \<Rightarrow> Some (O2_FAIL, n))"

definition accept_connection :: "owners \<Rightarrow> nat \<Rightarrow> network \<Rightarrow> (O2err \<times> network) option" where
  "accept_connection env i n = (case incoming (infos n ! i) of
     Connection arr outs # rest \<Rightarrow>
       let n = put i ((infos n ! i)\<lparr>incoming := rest\<rparr>) n; k = length (infos n);
           n = new_Fds_info env NET_TCP_CONNECTION None arr outs n in
       map_option (\<lambda>n. (O2_SUCCESS, n))
         (case owner (infos n ! i) of Some own \<Rightarrow> Some (accepted env own k n) | None \<Rightarrow> close_socket True k n)
   | _ \<Rightarrow> Some (O2_FAIL, n))"

definition read_event_handler :: "owners \<Rightarrow> nat \<Rightarrow> network \<Rightarrow> (O2err \<times> network) option" where
  "read_event_handler env i n =
     (let c = infos n ! i in
      if net_tag c \<in> {NET_TCP_CONNECTION, NET_TCP_CLIENT, NET_INFILE} then
        (case read_whole_message c of (r, c) \<Rightarrow>
           let n = put i c n in
           if r = O2_FAIL then Some (O2_SUCCESS, n)
           else if r \<noteq> O2_SUCCESS then Some (r, n)
           else map_option (\<lambda>n. (O2_SUCCESS, n)) (deliver_message env i (read_message c) n))
      else if net_tag c = NET_UDP_SERVER then read_udp env i n
      else if net_tag c = NET_TCP_SERVER then accept_connection env i n
      else Some (O2_SUCCESS, put i (reset c) n))"

section \<open>Deleted sockets\<close>

fun delete_clients :: "nat list \<Rightarrow> network \<Rightarrow> network" where
  "delete_clients [] n = n"
| "delete_clients (i # is) n = delete_clients is (delete_fds_info i n)"

text \<open>The clients of a web server that is deleted: their connections are read raw.\<close>

definition clients_of :: "owners \<Rightarrow> nat \<Rightarrow> network \<Rightarrow> nat list" where
  "clients_of env own n = filter (\<lambda>j. let c = infos n ! j in owner c \<noteq> None \<and> read_type c = READ_RAW \<and> closes env own c)
     [0..<length (infos n)]"

text \<open>The destructor: the last socket takes the place of the deleted one; then the owner is deleted.\<close>

definition remove_socket :: "owners \<Rightarrow> nat \<Rightarrow> network \<Rightarrow> network" where
  "remove_socket env i n =
     (let c = infos n ! i; k = length (infos n) - 1;
          n = n\<lparr>infos := (if length (infos n) > i + 1 then (take k (infos n))[i := (infos n ! k)\<lparr>fds_index := i\<rparr>]
                          else take k (infos n))\<rparr> in
      case owner c of
        None \<Rightarrow> n
      | Some own \<Rightarrow> let n = net_happen (Removed own) n in delete_clients (clients_of env own n) n)"

lemma length_put [simp]: "length (infos (put i c n)) = length (infos n)"
  by (simp add: put_def)

lemma length_shut_socket [simp]: "length (infos (mark_deleted i c n)) = length (infos n)"
    "length (infos (shut_socket now i n)) = length (infos n)" "length (infos (delete_fds_info i n)) = length (infos n)"
  by (simp_all add: mark_deleted_def shut_socket_def delete_fds_info_def Let_def)

lemma length_delete_clients [simp]: "length (infos (delete_clients is n)) = length (infos n)"
  by (induction "is" n rule: delete_clients.induct) simp_all

lemma length_remove_socket [simp]: "length (infos (remove_socket env i n)) = length (infos n) - 1"
  by (simp add: remove_socket_def Let_def net_happen_def split: option.split)

function scan_sockets :: "owners \<Rightarrow> nat \<Rightarrow> network \<Rightarrow> network" where
  "scan_sockets env i n =
     (if i < length (infos n) then
        if delete_me (infos n ! i) = 2 then scan_sockets env i (remove_socket env i n)
        else scan_sockets env (i + 1) n
      else n)"
  by pat_completeness auto
termination
  by (relation "measure (\<lambda>(env, i, n). length (infos n) - i)") auto

declare scan_sockets.simps [simp del]

lemma scan_sockets_less:
  "length (infos (scan_sockets env i n)) < length (infos n) \<or> scan_sockets env i n = n"
proof (induction env i n rule: scan_sockets.induct)
  case (1 env i n)
  then show ?case by (auto simp: scan_sockets.simps [of env i n])
qed

function o2n_free_deleted_sockets :: "owners \<Rightarrow> network \<Rightarrow> network" where
  "o2n_free_deleted_sockets env n =
     (if socket_delete_flag n then o2n_free_deleted_sockets env (scan_sockets env 0 (n\<lparr>socket_delete_flag := False\<rparr>)) else n)"
  by pat_completeness auto
termination
proof (relation "measure (\<lambda>(env, n). 2 * length (infos n) + (if socket_delete_flag n then 1 else 0))", simp)
  fix env and n :: network
  assume "socket_delete_flag n"
  then show "((env, scan_sockets env 0 (n\<lparr>socket_delete_flag := False\<rparr>)), env, n)
      \<in> measure (\<lambda>(env, n). 2 * length (infos n) + (if socket_delete_flag n then 1 else 0))"
    using scan_sockets_less [of env 0 "n\<lparr>socket_delete_flag := False\<rparr>"] by auto
qed

declare o2n_free_deleted_sockets.simps [simp del]

section \<open>Polling\<close>

datatype revent = POLLERR | POLLHUP | POLLOUT | POLLIN

definition poll_out :: "owners \<Rightarrow> nat \<Rightarrow> network \<Rightarrow> network option" where
  "poll_out env i n =
     (let c = infos n ! i;
          n = (if net_tag c = NET_TCP_CONNECTING then
                 let n = put i (c\<lparr>net_tag := NET_TCP_CLIENT\<rparr>) n in
                 (case owner c of Some own \<Rightarrow> connected env own i n | None \<Rightarrow> n)
               else n);
          c = infos n ! i in
      if owner c \<noteq> None \<and> write_type c = WRITE_CUSTOM then Some (writeable env (the (owner c)) i n)
      else if delete_me c = 1 then Some (mark_deleted i c n)
      else if out_message c \<noteq> [] then
        map_option (\<lambda>(r, n). if r = O2_SUCCESS then put i ((infos n ! i)\<lparr>pollout := False\<rparr>) n else n) (send False i n)
      else Some (put i (c\<lparr>pollout := False\<rparr>) n))"

definition poll_socket :: "owners \<Rightarrow> revent list \<Rightarrow> nat \<Rightarrow> network \<Rightarrow> network option" where
  "poll_socket env revents i n =
     (if POLLERR \<in> set revents then Some n
      else if POLLHUP \<in> set revents then close_socket True i n
      else if POLLOUT \<in> set revents then poll_out env i n
      else if POLLIN \<in> set revents then
        Option.bind (read_event_handler env i n) (\<lambda>(r, n). if r \<noteq> O2_SUCCESS then close_socket True i n else Some n)
      else Some n)"

fun poll_loop :: "owners \<Rightarrow> (nat \<Rightarrow> revent list) \<Rightarrow> nat list \<Rightarrow> network \<Rightarrow> network option" where
  "poll_loop env revents [] n = Some n"
| "poll_loop env revents (i # is) n =
     Option.bind (poll_socket env (revents i) i n) (\<lambda>n. if \<not> running n then Some n else poll_loop env revents is n)"

text \<open>\<open>revents\<close>: what \<open>poll\<close> reports for each socket.\<close>

definition o2n_recv :: "owners \<Rightarrow> (nat \<Rightarrow> revent list) \<Rightarrow> network \<Rightarrow> (O2err \<times> network) option" where
  "o2n_recv env revents n =
     (if in_o2n_recv n then Some (O2_ALREADY_RUNNING, n)
      else let n = o2n_free_deleted_sockets env (n\<lparr>in_o2n_recv := True\<rparr>) in
        map_option (\<lambda>n.
          if \<not> running n then (O2_FAIL, n\<lparr>in_o2n_recv := False\<rparr>)
          else (O2_SUCCESS, (o2n_free_deleted_sockets env n)\<lparr>in_o2n_recv := False\<rparr>))
        (poll_loop env revents [0..<length (infos n)] n))"

section \<open>Messages out of the stream\<close>

abbreviation (input) frame :: "byte list \<Rightarrow> byte list" where
  "frame \<equiv> wire_bytes READ_O2"

definition netmsg :: "byte list \<Rightarrow> O2netmsg" where
  "netmsg m = \<lparr>msg_length = int (length m), payload = m\<rparr>"

text \<open>What has been read of the next message.\<close>

definition partial :: "Fds_info \<Rightarrow> byte list" where
  "partial c = in_length_bytes c @ (case in_message c of None \<Rightarrow> [] | Some m \<Rightarrow> m)"

definition reading_ok :: "Fds_info \<Rightarrow> bool" where
  "reading_ok c \<longleftrightarrow> length (in_length_bytes c) < 4 \<and> in_message c = None \<or>
     length (in_length_bytes c) = 4 \<and> in_message c \<noteq> None"

definition chunks :: "byte list list \<Rightarrow> arrival list" where
  "chunks xs = map Chunk xs"

lemma recv_chunk:
  assumes "incoming c = chunks (x # xs)" "[] \<notin> set (x # xs)" "0 < k"
  shows "\<exists>got xs'. recvfrom k c = (Got got, c\<lparr>incoming := chunks xs'\<rparr>) \<and> got \<noteq> [] \<and> length got \<le> k \<and>
    concat (x # xs) = got @ concat xs' \<and> [] \<notin> set xs'"
proof (cases "drop k x = []")
  case True
  then show ?thesis using assms by (intro exI [of _ x] exI [of _ xs]) (auto simp: recvfrom_def chunks_def)
next
  case False
  then show ?thesis using assms
    by (intro exI [of _ "take k x"] exI [of _ "drop k x # xs"]) (auto simp: recvfrom_def chunks_def)
qed

lemma recv_nothing: "incoming c = chunks [] \<Longrightarrow> recvfrom k c = (Again, c)"
  by (simp add: recvfrom_def chunks_def)

lemma in_length_updates [simp]:
  "in_length (c\<lparr>incoming := arr\<rparr>) = in_length c" "in_length (c\<lparr>in_message := im\<rparr>) = in_length c"
  by (simp_all add: in_length_def)

lemma prefix_by_length: "a @ b = m @ r \<Longrightarrow> length a \<le> length m \<Longrightarrow> \<exists>d. m = a @ d"
  by (auto simp: append_eq_append_conv2)

lemma read_payload_step:
  assumes "in_length c = int (length m)" "in_message c = Some msg" "incoming c = chunks xs" "[] \<notin> set xs"
    and "msg @ concat xs @ later = m @ rest" "length msg \<le> length m"
  shows "\<exists>r got xs'. read_payload c = (r, c\<lparr>incoming := chunks xs', in_message := Some (msg @ got)\<rparr>) \<and>
    [] \<notin> set xs' \<and> concat xs = got @ concat xs' \<and>
    (r = O2_SUCCESS \<and> msg @ got = m \<or> r = O2_FAIL \<and> length (msg @ got) < length m \<and> (xs = [] \<or> got \<noteq> []))"
proof (cases "length msg < length m")
  case False
  then have m: "msg = m" using prefix_by_length [OF assms(5,6)] assms(6) by auto
  have "c\<lparr>incoming := chunks xs, in_message := Some msg\<rparr> = c" using assms(2,3) by (cases c) simp
  moreover have "read_payload c = (O2_SUCCESS, c)" using assms(1,2) m by (simp add: read_payload_def)
  ultimately show ?thesis using assms(4) m
    by (intro exI [of _ O2_SUCCESS] exI [of _ "[]"] exI [of _ xs]) simp
next
  case True
  show ?thesis
  proof (cases xs)
    case Nil
    have "c\<lparr>incoming := chunks [], in_message := Some msg\<rparr> = c" using assms(2,3) Nil by (cases c) simp
    moreover have "read_payload c = (O2_FAIL, c)"
      using True assms(1,2) recv_nothing [OF assms(3) [unfolded Nil]] by (simp add: read_payload_def read_failed_def)
    ultimately show ?thesis using True Nil
      by (intro exI [of _ O2_FAIL] exI [of _ "[]"] exI [of _ "[]"]) simp
  next
    case (Cons x ys)
    let ?k = "nat (in_length c - int (length msg))"
    have "0 < ?k" using True assms(1) by simp
    then obtain got xs' where g: "recvfrom ?k c = (Got got, c\<lparr>incoming := chunks xs'\<rparr>)" "got \<noteq> []" "length got \<le> ?k"
      "concat xs = got @ concat xs'" "[] \<notin> set xs'"
      using recv_chunk [of c x ys ?k] assms(3,4) Cons by auto
    have "length (msg @ got) \<le> length m" using g(3) assms(1) True by simp
    moreover have "(msg @ got) @ concat xs' @ later = m @ rest" using assms(5) g(4) by simp
    ultimately obtain d where d: "m = (msg @ got) @ d" using prefix_by_length by blast
    define r where "r = (if d = [] then O2_SUCCESS else O2_FAIL)"
    have "int (length msg) < in_length c" using True assms(1) by simp
    then have "read_payload c = (if int (length msg) + int (length got) < in_length c then O2_FAIL else O2_SUCCESS,
        c\<lparr>incoming := chunks xs', in_message := Some (msg @ got)\<rparr>)"
      using assms(2) g(1,2) by (simp add: read_payload_def Let_def)
    then have "read_payload c = (r, c\<lparr>incoming := chunks xs', in_message := Some (msg @ got)\<rparr>)"
      using assms(1) d by (simp add: r_def)
    then show ?thesis using g d
      by (intro exI [of _ r] exI [of _ got] exI [of _ xs']) (auto simp: r_def)
  qed
qed

lemma length_frame [simp]: "length (frame m) = 4 + length m"
  by (simp add: wire_bytes_def be_enc_def)

lemma frame_length:
  assumes "length m < 0x10000" "in_length_bytes c = take 4 (frame m)"
  shows "in_length c = int (length m)"
proof -
  have "in_length_bytes c = be_enc 4 (word_of_nat (length m) :: 32 word)"
    using assms(2) by (simp add: wire_bytes_def be_enc_def)
  then have "in_length c = sint (word_of_nat (length m) :: 32 word)" by (simp add: in_length_def be32.dec_enc)
  also have "\<dots> = signed_take_bit 31 (int (length m))" by (simp add: signed_of_nat)
  also have "\<dots> = int (length m)" using assms(1) by (intro signed_take_bit_int_eq_self) simp_all
  finally show ?thesis .
qed

lemma read_o2_step:
  assumes "reading_ok c" "incoming c = chunks xs" "[] \<notin> set xs" "xs \<noteq> []" "length m < 0x10000"
    and "partial c @ concat xs @ later = frame m @ rest" "length (partial c) < length (frame m)"
  shows "\<exists>r il im got xs'. read_o2 c = (r, c\<lparr>incoming := chunks xs', in_length_bytes := il, in_message := im\<rparr>) \<and>
    [] \<notin> set xs' \<and> concat xs = got @ concat xs' \<and> got \<noteq> [] \<and> reading_ok (c\<lparr>in_length_bytes := il, in_message := im\<rparr>) \<and>
    partial (c\<lparr>in_length_bytes := il, in_message := im\<rparr>) = partial c @ got \<and>
    (r = O2_SUCCESS \<and> partial c @ got = frame m \<and> im = Some m \<or>
     r = O2_FAIL \<and> length (partial c @ got) < length (frame m))"
proof (cases "length (in_length_bytes c) < 4")
  case False
  then obtain msg where c: "length (in_length_bytes c) = 4" "in_message c = Some msg"
    using assms(1) by (auto simp: reading_ok_def)
  have p: "partial c = in_length_bytes c @ msg" using c by (simp add: partial_def)
  have "take 4 (partial c @ concat xs @ later) = take 4 (frame m)" using assms(6) by simp
  then have il: "in_length_bytes c = take 4 (frame m)" using c(1) p by simp
  have fr: "frame m = in_length_bytes c @ m" using il by (simp add: wire_bytes_def be_enc_def)
  have "msg @ concat xs @ later = m @ rest" "length msg \<le> length m"
    using assms(6,7) p fr by simp_all
  then obtain r got xs' where s: "read_payload c = (r, c\<lparr>incoming := chunks xs', in_message := Some (msg @ got)\<rparr>)"
    "[] \<notin> set xs'" "concat xs = got @ concat xs'"
    "r = O2_SUCCESS \<and> msg @ got = m \<or> r = O2_FAIL \<and> length (msg @ got) < length m \<and> (xs = [] \<or> got \<noteq> [])"
    using read_payload_step [OF frame_length [OF assms(5) il] c(2) assms(2,3)] by blast
  have "got \<noteq> []" using s(4) assms(4,7) p fr by auto
  moreover have "in_length_bytes c @ msg @ got = frame m \<longleftrightarrow> msg @ got = m" using fr by simp
  ultimately show ?thesis using s c False p fr
    by (intro exI [of _ r] exI [of _ "in_length_bytes c"] exI [of _ "Some (msg @ got)"] exI [of _ got] exI [of _ xs'])
      (auto simp: read_o2_def reading_ok_def partial_def)
next
  case True
  then have im: "in_message c = None" and p: "partial c = in_length_bytes c"
    using assms(1) by (auto simp: reading_ok_def partial_def)
  let ?k = "4 - length (in_length_bytes c)"
  obtain x ys where xs: "xs = x # ys" using assms(4) by (cases xs) auto
  obtain g1 xs1 where g1: "recvfrom ?k c = (Got g1, c\<lparr>incoming := chunks xs1\<rparr>)" "g1 \<noteq> []" "length g1 \<le> ?k"
      "concat xs = g1 @ concat xs1" "[] \<notin> set xs1"
    using recv_chunk [of c x ys ?k] assms(2,3) xs True by auto
  define il where "il = in_length_bytes c @ g1"
  show ?thesis
  proof (cases "length il < 4")
    case True
    then show ?thesis using g1 \<open>length (in_length_bytes c) < 4\<close> im p
      by (intro exI [of _ O2_FAIL] exI [of _ il] exI [of _ None] exI [of _ g1] exI [of _ xs1])
        (auto simp: read_o2_def reading_ok_def partial_def il_def)
  next
    case False
    then have l4: "length il = 4" using g1(3) True by (simp add: il_def)
    let ?c = "c\<lparr>incoming := chunks xs1, in_length_bytes := il, in_message := Some []\<rparr>"
    have "take 4 (il @ concat xs1 @ later) = take 4 (frame m @ rest)" using assms(6) p g1(4) by (simp add: il_def)
    then have il: "in_length_bytes ?c = take 4 (frame m)" using l4 by simp
    have fr: "frame m = il @ m" using il by (simp add: wire_bytes_def be_enc_def)
    have st: "[] @ concat xs1 @ later = m @ rest" using assms(6) p g1(4) fr by (simp add: il_def)
    note len = frame_length [OF assms(5) il]
    obtain r got xs' where s: "read_payload ?c = (r, ?c\<lparr>incoming := chunks xs', in_message := Some got\<rparr>)"
      "[] \<notin> set xs'" "concat xs1 = got @ concat xs'"
      "r = O2_SUCCESS \<and> got = m \<or> r = O2_FAIL \<and> length got < length m"
      using read_payload_step [OF len _ _ g1(5) st] by auto
    have "in_length (c\<lparr>incoming := chunks xs1, in_length_bytes := il\<rparr>) = int (length m)" using len by (simp add: in_length_def)
    moreover have "?c\<lparr>incoming := chunks xs', in_message := Some got\<rparr> =
        c\<lparr>incoming := chunks xs', in_length_bytes := il, in_message := Some got\<rparr>" by (cases c) simp
    moreover have "\<not> length (in_length_bytes c) + length g1 < 4" using l4 by (simp add: il_def)
    ultimately have "read_o2 c = (r, c\<lparr>incoming := chunks xs', in_length_bytes := il, in_message := Some got\<rparr>)"
      using True g1(1,2) l4 s(1) assms(5) by (simp add: read_o2_def Let_def flip: il_def)
    then show ?thesis using s(2-4) g1(2,4) l4 p fr
      by (intro exI [of _ r] exI [of _ il] exI [of _ "Some got"] exI [of _ "g1 @ got"] exI [of _ xs'])
        (auto simp: reading_ok_def partial_def il_def)
  qed
qed

section \<open>A connection that receives\<close>

text \<open>As long as something has come, the socket is readable and its handler is called again.\<close>

fun read_all :: "nat \<Rightarrow> owners \<Rightarrow> nat \<Rightarrow> network \<Rightarrow> network option" where
  "read_all 0 env i n = Some n"
| "read_all (Suc k) env i n =
     (if incoming (infos n ! i) = [] then Some n
      else Option.bind (read_event_handler env i n) (\<lambda>(_, n). read_all k env i n))"

definition quiet_owner :: "owners \<Rightarrow> bool" where
  "quiet_owner env \<longleftrightarrow> (\<forall>own i msg n. deliver env own i msg n = (O2_SUCCESS, n))"

definition o2_connection :: "Fds_info \<Rightarrow> bool" where
  "o2_connection c \<longleftrightarrow> net_tag c \<in> {NET_TCP_CLIENT, NET_TCP_CONNECTION} \<and> read_type c = READ_O2 \<and> delete_me c = 0 \<and> owner c \<noteq> None"

text \<open>Fields that receiving does not change.\<close>

definition same_but_reading :: "Fds_info \<Rightarrow> Fds_info \<Rightarrow> bool" where
  "same_but_reading c c' \<longleftrightarrow>
     (\<exists>arr il im. c' = c\<lparr>incoming := arr, in_length_bytes := il, in_message := im\<rparr>)"

lemma same_but_reading_trans: "same_but_reading a b \<Longrightarrow> same_but_reading b c \<Longrightarrow> same_but_reading a c"
proof -
  assume "same_but_reading a b" "same_but_reading b c"
  then obtain x y z x' y' z' where "b = a\<lparr>incoming := x, in_length_bytes := y, in_message := z\<rparr>"
    "c = b\<lparr>incoming := x', in_length_bytes := y', in_message := z'\<rparr>"
    unfolding same_but_reading_def by blast
  then have "c = a\<lparr>incoming := x', in_length_bytes := y', in_message := z'\<rparr>" by simp
  then show ?thesis unfolding same_but_reading_def by blast
qed

lemma same_but_reading_refl: "same_but_reading c c"
  unfolding same_but_reading_def by (intro exI [of _ "incoming c"] exI [of _ "in_length_bytes c"] exI [of _ "in_message c"]) simp

lemma same_o2_connection: "same_but_reading c c' \<Longrightarrow> o2_connection c \<Longrightarrow> o2_connection c'"
  by (auto simp: same_but_reading_def o2_connection_def)

text \<open>One event: part of a message, or the rest of it, which is delivered.\<close>

lemma read_event:
  assumes "quiet_owner env" "i < length (infos n)" "infos n ! i = c" "o2_connection c" "reading_ok c"
    and "incoming c = chunks xs" "[] \<notin> set xs" "xs \<noteq> []" "length m < 0x10000"
    and "partial c @ concat xs @ later = frame m @ rest" "length (partial c) < length (frame m)"
  shows "\<exists>c' got xs' evs. map_option snd (read_event_handler env i n) = Some ((put i c' n)\<lparr>net_log := net_log n @ evs\<rparr>) \<and>
    same_but_reading c c' \<and> reading_ok c' \<and> incoming c' = chunks xs' \<and> [] \<notin> set xs' \<and> concat xs = got @ concat xs' \<and> got \<noteq> [] \<and>
    (evs = [] \<and> partial c' = partial c @ got \<and> length (partial c') < length (frame m) \<or>
     evs = [Delivered i (Some (netmsg m))] \<and> partial c' = [] \<and> partial c @ got = frame m)"
proof -
  obtain r il im got xs' where s: "read_o2 c = (r, c\<lparr>incoming := chunks xs', in_length_bytes := il, in_message := im\<rparr>)"
    "[] \<notin> set xs'" "concat xs = got @ concat xs'" "got \<noteq> []" "reading_ok (c\<lparr>in_length_bytes := il, in_message := im\<rparr>)"
    "partial (c\<lparr>in_length_bytes := il, in_message := im\<rparr>) = partial c @ got"
    "r = O2_SUCCESS \<and> partial c @ got = frame m \<and> im = Some m \<or> r = O2_FAIL \<and> length (partial c @ got) < length (frame m)"
    using read_o2_step [OF assms(5-11)] by blast
  let ?c = "c\<lparr>incoming := chunks xs', in_length_bytes := il, in_message := im\<rparr>"
  have whole: "read_whole_message c = (r, ?c)" using s(1) assms(4) by (simp add: read_whole_message_def o2_connection_def)
  have p: "partial ?c = partial c @ got" "reading_ok ?c" using s(5,6) by (simp_all add: partial_def reading_ok_def)
  have tag: "net_tag c \<in> {NET_TCP_CONNECTION, NET_TCP_CLIENT, NET_INFILE}" using assms(4) by (auto simp: o2_connection_def)
  have same: "same_but_reading c ?c" unfolding same_but_reading_def by blast
  show ?thesis
  proof (cases "r = O2_FAIL")
    case True
    then have "map_option snd (read_event_handler env i n) = Some ((put i ?c n)\<lparr>net_log := net_log n @ []\<rparr>)"
      using tag whole assms(3) by (simp add: read_event_handler_def put_def)
    then show ?thesis using same p s(2-4,7) True
      by (intro exI [of _ ?c] exI [of _ got] exI [of _ xs'] exI [of _ "[]"]) auto
  next
    case False
    then have r: "r = O2_SUCCESS" "partial c @ got = frame m" "im = Some m" using s(7) by auto
    have "length il = 4" using p(2) r(3) by (auto simp: reading_ok_def)
    moreover have "il @ m = frame m" using p(1) r by (simp add: partial_def)
    ultimately have "il = take 4 (frame m)" by (metis append_eq_conv_conj)
    then have "in_length ?c = int (length m)" using assms(9) by (intro frame_length) simp_all
    then have msg: "read_message ?c = Some (netmsg m)"
      using assms(4) r(3) by (simp add: read_message_def netmsg_def o2_connection_def in_length_def)
    let ?c' = "message_cleanup ?c"
    obtain own where own: "owner c = Some own" "delete_me c = 0" using assms(4) by (auto simp: o2_connection_def)
    have "deliver_message env i (read_message ?c) (put i ?c n) = Some (net_happen (Delivered i (Some (netmsg m))) (put i ?c' n))"
      using assms(1,2) own unfolding msg quiet_owner_def
      by (simp add: deliver_message_def put_def Let_def message_cleanup_def)
    then have "map_option snd (read_event_handler env i n) = Some ((put i ?c' n)\<lparr>net_log := net_log n @ [Delivered i (Some (netmsg m))]\<rparr>)"
      using tag whole assms(3) r(1) by (simp add: read_event_handler_def net_happen_def put_def)
    moreover have "same_but_reading c ?c'" unfolding same_but_reading_def message_cleanup_def
      by (intro exI [of _ "chunks xs'"] exI [of _ "[]"] exI [of _ None]) simp
    moreover have "reading_ok ?c'" "partial ?c' = []" by (simp_all add: message_cleanup_def reading_ok_def partial_def)
    ultimately show ?thesis using s(2-4) r(2)
      by (intro exI [of _ ?c'] exI [of _ got] exI [of _ xs'] exI [of _ "[Delivered i (Some (netmsg m))]"])
        (simp add: message_cleanup_def)
  qed
qed

definition got_messages :: "nat \<Rightarrow> byte list list \<Rightarrow> net_event list" where
  "got_messages i ms = map (\<lambda>m. Delivered i (Some (netmsg m))) ms"

text \<open>What has been read is less than the next message.\<close>

definition behind :: "Fds_info \<Rightarrow> byte list list \<Rightarrow> bool" where
  "behind c ms \<longleftrightarrow> (case ms of [] \<Rightarrow> partial c = [] | m # _ \<Rightarrow> length (partial c) < length (frame m))"

lemma put_put [simp]: "put i c' (put i c n) = put i c' n" "net_log (put i c n) = net_log n"
  by (simp_all add: put_def)

lemma put_log: "put i c (n\<lparr>net_log := l\<rparr>) = (put i c n)\<lparr>net_log := l\<rparr>"
  by (simp add: put_def)

lemma put_nth: "i < length (infos n) \<Longrightarrow> infos (put i c n) ! i = c"
  by (simp add: put_def)

lemma read_all_stream:
  assumes "quiet_owner env" "i < length (infos n)" "o2_connection (infos n ! i)" "reading_ok (infos n ! i)"
    and "incoming (infos n ! i) = chunks xs" "[] \<notin> set xs" "\<forall>m \<in> set ms. length m < 0x10000"
    and "partial (infos n ! i) @ concat xs @ later = concat (map frame ms)" "behind (infos n ! i) ms" "length (concat xs) \<le> k"
  shows "\<exists>c' dn todo. read_all k env i n = Some ((put i c' n)\<lparr>net_log := net_log n @ got_messages i dn\<rparr>) \<and>
    same_but_reading (infos n ! i) c' \<and> incoming c' = [] \<and> reading_ok c' \<and> ms = dn @ todo \<and>
    partial (infos n ! i) @ concat xs = concat (map frame dn) @ partial c' \<and> behind c' todo"
  using assms(2-)
proof (induction k arbitrary: n xs ms)
  case (0 n xs ms)
  then have "xs = []" by (cases xs) auto
  then show ?case using 0
    by (intro exI [of _ "infos n ! i"] exI [of _ "[]"] exI [of _ ms])
      (simp add: got_messages_def same_but_reading_refl chunks_def put_def)
next
  case (Suc k n xs ms)
  let ?c = "infos n ! i"
  show ?case
  proof (cases "xs = []")
    case True
    then show ?thesis using Suc.prems
      by (intro exI [of _ "infos n ! i"] exI [of _ "[]"] exI [of _ ms])
        (simp add: got_messages_def same_but_reading_refl chunks_def put_def)
  next
    case False
    then have inc: "incoming ?c \<noteq> []" "concat xs \<noteq> []" using Suc.prems(4,5) by (cases xs; simp add: chunks_def; metis)+
    then obtain m ms' where ms: "ms = m # ms'" using Suc.prems(7) by (cases ms) auto
    have m: "length m < 0x10000" "partial ?c @ concat xs @ later = frame m @ concat (map frame ms')"
      "length (partial ?c) < length (frame m)"
      using Suc.prems(6-8) ms by (simp_all add: behind_def)
    obtain c1 got xs' evs where e: "map_option snd (read_event_handler env i n) = Some ((put i c1 n)\<lparr>net_log := net_log n @ evs\<rparr>)"
      "same_but_reading ?c c1" "reading_ok c1" "incoming c1 = chunks xs'" "[] \<notin> set xs'" "concat xs = got @ concat xs'" "got \<noteq> []"
      "evs = [] \<and> partial c1 = partial ?c @ got \<and> length (partial c1) < length (frame m) \<or>
       evs = [Delivered i (Some (netmsg m))] \<and> partial c1 = [] \<and> partial ?c @ got = frame m"
      using read_event [OF assms(1) Suc.prems(1) refl Suc.prems(2-5) False m] by blast
    let ?n = "(put i c1 n)\<lparr>net_log := net_log n @ evs\<rparr>"
    have n1: "infos ?n ! i = c1" "i < length (infos ?n)" using Suc.prems(1) by (simp_all add: put_nth)
    have conn: "o2_connection c1" by (rule same_o2_connection [OF e(2) Suc.prems(2)])
    have k: "length (concat xs') \<le> k" using Suc.prems(9) e(6,7) by (cases got) auto
    define rest where "rest = (if evs = [] then ms else ms')"
    have rest: "partial c1 @ concat xs' @ later = concat (map frame rest)" "behind c1 rest" "\<forall>m \<in> set rest. length m < 0x10000"
    proof -
      show "\<forall>m \<in> set rest. length m < 0x10000" using Suc.prems(6) ms by (simp add: rest_def)
      have st: "(partial ?c @ got) @ concat xs' @ later = frame m @ concat (map frame ms')" using m(2) e(6) by simp
      from e(8) show "partial c1 @ concat xs' @ later = concat (map frame rest)"
      proof (elim disjE conjE)
        assume "evs = []" "partial c1 = partial ?c @ got"
        then show ?thesis using st ms by (simp add: rest_def)
      next
        assume a: "evs = [Delivered i (Some (netmsg m))]" "partial c1 = []" "partial ?c @ got = frame m"
        then show ?thesis using st [unfolded a(3)] by (simp add: rest_def)
      qed
      show "behind c1 rest" using e(8) ms by (auto simp: rest_def behind_def split: list.split)
    qed
    obtain c' dn todo where ih: "read_all k env i ?n = Some ((put i c' ?n)\<lparr>net_log := net_log ?n @ got_messages i dn\<rparr>)"
      "same_but_reading c1 c'" "incoming c' = []" "reading_ok c'" "rest = dn @ todo"
      "partial c1 @ concat xs' = concat (map frame dn) @ partial c'" "behind c' todo"
      using Suc.IH [of ?n xs' rest] n1 conn e(3-5) rest k by (metis n1)
    define dn' where "dn' = (if evs = [] then dn else m # dn)"
    have "read_all (Suc k) env i n = read_all k env i ?n" using inc(1) e(1) by auto
    moreover have "net_log ?n @ got_messages i dn = net_log n @ got_messages i dn'"
      using e(8) by (auto simp: dn'_def got_messages_def)
    ultimately have "read_all (Suc k) env i n = Some ((put i c' n)\<lparr>net_log := net_log n @ got_messages i dn'\<rparr>)"
      using ih(1) by (simp add: put_log)
    moreover have "ms = dn' @ todo" using ih(5) e(8) ms by (auto simp: rest_def dn'_def)
    moreover have "partial ?c @ concat xs = concat (map frame dn') @ partial c'"
      using e(6,8) ih(6) by (auto simp: dn'_def)
    ultimately show ?thesis using ih(2-4,7) same_but_reading_trans [OF e(2)] by blast
  qed
qed

section \<open>What is written\<close>

text \<open>The bytes still to be written for the messages that wait.\<close>

definition unsent :: "Fds_info \<Rightarrow> byte list" where
  "unsent c = drop (out_msg_sent c) (concat (map (wire_bytes (read_type c)) (out_message c)))"

definition sending_ok :: "Fds_info \<Rightarrow> bool" where
  "sending_ok c \<longleftrightarrow> (case out_message c of [] \<Rightarrow> out_msg_sent c = 0 | m # _ \<Rightarrow> out_msg_sent c \<le> length (wire_bytes (read_type c) m))"

text \<open>Fields that sending does not change.\<close>

definition same_but_sending :: "Fds_info \<Rightarrow> Fds_info \<Rightarrow> bool" where
  "same_but_sending c c' \<longleftrightarrow> (\<exists>outs w s ms p. c' = c\<lparr>outcomes := outs, wire := w, out_msg_sent := s, out_message := ms, pollout := p\<rparr>)"

lemma send_loop_conserves:
  "send_loop block c = Some (r, failed, c') \<Longrightarrow> sending_ok c \<Longrightarrow>
   wire c' @ unsent c' = wire c @ unsent c \<and> sending_ok c' \<and> read_type c' = read_type c \<and> net_tag c' = net_tag c \<and>
   (r = O2_SUCCESS \<longrightarrow> out_message c' = []) \<and> (r = O2_BLOCKED \<longrightarrow> pollout c' \<and> \<not> block) \<and> (failed \<longleftrightarrow> r = O2_FAIL) \<and>
   write_type c' = write_type c \<and> (r = O2_SUCCESS \<or> failed \<or> \<not> block)"
proof (induction block c rule: send_loop.induct)
  case (1 block c)
  show ?case
  proof (cases "out_message c")
    case Nil
    then show ?thesis using "1.prems" by (simp add: send_loop.simps [of block c])
  next
    case (Cons msg ms)
    let ?n = "drop (out_msg_sent c) (wire_bytes (read_type c) msg)"
    have un: "unsent c = ?n @ concat (map (wire_bytes (read_type c)) ms)" and le: "out_msg_sent c \<le> length (wire_bytes (read_type c) msg)"
      using "1.prems"(2) Cons by (simp_all add: unsent_def sending_ok_def)
    note run = "1.prems"(1) [unfolded send_loop.simps [of block c] Cons list.case Let_def]
    show ?thesis
    proof (cases "outcomes c")
      case Nil
      then show ?thesis using run "1.prems"(2)
        by (auto simp: unsent_def sending_ok_def split: if_split_asm list.splits)
    next
      case outs: (Cons o1 outs)
      show ?thesis
      proof (cases o1)
        case Send_error
        then show ?thesis using run outs "1.prems"(2) by (auto simp: unsent_def sending_ok_def split: list.splits)
      next
        case Send_again
        let ?c = "c\<lparr>outcomes := outs\<rparr>"
        have "unsent ?c = unsent c" "sending_ok ?c"
          using "1.prems"(2) by (simp_all add: unsent_def sending_ok_def split: list.splits)
        then show ?thesis using run outs Send_again "1.IH"(3) [OF Cons refl outs Send_again refl]
          by (auto simp: unsent_def sending_ok_def split: if_split_asm list.splits)
      next
        case (Took k)
        let ?c = "c\<lparr>outcomes := outs, wire := wire c @ take k ?n, out_msg_sent := out_msg_sent c + min k (length ?n)\<rparr>"
        show ?thesis
        proof (cases "k \<ge> length ?n")
          case True
          let ?c' = "?c\<lparr>out_msg_sent := 0, out_message := ms\<rparr>"
          have "unsent ?c' = concat (map (wire_bytes (read_type c)) ms)" by (simp add: unsent_def)
          then have "wire ?c' @ unsent ?c' = wire c @ unsent c" using True by (simp add: un)
          moreover have "sending_ok ?c'" by (simp add: sending_ok_def split: list.split)
          ultimately show ?thesis using run outs Took True "1.IH"(1) [OF Cons refl outs Took refl True] by auto
        next
          case False
          have "wire ?c @ unsent ?c = wire c @ unsent c"
          proof -
            have "unsent ?c = drop k ?n @ concat (map (wire_bytes (read_type c)) ms)"
              using False Cons le by (simp add: unsent_def add.commute)
            then show ?thesis using append_take_drop_id [of k ?n] by (simp add: un del: drop_drop append_take_drop_id)
          qed
          moreover have "sending_ok ?c" using Cons False le by (simp add: sending_ok_def)
          ultimately show ?thesis using run outs Took False "1.IH"(2) [OF Cons refl outs Took refl False] Cons
            by (cases block) (auto simp: unsent_def sending_ok_def)
        qed
      qed
    qed
  qed
qed

text \<open>A client sends messages and its socket is polled: the operations on one connection.\<close>

datatype send_op = Enqueue "byte list" | Send_tcp bool "byte list" | Poll_out | Answers "send_result list"

definition send_step :: "owners \<Rightarrow> nat \<Rightarrow> send_op \<Rightarrow> network \<Rightarrow> network option" where
  "send_step env i op n = (case op of
     Enqueue m \<Rightarrow> enqueue m i n
   | Send_tcp block m \<Rightarrow> map_option snd (send_tcp block m i n)
   | Poll_out \<Rightarrow> poll_out env i n
   | Answers outs \<Rightarrow> Some (put i ((infos n ! i)\<lparr>outcomes := outcomes (infos n ! i) @ outs\<rparr>) n))"

fun run_ops :: "owners \<Rightarrow> nat \<Rightarrow> send_op list \<Rightarrow> network \<Rightarrow> network option" where
  "run_ops env i [] n = Some n"
| "run_ops env i (op # ops) n = Option.bind (send_step env i op n) (run_ops env i ops)"

definition queued_by :: "send_op \<Rightarrow> byte list list" where
  "queued_by op = (case op of Enqueue m \<Rightarrow> [m] | Send_tcp _ m \<Rightarrow> [m] | _ \<Rightarrow> [])"

text \<open>\<open>sofar\<close> is the stream the connection has been given so far.\<close>

definition in_order :: "Read_type \<Rightarrow> byte list \<Rightarrow> nat \<Rightarrow> network \<Rightarrow> bool" where
  "in_order rt sofar i n \<longleftrightarrow>
     (let c = infos n ! i in i < length (infos n) \<and> read_type c = rt \<and> write_type c = WRITE_O2 \<and>
      (net_tag c \<in> {NET_TCP_CLIENT, NET_TCP_CONNECTION} \<and> sending_ok c \<and> wire c @ unsent c = sofar \<or>
       net_tag c = NET_INFO_CLOSED \<and> (\<exists>rest. sofar = wire c @ rest)))"

lemma in_order_closed:
  assumes "i < length (infos n)" "read_type (infos n ! i) = rt" "write_type (infos n ! i) = WRITE_O2"
    "sofar = wire (infos n ! i) @ rest"
    "close_socket True i n = Some n'"
  shows "in_order rt sofar i n'" "net_tag (infos n' ! i) = NET_INFO_CLOSED"
  using assms
  by (auto simp: in_order_def close_socket_def shut_socket_def mark_deleted_def Let_def put_def net_happen_def reset_def
      split: if_splits option.splits)

lemma in_order_more:
  assumes "in_order rt sofar i n" "net_tag (infos n ! i) = NET_INFO_CLOSED"
  shows "in_order rt (sofar @ extra) i n"
proof -
  obtain rest where "sofar = wire (infos n ! i) @ rest" using assms by (auto simp: in_order_def Let_def)
  then have "sofar @ extra = wire (infos n ! i) @ (rest @ extra)" by simp
  then show ?thesis using assms by (auto simp: in_order_def Let_def)
qed

lemma send_in_order:
  assumes "in_order rt sofar i n" "send block i n = Some (r, n')"
  shows "in_order rt sofar i n' \<and> (r = O2_SUCCESS \<longrightarrow> net_tag (infos n' ! i) \<noteq> NET_INFO_CLOSED \<and> out_message (infos n' ! i) = []) \<and>
    (block \<and> r \<noteq> O2_SUCCESS \<longrightarrow> net_tag (infos n' ! i) = NET_INFO_CLOSED)"
proof (cases "net_tag (infos n ! i) = NET_INFO_CLOSED")
  case True
  then show ?thesis using assms by (auto simp: send_def)
next
  case False
  let ?c = "infos n ! i"
  have c: "i < length (infos n)" "read_type ?c = rt" "write_type ?c = WRITE_O2" "net_tag ?c \<in> {NET_TCP_CLIENT, NET_TCP_CONNECTION}"
    "sending_ok ?c" "wire ?c @ unsent ?c = sofar"
    using assms(1) False by (auto simp: in_order_def Let_def)
  obtain failed c' where l: "send_loop block ?c = Some (r, failed, c')"
    "(if failed then close_socket True i (put i c' n) else Some (put i c' n)) = Some n'"
    using assms(2) c(4) by (auto simp: send_def Let_def bind_eq_Some_conv)
  note s = send_loop_conserves [OF l(1) c(5)]
  have f: "write_type c' = WRITE_O2" using s c(3) by simp
  have at: "infos (put i c' n) ! i = c'" using c(1) by (simp add: put_nth)
  show ?thesis
  proof (cases failed)
    case True
    have cl: "close_socket True i (put i c' n) = Some n'" using l(2) True by simp
    have "in_order rt sofar i n'" "net_tag (infos n' ! i) = NET_INFO_CLOSED"
      using in_order_closed [OF _ _ _ _ cl, of rt sofar "unsent c'"] s c f at by auto
    then show ?thesis using True s by auto
  next
    case False
    then have "r = O2_SUCCESS \<or> \<not> block" using s by blast
    then show ?thesis using False l(2) s c f at by (auto simp: in_order_def Let_def)
  qed
qed

lemma enqueue_in_order:
  assumes "in_order rt sofar i n" "enqueue m i n = Some n'"
  shows "in_order rt (sofar @ wire_bytes rt m) i n'"
proof (cases "out_message (infos n ! i) = []")
  case True
  let ?c = "(infos n ! i)\<lparr>out_message := [m], out_msg_sent := 0\<rparr>"
  have o: "in_order rt (sofar @ wire_bytes rt m) i (put i ?c n)"
  proof (cases "net_tag (infos n ! i) = NET_INFO_CLOSED")
    case closed: True
    then obtain rest where "sofar = wire (infos n ! i) @ rest" using assms(1) by (auto simp: in_order_def Let_def)
    then have "sofar @ wire_bytes rt m = wire (infos n ! i) @ (rest @ wire_bytes rt m)" by simp
    then show ?thesis using assms(1) closed by (auto simp: in_order_def Let_def put_nth)
  next
    case False
    then show ?thesis using assms(1) True
      by (auto simp: in_order_def Let_def put_nth unsent_def sending_ok_def)
  qed
  have "net_tag (infos n ! i) \<noteq> NET_TCP_CONNECTING" using assms(1) by (auto simp: in_order_def Let_def)
  then obtain r where "send False i (put i ?c n) = Some (r, n')"
    using assms(2) True by (auto simp: enqueue_def Let_def)
  then show ?thesis using send_in_order [OF o] by blast
next
  case False
  then have n': "n' = put i ((infos n ! i)\<lparr>out_message := out_message (infos n ! i) @ [m]\<rparr>) n"
    using assms(2) by (simp add: enqueue_def Let_def)
  obtain x xs where out: "out_message (infos n ! i) = x # xs" using False by (cases "out_message (infos n ! i)") auto
  show ?thesis
  proof (cases "net_tag (infos n ! i) = NET_INFO_CLOSED")
    case closed: True
    then obtain rest where "sofar = wire (infos n ! i) @ rest" using assms(1) by (auto simp: in_order_def Let_def)
    then have "sofar @ wire_bytes rt m = wire (infos n ! i) @ (rest @ wire_bytes rt m)" by simp
    then show ?thesis using assms(1) closed by (auto simp: in_order_def Let_def put_nth n')
  next
    case False
    then show ?thesis using assms(1) out
      by (auto simp: in_order_def Let_def put_nth n' unsent_def sending_ok_def)
  qed
qed

lemma put_in_order:
  assumes "in_order rt sofar i n" "read_type c = read_type (infos n ! i)" "write_type c = write_type (infos n ! i)"
    "net_tag c = net_tag (infos n ! i)" "out_message c = out_message (infos n ! i)" "out_msg_sent c = out_msg_sent (infos n ! i)"
    "wire c = wire (infos n ! i)"
  shows "in_order rt sofar i (put i c n)"
  using assms by (auto simp: in_order_def Let_def put_nth unsent_def sending_ok_def split: list.splits)

lemma poll_out_in_order:
  assumes "in_order rt sofar i n" "poll_out env i n = Some n'"
  shows "in_order rt sofar i n'"
proof -
  let ?c = "infos n ! i"
  have c: "i < length (infos n)" "net_tag ?c \<noteq> NET_TCP_CONNECTING" "write_type ?c = WRITE_O2"
    using assms(1) by (auto simp: in_order_def Let_def)
  consider "delete_me ?c = 1" "n' = mark_deleted i ?c n"
    | r n1 where "send False i n = Some (r, n1)" "n' = (if r = O2_SUCCESS then put i ((infos n1 ! i)\<lparr>pollout := False\<rparr>) n1 else n1)"
    | "n' = put i (?c\<lparr>pollout := False\<rparr>) n"
    using assms(2) c by (auto simp: poll_out_def Let_def split: if_split_asm)
  then show ?thesis
  proof cases
    case 1
    have "\<exists>rest. sofar = wire ?c @ rest" using assms(1) by (auto simp: in_order_def Let_def)
    then show ?thesis using 1 assms(1) by (auto simp: in_order_def Let_def put_def mark_deleted_def)
  next
    case (2 r n1)
    have "in_order rt sofar i n1" using send_in_order [OF assms(1) 2(1)] by blast
    then show ?thesis using 2(2) put_in_order [of rt sofar i n1 "(infos n1 ! i)\<lparr>pollout := False\<rparr>"] by simp
  next
    case 3
    then show ?thesis using put_in_order [OF assms(1), of "?c\<lparr>pollout := False\<rparr>"] by simp
  qed
qed

lemma step_in_order:
  assumes "in_order rt sofar i n" "send_step env i op n = Some n'"
  shows "in_order rt (sofar @ concat (map (wire_bytes rt) (queued_by op))) i n'"
proof (cases op)
  case (Enqueue m)
  then show ?thesis using assms enqueue_in_order by (auto simp: send_step_def queued_by_def)
next
  case (Send_tcp block m)
  have "(\<exists>n1. in_order rt sofar i n1 \<and> enqueue m i n1 = Some n') \<or> in_order rt sofar i n' \<and> net_tag (infos n' ! i) = NET_INFO_CLOSED"
  proof (cases "out_message (infos n ! i) \<noteq> [] \<and> block")
    case True
    then obtain r n1 where r: "send True i n = Some (r, n1)"
      "if r \<noteq> O2_SUCCESS then n' = n1 else enqueue m i n1 = Some n'"
      using assms(2) Send_tcp by (auto simp: send_step_def send_tcp_def bind_eq_Some_conv split: if_split_asm)
    then show ?thesis using send_in_order [OF assms(1) r(1)] by (cases "r = O2_SUCCESS") auto
  next
    case False
    then show ?thesis using assms Send_tcp by (auto simp: send_step_def send_tcp_def)
  qed
  then show ?thesis using enqueue_in_order in_order_more Send_tcp by (auto simp: queued_by_def)
next
  case Poll_out
  then show ?thesis using assms poll_out_in_order by (simp add: send_step_def queued_by_def)
next
  case (Answers outs)
  then show ?thesis using assms put_in_order [OF assms(1), of "(infos n ! i)\<lparr>outcomes := outcomes (infos n ! i) @ outs\<rparr>"]
    by (simp add: send_step_def queued_by_def)
qed

lemma run_in_order:
  "in_order rt sofar i n \<Longrightarrow> run_ops env i ops n = Some n' \<Longrightarrow>
   in_order rt (sofar @ concat (map (wire_bytes rt) (concat (map queued_by ops)))) i n'"
proof (induction ops arbitrary: sofar n)
  case (Cons op ops)
  then obtain n1 where "send_step env i op n = Some n1" "run_ops env i ops n1 = Some n'"
    by (auto simp: bind_eq_Some_conv)
  then show ?case using Cons.IH step_in_order [OF Cons.prems(1)] by fastforce
qed simp

section \<open>From end to end\<close>

text \<open>A connection that has sent nothing yet.\<close>

definition fresh_sender :: "nat \<Rightarrow> network \<Rightarrow> bool" where
  "fresh_sender i n \<longleftrightarrow> (let c = infos n ! i in i < length (infos n) \<and> read_type c = READ_O2 \<and> write_type c = WRITE_O2 \<and>
     net_tag c \<in> {NET_TCP_CLIENT, NET_TCP_CONNECTION} \<and> out_message c = [] \<and> out_msg_sent c = 0 \<and> wire c = [])"

definition fresh_receiver :: "byte list list \<Rightarrow> nat \<Rightarrow> network \<Rightarrow> bool" where
  "fresh_receiver xs j n \<longleftrightarrow> (let c = infos n ! j in j < length (infos n) \<and> o2_connection c \<and>
     in_length_bytes c = [] \<and> in_message c = None \<and> incoming c = chunks xs \<and> [] \<notin> set xs)"

text \<open>C2: messages from end to end. Whatever mix of queued, sent and polled messages one process gives to a TCP connection, and
  however its operating system blocks or takes only part of them, and however the bytes that were written reach the other process
  in chunks: that process has been handed the first messages that were given to the connection, complete and in order; and all of
  them once the sender's queue is empty and the connection not closed by an error.\<close>

theorem messages_arrive:
  assumes "fresh_sender i n" "run_ops env i ops n = Some n'" "ms = concat (map queued_by ops)"
    and "\<forall>m \<in> set ms. length m < 0x10000"
    and "quiet_owner env'" "fresh_receiver xs j r" "concat xs = wire (infos n' ! i)" "length (concat xs) \<le> k"
  shows "\<exists>c' dn todo. ms = dn @ todo \<and> read_all k env' j r = Some ((put j c' r)\<lparr>net_log := net_log r @ got_messages j dn\<rparr>) \<and>
    (out_message (infos n' ! i) = [] \<and> net_tag (infos n' ! i) \<noteq> NET_INFO_CLOSED \<longrightarrow> todo = [])"
proof -
  have "in_order READ_O2 [] i n" using assms(1)
    by (auto simp: fresh_sender_def in_order_def Let_def unsent_def sending_ok_def)
  then have o: "in_order READ_O2 (concat (map frame ms)) i n'" using run_in_order assms(2,3) by fastforce
  let ?s = "infos n' ! i" and ?c = "infos r ! j"
  obtain later where later: "concat (map frame ms) = wire ?s @ later"
    "net_tag ?s \<noteq> NET_INFO_CLOSED \<longrightarrow> later = unsent ?s"
    using o by (auto simp: in_order_def Let_def)
  have c: "j < length (infos r)" "o2_connection ?c" "reading_ok ?c" "incoming ?c = chunks xs" "[] \<notin> set xs" "partial ?c = []"
    using assms(6) by (auto simp: fresh_receiver_def Let_def reading_ok_def partial_def)
  have "partial ?c @ concat xs @ later = concat (map frame ms)" using c(6) assms(7) later(1) by simp
  moreover have "behind ?c ms" using c(6) by (simp add: behind_def split: list.split)
  ultimately obtain c' dn todo where d: "read_all k env' j r = Some ((put j c' r)\<lparr>net_log := net_log r @ got_messages j dn\<rparr>)"
    "ms = dn @ todo" "partial ?c @ concat xs = concat (map frame dn) @ partial c'" "behind c' todo"
    using read_all_stream [OF assms(5) c(1-5) assms(4) _ _ assms(8)] by blast
  have "todo = []" if a: "out_message ?s = []" "net_tag ?s \<noteq> NET_INFO_CLOSED"
  proof -
    have "later = []" using later(2) a by (simp add: unsent_def)
    then have "concat (map frame todo) = partial c'" using later(1) d(2,3) c(6) assms(7) by simp
    then have "length (partial c') = length (concat (map frame todo))" by simp
    then show "todo = []" using d(4) by (cases todo) (simp_all add: behind_def)
  qed
  then show ?thesis using d by blast
qed

section \<open>The table of sockets\<close>

text \<open>Every socket knows its place and is closed exactly if it waits for its deletion; and then the deletion is announced.\<close>

definition socket_ok :: "Fds_info \<Rightarrow> bool" where
  "socket_ok c \<longleftrightarrow> delete_me c \<le> 2 \<and> (delete_me c = 2 \<longleftrightarrow> net_tag c = NET_INFO_CLOSED) \<and> (socket_open c \<longleftrightarrow> net_tag c \<noteq> NET_INFO_CLOSED)"

definition placed :: "network \<Rightarrow> bool" where
  "placed n \<longleftrightarrow> (\<forall>j < length (infos n). fds_index (infos n ! j) = j \<and> socket_ok (infos n ! j))"

definition table_ok :: "network \<Rightarrow> bool" where
  "table_ok n \<longleftrightarrow> placed n \<and> (\<forall>j < length (infos n). delete_me (infos n ! j) = 2 \<longrightarrow> socket_delete_flag n)"

definition unplaced :: "Fds_info \<Rightarrow> Fds_info" where
  "unplaced c = c\<lparr>fds_index := 0\<rparr>"

text \<open>The sockets that stay, wherever they stand in the table.\<close>

definition kept :: "network \<Rightarrow> Fds_info multiset" where
  "kept n = filter_mset (\<lambda>c. delete_me c \<noteq> 2) (image_mset unplaced (mset (infos n)))"

lemma delete_me_unplaced [simp]: "delete_me (unplaced c) = delete_me c" "unplaced (c\<lparr>fds_index := i\<rparr>) = unplaced c"
  by (simp_all add: unplaced_def)

lemma net_log_updates [simp]: "kept (n\<lparr>net_log := l\<rparr>) = kept n" "placed (n\<lparr>net_log := l\<rparr>) = placed n"
    "running (net_happen e n) = running n" "socket_delete_flag (net_happen e n) = socket_delete_flag n"
  by (simp_all add: kept_def placed_def net_happen_def)

lemma kept_flags [simp]: "kept (n\<lparr>socket_delete_flag := f\<rparr>) = kept n" "kept (n\<lparr>in_o2n_recv := b\<rparr>) = kept n" "kept (net_happen e n) = kept n"
  by (simp_all add: kept_def net_happen_def)

lemma placed_flags [simp]: "placed (n\<lparr>socket_delete_flag := f\<rparr>) = placed n" "placed (n\<lparr>in_o2n_recv := b\<rparr>) = placed n"
    "placed (net_happen e n) = placed n"
  by (simp_all add: placed_def net_happen_def)

lemma table_ok_flags [simp]: "table_ok (n\<lparr>in_o2n_recv := b\<rparr>) = table_ok n" "table_ok (net_happen e n) = table_ok n"
  by (simp_all add: table_ok_def) (simp add: net_happen_def)

lemma infos_flags [simp]: "infos (net_happen e n) = infos n"
  by (simp add: net_happen_def)

lemma put_nth_if: "j < length (infos n) \<Longrightarrow> infos (put i c n) ! j = (if i = j then c else infos n ! j)"
  by (auto simp: put_def)

lemma put_flags [simp]: "socket_delete_flag (put i c n) = socket_delete_flag n" "running (put i c n) = running n"
  by (simp_all add: put_def)

lemma placed_put: "placed n \<Longrightarrow> socket_ok c \<Longrightarrow> fds_index c = i \<Longrightarrow> placed (put i c n)"
  by (simp add: placed_def put_nth_if)

lemma table_ok_put: "table_ok n \<Longrightarrow> socket_ok c \<Longrightarrow> fds_index c = i \<Longrightarrow> delete_me c \<noteq> 2 \<Longrightarrow> table_ok (put i c n)"
  by (simp add: table_ok_def placed_put put_nth_if)

lemma placed_nth: "placed n \<Longrightarrow> i < length (infos n) \<Longrightarrow> fds_index (infos n ! i) = i \<and> socket_ok (infos n ! i)"
  by (simp add: placed_def)

text \<open>No socket before \<open>i\<close> waits for its deletion, or another round will follow.\<close>

definition swept :: "nat \<Rightarrow> network \<Rightarrow> bool" where
  "swept i n \<longleftrightarrow> socket_delete_flag n \<or> (\<forall>j < i. j < length (infos n) \<longrightarrow> delete_me (infos n ! j) \<noteq> 2)"

lemma kept_put_deleted: "i < length (infos n) \<Longrightarrow> delete_me c = 2 \<Longrightarrow> kept (put i c n) \<subseteq># kept n"
proof -
  assume i: "i < length (infos n)" and c: "delete_me c = 2"
  obtain M where M: "mset (infos n) = add_mset (infos n ! i) M" using i multi_member_split nth_mem_mset by metis
  then have "mset (infos (put i c n)) = add_mset c M" using i by (simp add: put_def mset_update)
  then show ?thesis using c M by (simp add: kept_def)
qed

lemma mark_deleted_fields [simp]:
  "kept (mark_deleted i c n) = kept (put i (c\<lparr>delete_me := 2, socket_open := False, net_tag := NET_INFO_CLOSED\<rparr>) n)"
  "placed (mark_deleted i c n) = placed (put i (c\<lparr>delete_me := 2, socket_open := False, net_tag := NET_INFO_CLOSED\<rparr>) n)"
  "socket_delete_flag (mark_deleted i c n)" "running (mark_deleted i c n) = running n"
  by (simp_all add: mark_deleted_def)

lemma mark_deleted_ok:
  assumes "placed n" "i < length (infos n)" "fds_index c = i"
  shows "placed (mark_deleted i c n)" "table_ok (mark_deleted i c n)" "kept (mark_deleted i c n) \<subseteq># kept n"
proof -
  let ?c = "c\<lparr>delete_me := 2, socket_open := False, net_tag := NET_INFO_CLOSED\<rparr>"
  show p: "placed (mark_deleted i c n)" using placed_put [OF assms(1), of ?c i] assms(3) by (simp add: socket_ok_def)
  show "table_ok (mark_deleted i c n)" using p by (simp add: table_ok_def)
  show "kept (mark_deleted i c n) \<subseteq># kept n" using kept_put_deleted [OF assms(2), of ?c] by simp
qed

text \<open>Closing marks the socket for deletion, or keeps it until it can be written.\<close>

lemma shut_placed:
  assumes "placed n" "i < length (infos n)"
  shows "placed (shut_socket now i n)" "table_ok n \<Longrightarrow> table_ok (shut_socket now i n)"
    "socket_delete_flag n \<Longrightarrow> socket_delete_flag (shut_socket now i n)"
proof -
  note i = placed_nth [OF assms]
  let ?r = "reset (infos n ! i)"
  let ?c = "?r\<lparr>delete_me := 1, pollout := True\<rparr>"
  have "placed (shut_socket now i n) \<and> (table_ok n \<longrightarrow> table_ok (shut_socket now i n)) \<and>
    (socket_delete_flag n \<longrightarrow> socket_delete_flag (shut_socket now i n))"
  proof (cases "socket_open ?r \<and> net_tag ?r \<in> {NET_TCP_CLIENT, NET_TCP_CONNECTION} \<and> \<not> now")
    case True
    then have "socket_ok ?c" "fds_index ?c = i" "delete_me ?c \<noteq> 2" using i by (auto simp: socket_ok_def reset_def)
    then show ?thesis using placed_put [OF assms(1), of ?c i] table_ok_put [of n ?c i] True by (simp add: shut_socket_def)
  next
    case False
    then show ?thesis using mark_deleted_ok [OF assms, of ?r] i by (auto simp: shut_socket_def Let_def reset_def)
  qed
  then show "placed (shut_socket now i n)" "table_ok n \<Longrightarrow> table_ok (shut_socket now i n)"
    "socket_delete_flag n \<Longrightarrow> socket_delete_flag (shut_socket now i n)" by auto
qed

text \<open>The connection of a client that is deleted with its server, while it waits to be closed; and what it keeps of a socket.\<close>

definition closing :: "Fds_info \<Rightarrow> Fds_info" where
  "closing c = c\<lparr>owner := None, in_message := None, out_message := [], delete_me := 1, pollout := True\<rparr>"

definition ident :: "Fds_info \<Rightarrow> Fds_info" where
  "ident c = c\<lparr>owner := None, in_message := None, out_message := [], delete_me := 0, pollout := False\<rparr>"

lemma closing_fields [simp]: "ident (closing c) = ident c" "closing (closing c) = closing c" "delete_me (closing c) = 1"
    "read_type (closing c) = read_type c" "read_type (unplaced c) = read_type c"
  by (simp_all add: closing_def ident_def unplaced_def)

definition evolved :: "Fds_info multiset \<Rightarrow> Fds_info multiset \<Rightarrow> bool" where
  "evolved M N \<longleftrightarrow> image_mset ident N \<subseteq># image_mset ident M \<and> (\<forall>c' \<in># N. c' \<in># M \<or> (\<exists>c \<in># M. read_type c = READ_RAW \<and> c' = closing c))"

lemma evolved_refl: "evolved M M"
  by (simp add: evolved_def)

lemma evolved_trans: "evolved M N \<Longrightarrow> evolved N P \<Longrightarrow> evolved M P"
  unfolding evolved_def by (metis closing_fields(2,4) subset_mset.order_trans)

lemma evolved_subset: "N \<subseteq># M \<Longrightarrow> evolved M N"
  by (auto simp: evolved_def image_mset_subseteq_mono dest: mset_subset_eqD)

lemma delete_info_placed:
  assumes "placed n" "i < length (infos n)" "read_type (infos n ! i) = READ_RAW"
  shows "placed (delete_fds_info i n)" "evolved (kept n) (kept (delete_fds_info i n))"
    "socket_delete_flag n \<Longrightarrow> socket_delete_flag (delete_fds_info i n)"
    "swept i' n \<Longrightarrow> swept i' (delete_fds_info i n)"
proof -
  note i = placed_nth [OF assms(1,2)]
  let ?c = "(infos n ! i)\<lparr>owner := None\<rparr>"
  let ?n = "put i ?c n"
  have c: "socket_ok ?c" "fds_index ?c = i" using i by (simp_all add: socket_ok_def)
  have p: "placed ?n" using placed_put [OF assms(1) c] .
  have l: "i < length (infos ?n)" using assms(2) by simp
  show "placed (delete_fds_info i n)" "socket_delete_flag n \<Longrightarrow> socket_delete_flag (delete_fds_info i n)"
    using shut_placed(1,3) [OF p l] by (simp_all add: delete_fds_info_def)
  let ?r = "reset ?c"
  have at: "infos ?n ! i = ?c" using assms(2) by (simp add: put_nth)
  show "evolved (kept n) (kept (delete_fds_info i n))"
  proof (cases "socket_open ?r \<and> net_tag ?r \<in> {NET_TCP_CLIENT, NET_TCP_CONNECTION}")
    case True
    let ?d = "closing (infos n ! i)"
    have d: "delete_fds_info i n = put i ?d n" using True at
      by (simp add: delete_fds_info_def shut_socket_def closing_def reset_def)
    obtain M where M: "mset (infos n) = add_mset (infos n ! i) M" using assms(2) multi_member_split nth_mem_mset by metis
    then have "mset (infos (put i ?d n)) = add_mset ?d M" using assms(2) by (simp add: put_def mset_update)
    moreover have "delete_me (infos n ! i) \<noteq> 2" using True i by (auto simp: socket_ok_def reset_def)
    moreover have "unplaced ?d = closing (unplaced (infos n ! i))" by (simp add: unplaced_def closing_def)
    ultimately show ?thesis using M assms(3) unfolding d by (auto simp: kept_def evolved_def)
  next
    case False
    then have d: "delete_fds_info i n = mark_deleted i ?r ?n" using at by (auto simp: delete_fds_info_def shut_socket_def Let_def)
    have "kept (delete_fds_info i n) \<subseteq># kept n"
      using kept_put_deleted [OF assms(2), of "?r\<lparr>delete_me := 2, socket_open := False, net_tag := NET_INFO_CLOSED\<rparr>"] unfolding d by simp
    then show ?thesis by (rule evolved_subset)
  qed
  show "swept i' (delete_fds_info i n)" if s: "swept i' n"
  proof (cases "socket_open ?r \<and> net_tag ?r \<in> {NET_TCP_CLIENT, NET_TCP_CONNECTION}")
    case True
    then have "delete_fds_info i n = put i (closing (infos n ! i)) n" using at
      by (simp add: delete_fds_info_def shut_socket_def closing_def reset_def)
    then show ?thesis using s by (auto simp: swept_def put_nth_if)
  next
    case False
    then show ?thesis using at by (auto simp: delete_fds_info_def shut_socket_def Let_def swept_def)
  qed
qed

lemma delete_info_read_type: "j < length (infos n) \<Longrightarrow> read_type (infos (delete_fds_info i n) ! j) = read_type (infos n ! j)"
  by (auto simp: delete_fds_info_def shut_socket_def mark_deleted_def Let_def put_nth_if reset_def)

lemma delete_clients_placed:
  "placed n \<Longrightarrow> \<forall>i \<in> set is. i < length (infos n) \<and> read_type (infos n ! i) = READ_RAW \<Longrightarrow>
   placed (delete_clients is n) \<and> evolved (kept n) (kept (delete_clients is n)) \<and> (swept k n \<longrightarrow> swept k (delete_clients is n))"
proof (induction "is" n rule: delete_clients.induct)
  case (2 i "is" n)
  note d = delete_info_placed [of n i]
  have "placed (delete_fds_info i n)" "evolved (kept n) (kept (delete_fds_info i n))" "swept k n \<longrightarrow> swept k (delete_fds_info i n)"
    using d "2.prems" by auto
  moreover have "\<forall>j \<in> set is. j < length (infos (delete_fds_info i n)) \<and> read_type (infos (delete_fds_info i n) ! j) = READ_RAW"
    using "2.prems"(2) delete_info_read_type by simp
  ultimately show ?case using "2.IH" evolved_trans by auto
qed (simp add: evolved_refl)

text \<open>The table without the socket at \<open>i\<close>.\<close>

abbreviation (input) without :: "nat \<Rightarrow> Fds_info list \<Rightarrow> Fds_info list" where
  "without i xs \<equiv> (if length xs > i + 1 then (take (length xs - 1) xs)[i := (xs ! (length xs - 1))\<lparr>fds_index := i\<rparr>]
     else take (length xs - 1) xs)"

lemma without_mset:
  assumes "i < length xs"
  shows "add_mset (unplaced (xs ! i)) (image_mset unplaced (mset (without i xs))) = image_mset unplaced (mset xs)"
proof (cases xs rule: rev_cases)
  case (snoc ys l)
  show ?thesis
  proof (cases "i < length ys")
    case True
    obtain M where "mset ys = add_mset (ys ! i) M" using True multi_member_split nth_mem_mset by metis
    then show ?thesis using snoc True by (simp add: mset_update nth_append)
  next
    case False
    then have "i = length ys" using assms snoc by simp
    then show ?thesis using snoc by simp
  qed
qed (use assms in simp)

lemma socket_ok_move [simp]: "socket_ok (c\<lparr>fds_index := i\<rparr>) = socket_ok c"
  by (simp add: socket_ok_def)

lemma without_placed:
  assumes "placed n" "i < length (infos n)"
  shows "placed (n\<lparr>infos := without i (infos n)\<rparr>)"
  unfolding placed_def
proof (intro allI impI)
  let ?n = "n\<lparr>infos := without i (infos n)\<rparr>"
  fix j assume "j < length (infos ?n)"
  then have "j < length (infos n) - 1" by (simp split: if_split_asm)
  then show "fds_index (infos ?n ! j) = j \<and> socket_ok (infos ?n ! j)"
    using placed_nth [OF assms(1), of j] placed_nth [OF assms(1), of "length (infos n) - 1"] by (simp add: nth_list_update)
qed

lemma no_clients: "\<forall>own c. \<not> closes env own c \<Longrightarrow> clients_of env own n = []"
  by (simp add: clients_of_def Let_def)

lemma remove_placed:
  assumes "placed n" "i < length (infos n)" "delete_me (infos n ! i) = 2"
  shows "placed (remove_socket env i n)" "evolved (kept n) (kept (remove_socket env i n))"
    "\<forall>own c. \<not> closes env own c \<Longrightarrow> kept (remove_socket env i n) = kept n"
    "swept i n \<Longrightarrow> swept i (remove_socket env i n)"
proof -
  define m where "m = n\<lparr>infos := without i (infos n)\<rparr>"
  have m: "placed m" "kept m = kept n"
    unfolding m_def using without_placed [OF assms(1,2)] without_mset [OF assms(2), symmetric] assms(3)
    by (simp_all add: kept_def)
  have f: "swept i m" if "swept i n" using that assms(2) by (auto simp: m_def swept_def)
  have h: "swept i (net_happen e m) = swept i m" for e by (simp add: swept_def)
  have r: "remove_socket env i n = (case owner (infos n ! i) of None \<Rightarrow> m
      | Some own \<Rightarrow> delete_clients (clients_of env own (net_happen (Removed own) m)) (net_happen (Removed own) m))"
    unfolding remove_socket_def Let_def m_def by simp
  have c: "placed (delete_clients (clients_of env own (net_happen (Removed own) m)) (net_happen (Removed own) m)) \<and>
      evolved (kept n) (kept (delete_clients (clients_of env own (net_happen (Removed own) m)) (net_happen (Removed own) m))) \<and>
      (swept i m \<longrightarrow> swept i (delete_clients (clients_of env own (net_happen (Removed own) m)) (net_happen (Removed own) m)))" for own
    using delete_clients_placed [of "net_happen (Removed own) m" "clients_of env own (net_happen (Removed own) m)" i] m h
    by (simp add: clients_of_def Let_def)
  show "placed (remove_socket env i n)" using r m c by (simp split: option.split)
  show "evolved (kept n) (kept (remove_socket env i n))" using r m c evolved_refl by (simp split: option.split)
  show "kept (remove_socket env i n) = kept n" if "\<forall>own c. \<not> closes env own c"
    using r m no_clients [OF that] by (simp split: option.split)
  show "swept i (remove_socket env i n)" if a: "swept i n" using r f [OF a] c by (simp split: option.split)
qed

lemma scan_sockets_sweeps:
  "placed n \<Longrightarrow> swept i n \<Longrightarrow> i \<le> length (infos n) \<Longrightarrow>
   table_ok (scan_sockets env i n) \<and> evolved (kept n) (kept (scan_sockets env i n)) \<and>
   ((\<forall>own c. \<not> closes env own c) \<longrightarrow> kept (scan_sockets env i n) = kept n)"
proof (induction env i n rule: scan_sockets.induct)
  case (1 env i n)
  consider "i = length (infos n)" | "i < length (infos n)" "delete_me (infos n ! i) = 2" | "i < length (infos n)" "delete_me (infos n ! i) \<noteq> 2"
    using "1.prems"(3) by linarith
  then show ?case
  proof cases
    case 1
    then have "scan_sockets env i n = n" unfolding scan_sockets.simps [of env i n] by simp
    then show ?thesis using "1.prems" 1 evolved_refl by (auto simp: table_ok_def swept_def)
  next
    case 2
    note rm = remove_placed [OF "1.prems"(1) 2, of env]
    have "i \<le> length (infos (remove_socket env i n))" using 2(1) by simp
    note ih = "1.IH"(1) [OF 2 rm(1) rm(4) [OF "1.prems"(2)] this]
    show ?thesis using 2 ih rm(2,3) evolved_trans [OF rm(2)] by (simp add: scan_sockets.simps [of env i n])
  next
    case 3
    have "swept (i + 1) n" using "1.prems"(2) 3 by (auto simp: swept_def less_Suc_eq)
    then show ?thesis using "1.IH"(2) [OF 3] "1.prems" 3 by (simp add: scan_sockets.simps [of env i n])
  qed
qed

lemma free_deleted_sweeps:
  "table_ok n \<Longrightarrow> table_ok (o2n_free_deleted_sockets env n) \<and> \<not> socket_delete_flag (o2n_free_deleted_sockets env n) \<and>
   evolved (kept n) (kept (o2n_free_deleted_sockets env n)) \<and>
   ((\<forall>own c. \<not> closes env own c) \<longrightarrow> kept (o2n_free_deleted_sockets env n) = kept n)"
proof (induction env n rule: o2n_free_deleted_sockets.induct)
  case (1 env n)
  show ?case
  proof (cases "socket_delete_flag n")
    case True
    let ?n = "n\<lparr>socket_delete_flag := False\<rparr>"
    have "table_ok (scan_sockets env 0 ?n) \<and> evolved (kept n) (kept (scan_sockets env 0 ?n)) \<and>
      ((\<forall>own c. \<not> closes env own c) \<longrightarrow> kept (scan_sockets env 0 ?n) = kept n)"
      using scan_sockets_sweeps [of ?n 0 env] "1.prems" by (simp add: table_ok_def swept_def)
    then show ?thesis using "1.IH" [OF True] True evolved_trans
      by (simp add: o2n_free_deleted_sockets.simps [of env n]) blast
  next
    case False
    then show ?thesis using "1.prems" evolved_refl by (simp add: o2n_free_deleted_sockets.simps [of env n])
  qed
qed

lemma survivors:
  assumes "table_ok n" "\<not> socket_delete_flag n"
  shows "image_mset unplaced (mset (infos n)) = kept n" "\<forall>j < length (infos n). delete_me (infos n ! j) \<noteq> 2"
proof -
  show d: "\<forall>j < length (infos n). delete_me (infos n ! j) \<noteq> 2" using assms by (auto simp: table_ok_def)
  then have "\<forall>c \<in># image_mset unplaced (mset (infos n)). delete_me c \<noteq> 2" by (auto simp: in_set_conv_nth)
  then show "image_mset unplaced (mset (infos n)) = kept n" unfolding kept_def by (intro sym [OF iffD2 [OF filter_mset_eq_conv]]) auto
qed

text \<open>C15: freeing deleted sockets. From any table in which every socket knows its place, \<open>o2n_free_deleted_sockets\<close> (which moves the
  last socket into each gap, and whose deletions of web servers make their clients' connections close) ends with such a table, without a
  socket that waits for its deletion; every socket that is left was there before, as it is now but for its place, or it is the
  connection of a client that now has no owner and waits to be closed; no socket is there twice; and if no owner has clients, none but the
  deleted ones is gone.\<close>

theorem free_deleted_correct:
  assumes "table_ok n"
  shows "let n' = o2n_free_deleted_sockets env n; left = image_mset unplaced (mset (infos n')) in
    (\<forall>j < length (infos n'). fds_index (infos n' ! j) = j \<and> socket_ok (infos n' ! j) \<and> delete_me (infos n' ! j) \<noteq> 2) \<and>
    image_mset ident left \<subseteq># image_mset ident (kept n) \<and> (\<forall>c' \<in># left. c' \<in># kept n \<or> (\<exists>c \<in># kept n. read_type c = READ_RAW \<and> c' = closing c)) \<and>
    ((\<forall>own c. \<not> closes env own c) \<longrightarrow> left = kept n)"
proof -
  let ?n = "o2n_free_deleted_sockets env n"
  note f = free_deleted_sweeps [OF assms, of env]
  have t: "table_ok ?n" "\<not> socket_delete_flag ?n" using f by blast+
  show ?thesis using f survivors [OF t] unfolding evolved_def Let_def table_ok_def placed_def by simp
qed


section \<open>Polling keeps the table\<close>

text \<open>A socket that its owner reads has an owner, unless it is closed.\<close>

definition live :: "Fds_info \<Rightarrow> bool" where
  "live c \<longleftrightarrow> (read_type c = READ_CUSTOM \<longrightarrow> owner c \<noteq> None)"

definition owned :: "Fds_info \<Rightarrow> bool" where
  "owned c \<longleftrightarrow> live c \<or> net_tag c = NET_INFO_CLOSED"

definition sockets_ok :: "network \<Rightarrow> bool" where
  "sockets_ok n \<longleftrightarrow> table_ok n \<and> (\<forall>j < length (infos n). owned (infos n ! j))"

text \<open>What an operation on socket \<open>i\<close> leaves: unless O2 was finished meanwhile, a good table that has not lost a place, and every
  other socket that is read by its owner still has it.\<close>

definition keeps :: "nat \<Rightarrow> network \<Rightarrow> network \<Rightarrow> bool" where
  "keeps i n n' \<longleftrightarrow> (running n' \<longrightarrow> running n) \<and>
     (sockets_ok n \<and> i < length (infos n) \<and> running n' \<longrightarrow> sockets_ok n' \<and> length (infos n) \<le> length (infos n') \<and>
       (\<forall>j < length (infos n). j \<noteq> i \<longrightarrow> live (infos n ! j) \<longrightarrow> live (infos n' ! j)))"

text \<open>What is asked of the methods of the owners: they keep the table, and only \<open>deliver\<close>, \<open>accepted\<close> and \<open>writeable\<close> may finish O2,
  \<open>deliver\<close> then without reporting an error.\<close>

definition owners_ok :: "owners \<Rightarrow> bool" where
  "owners_ok env \<longleftrightarrow> (\<forall>own i msg n. keeps i n (snd (deliver env own i msg n)) \<and> keeps i n (accepted env own i n) \<and>
     keeps i n (connected env own i n) \<and> keeps i n (writeable env own i n) \<and> (running n \<longrightarrow> running (connected env own i n)) \<and>
     (fst (deliver env own i msg n) \<noteq> O2_SUCCESS \<longrightarrow> running n \<longrightarrow> running (snd (deliver env own i msg n))))"

lemma owner_keeps:
  assumes "owners_ok env"
  shows "deliver env own i msg n = (err, n') \<Longrightarrow> keeps i n n' \<and> (err \<noteq> O2_SUCCESS \<longrightarrow> running n \<longrightarrow> running n')" "keeps i n (accepted env own i n)"
    "keeps i n (connected env own i n)" "keeps i n (writeable env own i n)" "running n \<Longrightarrow> running (connected env own i n)"
proof -
  have "keeps i n (snd (deliver env own i msg n)) \<and>
      (fst (deliver env own i msg n) \<noteq> O2_SUCCESS \<longrightarrow> running n \<longrightarrow> running (snd (deliver env own i msg n)))"
    using assms by (simp add: owners_ok_def)
  then show "deliver env own i msg n = (err, n') \<Longrightarrow> keeps i n n' \<and> (err \<noteq> O2_SUCCESS \<longrightarrow> running n \<longrightarrow> running n')" by simp
qed (use assms in \<open>simp_all add: owners_ok_def\<close>)

lemma keeps_trans: "keeps i n n1 \<Longrightarrow> keeps i n1 n2 \<Longrightarrow> keeps i n n2"
  by (auto simp: keeps_def)

lemma sockets_happen [simp]: "sockets_ok (net_happen e n) = sockets_ok n" "sockets_ok (n\<lparr>in_o2n_recv := b\<rparr>) = sockets_ok n"
  by (simp_all add: sockets_ok_def)

lemma keeps_refl [simp]: "keeps i n n" "keeps i n (net_happen e n)"
  by (simp_all add: keeps_def)

text \<open>A socket is replaced.\<close>

lemma keeps_put:
  assumes "table_ok n \<Longrightarrow> i < length (infos n) \<Longrightarrow> table_ok (put i c n)" "owned (infos n ! i) \<Longrightarrow> owned c"
  shows "keeps i n (put i c n)"
  using assms by (auto simp: keeps_def sockets_ok_def put_nth_if)

lemma keeps_flag: "keeps i n n' \<Longrightarrow> keeps i n (n'\<lparr>socket_delete_flag := True\<rparr>)"
  by (auto simp: keeps_def sockets_ok_def table_ok_def)

lemma keeps_mark:
  assumes "fds_index c = fds_index (infos n ! i)"
  shows "keeps i n (mark_deleted i c n)"
proof -
  have "table_ok (mark_deleted i c n)" if "table_ok n" "i < length (infos n)"
    using mark_deleted_ok(2) [of n i c] placed_nth [of n i] assms that by (simp add: table_ok_def)
  then show ?thesis by (auto simp: keeps_def sockets_ok_def mark_deleted_def put_nth_if owned_def)
qed

lemma keeps_shut: "keeps i n (shut_socket now i n)"
proof -
  let ?r = "reset (infos n ! i)"
  have m: "keeps i n (mark_deleted i ?r n)" by (rule keeps_mark) (simp add: reset_def)
  show ?thesis
  proof (cases "socket_open ?r \<and> net_tag ?r \<in> {NET_TCP_CLIENT, NET_TCP_CONNECTION} \<and> \<not> now")
    case True
    let ?c = "?r\<lparr>delete_me := 1, pollout := True\<rparr>"
    have s: "shut_socket now i n = put i ?c n" using True by (simp add: shut_socket_def)
    have "table_ok (put i ?c n)" if "table_ok n" "i < length (infos n)"
      using shut_placed(2) [of n i now] that unfolding s by (simp add: table_ok_def)
    then show ?thesis unfolding s by (rule keeps_put) (auto simp: owned_def live_def reset_def)
  next
    case False
    then show ?thesis using m by (auto simp: shut_socket_def Let_def)
  qed
qed

lemma running_close: "close_socket now i n = Some n' \<Longrightarrow> running n' = running n"
  by (auto simp: close_socket_def shut_socket_def Let_def split: if_splits option.splits)

lemma close_live:
  assumes "live (infos n ! i)"
  shows "\<exists>n'. close_socket now i n = Some n' \<and> keeps i n n' \<and> running n' = running n"
proof (cases "read_type (infos n ! i) = READ_CUSTOM")
  case True
  then obtain own where own: "owner (infos n ! i) = Some own" using assms by (auto simp: live_def)
  let ?c = "(reset (infos n ! i))\<lparr>owner := None\<rparr>" and ?n = "net_happen (Removed own) n"
  have "keeps i ?n (mark_deleted i ?c ?n)" by (rule keeps_mark) (simp add: reset_def)
  then have "keeps i n (mark_deleted i ?c ?n)" by (rule keeps_trans [OF keeps_refl(2)])
  moreover have "close_socket now i n = Some (mark_deleted i ?c ?n)" using True own by (simp add: close_socket_def reset_def)
  ultimately show ?thesis by simp
next
  case False
  then have "close_socket now i n = Some (shut_socket now i n)" by (simp add: close_socket_def reset_def)
  moreover have "running (shut_socket now i n) = running n" by (simp add: shut_socket_def Let_def)
  ultimately show ?thesis using keeps_shut by blast
qed

definition same_place :: "Fds_info \<Rightarrow> Fds_info \<Rightarrow> bool" where
  "same_place c c' \<longleftrightarrow> delete_me c' = delete_me c \<and> net_tag c' = net_tag c \<and> socket_open c' = socket_open c \<and> fds_index c' = fds_index c \<and>
     read_type c' = read_type c \<and> owner c' = owner c"

lemma same_live: "same_place c c' \<Longrightarrow> live c' = live c" "same_place c c' \<Longrightarrow> owned c' = owned c"
  by (simp_all add: same_place_def live_def owned_def)

lemma table_ok_put_same:
  assumes "table_ok n" "i < length (infos n)" "same_place (infos n ! i) c"
  shows "table_ok (put i c n)"
proof -
  have "fds_index c = i" "socket_ok c" "delete_me c = 2 \<longrightarrow> socket_delete_flag n"
    using assms by (auto simp: same_place_def table_ok_def placed_def socket_ok_def)
  then show ?thesis using assms(1) by (simp add: table_ok_def placed_put put_nth_if)
qed

lemma keeps_same: "same_place (infos n ! i) c \<Longrightarrow> keeps i n (put i c n)"
  using table_ok_put_same same_live(2) by (intro keeps_put) auto

lemma same_place_refl [simp]: "same_place c c"
  by (simp add: same_place_def)

lemma same_place_trans: "same_place a b \<Longrightarrow> same_place b c \<Longrightarrow> same_place a c"
  by (simp add: same_place_def)

lemma same_place_fields [simp]:
  "same_place a (c\<lparr>in_message := im\<rparr>) = same_place a c" "same_place a (c\<lparr>in_length_bytes := il\<rparr>) = same_place a c"
  "same_place a (c\<lparr>incoming := arr\<rparr>) = same_place a c" "same_place a (c\<lparr>pollout := p\<rparr>) = same_place a c"
  "same_place a (c\<lparr>outcomes := outs\<rparr>) = same_place a c" "same_place a (c\<lparr>wire := w\<rparr>) = same_place a c"
  "same_place a (c\<lparr>out_message := ms\<rparr>) = same_place a c" "same_place a (c\<lparr>out_msg_sent := k\<rparr>) = same_place a c"
  "same_place (a\<lparr>in_message := im\<rparr>) c = same_place a c"
  by (simp_all add: same_place_def)

subsection \<open>Sending\<close>

lemma send_loop_place: "same_place d c \<Longrightarrow> send_loop block c = Some (r, failed, c') \<Longrightarrow> same_place d c'"
proof (induction block c rule: send_loop.induct)
  case (1 block c)
  note run = "1.prems"(2) [unfolded send_loop.simps [of block c] Let_def]
  show ?case
  proof (cases "out_message c")
    case Nil
    then show ?thesis using run "1.prems"(1) by simp
  next
    case (Cons m ms)
    note run = run [unfolded Cons list.case] and out = Cons
    show ?thesis
    proof (cases "outcomes c")
      case Nil
      then show ?thesis using run "1.prems"(1) by (auto split: if_split_asm)
    next
      case (Cons a outs)
      note run = run [unfolded Cons list.case] and ih = "1.IH" [OF out refl Cons]
      show ?thesis
      proof (cases a)
        case (Took k)
        show ?thesis using run ih(1,2) [OF Took refl] "1.prems"(1) Took
          by (cases block) (auto split: if_split_asm)
      next
        case Send_again
        then show ?thesis using run ih(3) [OF Send_again refl] "1.prems"(1) Send_again
          by (cases block) (auto split: if_split_asm)
      next
        case Send_error
        then show ?thesis using run "1.prems"(1) by auto
      qed
    qed
  qed
qed

lemma send_loop_returns: "send_loop False c \<noteq> None"
proof -
  have "\<not> block \<Longrightarrow> send_loop block c \<noteq> None" for block
  proof (induction block c rule: send_loop.induct)
    case (1 block c)
    show ?case
    proof (cases "out_message c")
      case (Cons m ms)
      then show ?thesis using "1.prems" "1.IH"(1) [OF Cons refl _ _ refl]
        by (auto simp: send_loop.simps [of False c] Let_def split: list.split send_result.split)
    qed (simp add: send_loop.simps [of block c])
  qed
  then show ?thesis by blast
qed

lemma send_keeps:
  assumes "owned (infos n ! i)" "i < length (infos n)"
  shows "\<exists>r n'. send False i n = Some (r, n') \<and> keeps i n n' \<and> running n' = running n"
proof (cases "net_tag (infos n ! i) = NET_INFO_CLOSED")
  case True
  then show ?thesis by (simp add: send_def)
next
  case False
  obtain r failed c where l: "send_loop False (infos n ! i) = Some (r, failed, c)"
    using send_loop_returns [of "infos n ! i"] by (cases "send_loop False (infos n ! i)") auto
  have p: "same_place (infos n ! i) c" by (rule send_loop_place [OF _ l]) simp
  note k = keeps_same [OF p]
  have "live (infos (put i c n) ! i)" using same_live(1) [OF p] assms False by (simp add: owned_def put_nth)
  from close_live [OF this, of True] obtain n' where n': "close_socket True i (put i c n) = Some n'" "keeps i (put i c n) n'" "running n' = running n"
    by auto
  have "send False i n = Some (r, if failed then n' else put i c n)"
    using l n'(1) False by (simp add: send_def)
  then show ?thesis using k keeps_trans [OF k n'(2)] n'(3) by simp
qed

subsection \<open>Receiving\<close>

lemma recv_place: "recvfrom k c = (r, c1) \<Longrightarrow> same_place c c1"
  by (auto simp: recvfrom_def split: list.splits arrival.splits)

lemma read_failed_place: "same_place c (snd (read_failed r c))"
  by (simp add: read_failed_def message_cleanup_def split: received.split)

lemma read_payload_place: "same_place c (snd (read_payload c))"
proof -
  obtain r c1 where r: "recvfrom (nat (in_length c - int (length (the (in_message c))))) c = (r, c1)" by fastforce
  show ?thesis using r recv_place [OF r] same_place_trans [OF recv_place [OF r] read_failed_place]
    by (cases r) (simp_all add: read_payload_def Let_def)
qed

lemma read_raw_place: "same_place c (snd (read_raw c))"
proof -
  obtain r c1 where r: "recvfrom 512 (c\<lparr>in_message := Some []\<rparr>) = (r, c1)" by fastforce
  then have "same_place c c1" using recv_place by fastforce
  then show ?thesis using r same_place_trans [OF \<open>same_place c c1\<close> read_failed_place]
    by (cases r) (simp_all add: read_raw_def Let_def)
qed

lemma read_o2_place: "same_place c (snd (read_o2 c))"
proof (cases "length (in_length_bytes c) < 4")
  case True
  obtain r c1 where r: "recvfrom (4 - length (in_length_bytes c)) c = (r, c1)" by fastforce
  note p = recv_place [OF r]
  have rest: "same_place c (snd (read_payload (c1\<lparr>in_length_bytes := il, in_message := Some []\<rparr>)))" for il
    by (rule same_place_trans [OF _ read_payload_place]) (simp add: p)
  have err: "same_place c (snd (read_failed q (c1\<lparr>in_length_bytes := il\<rparr>)))" "same_place c (snd (read_failed q c1))" for q il
    by (rule same_place_trans [OF _ read_failed_place], simp add: p)+
  show ?thesis using r p rest err True by (cases r) (simp_all add: read_o2_def Let_def)
qed (simp add: read_o2_def read_payload_place)

lemma read_whole_message_place: "read_whole_message c = (r, c') \<Longrightarrow> same_place c c'"
  using read_raw_place [of c] read_o2_place [of c] by (auto simp: read_whole_message_def split: Read_type.splits)

lemma deliver_message_keeps:
  assumes "owners_ok env" "sockets_ok n" "i < length (infos n)" "running n"
  shows "\<exists>n'. deliver_message env i msg n = Some n' \<and> keeps i n n'"
proof -
  let ?c = "message_cleanup (infos n ! i)" and ?n = "put i (message_cleanup (infos n ! i)) n"
  have g: "keeps i n ?n" by (rule keeps_same) (simp add: message_cleanup_def)
  obtain err n1 where n1: "(case owner ?c of
      Some own \<Rightarrow> if delete_me ?c = 0 then deliver env own i msg (net_happen (Delivered i msg) ?n) else (O2_FAIL, ?n)
    | None \<Rightarrow> (O2_FAIL, ?n)) = (err, n1)" by fastforce
  have e: "keeps i ?n n1 \<and> (err \<noteq> O2_SUCCESS \<longrightarrow> running n1)"
  proof (cases "owner ?c \<noteq> None \<and> delete_me ?c = 0")
    case True
    then obtain own where "deliver env own i msg (net_happen (Delivered i msg) ?n) = (err, n1)" using n1 by auto
    from owner_keeps(1) [OF assms(1) this] show ?thesis using keeps_trans [OF keeps_refl(2)] assms(4) by auto
  next
    case False
    then show ?thesis using n1 assms(4) by (auto split: option.splits if_split_asm)
  qed
  then have n: "keeps i n n1" using keeps_trans [OF g] by blast
  have d: "deliver_message env i msg n = (if err \<noteq> O2_SUCCESS \<and>
      net_tag (infos n1 ! i) \<in> {NET_TCP_CONNECTING, NET_TCP_CLIENT, NET_TCP_CONNECTION} then close_socket True i n1 else Some n1)"
    unfolding deliver_message_def Let_def n1 by simp
  show ?thesis
  proof (cases "err \<noteq> O2_SUCCESS \<and> net_tag (infos n1 ! i) \<in> {NET_TCP_CONNECTING, NET_TCP_CLIENT, NET_TCP_CONNECTION}")
    case True
    then have "owned (infos n1 ! i)" using n e assms(2,3) by (auto simp: keeps_def sockets_ok_def)
    then have "live (infos n1 ! i)" using True by (auto simp: owned_def)
    from close_live [OF this, of True] show ?thesis using True keeps_trans [OF n] unfolding d by auto
  next
    case False
    then show ?thesis using n unfolding d by auto
  qed
qed

lemma new_socket_ok: "table_ok n \<Longrightarrow> tag \<noteq> NET_INFO_CLOSED \<Longrightarrow> table_ok (new_Fds_info env tag own arr outs n)"
  by (auto simp: table_ok_def placed_def new_Fds_info_def socket_ok_def nth_append less_Suc_eq)

lemma accept_keeps:
  assumes "owners_ok env"
  shows "\<exists>r n'. accept_connection env i n = Some (r, n') \<and> keeps i n n' \<and> (r \<noteq> O2_SUCCESS \<longrightarrow> n' = n)"
proof -
  consider arr outs rest where "incoming (infos n ! i) = Connection arr outs # rest" | "accept_connection env i n = Some (O2_FAIL, n)"
    by (cases "incoming (infos n ! i)"; cases "List.hd (incoming (infos n ! i))") (auto simp: accept_connection_def)
  then show ?thesis
  proof cases
    case (1 arr outs rest)
    define n0 where "n0 = put i ((infos n ! i)\<lparr>incoming := rest\<rparr>) n"
    define n1 where "n1 = new_Fds_info env NET_TCP_CONNECTION None arr outs n0"
    have l: "length (infos n1) = length (infos n) + 1" "length (infos n0) = length (infos n)" "running n1 = running n"
      by (simp_all add: n1_def n0_def new_Fds_info_def)
    have old: "infos n1 ! j = infos n0 ! j" if "j < length (infos n)" for j
      using that l(2) by (simp add: n1_def new_Fds_info_def nth_append)
    have fresh: "read_type (infos n1 ! length (infos n)) = READ_O2" using l(2) by (simp add: n1_def new_Fds_info_def nth_append)
    have same: "same_place (infos n ! j) (infos n0 ! j)" if "j < length (infos n)" for j
      using that by (simp add: n0_def put_nth_if)
    have t: "sockets_ok n1" if s: "sockets_ok n" "i < length (infos n)"
    proof -
      have "table_ok n1" unfolding n1_def n0_def
        by (intro new_socket_ok table_ok_put_same) (use s in \<open>simp_all add: sockets_ok_def\<close>)
      moreover have "owned (infos n1 ! j)" if "j < length (infos n1)" for j
      proof (cases "j < length (infos n)")
        case True
        then show ?thesis using old [OF True] same_live(2) [OF same [OF True]] s(1) by (simp add: sockets_ok_def)
      next
        case False
        then have "j = length (infos n)" using that l(1) by simp
        then show ?thesis using fresh by (simp add: owned_def live_def)
      qed
      ultimately show ?thesis by (simp add: sockets_ok_def)
    qed
    obtain n2 where n2: "(case owner (infos n1 ! i) of Some own \<Rightarrow> Some (accepted env own (length (infos n)) n1)
        | None \<Rightarrow> close_socket True (length (infos n)) n1) = Some n2" "keeps (length (infos n)) n1 n2"
    proof (cases "owner (infos n1 ! i)")
      case None
      have "live (infos n1 ! length (infos n))" using fresh by (simp add: live_def)
      from close_live [OF this, of True] obtain n' where "close_socket True (length (infos n)) n1 = Some n'"
        "keeps (length (infos n)) n1 n'" by blast
      then show ?thesis using None that by simp
    next
      case (Some own)
      then show ?thesis using owner_keeps(2) [OF assms] that by simp
    qed
    have "accept_connection env i n = Some (O2_SUCCESS, n2)"
      using 1 n2(1) unfolding accept_connection_def l(2) [symmetric] n0_def n1_def by (simp add: Let_def cong: option.case_cong)
    moreover have "keeps i n n2" unfolding keeps_def
    proof (rule conjI; intro impI)
      show "running n" if "running n2" using n2(2) that l(3) by (simp add: keeps_def)
      assume a: "sockets_ok n \<and> i < length (infos n) \<and> running n2"
      then have k: "sockets_ok n2" "length (infos n1) \<le> length (infos n2)"
        "\<forall>j < length (infos n1). j \<noteq> length (infos n) \<longrightarrow> live (infos n1 ! j) \<longrightarrow> live (infos n2 ! j)"
        using n2(2) t l(1) by (auto simp: keeps_def)
      have "live (infos n2 ! j)" if "j < length (infos n)" "live (infos n ! j)" for j
        using k(3) [rule_format, of j] that same_live(1) [OF same [OF that(1)]] old [OF that(1)] l(1) by simp
      then show "sockets_ok n2 \<and> length (infos n) \<le> length (infos n2) \<and>
          (\<forall>j < length (infos n). j \<noteq> i \<longrightarrow> live (infos n ! j) \<longrightarrow> live (infos n2 ! j))"
        using k(1,2) l(1) by simp
    qed
    ultimately show ?thesis by blast
  qed simp
qed

lemma keeps_sockets: "keeps i n n' \<Longrightarrow> sockets_ok n \<Longrightarrow> i < length (infos n) \<Longrightarrow> running n' \<Longrightarrow>
    sockets_ok n' \<and> i < length (infos n')"
  by (auto simp: keeps_def)

lemma read_udp_keeps:
  assumes "owners_ok env" "sockets_ok n" "i < length (infos n)" "running n"
  shows "\<exists>r n'. read_udp env i n = Some (r, n') \<and> keeps i n n' \<and> (r \<noteq> O2_SUCCESS \<longrightarrow> live (infos n' ! i) = live (infos n ! i))"
proof (cases "\<exists>bs arr. incoming (infos n ! i) = Chunk bs # arr")
  case False
  then have "read_udp env i n = Some (O2_FAIL, n)" by (auto simp: read_udp_def split: list.split arrival.split)
  then show ?thesis by simp
next
  case True
  then obtain bs arr where c: "incoming (infos n ! i) = Chunk bs # arr" by blast
  let ?c = "(infos n ! i)\<lparr>incoming := arr\<rparr>"
  have k: "keeps i n (put i ?c n)" by (simp add: keeps_same)
  have l: "live (infos (put i ?c n) ! i) = live (infos n ! i)" using assms(3) by (simp add: put_nth live_def)
  have s: "sockets_ok (put i ?c n)" "i < length (infos (put i ?c n))" "running (put i ?c n)"
    using keeps_sockets [OF k assms(2,3)] assms(4) by auto
  from deliver_message_keeps [OF assms(1) s] obtain n' where
    "deliver_message env i (Some \<lparr>msg_length = int (length bs), payload = bs\<rparr>) (put i ?c n) = Some n'" "keeps i (put i ?c n) n'" by blast
  then show ?thesis using c k l keeps_trans [OF k] by (cases "bs = []") (simp_all add: read_udp_def)
qed

lemma read_event_keeps:
  assumes "owners_ok env" "sockets_ok n" "i < length (infos n)" "running n"
  shows "\<exists>r n'. read_event_handler env i n = Some (r, n') \<and> keeps i n n' \<and> (r \<noteq> O2_SUCCESS \<longrightarrow> live (infos n' ! i) = live (infos n ! i))"
proof -
  obtain r c where w: "read_whole_message (infos n ! i) = (r, c)" by fastforce
  note same = read_whole_message_place [OF w]
  have p: "keeps i n (put i c n)" by (rule keeps_same [OF same])
  have s: "sockets_ok (put i c n)" "i < length (infos (put i c n))" "running (put i c n)"
    using keeps_sockets [OF p assms(2,3)] assms(4) by auto
  obtain n' where d: "deliver_message env i (read_message c) (put i c n) = Some n'" "keeps i (put i c n) n'"
    using deliver_message_keeps [OF assms(1) s] by blast
  have l: "live (infos (put i c n) ! i) = live (infos n ! i)" using same_live(1) [OF same] assms(3) by (simp add: put_nth)
  have q: "keeps i n (put i (reset (infos n ! i)) n)" by (rule keeps_same) (simp add: reset_def)
  obtain ru nu where u: "read_udp env i n = Some (ru, nu)" "keeps i n nu" "ru \<noteq> O2_SUCCESS \<longrightarrow> live (infos nu ! i) = live (infos n ! i)"
    using read_udp_keeps [OF assms] by blast
  obtain ra na where a: "accept_connection env i n = Some (ra, na)" "keeps i n na" "ra \<noteq> O2_SUCCESS \<longrightarrow> na = n"
    using accept_keeps [OF assms(1)] by blast
  show ?thesis using p d(1) keeps_trans [OF p d(2)] l q w u a by (auto simp: read_event_handler_def Let_def)
qed

subsection \<open>Polling\<close>

lemma keeps_connect: "net_tag (infos n ! i) = NET_TCP_CONNECTING \<Longrightarrow> keeps i n (put i ((infos n ! i)\<lparr>net_tag := NET_TCP_CLIENT\<rparr>) n)"
proof -
  assume tag: "net_tag (infos n ! i) = NET_TCP_CONNECTING"
  let ?c = "(infos n ! i)\<lparr>net_tag := NET_TCP_CLIENT\<rparr>"
  have "table_ok (put i ?c n)" if t: "table_ok n" "i < length (infos n)"
  proof (rule table_ok_put [OF t(1)])
    have i: "fds_index (infos n ! i) = i" "socket_ok (infos n ! i)" using t by (auto simp: table_ok_def placed_def)
    then show "socket_ok ?c" "fds_index ?c = i" "delete_me ?c \<noteq> 2" using tag by (auto simp: socket_ok_def)
  qed
  then show ?thesis by (rule keeps_put) (use tag in \<open>simp_all add: owned_def live_def\<close>)
qed

lemma poll_out_keeps:
  assumes "owners_ok env" "sockets_ok n" "i < length (infos n)" "running n"
  shows "\<exists>n'. poll_out env i n = Some n' \<and> keeps i n n'"
proof -
  let ?c = "infos n ! i"
  define n0 where "n0 = put i (?c\<lparr>net_tag := NET_TCP_CLIENT\<rparr>) n"
  define n1 where "n1 = (if net_tag ?c = NET_TCP_CONNECTING then case owner ?c of Some own \<Rightarrow> connected env own i n0 | None \<Rightarrow> n0 else n)"
  have r0: "running n0" using assms(4) by (simp add: n0_def)
  have n1: "keeps i n n1" "running n1"
    using keeps_connect keeps_trans [OF keeps_connect owner_keeps(3) [OF assms(1)]] owner_keeps(5) [OF assms(1) r0] assms(4) r0
    by (auto simp: n1_def n0_def split: option.split)
  note s1 = keeps_sockets [OF n1(1) assms(2,3) n1(2)]
  let ?d = "infos n1 ! i"
  have "owned ?d" using s1 by (simp add: sockets_ok_def)
  from send_keeps [OF this] s1 obtain r n2 where s: "send False i n1 = Some (r, n2)" "keeps i n1 n2" by blast
  have step: "poll_out env i n = (if owner ?d \<noteq> None \<and> write_type ?d = WRITE_CUSTOM then Some (writeable env (the (owner ?d)) i n1)
      else if delete_me ?d = 1 then Some (mark_deleted i ?d n1)
      else if out_message ?d \<noteq> [] then Some (if r = O2_SUCCESS then put i ((infos n2 ! i)\<lparr>pollout := False\<rparr>) n2 else n2)
      else Some (put i (?d\<lparr>pollout := False\<rparr>) n1))"
    unfolding poll_out_def Let_def n0_def [symmetric] n1_def [symmetric] s(1) by simp
  have "keeps i n1 (writeable env own i n1)" for own by (rule owner_keeps(4) [OF assms(1)])
  moreover have "keeps i n1 n2" "keeps i n1 (put i ((infos n2 ! i)\<lparr>pollout := False\<rparr>) n2)"
    using s(2) keeps_trans [OF s(2) keeps_same] by simp_all
  moreover have "keeps i n1 (put i (?d\<lparr>pollout := False\<rparr>) n1)" by (simp add: keeps_same)
  moreover have "keeps i n1 (mark_deleted i ?d n1)" by (simp add: keeps_mark)
  ultimately show ?thesis using keeps_trans [OF n1(1)] unfolding step by auto
qed

lemma poll_socket_keeps:
  assumes "owners_ok env" "sockets_ok n" "i < length (infos n)" "running n" "live (infos n ! i)"
  shows "\<exists>n'. poll_socket env revents i n = Some n' \<and> keeps i n n'"
proof -
  obtain r n1 where e: "read_event_handler env i n = Some (r, n1)" "keeps i n n1" "r \<noteq> O2_SUCCESS \<longrightarrow> live (infos n1 ! i)"
    using read_event_keeps [OF assms(1-4)] assms(5) by auto
  obtain n2 where n2: "close_socket True i n = Some n2" "keeps i n n2" using close_live [OF assms(5)] by blast
  have n3: "\<exists>n3. close_socket True i n1 = Some n3 \<and> keeps i n n3" if "r \<noteq> O2_SUCCESS"
    using close_live [of n1 i True] e(3) that keeps_trans [OF e(2)] by blast
  show ?thesis using poll_out_keeps [OF assms(1-4)] n2 n3 e(1,2) by (auto simp: poll_socket_def)
qed

lemma poll_loop_keeps:
  assumes "owners_ok env"
  shows "sockets_ok n \<Longrightarrow> running n \<Longrightarrow> distinct is \<Longrightarrow> \<forall>i \<in> set is. i < length (infos n) \<and> live (infos n ! i) \<Longrightarrow>
    \<exists>n'. poll_loop env revents is n = Some n' \<and> (running n' \<longrightarrow> sockets_ok n')"
proof (induction "is" arbitrary: n)
  case (Cons i "is")
  obtain n1 where n1: "poll_socket env (revents i) i n = Some n1" "keeps i n n1"
    using poll_socket_keeps [OF assms, of n i] Cons.prems by auto
  show ?case
  proof (cases "running n1")
    case True
    then have k: "sockets_ok n1" "length (infos n) \<le> length (infos n1)"
      "\<forall>j < length (infos n). j \<noteq> i \<longrightarrow> live (infos n ! j) \<longrightarrow> live (infos n1 ! j)"
      using n1(2) Cons.prems by (auto simp: keeps_def)
    then have "\<forall>j \<in> set is. j < length (infos n1) \<and> live (infos n1 ! j)" using Cons.prems(3,4) by fastforce
    then show ?thesis using Cons.IH [OF k(1) True] Cons.prems(3) n1(1) True by simp
  qed (use n1 in simp)
qed simp

lemma running_delete [simp]: "running (delete_fds_info i n) = running n" "running (delete_clients is n) = running n"
proof -
  show d: "running (delete_fds_info i n) = running n" for i n by (simp add: delete_fds_info_def shut_socket_def Let_def)
  show "running (delete_clients is n) = running n" by (induction "is" n rule: delete_clients.induct) (simp_all add: d)
qed

lemma scan_running: "running (scan_sockets env i n) = running n"
proof (induction env i n rule: scan_sockets.induct)
  case (1 env i n)
  have "running (remove_socket env i n) = running n" by (simp add: remove_socket_def Let_def split: option.split)
  then show ?case using 1 by (simp add: scan_sockets.simps [of env i n])
qed

lemma free_deleted_running: "running (o2n_free_deleted_sockets env n) = running n"
proof (induction env n rule: o2n_free_deleted_sockets.induct)
  case (1 env n)
  then show ?case by (simp add: o2n_free_deleted_sockets.simps [of env n] scan_running)
qed

lemma unplaced_owned [simp]: "owned (unplaced c) = owned c" "live (unplaced c) = live c" "socket_open (unplaced c) = socket_open c"
  by (simp_all add: unplaced_def owned_def live_def)

lemma free_deleted_owned:
  assumes "sockets_ok n"
  shows "sockets_ok (o2n_free_deleted_sockets env n)" "\<forall>c \<in> set (infos (o2n_free_deleted_sockets env n)). delete_me c \<noteq> 2 \<and> socket_open c \<and> live c"
proof -
  let ?n = "o2n_free_deleted_sockets env n"
  have t: "table_ok ?n" "\<not> socket_delete_flag ?n" "evolved (kept n) (kept ?n)"
    using free_deleted_sweeps assms unfolding sockets_ok_def by blast+
  have old: "owned c" if "c \<in># kept n" for c
    using that assms by (auto simp: kept_def sockets_ok_def in_set_conv_nth)
  have all: "owned c" if "c \<in> set (infos ?n)" for c
  proof -
    have "unplaced c \<in># kept ?n" using that unfolding survivors(1) [OF t(1,2), symmetric] by auto
    then have "unplaced c \<in># kept n \<or> (\<exists>d \<in># kept n. read_type d = READ_RAW \<and> unplaced c = closing d)" using t(3) by (simp add: evolved_def)
    moreover have "read_type (unplaced c) = READ_RAW" if "read_type d = READ_RAW" "unplaced c = closing d" for d
      using that(1) unfolding that(2) by simp
    ultimately have "owned (unplaced c) \<or> read_type (unplaced c) = READ_RAW" using old by blast
    then have "owned (unplaced c)" by (auto simp: owned_def live_def)
    then show ?thesis by simp
  qed
  then show "sockets_ok ?n" using t(1) by (simp add: sockets_ok_def)
  show "\<forall>c \<in> set (infos ?n). delete_me c \<noteq> 2 \<and> socket_open c \<and> live c"
  proof
    fix c assume c: "c \<in> set (infos ?n)"
    then obtain j where j: "j < length (infos ?n)" "infos ?n ! j = c" by (auto simp: in_set_conv_nth)
    have "delete_me c \<noteq> 2" using survivors(2) [OF t(1,2)] j by blast
    moreover have "socket_ok c" using t(1) j by (auto simp: table_ok_def placed_def)
    ultimately show "delete_me c \<noteq> 2 \<and> socket_open c \<and> live c" using all [OF c] by (auto simp: socket_ok_def owned_def)
  qed
qed

text \<open>C19: one call of \<open>o2n_recv\<close> while O2 runs, with whatever is reported for the sockets and whatever they deliver. Provided that the
  sockets that are read by their owners have one (a null owner is followed when such a socket is closed), and that the owners' methods
  keep the table of sockets and the owners of the other sockets that are read by them: the call returns, the table is in order
  again, and it ends without a closed socket, unless it was called by a handler or a handler has finished O2.\<close>

theorem recv_keeps_table:
  assumes "owners_ok env" "sockets_ok n" "running n"
  shows "\<exists>r n'. o2n_recv env revents n = Some (r, n') \<and> (running n' \<longrightarrow> sockets_ok n') \<and>
    (r = O2_SUCCESS \<longrightarrow> (\<forall>c \<in> set (infos n'). delete_me c \<noteq> 2 \<and> socket_open c \<and> live c))"
proof (cases "in_o2n_recv n")
  case True
  then show ?thesis using assms(2) by (simp add: o2n_recv_def)
next
  case False
  define n0 where "n0 = o2n_free_deleted_sockets env (n\<lparr>in_o2n_recv := True\<rparr>)"
  have n0: "sockets_ok n0" "\<forall>c \<in> set (infos n0). live c" "running n0"
    using free_deleted_owned [of "n\<lparr>in_o2n_recv := True\<rparr>" env] assms(2,3) free_deleted_running by (simp_all add: n0_def)
  then obtain n1 where n1: "poll_loop env revents [0..<length (infos n0)] n0 = Some n1" "running n1 \<longrightarrow> sockets_ok n1"
    using poll_loop_keeps [OF assms(1) n0(1,3), of "[0..<length (infos n0)]"] by auto
  have o: "o2n_recv env revents n = Some (if \<not> running n1 then (O2_FAIL, n1\<lparr>in_o2n_recv := False\<rparr>)
      else (O2_SUCCESS, (o2n_free_deleted_sockets env n1)\<lparr>in_o2n_recv := False\<rparr>))"
    using False n1(1) by (simp add: o2n_recv_def Let_def n0_def)
  show ?thesis
  proof (cases "running n1")
    case True
    then show ?thesis using o free_deleted_owned [of n1 env] n1(2) by simp
  qed (use o in simp)
qed

section \<open>What gets lost\<close>

text \<open>Closing a connection \<open>when its messages are sent\<close> (not now) sends nothing more: the messages that wait are dropped at
  once, and when the socket can be written it is closed with the stream as it was.\<close>

theorem close_later_drops:
  assumes "i < length (infos n)" "read_type (infos n ! i) \<noteq> READ_CUSTOM" "write_type (infos n ! i) = WRITE_O2"
    and "socket_open (infos n ! i)" "net_tag (infos n ! i) \<in> {NET_TCP_CLIENT, NET_TCP_CONNECTION}"
  shows "\<exists>n'. Option.bind (close_socket False i n) (poll_out env i) = Some n' \<and> net_tag (infos n' ! i) = NET_INFO_CLOSED \<and>
    wire (infos n' ! i) = wire (infos n ! i) \<and> out_message (infos n' ! i) = []"
proof -
  let ?c = "(infos n ! i)\<lparr>in_message := None, out_message := [], delete_me := 1, pollout := True\<rparr>"
  have "close_socket False i n = Some (put i ?c n)"
    using assms by (auto simp: close_socket_def shut_socket_def Let_def reset_def)
  then show ?thesis using assms by (auto simp: poll_out_def mark_deleted_def put_nth)
qed

text \<open>An empty datagram closes the UDP server socket that receives it, and its table entry is deleted.\<close>

theorem empty_datagram_closes:
  assumes "i < length (infos n)" "net_tag (infos n ! i) = NET_UDP_SERVER" "incoming (infos n ! i) = Chunk [] # arr"
    and "read_type (infos n ! i) \<noteq> READ_CUSTOM"
  shows "\<exists>n'. poll_socket env [POLLIN] i n = Some n' \<and> delete_me (infos n' ! i) = 2 \<and> net_tag (infos n' ! i) = NET_INFO_CLOSED \<and>
    socket_delete_flag n'"
  using assms
  by (auto simp: poll_socket_def read_event_handler_def read_udp_def Let_def put_nth close_socket_def shut_socket_def mark_deleted_def reset_def)


text \<open>A length with its top bit set passes the test for implausible lengths: an empty message of negative length is delivered.\<close>

lemma negative_length_accepted:
  assumes "in_length_bytes c = []" "incoming c = Chunk [255, 255, 255, 255] # arr"
  shows "\<exists>c'. read_o2 c = (O2_SUCCESS, c') \<and> in_message c' = Some [] \<and> in_length c' = -1"
proof -
  have "sint (be_dec [255, 255, 255, 255] :: 32 word) = -1" by code_simp
  then show ?thesis using assms by (simp add: read_o2_def recvfrom_def in_length_def read_payload_def Let_def)
qed

text \<open>A raw connection that the other side has closed: an empty message every time, and not the end of the connection.\<close>

lemma raw_hangup_delivers:
  "incoming c = Hangup # arr \<Longrightarrow> \<exists>c'. read_raw c = (O2_SUCCESS, c') \<and> in_message c' = Some [] \<and> incoming c' = Hangup # arr"
  by (simp add: read_raw_def recvfrom_def)

section \<open>Examples\<close>

definition quiet :: owners where
  "quiet = \<lparr>deliver = (\<lambda>_ _ _ n. (O2_SUCCESS, n)), accepted = (\<lambda>_ _ n. n), connected = (\<lambda>_ _ n. n), writeable = (\<lambda>_ _ n. n),
     closes = (\<lambda>_ _. False), any_write_type = WRITE_O2\<rparr>"

definition net0 :: network where
  "net0 = \<lparr>infos = [], socket_delete_flag = False, in_o2n_recv = False, running = True, net_log = []\<rparr>"

definition sender0 :: network where
  "sender0 = new_Fds_info quiet NET_TCP_CLIENT None [] [Took 3, Send_again] net0"

definition ops0 :: "send_op list" where
  "ops0 = [Send_tcp False [1, 2], Enqueue [3], Poll_out, Answers [Took 100, Took 100], Poll_out]"

definition receiver0 :: network where
  "receiver0 = new_Fds_info quiet NET_TCP_CONNECTION (Some 7) (chunks [[0], [0, 0, 2, 1], [2, 0, 0, 0, 1, 3]]) [] net0"

definition sent0 :: network where
  "sent0 = put 0 ((infos sender0 ! 0)\<lparr>outcomes := [], wire := [0, 0, 0, 2, 1, 2, 0, 0, 0, 1, 3]\<rparr>) sender0"

lemma quiet_ok: "quiet_owner quiet"
  by (simp add: quiet_def quiet_owner_def)

lemma enc0: "be_enc 4 (1 :: 32 word) = [0, 0, 0, 1]" "be_enc 4 (2 :: 32 word) = [0, 0, 0, 2]"
  by code_simp+

lemma run_ops0: "run_ops quiet 0 ops0 sender0 = Some sent0"
  by (simp add: ops0_def sender0_def sent0_def new_Fds_info_def net0_def quiet_def put_def send_step_def send_tcp_def enqueue_def
      send_def send_loop.simps wire_bytes_def enc0 poll_out_def Let_def)

theorem messages_arrive_witness:
  "\<exists>c'. read_all 20 quiet 0 receiver0 = Some ((put 0 c' receiver0)\<lparr>net_log := net_log receiver0 @ got_messages 0 [[1, 2], [3]]\<rparr>)"
proof -
  have q: "concat (map queued_by ops0) = [[1, 2], [3]]" by (simp add: ops0_def queued_by_def)
  have "fresh_sender 0 sender0" by (simp add: fresh_sender_def sender0_def new_Fds_info_def net0_def quiet_def)
  moreover have "fresh_receiver [[0], [0, 0, 2, 1], [2, 0, 0, 0, 1, 3]] 0 receiver0"
    by (simp add: fresh_receiver_def receiver0_def new_Fds_info_def net0_def quiet_def o2_connection_def)
  moreover have "concat [[0], [0, 0, 2, 1], [2, 0, 0, 0, 1, 3]] = wire (infos sent0 ! 0)" "out_message (infos sent0 ! 0) = []"
    "net_tag (infos sent0 ! 0) \<noteq> NET_INFO_CLOSED"
    by (simp_all add: sent0_def sender0_def new_Fds_info_def net0_def put_def)
  ultimately show ?thesis
    using messages_arrive [OF _ run_ops0 q [symmetric] _ quiet_ok, of "[[0], [0, 0, 2, 1], [2, 0, 0, 0, 1, 3]]" 0 receiver0 20]
    by (auto simp: sent0_def sender0_def new_Fds_info_def net0_def put_def)
qed

text \<open>A web server that was closed, a socket of its client, and others: one that was closed, a server with a new connection, and
  a connection with a message. The owners take connections, answer messages with an error, and the web server has clients.\<close>

definition busy :: owners where
  "busy = \<lparr>deliver = (\<lambda>own _ msg n. (if own = 5 then O2_FAIL else O2_SUCCESS, net_happen (Removed 99) n)),
     accepted = (\<lambda>own i n. put i ((infos n ! i)\<lparr>owner := Some own\<rparr>) n), connected = (\<lambda>_ _ n. n), writeable = (\<lambda>_ _ n. n),
     closes = (\<lambda>own c. own = 8 \<and> owner c = Some 9), any_write_type = WRITE_O2\<rparr>"

definition sockets0 :: network where
  "sockets0 = new_Fds_info busy NET_TCP_CONNECTION (Some 5) (chunks [[0, 0, 0, 1, 7]]) []
     (new_Fds_info busy NET_TCP_SERVER (Some 6) [Connection [] []] []
     (new_Fds_info busy NET_UDP_SERVER (Some 7) [] []
     (put 1 \<lparr>net_tag = NET_TCP_CONNECTION, fds_index = 1, delete_me = 0, read_type = READ_RAW, write_type = WRITE_O2,
        in_length_bytes = [], in_message = None, out_message = [], out_msg_sent = 0, owner = Some 9, socket_open = True,
        pollout = False, incoming = [], outcomes = [], wire = []\<rparr>
     (new_Fds_info busy NET_TCP_CONNECTION (Some 9) [] [] (new_Fds_info busy NET_TCP_SERVER (Some 8) [] [] net0)))))"

definition closed0 :: network where
  "closed0 = shut_socket True 0 (shut_socket True 2 sockets0)"

lemma net0_ok: "sockets_ok net0"
  by (simp add: sockets_ok_def table_ok_def placed_def net0_def)

lemma sockets0_ok: "sockets_ok sockets0" "length (infos sockets0) = 5" "running sockets0"
proof -
  show "length (infos sockets0) = 5" "running sockets0" by (simp_all add: sockets0_def new_Fds_info_def net0_def)
  have "\<forall>j < 5. fds_index (infos sockets0 ! j) = j \<and> socket_ok (infos sockets0 ! j) \<and> delete_me (infos sockets0 ! j) \<noteq> 2 \<and>
      owner (infos sockets0 ! j) \<noteq> None"
    by (simp add: sockets0_def new_Fds_info_def net0_def put_def socket_ok_def less_Suc_eq numeral_eq_Suc)
  then show "sockets_ok sockets0" using \<open>length (infos sockets0) = 5\<close>
    by (auto simp: sockets_ok_def table_ok_def placed_def owned_def live_def)
qed

lemma closed0_ok: "sockets_ok closed0" "running closed0"
proof -
  let ?n = "shut_socket True 2 sockets0"
  have r: "running ?n" "running closed0" using sockets0_ok(3) by (simp_all add: closed0_def shut_socket_def Let_def)
  have "sockets_ok ?n" using keeps_sockets [OF keeps_shut [of 2 sockets0 True] sockets0_ok(1)] r(1) sockets0_ok(2) by simp
  from keeps_sockets [OF keeps_shut [of 0 ?n True] this] show "sockets_ok closed0" "running closed0"
    using r sockets0_ok(2) by (simp_all add: closed0_def)
qed

lemma busy_ok: "owners_ok busy"
proof -
  have "keeps i n (put i ((infos n ! i)\<lparr>owner := Some own\<rparr>) n)" for i n own
  proof (rule keeps_put)
    let ?c = "(infos n ! i)\<lparr>owner := Some own\<rparr>"
    show "table_ok (put i ?c n)" if t: "table_ok n" "i < length (infos n)"
    proof -
      have i: "fds_index (infos n ! i) = i" "socket_ok (infos n ! i)" "delete_me (infos n ! i) = 2 \<longrightarrow> socket_delete_flag n"
        using t by (auto simp: table_ok_def placed_def)
      then have "socket_ok ?c" by (simp add: socket_ok_def)
      then show ?thesis using t(1) i by (simp add: table_ok_def placed_put put_nth_if)
    qed
  qed (simp add: owned_def live_def)
  then show ?thesis by (simp add: owners_ok_def busy_def)
qed

theorem free_deleted_correct_witness:
  "image_mset ident (image_mset unplaced (mset (infos (o2n_free_deleted_sockets busy closed0)))) \<subseteq># image_mset ident (kept closed0) \<and>
    image_mset unplaced (mset (infos (o2n_free_deleted_sockets quiet closed0))) = kept closed0"
proof -
  have t: "table_ok closed0" using closed0_ok(1) by (simp add: sockets_ok_def)
  show ?thesis using free_deleted_correct [OF t, of busy] free_deleted_correct [OF t, of quiet] by (simp add: Let_def quiet_def)
qed

theorem recv_keeps_table_witness:
  "\<exists>r n'. o2n_recv busy (\<lambda>_. [POLLIN]) closed0 = Some (r, n') \<and> (running n' \<longrightarrow> sockets_ok n') \<and>
    (r = O2_SUCCESS \<longrightarrow> (\<forall>c \<in> set (infos n'). delete_me c \<noteq> 2 \<and> socket_open c \<and> live c))"
  by (rule recv_keeps_table [OF busy_ok closed0_ok])

text \<open>A connection that has written three bytes of its message.\<close>

definition half0 :: network where
  "half0 = put 0 ((infos sender0 ! 0)\<lparr>outcomes := [], wire := [0, 0, 0], out_message := [[1, 2]], out_msg_sent := 3\<rparr>) sender0"

theorem close_later_drops_witness:
  "\<exists>n'. Option.bind (close_socket False 0 half0) (poll_out quiet 0) = Some n' \<and> net_tag (infos n' ! 0) = NET_INFO_CLOSED \<and>
    wire (infos n' ! 0) = [0, 0, 0] \<and> out_message (infos n' ! 0) = []"
  using close_later_drops [of 0 half0 quiet] by (simp add: half0_def sender0_def new_Fds_info_def net0_def put_def quiet_def)

definition server0 :: network where
  "server0 = new_Fds_info quiet NET_UDP_SERVER (Some 8) [Chunk [], Chunk [1]] [] net0"

theorem empty_datagram_closes_witness:
  "\<exists>n'. poll_socket quiet [POLLIN] 0 server0 = Some n' \<and> delete_me (infos n' ! 0) = 2 \<and> net_tag (infos n' ! 0) = NET_INFO_CLOSED \<and>
    socket_delete_flag n'"
  by (rule empty_datagram_closes [of _ _ "[Chunk [1]]"]) (simp_all add: server0_def new_Fds_info_def net0_def)

end
