(* ===== verification/Osc.thy ===== *)
theory Osc
  imports Endian Delivery
begin

text \<open>
  Open Sound Control (src/src/o2osc.cpp): O2 messages become OSC messages without the name of their service, and OSC
  messages become O2 messages for a service; bundles likewise, part by part. A received OSC message is the bytes
  of a payload, which begins at a word boundary; positions are offsets into it. \<open>None\<close>: the code goes
  outside of a message, fails an assertion, follows a pointer into an array that has moved, or never ends.
\<close>

section \<open>Time\<close>

text \<open>Products and quotients of a double with \<open>2 ^ 32\<close>.\<close>

definition double_scale :: "int \<Rightarrow> 64 word \<Rightarrow> 64 word" where
  "double_scale k d = (case decode_double d of Finite s m e \<Rightarrow> word_of_nat (fp_round 52 11 s m (e + k)) | _ \<Rightarrow> d)"

definition o2_time_from_osc :: "64 word \<Rightarrow> 64 word \<Rightarrow> 64 word" where
  "o2_time_from_osc osc_time_offset osctime =
     (let osctime = swap64 osctime - osc_time_offset in double_scale (- 32) (double_of_int (uint osctime)))"

text \<open>A cast from a double outside of the range of the integers is undefined.\<close>

definition o2_time_to_osc :: "64 word \<Rightarrow> 64 word \<Rightarrow> 64 word option" where
  "o2_time_to_osc osc_time_offset o2time =
     (case fp_trunc (decode_double (double_scale 32 o2time)) of
        None \<Rightarrow> None
      | Some i \<Rightarrow> if 0 \<le> i \<and> i < 2 ^ 64 then Some (word_of_int i + osc_time_offset) else None)"

section \<open>From OSC to O2\<close>

text \<open>The bytes from the O2 address on: the zero word at the end of the address is written after the service's name and before
  the OSC address. The length of the message counts its length field too: the message ends with four bytes that were not
  written.\<close>

definition osc_address :: "(nat \<Rightarrow> byte) \<Rightarrow> string \<Rightarrow> byte list \<Rightarrow> byte list \<Rightarrow> byte list" where
  "osc_address junk svc addr data =
     (let o2_ptr = 1 + length svc;
          fill_ptr = (o2_ptr + length addr) div 4 * 4;
          mem = map junk [0..<fill_ptr + 4 + length data + 4];
          mem = write_at 0 (byte_of CHR ''/'' # bytes_of svc @ [0]) mem;
          mem = write_at fill_ptr [0, 0, 0, 0] mem;
          mem = write_at o2_ptr addr mem in
      write_at (fill_ptr + 4) data mem)"

definition osc_message_to_o2 :: "(nat \<Rightarrow> byte) \<Rightarrow> string \<Rightarrow> nat \<Rightarrow> int \<Rightarrow> byte list \<Rightarrow> O2message option" where
  "osc_message_to_o2 junk svc pos len payload =
     (let mem = drop pos payload; addr = takeWhile (\<lambda>b. b \<noteq> 0) mem;
          osc_ptr = (pos + length addr + 4) div 4 * 4; o2len = int pos + len - int osc_ptr in
      if 0 \<notin> set mem \<or> o2len < 0 \<or> length payload < osc_ptr + nat o2len then None
      else map_option snd (o2_msg_swap_endian False
        \<lparr>misc = O2_TCP_FLAG, timestamp = 0, body = osc_address junk svc addr (take (nat o2len) (drop osc_ptr payload))\<rparr>))"

text \<open>Messages of a bundle are collected in a list. \<open>o2msg\<close> keeps the message before when the next one does not fit into the
  bundle: it is then linked to itself, and the loop over the list does not end (\<open>None\<close>).\<close>

fun add_messages :: "O2message list \<Rightarrow> builder \<Rightarrow> builder" where
  "add_messages [] b = b"
| "add_messages (m # ms) b = add_messages ms (snd (o2_add_message m b))"

function osc_to_o2 :: "(nat \<Rightarrow> byte) \<Rightarrow> 64 word \<Rightarrow> string \<Rightarrow> byte list \<Rightarrow> nat \<Rightarrow> int \<Rightarrow> builder \<Rightarrow> (O2message option \<times> builder) option"
  and osc_embedded :: "(nat \<Rightarrow> byte) \<Rightarrow> 64 word \<Rightarrow> string \<Rightarrow> byte list \<Rightarrow> nat \<Rightarrow> int \<Rightarrow> O2message list \<Rightarrow> builder \<Rightarrow>
    (O2message list option \<times> builder) option" where
  "osc_to_o2 junk off svc payload pos len b =
     (if 0 \<notin> set (drop pos payload) then None
      else if c_str (drop pos payload) \<noteq> ''#bundle'' then
        map_option (\<lambda>m. (Some m, b)) (osc_message_to_o2 junk svc pos len payload)
      else if length payload < pos + 16 then None
      else let ts = o2_time_from_osc off (le_dec (take 8 (drop (pos + 8) payload))) in
        Option.bind (osc_embedded junk off svc payload (pos + 20) (int pos + len) [] b) (\<lambda>(ms, b).
        case ms of
          None \<Rightarrow> Some (None, b)
        | Some ms \<Rightarrow> Some (o2_service_message_finish True junk ts (Some svc) [] True (add_messages ms (snd (o2_send_start b))))))"
| "osc_embedded junk off svc payload embedded end_of_msg ms b =
     (if int embedded \<ge> end_of_msg then Some (Some ms, b)
      else if length payload < embedded then None
      else let len = sint (swap32 (le_dec (take 4 (drop (embedded - 4) payload)))) in
        if len < 0 then None
        else if int embedded + len \<le> end_of_msg then
          Option.bind (osc_to_o2 junk off svc payload embedded len b) (\<lambda>(m, b).
          case m of
            None \<Rightarrow> Some (None, b)
          | Some m \<Rightarrow> osc_embedded junk off svc payload (embedded + nat len + 4) end_of_msg (ms @ [m]) b)
        else if ms = [] then Some (None, b) else None)"
  by pat_completeness auto
termination
  by (relation "measure (\<lambda>x. case x of Inl (_, _, _, _, pos, len, _) \<Rightarrow> 2 * nat len + 2
      | Inr (_, _, _, _, embedded, e, _, _) \<Rightarrow> if int embedded < e then 2 * nat (e - int embedded) + 3 else 0)") auto

declare osc_to_o2.simps [simp del] osc_embedded.simps [simp del]

definition Osc_info_deliver :: "environment \<Rightarrow> (nat \<Rightarrow> byte) \<Rightarrow> 64 word \<Rightarrow> string \<Rightarrow> byte list \<Rightarrow> send_state \<Rightarrow> builder \<Rightarrow>
    (O2err \<times> send_state \<times> builder) option" where
  "Osc_info_deliver env junk off svc payload s b =
     Option.bind (osc_to_o2 junk off svc payload 0 (int (length payload)) b) (\<lambda>(m, b).
     case m of
       None \<Rightarrow> Some (O2_FAIL, s, b)
     | Some m \<Rightarrow> map_option (\<lambda>(_, s). (O2_SUCCESS, s, b)) (o2_message_send env junk m s))"

section \<open>From O2 to OSC\<close>

text \<open>The array \<open>msg_data\<close> has room for \<open>room\<close> bytes; when it grows it moves. \<open>alloc\<close>: the room that is allocated when so
  much is asked for.\<close>

definition grow :: "(nat \<Rightarrow> nat) \<Rightarrow> nat \<Rightarrow> nat \<Rightarrow> nat" where
  "grow alloc n room = (if room < n then alloc (max n (if 0 < room then 2 * room else 1)) else room)"

definition osc_string :: "(nat \<Rightarrow> nat) \<Rightarrow> string \<Rightarrow> nat \<times> builder \<Rightarrow> nat \<times> builder" where
  "osc_string alloc str = (\<lambda>(room, b). let b' = snd (o2_add_string_or_symbol CHR ''s'' str b) in
     (if is_bundle b then room else grow alloc (length (msg_data b')) (grow alloc (length (msg_data b) + length str + 1) room), b'))"

definition osc_raw_bytes :: "(nat \<Rightarrow> nat) \<Rightarrow> byte list \<Rightarrow> nat \<times> builder \<Rightarrow> nat \<times> builder" where
  "osc_raw_bytes alloc bs = (\<lambda>(room, b). let b' = o2_add_raw_bytes bs b in
     (grow alloc (length (msg_data b')) (grow alloc (length (msg_data b) + length bs) room), b'))"

definition osc_append :: "(nat \<Rightarrow> nat) \<Rightarrow> byte list \<Rightarrow> nat \<times> builder \<Rightarrow> nat \<times> builder" where
  "osc_append alloc bs = (\<lambda>(room, b). (grow alloc (length (msg_data b) + length bs) room, append_data bs b))"

definition o2_add_bundle_head :: "(nat \<Rightarrow> nat) \<Rightarrow> 64 word \<Rightarrow> nat \<times> builder \<Rightarrow> nat \<times> builder" where
  "o2_add_bundle_head alloc time = osc_append alloc (le_enc 8 (swap64 time)) \<circ> osc_append alloc (bytes_of ''#bundle'' @ [0])"

text \<open>A length is reserved (its bytes are what the array holds there), and set when the part behind it is known.\<close>

definition o2_msg_len_ptr :: "(nat \<Rightarrow> nat) \<Rightarrow> (nat \<Rightarrow> byte) \<Rightarrow> nat \<times> builder \<Rightarrow> nat \<times> builder" where
  "o2_msg_len_ptr alloc junk = osc_append alloc (map junk [0..<4])"

definition o2_set_msg_length :: "nat \<Rightarrow> nat \<times> builder \<Rightarrow> nat \<times> builder" where
  "o2_set_msg_length place = (\<lambda>(room, b). (room, b\<lparr>msg_data :=
     write_at place (le_enc 4 (swap32 (word_of_nat (length (msg_data b) - (place + 4))))) (msg_data b)\<rparr>))"

definition osc_normal :: "(nat \<Rightarrow> nat) \<Rightarrow> string \<Rightarrow> O2message \<Rightarrow> nat \<times> builder \<Rightarrow> (O2err \<times> nat \<times> builder) option" where
  "osc_normal alloc svc m rb =
     Option.bind (o2_msg_swap_endian True m) (\<lambda>(r, m).
     if r \<noteq> O2_SUCCESS then Some (r, rb)
     else let service_len = length svc + 1 in
       if 0 \<notin> set (drop service_len (body m)) then None
       else Option.bind (o2_next_o2string (body m)) (\<lambda>types_ptr.
         Some (O2_SUCCESS, osc_raw_bytes alloc types_ptr (osc_string alloc (c_str (drop service_len (body m))) rb))))"

text \<open>Parts that are too short for a message are outside of the model.\<close>

function msg_data_to_osc_data :: "(nat \<Rightarrow> nat) \<Rightarrow> (nat \<Rightarrow> byte) \<Rightarrow> 64 word \<Rightarrow> string \<Rightarrow> O2message \<Rightarrow> 64 word \<Rightarrow> nat \<times> builder \<Rightarrow>
    (O2err \<times> nat \<times> builder) option"
  and osc_parts :: "(nat \<Rightarrow> nat) \<Rightarrow> (nat \<Rightarrow> byte) \<Rightarrow> 64 word \<Rightarrow> string \<Rightarrow> byte list \<Rightarrow> 64 word \<Rightarrow> nat \<times> builder \<Rightarrow>
    (O2err \<times> nat \<times> builder) option" where
  "msg_data_to_osc_data alloc junk off svc m min_time rb =
     (if IS_BUNDLE m then
        let min_time = (if double_less min_time (timestamp m) then timestamp m else min_time) in
        Option.bind (o2_time_to_osc off min_time) (\<lambda>t.
        Option.bind (o2_next_o2string (body m)) (\<lambda>bs.
        if length (body m) < length bs then None
        else osc_parts alloc junk off svc bs min_time (o2_add_bundle_head alloc t rb)))
      else osc_normal alloc svc m rb)"
| "osc_parts alloc junk off svc bs min_time rb =
     (if bs = [] then Some (O2_SUCCESS, rb)
      else if length bs < 16 then None
      else let place = length (msg_data (snd rb)); (room, b) = o2_msg_len_ptr alloc junk rb;
               len = sint (le_dec (take 4 bs) :: 32 word) in
        if len < 12 then None
        else if 4 + nat len > length bs then Some (O2_FAIL, (room, b))
        else Option.bind (msg_data_to_osc_data alloc junk off svc
              \<lparr>misc = le_dec (take 4 (drop 4 bs)), timestamp = le_dec (take 8 (drop 8 bs)), body = take (nat len - 12) (drop 16 bs)\<rparr>
              min_time (room, b)) (\<lambda>(r, rb).
          if r \<noteq> O2_SUCCESS then Some (O2_FAIL, rb)
          else if room < length (msg_data (snd rb)) then None
          else osc_parts alloc junk off svc (drop (4 + nat len) bs) min_time (o2_set_msg_length place rb)))"
  by pat_completeness auto
termination
  by (relation "measure (\<lambda>x. case x of Inl (_, _, _, _, m, _, _) \<Rightarrow> 2 * length (body m) + 1
      | Inr (_, _, _, _, bs, _, _) \<Rightarrow> 2 * length bs)") auto

declare msg_data_to_osc_data.simps [simp del] osc_parts.simps [simp del]

datatype osc_link = Osc_udp | Osc_tcp bool

text \<open>\<open>Osc_tcp\<close>: whether messages wait at the connection. \<open>net\<close>: what the network layer answers. The bytes that are sent are part of
  the result.\<close>

definition Osc_info_send :: "(nat \<Rightarrow> nat) \<Rightarrow> (nat \<Rightarrow> byte) \<Rightarrow> 64 word \<Rightarrow> string \<Rightarrow> osc_link \<Rightarrow> (byte list \<Rightarrow> O2err) \<Rightarrow>
    send_state \<Rightarrow> nat \<times> builder \<Rightarrow> (O2err \<times> byte list option \<times> send_state \<times> nat \<times> builder) option" where
  "Osc_info_send alloc junk off svc link net s rb =
     Option.bind (o2_current_message s) (\<lambda>m.
     if \<not> IS_BUNDLE m \<and> double_less (gt_last_time s) (timestamp m) then
       map_option (\<lambda>(r, s). (r, None, s, rb)) (schedule_later s)
     else Option.bind (msg_data_to_osc_data alloc junk off svc m 0 (fst rb, snd (o2_send_start (snd rb)))) (\<lambda>(r, room, b).
       let osc = msg_data b; rb = (room, b\<lparr>building_message_lock := False\<rparr>) in
       if r \<noteq> O2_SUCCESS then map_option (\<lambda>s. (r, None, s, rb)) (o2_complete_delivery s)
       else if data_length m < int (length osc) then None
       else if link = Osc_tcp True \<and> misc m AND O2_TCP_FLAG = 0 then
         map_option (\<lambda>s. (O2_FAIL, None, s, rb))
           (o2_drop_message ''OSC server's TCP queue is full'' True
             (s\<lparr>msgs := message_of (osc @ drop (length osc) (header_bytes m @ body m)) # tl (msgs s)\<rparr>))
       else map_option (\<lambda>(_, s). (net osc, Some osc, s, rb)) (o2_postpone_delivery s)))"

section \<open>Times\<close>

text \<open>Time. An OSC time that is less than \<open>2 ^ 53\<close> units of \<open>2 ^ -32\<close> seconds (24 days) after the offset survives the
  conversion to the time of O2 and back, in every bit.\<close>

theorem osc_time_roundtrip:
  assumes "unat (time - off) < 2 ^ 53"
  shows "o2_time_to_osc off (o2_time_from_osc off (swap64 time)) = Some time"
proof -
  define v where "v = unat (time - off)"
  have from_osc: "o2_time_from_osc off (swap64 time) = double_scale (- 32) (double_of_int (int v))"
    by (simp add: o2_time_from_osc_def v_def)
  have again: "word_of_int (int v) + off = time" by (simp add: v_def)
  have t: "fp_trunc (decode_double (double_scale 32 (double_scale (- 32) (double_of_int (int v))))) = Some (int v)"
  proof (cases "v = 0")
    case True
    have "decode_double 0 = Finite False 0 (- 1074)" by (simp add: decode_double_def fp_decode_def fp_bias_def)
    moreover have "double_of_int 0 = 0" by (simp add: double_of_int_def fp_round_def fp_pack_def)
    ultimately show ?thesis using True by (simp add: double_scale_def fp_round_def fp_pack_def fp_trunc_def)
  next
    case False
    have v: "0 < v" "v < 2 ^ 53" using False assms by (simp_all add: v_def)
    let ?M = "v * 2 ^ (53 - bitlen v)" and ?e = "int (bitlen v) - 53"
    have M: "2 ^ 52 \<le> ?M" "?M < 2 ^ 53" by (rule fp_round_exact(2,3) [OF v])+
    have b: "0 < bitlen v" "bitlen v \<le> 53" using bitlen_bounds [OF v(1)] bitlen_le [OF v(2)] by auto
    have d1: "decode_double (double_scale (- 32) (double_of_int (int v))) = Finite False ?M (?e - 32)"
      using fp_round_normal [OF M, of "?e - 32" False] b by (simp add: double_scale_def decode_double_of_nat [OF v])
    have d2: "decode_double (double_scale 32 (double_scale (- 32) (double_of_int (int v)))) = Finite False ?M ?e"
      using fp_round_normal [OF M, of ?e False] b by (simp add: double_scale_def [of 32] d1)
    have "fp_trunc (Finite False ?M ?e) = Some (int v)"
    proof (cases "bitlen v = 53")
      case False
      then have "nat (53 - int (bitlen v)) = 53 - bitlen v" "int (bitlen v) - 53 < 0" using b by auto
      then show ?thesis by (auto simp: fp_trunc_def Let_def)
    qed (simp add: fp_trunc_def)
    then show ?thesis by (simp add: d2)
  qed
  have "v < 2 ^ 53" using assms by (simp add: v_def)
  then have "int v < 2 ^ 64" by simp
  then show ?thesis unfolding o2_time_to_osc_def from_osc t using again by simp
qed

theorem osc_time_roundtrip_witness:
  "o2_time_to_osc 100 (o2_time_from_osc 100 (swap64 5000000000)) = Some 5000000000"
  by (rule osc_time_roundtrip) simp

section \<open>From OSC\<close>

lemma length_osc_address_parts:
  "(a + n) div 4 * 4 \<le> a + n" "a + n < (a + n) div 4 * 4 + (4 :: nat)"
  using div_mult_mod_eq [of "a + n" 4] mod_less_divisor [of 4 "a + n"] by linarith+

lemma zero_padded_div: "zero_padded s = bytes_of s @ replicate (length s div 4 * 4 + 4 - length s) 0"
proof -
  have "ROUNDUP_TO_32BIT (length s + 1) = length s div 4 * 4 + 4" by (simp add: ROUNDUP_TO_32BIT_def)
  then show ?thesis by (simp add: zero_padded_def)
qed

text \<open>The four bytes behind \<open>n\<close> bytes.\<close>

definition unwritten :: "(nat \<Rightarrow> byte) \<Rightarrow> nat \<Rightarrow> byte list" where
  "unwritten junk n = map junk [n..<n + 4]"

lemma length_unwritten [simp]: "length (unwritten junk n) = 4"
  by (simp add: unwritten_def)

lemma drop_behind_write: "length bs \<le> k \<Longrightarrow> drop k (write_at 0 bs mem) = drop k mem"
  by (simp add: write_at_def)

text \<open>The address is right if its last word does not begin within the name of the service.\<close>

lemma osc_address_ok:
  assumes "(1 + length svc + length a) mod 4 \<le> length a"
  shows "osc_address junk svc (bytes_of a) data =
    zero_padded (CHR ''/'' # svc @ a) @ data @ unwritten junk (length (zero_padded (CHR ''/'' # svc @ a)) + length data)"
proof -
  define p where "p = 1 + length svc"
  define n where "n = p + length a"
  define f where "f = n div 4 * 4"
  have f4: "f + n mod 4 = n" by (simp add: f_def)
  moreover have "n mod 4 \<le> length a" "n mod 4 < 4" using assms by (simp_all add: n_def p_def)
  ultimately have f: "p \<le> f" "f \<le> n" "n < f + 4" unfolding n_def by linarith+
  define m0 where "m0 = map junk [0..<f + 4 + length data + 4]"
  define m1 where "m1 = write_at 0 (byte_of CHR ''/'' # bytes_of svc @ [0]) m0"
  define m2 where "m2 = write_at f [0, 0, 0, 0] m1"
  define m3 where "m3 = write_at p (bytes_of a) m2"
  have l0: "length m0 = f + 4 + length data + 4" by (simp add: m0_def)
  have l1: "length m1 = length m0" unfolding m1_def using l0 f by (intro length_write_at) (simp add: p_def)
  have l2: "length m2 = length m0" unfolding m2_def using l0 l1 by (subst length_write_at) simp_all
  have t1: "take p m1 = byte_of CHR ''/'' # bytes_of svc" by (simp add: m1_def write_at_def p_def)
  have t2: "take p m2 = byte_of CHR ''/'' # bytes_of svc"
    using t1 f(1) l0 l1 by (simp add: m2_def write_at_def min_absorb2)
  have d2: "drop n m2 = replicate (f + 4 - n) 0 @ drop (f + 4) m1"
  proof -
    have r: "[0, 0, 0, 0 :: byte] = replicate 4 0" by (simp add: eval_nat_numeral)
    show ?thesis using f(2,3) l0 l1 unfolding m2_def write_at_def r by (simp add: add.commute)
  qed
  have m3: "m3 = zero_padded (CHR ''/'' # svc @ a) @ drop (f + 4) m1"
    using t2 d2 by (simp add: m3_def write_at_def zero_padded_div f_def n_def p_def)
  have lz: "length (zero_padded (CHR ''/'' # svc @ a)) = f + 4" using f(2,3) by (simp add: zero_padded_div f_def n_def p_def)
  have rest: "drop (f + 4 + length data) m1 = unwritten junk (f + 4 + length data)"
  proof -
    have "length (byte_of CHR ''/'' # bytes_of svc @ [0]) \<le> f + 4 + length data" using f(1) by (simp add: p_def)
    then have "drop (f + 4 + length data) m1 = drop (f + 4 + length data) m0" unfolding m1_def by (rule drop_behind_write)
    then show ?thesis by (simp add: m0_def unwritten_def drop_map add.commute)
  qed
  have "write_at (f + 4) data m3 = zero_padded (CHR ''/'' # svc @ a) @ data @ drop (f + 4 + length data) m1"
    unfolding m3 using l0 l1 lz by (simp add: write_at_def add.commute)
  then show ?thesis unfolding osc_address_def Let_def rest lz
    by (simp add: m3_def m2_def m1_def m0_def f_def n_def p_def)
qed

text \<open>Otherwise the end of the name is lost.\<close>

lemma osc_short_address:
  "osc_address junk ''test'' (bytes_of ''/a'') [44, 0, 0, 0] =
    bytes_of ''/tes'' @ 0 # bytes_of ''/a'' @ [0, 44, 0, 0, 0] @ unwritten junk 12"
  by (simp add: osc_address_def write_at_def bytes_of_def unwritten_def drop_map)

section \<open>One message\<close>

definition osc_packet :: "string \<Rightarrow> O2arg list \<Rightarrow> byte list" where
  "osc_packet a as = zero_padded a @ zero_padded (CHR '','' # map arg_type as) @ concat (map wire_data as)"

definition o2_body :: "string \<Rightarrow> O2arg list \<Rightarrow> byte list" where
  "o2_body a as = zero_padded a @ zero_padded (CHR '','' # map arg_type as) @ concat (map arg_data as)"

lemma sendable_codes: "\<forall>a \<in> set as. sendable a \<Longrightarrow> c_string (CHR '','' # map arg_type as)"
proof -
  have "sendable a \<Longrightarrow> arg_type a \<noteq> CHR 0x00" for a
    by (cases a) (auto simp: sendable_def arg_type_def empty_type_def)
  then show "\<forall>a \<in> set as. sendable a \<Longrightarrow> c_string (CHR '','' # map arg_type as)" by (fastforce simp: c_string_def)
qed

text \<open>With more bytes behind them, all arguments are converted.\<close>

lemma swap_args_more:
  "\<forall>a \<in> set as. sendable a \<Longrightarrow> rest \<noteq> [] \<Longrightarrow>
   swap_args True (map arg_type as) (int (length (concat (map arg_data as) @ rest))) (concat (map arg_data as) @ rest) =
   Some (O2_SUCCESS, concat (map wire_data as) @ rest)"
proof (induction as)
  case (Cons a as)
  let ?rest = "concat (map arg_data as) @ rest"
  have a: "sendable a" using Cons.prems(1) by simp
  have "0 < length (arg_data a @ ?rest)" using Cons.prems(2) by simp
  then have "\<not> (0 \<ge> int (length (arg_data a @ ?rest)))" by linarith
  then show ?case
    using swap_step_arg [OF a, of ?rest] not_vector [OF a] Cons.IH Cons.prems
    by (simp add: swap_args.simps [of True "arg_type a # map arg_type as"] length_wire_data)
qed (simp add: swap_args.simps)

lemma swap_args_from_wire:
  assumes "\<forall>a \<in> set as. sendable a" "rest \<noteq> []"
  shows "swap_args False (map arg_type as) (int (length (concat (map wire_data as) @ rest))) (concat (map wire_data as) @ rest) =
    Some (O2_SUCCESS, concat (map arg_data as) @ rest)"
  using swap_args_back [OF swap_args_more [OF assms]] by auto

text \<open>A message with a padded address and type string in one byte order or the other.\<close>

lemma osc_swap_body:
  assumes "c_string a" "a \<noteq> []" "hd a \<noteq> CHR ''#''" "c_string (CHR '','' # ts)"
  shows "o2_msg_swap_endian ho \<lparr>misc = f, timestamp = t, body = zero_padded a @ zero_padded (CHR '','' # ts) @ params\<rparr> =
    map_option (\<lambda>(r, p). (r, \<lparr>misc = swap32 f, timestamp = swap64 t, body = zero_padded a @ zero_padded (CHR '','' # ts) @ p\<rparr>))
      (swap_args ho ts (int (length params)) params)"
proof -
  let ?ts = "zero_padded (CHR '','' # ts)"
  let ?m = "\<lparr>misc = f, timestamp = t, body = zero_padded a @ ?ts @ params\<rparr>"
  have ne: "zero_padded a \<noteq> []" using assms(2) by (simp add: zero_padded_def bytes_of_def)
  have "byte_of (hd a) = hd (zero_padded a)" using assms(2) by (cases a) (simp_all add: zero_padded_def)
  then have "hd (zero_padded a) \<noteq> byte_of CHR ''#''" using assms(3) by (metis byte_of_eq_iff)
  then have nb: "\<not> IS_BUNDLE ?m" using ne by (simp add: IS_BUNDLE_def)
  have tl: "c_str (tl (?ts @ p)) = ts" for p
    using c_str_padded [OF assms(4), of p] by (auto simp: c_str_def zero_padded_def byte_of_eq_0_iff)
  have tl': "c_str (tl ?ts) = ts" using tl [of "[]"] by simp
  have b: "body ?m = zero_padded a @ ?ts @ params" by simp
  show ?thesis
    using swap_msg_normal [OF b ne nb next_o2string_padded [OF assms(1)] next_o2string_padded [OF assms(4)] trans [OF tl tl' [symmetric]], of ho]
    by (simp add: tl')
qed

text \<open>What is received.\<close>

definition received_body :: "(nat \<Rightarrow> byte) \<Rightarrow> string \<Rightarrow> O2arg list \<Rightarrow> byte list" where
  "received_body junk a as = o2_body a as @ unwritten junk (length (o2_body a as))"

text \<open>Where the address can stand in front of the name without loss.\<close>

definition roomy :: "string \<Rightarrow> string \<Rightarrow> bool" where
  "roomy svc a \<longleftrightarrow> (1 + length svc + length a) mod 4 \<le> length a"

lemma dvd_roundup: "4 dvd pos \<Longrightarrow> (pos + n + 4) div 4 * 4 = pos + ROUNDUP_TO_32BIT (n + 1)"
proof -
  assume "4 dvd pos"
  then obtain k where "pos = 4 * k" ..
  then have "pos + n + 4 = 4 * k + (n + 4)" by simp
  then show ?thesis using \<open>pos = 4 * k\<close> by (simp add: ROUNDUP_TO_32BIT_def)
qed

lemma osc_packet_in:
  assumes "4 dvd length pre" "c_string a" "c_string svc" "roomy svc a" "\<forall>x \<in> set as. sendable x"
  shows "osc_message_to_o2 junk svc (length pre) (int (length (osc_packet a as))) (pre @ osc_packet a as @ post) =
    Some \<lparr>misc = swap32 O2_TCP_FLAG, timestamp = 0, body = received_body junk (CHR ''/'' # svc @ a) as\<rparr>"
proof -
  let ?a = "CHR ''/'' # svc @ a" and ?rest = "zero_padded (CHR '','' # map arg_type as) @ concat (map wire_data as)"
  have tw: "takeWhile (\<lambda>b. b \<noteq> 0) (osc_packet a as @ post) = bytes_of a"
    by (simp add: osc_packet_def takeWhile_padded [OF assms(2)])
  have z: "0 \<in> set (osc_packet a as)" using zero_in_padded [of a "[]"] by (simp add: osc_packet_def)
  have q: "(length pre + length (bytes_of a) + 4) div 4 * 4 = length pre + length (zero_padded a)"
    using dvd_roundup [OF assms(1), of "length a"] by (simp add: length_zero_padded)
  have lp: "length (osc_packet a as) = length (zero_padded a) + length ?rest" by (simp add: osc_packet_def)
  have l: "int (length pre) + int (length (osc_packet a as)) - int (length pre + length (zero_padded a)) = int (length ?rest)"
    by (simp add: osc_packet_def)
  have data: "take (length ?rest) (drop (length pre + length (zero_padded a)) (pre @ osc_packet a as @ post)) = ?rest"
    by (simp add: osc_packet_def)
  have svc: "c_string (CHR ''/'' # svc @ a)" "CHR ''/'' # svc @ a \<noteq> []" "hd (CHR ''/'' # svc @ a) \<noteq> CHR ''#''"
    using assms(2,3) by (simp_all add: c_string_def)
  have lw: "length (concat (map wire_data as)) = length (concat (map arg_data as))"
    by (induction as) (simp_all add: length_wire_data)
  have u: "unwritten junk (length (o2_body ?a as)) \<noteq> []" using length_unwritten [of junk] by (metis length_0_conv zero_neq_numeral)
  have osc: "osc_address junk svc (bytes_of a) ?rest =
      zero_padded ?a @ zero_padded (CHR '','' # map arg_type as) @ (concat (map wire_data as) @ unwritten junk (length (o2_body ?a as)))"
    using osc_address_ok [OF assms(4) [unfolded roomy_def], of junk ?rest] lw by (simp add: o2_body_def)
  have sw: "o2_msg_swap_endian False \<lparr>misc = O2_TCP_FLAG, timestamp = 0, body = osc_address junk svc (bytes_of a) ?rest\<rparr> =
      Some (O2_SUCCESS, \<lparr>misc = swap32 O2_TCP_FLAG, timestamp = swap64 0, body = received_body junk ?a as\<rparr>)"
    unfolding osc osc_swap_body [OF svc sendable_codes [OF assms(5)]] swap_args_from_wire [OF assms(5) u]
    by (simp add: received_body_def) (simp add: o2_body_def)
  have s0: "swap64 0 = 0" by (simp add: swap64_def swap32_def)
  have "osc_message_to_o2 junk svc (length pre) (int (length (osc_packet a as))) (pre @ osc_packet a as @ post) =
    map_option snd (o2_msg_swap_endian False
        \<lparr>misc = O2_TCP_FLAG, timestamp = 0, body = osc_address junk svc (bytes_of a) ?rest\<rparr>)"
    unfolding osc_message_to_o2_def Let_def drop_append [of "length pre"] using tw z q data lp by (simp add: l nat_int_add)
  then show ?thesis using sw s0 by simp
qed

text \<open>What is sent for a message that was built from arguments.\<close>

definition to_osc_ok :: "string \<Rightarrow> O2arg list \<Rightarrow> bool" where
  "to_osc_ok a as \<longleftrightarrow> c_string a \<and> (\<forall>x \<in> set as. sendable x) \<and> (as = [] \<or> arg_data (last as) \<noteq> [])"

lemma wire_data_dvd: "4 dvd length (concat (map wire_data as))"
proof -
  have "length (concat (map wire_data as)) = length (concat (map arg_data as))"
    by (induction as) (simp_all add: length_wire_data)
  then show ?thesis using arg_datas_dvd [of as] by simp
qed

lemma osc_packet_dvd: "4 dvd length (osc_packet a as)"
  using wire_data_dvd [of as] by (simp add: osc_packet_def length_zero_padded dvd_add)

lemma word_padded_dvd: "4 dvd length bs \<Longrightarrow> word_padded bs = bs"
  by (rule padded_blob)

lemma c_str_bytes: "c_string x \<Longrightarrow> c_str (bytes_of x @ 0 # rest) = x"
proof -
  assume c: "c_string x"
  then have "\<forall>b \<in> set (bytes_of x). b \<noteq> 0" using zero_in_bytes_of by blast
  then have "takeWhile (\<lambda>b. b \<noteq> 0) (bytes_of x @ 0 # rest) = bytes_of x" by (simp only: takeWhile_append) auto
  then show ?thesis by (simp add: c_str_def) (simp add: bytes_of_def comp_def)
qed

lemma osc_packet_out:
  assumes "to_osc_ok a as" "c_string svc" "4 dvd length (msg_data b)" "\<not> is_bundle b"
  shows "\<exists>room' b'. osc_normal alloc svc \<lparr>misc = f, timestamp = t, body = o2_body (CHR ''/'' # svc @ a) as\<rparr> (room, b) =
    Some (O2_SUCCESS, room', b') \<and> msg_data b' = msg_data b @ osc_packet a as \<and> \<not> is_bundle b' \<and>
    (length (msg_data b') \<le> room \<longrightarrow> room' = room)"
proof -
  have ok: "c_string a" "\<forall>x \<in> set as. sendable x" "as = [] \<or> arg_data (last as) \<noteq> []"
    using assms(1) by (simp_all add: to_osc_ok_def)
  let ?a = "CHR ''/'' # svc @ a" and ?ts = "zero_padded (CHR '','' # map arg_type as)"
  let ?m = "\<lparr>misc = swap32 f, timestamp = swap64 t, body = zero_padded ?a @ ?ts @ concat (map wire_data as)\<rparr>"
  have a: "c_string ?a" "?a \<noteq> []" "hd ?a \<noteq> CHR ''#''" using ok(1) assms(2) by (simp_all add: c_string_def)
  have sw: "o2_msg_swap_endian True \<lparr>misc = f, timestamp = t, body = o2_body ?a as\<rparr> = Some (O2_SUCCESS, ?m)"
    unfolding o2_body_def osc_swap_body [OF a sendable_codes [OF ok(2)]] swap_args_data [OF ok(2,3)] by simp
  have nxt: "o2_next_o2string (body ?m) = Some (?ts @ concat (map wire_data as))"
    using next_o2string_padded [OF a(1)] by simp
  have dr: "drop (length svc + 1) (zero_padded ?a @ r) = bytes_of a @ replicate (ROUNDUP_TO_32BIT (length ?a + 1) - length ?a) 0 @ r" for r
    by (simp add: zero_padded_def)
  have nz: "ROUNDUP_TO_32BIT (length ?a + 1) - length ?a \<noteq> 0" using roundup_bounds(1) [of "length ?a + 1"] by simp
  then obtain j where j: "ROUNDUP_TO_32BIT (length ?a + 1) - length ?a = Suc j" by (metis not0_implies_Suc)
  have dropped: "drop (length svc + 1) (body ?m) = bytes_of a @ 0 # replicate j 0 @ ?ts @ concat (map wire_data as)"
    using dr [of "?ts @ concat (map wire_data as)"] unfolding j by simp
  have str: "0 \<in> set (drop (length svc + 1) (body ?m))" "c_str (drop (length svc + 1) (body ?m)) = a"
    unfolding dropped by (simp_all add: c_str_bytes [OF ok(1)])
  define b1 where "b1 = snd (o2_add_string_or_symbol CHR ''s'' a b)"
  have b1: "msg_data b1 = msg_data b @ zero_padded a" "\<not> is_bundle b1"
    using add_padding_append [of "b\<lparr>is_normal := True\<rparr>" "bytes_of a @ [0]"] assms(3,4)
    by (simp_all add: b1_def o2_add_string_or_symbol_def word_padded_zero) (simp_all add: add_type_def append_data_def)
  define b2 where "b2 = o2_add_raw_bytes (?ts @ concat (map wire_data as)) b1"
  have "4 dvd length (msg_data b1)" using assms(3) b1(1) by (simp add: length_zero_padded dvd_add)
  moreover have "4 dvd length (?ts @ concat (map wire_data as))"
    using wire_data_dvd [of as] by (simp add: length_zero_padded dvd_add)
  ultimately have b2: "msg_data b2 = msg_data b @ osc_packet a as" "\<not> is_bundle b2"
    using add_padding_append [of b1 "?ts @ concat (map wire_data as)"] word_padded_dvd [of "?ts @ concat (map wire_data as)"] b1
    by (simp_all add: b2_def o2_add_raw_bytes_def append_data_def osc_packet_def)
  have string: "osc_string alloc a (room, b) = (grow alloc (length (msg_data b1)) (grow alloc (length (msg_data b) + length a + 1) room), b1)"
    using assms(4) by (simp add: osc_string_def b1_def Let_def)
  obtain room' where raw: "osc_raw_bytes alloc (?ts @ concat (map wire_data as)) (osc_string alloc a (room, b)) = (room', b2)"
    "length (msg_data b2) \<le> room \<longrightarrow> room' = room"
  proof
    let ?r1 = "grow alloc (length (msg_data b1)) (grow alloc (length (msg_data b) + length a + 1) room)"
    let ?r2 = "grow alloc (length (msg_data b2)) (grow alloc (length (msg_data b1) + length (?ts @ concat (map wire_data as))) ?r1)"
    show "osc_raw_bytes alloc (?ts @ concat (map wire_data as)) (osc_string alloc a (room, b)) = (?r2, b2)"
      unfolding string by (simp add: osc_raw_bytes_def b2_def Let_def)
    have "length (zero_padded a) \<ge> length a + 1" unfolding length_zero_padded by (rule roundup_bounds(1))
    then have "length (msg_data b) + length a + 1 \<le> length (msg_data b2)" "length (msg_data b1) \<le> length (msg_data b2)"
      "length (msg_data b1) + length (?ts @ concat (map wire_data as)) = length (msg_data b2)"
      unfolding b1(1) b2(1) osc_packet_def by simp_all
    then show "length (msg_data b2) \<le> room \<longrightarrow> ?r2 = room" by (simp add: grow_def)
  qed
  have "osc_normal alloc svc \<lparr>misc = f, timestamp = t, body = o2_body ?a as\<rparr> (room, b) =
      Some (O2_SUCCESS, osc_raw_bytes alloc (?ts @ concat (map wire_data as)) (osc_string alloc a (room, b)))"
    unfolding osc_normal_def sw using str nxt by (simp add: Let_def)
  then show ?thesis using raw b2 by auto
qed

lemma osc_packet_string:
  assumes "c_string a"
  shows "c_str (osc_packet a as @ rest) = a" "0 \<in> set (osc_packet a as)"
  using c_str_padded [OF assms, of "zero_padded (CHR '','' # map arg_type as) @ concat (map wire_data as) @ rest"]
    zero_in_padded [of a "[]"] by (simp_all add: osc_packet_def)

lemma osc_to_o2_packet:
  assumes "4 dvd length pre" "c_string a" "c_string svc" "roomy svc a" "\<forall>x \<in> set as. sendable x" "a \<noteq> ''#bundle''"
  shows "osc_to_o2 junk off svc (pre @ osc_packet a as @ post) (length pre) (int (length (osc_packet a as))) b =
    Some (Some \<lparr>misc = swap32 O2_TCP_FLAG, timestamp = 0, body = received_body junk (CHR ''/'' # svc @ a) as\<rparr>, b)"
  using osc_packet_in [OF assms(1-5), of junk post] osc_packet_string [OF assms(2)] assms(6)
  by (simp add: osc_to_o2.simps)

lemma roundup_mono: "m \<le> n \<Longrightarrow> ROUNDUP_TO_32BIT m \<le> ROUNDUP_TO_32BIT n"
  by (simp add: ROUNDUP_TO_32BIT_def div_le_mono)

lemma packet_smaller: "length (osc_packet a as) \<le> length (o2_body (CHR ''/'' # svc @ a) as)"
proof -
  have "length (concat (map wire_data as)) = length (concat (map arg_data as))"
    by (induction as) (simp_all add: length_wire_data)
  moreover have "length (zero_padded a) \<le> length (zero_padded (CHR ''/'' # svc @ a))"
    unfolding length_zero_padded by (rule roundup_mono) simp
  ultimately show ?thesis by (simp add: osc_packet_def o2_body_def)
qed

text \<open>C18: a message to OSC and back. A message that is due, was built for a service delegated to OSC and can be converted (\<open>to_osc_ok\<close>: its last
  argument has data, which excludes messages that end in true, false, nil or infinitum, and its blobs are whole words) is
  sent as the OSC packet with the rest of its address, its types and its arguments in network byte order; and an OSC port for any
  service whose name fits before the address (\<open>roomy\<close>, which a short address may not be) makes of that packet the message with the same
  arguments for its own service, behind which are four bytes of whatever was in memory.\<close>

theorem osc_message_there_and_back:
  assumes "\<not> building_message_lock b0" "to_osc_ok a as" "c_string svc"
    and "o2_service_message_finish True junk time (Some svc) a tcp (add_args as (snd (o2_send_start b0))) = (Some m, b)"
    and "msgs s = m # ms" "\<not> double_less (gt_last_time s) time" "\<not> building_message_lock b1" "link \<noteq> Osc_tcp True \<or> tcp"
    and "c_string svc'" "roomy svc' a" "a \<noteq> ''#bundle''"
  shows "\<exists>room' b'. Osc_info_send alloc junk off svc link net s (room, b1) =
      Some (net (osc_packet a as), Some (osc_packet a as), s\<lparr>msgs := ms\<rparr>, room', b') \<and> \<not> building_message_lock b' \<and>
    osc_to_o2 junk' off' svc' (osc_packet a as) 0 (int (length (osc_packet a as))) b2 =
      Some (Some \<lparr>misc = swap32 O2_TCP_FLAG, timestamp = 0, body = received_body junk' (CHR ''/'' # svc' @ a) as\<rparr>, b2)"
proof -
  have m: "m = \<lparr>misc = (if tcp then O2_TCP_FLAG else O2_UDP_FLAG), timestamp = time, body = o2_body (CHR ''/'' # svc @ a) as\<rparr>"
    using built_message [OF assms(1), of junk time "Some svc" a tcp as] assms(4)
    by (auto simp: o2_body_def slash_address_def intro!: O2message.equality)
  have ok: "c_string a" "\<forall>x \<in> set as. sendable x" using assms(2) by (simp_all add: to_osc_ok_def)
  have nb: "\<not> IS_BUNDLE m" by (simp add: m IS_BUNDLE_def o2_body_def zero_padded_def byte_of_eq_iff)
  let ?b = "snd (o2_send_start b1)"
  have start: "msg_data ?b = []" "\<not> is_bundle ?b" using assms(7) by (simp_all add: o2_send_start_def)
  obtain room' b' where conv: "osc_normal alloc svc m (room, ?b) = Some (O2_SUCCESS, room', b')" "msg_data b' = osc_packet a as"
    using osc_packet_out [OF assms(2,3), of ?b alloc "misc m" "timestamp m" room] start by (auto simp: m)
  have fits: "\<not> data_length m < int (length (osc_packet a as))"
    using packet_smaller [of a as svc] by (simp add: data_length_def m)
  have tcp: "\<not> (link = Osc_tcp True \<and> misc m AND O2_TCP_FLAG = 0)" using assms(8) by (auto simp: m)
  have "Osc_info_send alloc junk off svc link net s (room, b1) =
      Some (net (osc_packet a as), Some (osc_packet a as), s\<lparr>msgs := ms\<rparr>, room', b'\<lparr>building_message_lock := False\<rparr>)"
    using assms(5,6) nb conv fits tcp
    by (simp add: Osc_info_send_def o2_current_message_def msg_data_to_osc_data.simps o2_postpone_delivery_def Let_def m)
  moreover have "osc_to_o2 junk' off' svc' (osc_packet a as) 0 (int (length (osc_packet a as))) b2 =
      Some (Some \<lparr>misc = swap32 O2_TCP_FLAG, timestamp = 0, body = received_body junk' (CHR ''/'' # svc' @ a) as\<rparr>, b2)"
    using osc_to_o2_packet [of "[]" a svc' as junk' off' "[]" b2] ok assms(9-11) by simp
  ultimately show ?thesis by auto
qed

section \<open>Bundles\<close>

type_synonym part = "32 word \<times> 64 word \<times> string \<times> O2arg list"

definition part_message :: "string \<Rightarrow> part \<Rightarrow> O2message" where
  "part_message svc = (\<lambda>(f, t, a, as). \<lparr>misc = f, timestamp = t, body = o2_body (CHR ''/'' # svc @ a) as\<rparr>)"

definition osc_element :: "part \<Rightarrow> byte list" where
  "osc_element = (\<lambda>(_, _, a, as). be_enc 4 (word_of_nat (length (osc_packet a as)) :: 32 word) @ osc_packet a as)"

definition osc_bundle :: "64 word \<Rightarrow> part list \<Rightarrow> byte list" where
  "osc_bundle tag ps = bytes_of ''#bundle'' @ [0] @ be_enc 8 tag @ concat (map osc_element ps)"

definition o2_bundle_body :: "string \<Rightarrow> part list \<Rightarrow> byte list" where
  "o2_bundle_body svc ps = zero_padded (CHR ''#'' # svc) @ concat (map (data_bytes \<circ> part_message svc) ps)"

definition part_ok :: "string \<Rightarrow> part \<Rightarrow> bool" where
  "part_ok svc = (\<lambda>(_, _, a, as). to_osc_ok a as \<and> 12 + length (o2_body (CHR ''/'' # svc @ a) as) < 2 ^ 31)"

lemma length_be_enc [simp]: "length (be_enc n w) = n"
  by (simp add: be_enc_def)

lemma length_data_bytes [simp]: "length (data_bytes m) = 16 + length (body m)"
  by (simp add: data_bytes_def)

lemma data_bytes_fields:
  assumes "12 + length (body m) < 2 ^ 31"
  shows "sint (le_dec (take 4 (data_bytes m @ rest)) :: 32 word) = 12 + int (length (body m))"
    "le_dec (take 4 (drop 4 (data_bytes m @ rest))) = misc m" "le_dec (take 8 (drop 8 (data_bytes m @ rest))) = timestamp m"
    "take (length (body m)) (drop 16 (data_bytes m @ rest)) = body m"
proof -
  have "unat (word_of_nat (12 + length (body m)) :: 32 word) = 12 + length (body m)" using assms by (simp only: unat_of_nat) simp
  then have "sint (word_of_nat (12 + length (body m)) :: 32 word) = 12 + int (length (body m))"
    using sint32_unat [of "word_of_nat (12 + length (body m))"] assms by simp
  moreover have "(word_of_int (data_length m) :: 32 word) = word_of_nat (12 + length (body m))" by (simp add: data_length_def)
  ultimately show "sint (le_dec (take 4 (data_bytes m @ rest)) :: 32 word) = 12 + int (length (body m))"
    by (simp add: data_bytes_def)
qed (simp_all add: data_bytes_def)

lemma part_at:
  fixes D :: "byte list" and m :: O2message
  defines "len \<equiv> sint (le_dec (take 4 D) :: 32 word)"
  assumes "12 + length (body m) < 2 ^ 31" "D = data_bytes m @ rest"
  shows "D \<noteq> []" "\<not> length D < 16" "\<not> len < 12" "\<not> 4 + nat len > length D" "drop (4 + nat len) D = rest"
    "\<lparr>misc = le_dec (take 4 (drop 4 D)), timestamp = le_dec (take 8 (drop 8 D)), body = take (nat len - 12) (drop 16 D)\<rparr> = m"
proof -
  note d = data_bytes_fields [OF assms(2), of rest]
  have len: "len = 12 + int (length (body m))" using d(1) by (simp add: len_def assms(3))
  show "D \<noteq> []" "\<not> length D < 16" "\<not> len < 12" "\<not> 4 + nat len > length D" "drop (4 + nat len) D = rest"
    using len by (simp_all add: assms(3) nat_add_distrib length_0_conv [symmetric] del: length_0_conv)
  show "\<lparr>misc = le_dec (take 4 (drop 4 D)), timestamp = le_dec (take 8 (drop 8 D)), body = take (nat len - 12) (drop 16 D)\<rparr> = m"
    using d(2-4) len by (simp add: assms(3) nat_add_distrib)
qed

text \<open>A loop over the parts of an O2 bundle writes the elements of an OSC bundle, as long as the array does not move.\<close>

lemma osc_parts_out:
  assumes "c_string svc"
  shows "\<forall>p \<in> set ps. part_ok svc p \<Longrightarrow> 4 dvd length (msg_data b) \<Longrightarrow> \<not> is_bundle b \<Longrightarrow>
    length (msg_data b) + length (concat (map osc_element ps)) \<le> room \<Longrightarrow>
    \<exists>b'. osc_parts alloc junk off svc (concat (map (data_bytes \<circ> part_message svc) ps)) mt (room, b) = Some (O2_SUCCESS, room, b') \<and>
      msg_data b' = msg_data b @ concat (map osc_element ps)"
proof (induction ps arbitrary: b)
  case Nil
  then show ?case by (simp add: osc_parts.simps)
next
  case (Cons p ps)
  obtain f t a as where p: "p = (f, t, a, as)" by (cases p)
  let ?m = "part_message svc p" and ?rest = "concat (map (data_bytes \<circ> part_message svc) ps)"
  have ok: "to_osc_ok a as" "12 + length (body ?m) < 2 ^ 31" using Cons.prems(1) p by (simp_all add: part_ok_def part_message_def)
  have nb: "\<not> IS_BUNDLE ?m" by (simp add: part_message_def p IS_BUNDLE_def o2_body_def zero_padded_def byte_of_eq_iff)
  define b1 where "b1 = append_data (map junk [0..<4]) b"
  have len: "length (msg_data b) + 4 + length (osc_packet a as) + length (concat (map osc_element ps)) \<le> room"
    using Cons.prems(4) by (simp add: osc_element_def p)
  have ptr: "o2_msg_len_ptr alloc junk (room, b) = (room, b1)"
    using len by (simp add: o2_msg_len_ptr_def osc_append_def b1_def grow_def)
  have b1: "4 dvd length (msg_data b1)" "\<not> is_bundle b1" "length (msg_data b1) = length (msg_data b) + 4"
    using Cons.prems(2,3) by (simp_all add: b1_def append_data_def)
  obtain b2 where b2: "osc_normal alloc svc ?m (room, b1) = Some (O2_SUCCESS, room, b2)" "msg_data b2 = msg_data b1 @ osc_packet a as"
    "\<not> is_bundle b2"
    using osc_packet_out [OF ok(1) assms b1(1,2), of alloc f t room] len b1(3) by (auto simp: part_message_def p)
  define b3 where "b3 = b2\<lparr>msg_data := msg_data b @ osc_element p\<rparr>"
  have set: "o2_set_msg_length (length (msg_data b)) (room, b2) = (room, b3)"
    using b1(3) by (simp add: o2_set_msg_length_def b3_def b2(2) write_at_def osc_element_def p swap32_bytes be_enc_def)
      (simp add: b1_def append_data_def)
  have room: "\<not> room < length (msg_data b2)" using len b1(3) by (simp add: b2(2))
  have conv: "msg_data_to_osc_data alloc junk off svc ?m mt (room, b1) = Some (O2_SUCCESS, room, b2)"
    using b2(1) nb by (simp add: msg_data_to_osc_data.simps)
  define D where "D = data_bytes ?m @ ?rest"
  note D = part_at [OF ok(2) D_def]
  have step: "osc_parts alloc junk off svc D mt (room, b) = osc_parts alloc junk off svc ?rest mt (room, b3)"
    unfolding osc_parts.simps [of alloc junk off svc D] D(6) Let_def using D(1-5) ptr conv room set by simp
  have "4 dvd length (msg_data b3)" using Cons.prems(2) osc_packet_dvd [of a as] by (simp add: b3_def osc_element_def p)
  moreover have "\<not> is_bundle b3" using b2(3) by (simp add: b3_def)
  moreover have "length (msg_data b3) + length (concat (map osc_element ps)) \<le> room" using Cons.prems(4) by (simp add: b3_def)
  ultimately obtain b' where "osc_parts alloc junk off svc ?rest mt (room, b3) = Some (O2_SUCCESS, room, b')"
    "msg_data b' = msg_data b3 @ concat (map osc_element ps)" using Cons.IH [of b3] Cons.prems(1) by (auto simp: comp_def)
  then show ?case using step by (simp add: b3_def D_def comp_def)
qed

text \<open>The parts as they are received: for another service, without time, and with flags in the wrong byte order.\<close>

definition received_part :: "(nat \<Rightarrow> byte) \<Rightarrow> string \<Rightarrow> part \<Rightarrow> O2message" where
  "received_part junk svc = (\<lambda>(_, _, a, as). \<lparr>misc = swap32 O2_TCP_FLAG, timestamp = 0, body = received_body junk (CHR ''/'' # svc @ a) as\<rparr>)"

definition receivable :: "string \<Rightarrow> part \<Rightarrow> bool" where
  "receivable svc = (\<lambda>(_, _, a, as). c_string a \<and> roomy svc a \<and> a \<noteq> ''#bundle'' \<and> (\<forall>x \<in> set as. sendable x) \<and>
     length (osc_packet a as) < 2 ^ 31)"

lemma osc_embedded_in:
  assumes "c_string svc"
  shows "\<forall>p \<in> set ps. receivable svc p \<Longrightarrow> 4 dvd length pre \<Longrightarrow> payload = pre @ concat (map osc_element ps) \<Longrightarrow>
    osc_embedded junk off svc payload (length pre + 4) (int (length payload)) ms b =
      Some (Some (ms @ map (received_part junk svc) ps), b)"
proof (induction ps arbitrary: pre ms)
  case Nil
  then show ?case by (simp add: osc_embedded.simps)
next
  case (Cons p ps)
  obtain f t a as where p: "p = (f, t, a, as)" by (cases p)
  let ?n = "length (osc_packet a as)" and ?rest = "concat (map osc_element ps)"
  have ok: "c_string a" "roomy svc a" "a \<noteq> ''#bundle''" "\<forall>x \<in> set as. sendable x" "?n < 2 ^ 31"
    using Cons.prems(1) by (simp_all add: receivable_def p)
  define pre1 where "pre1 = pre @ be_enc 4 (word_of_nat ?n :: 32 word)"
  have pl: "payload = pre1 @ osc_packet a as @ ?rest" using Cons.prems(3) by (simp add: pre1_def osc_element_def p)
  have pre1: "length pre1 = length pre + 4" "4 dvd length pre1" using Cons.prems(2) by (simp_all add: pre1_def)
  have field: "take 4 (drop (length pre + 4 - 4) payload) = le_enc 4 (swap32 (word_of_nat ?n))"
    unfolding pl pre1_def by (simp add: be_enc_def swap32_bytes)
  have sint: "sint (word_of_nat ?n :: 32 word) = int ?n"
  proof -
    have "unat (word_of_nat ?n :: 32 word) = ?n" using ok(5) by (simp add: unat_of_nat)
    then show ?thesis using sint32_unat [of "word_of_nat ?n"] ok(5) by simp
  qed
  have one: "osc_to_o2 junk off svc payload (length pre + 4) (int ?n) b = Some (Some (received_part junk svc p), b)"
    using osc_to_o2_packet [OF pre1(2) ok(1) assms ok(2,4,3), of junk off ?rest b]
    unfolding pl [symmetric] pre1(1) by (simp add: received_part_def p)
  have ends: "\<not> int (length pre + 4) \<ge> int (length payload)" "\<not> length payload < length pre + 4"
    "int (length pre + 4) + int ?n \<le> int (length payload)"
    unfolding pl using pre1(1) osc_packet_string(2) [OF ok(1), of as] by (cases "osc_packet a as", auto)
  have el: "length (osc_element p) = 4 + ?n" by (simp add: osc_element_def p)
  have step: "osc_embedded junk off svc payload (length pre + 4) (int (length payload)) ms b =
      osc_embedded junk off svc payload (length (pre @ osc_element p) + 4) (int (length payload))
        (ms @ [received_part junk svc p]) b"
    unfolding osc_embedded.simps [of junk off svc payload "length pre + 4"] field using ends one sint
    by (simp add: Let_def el ac_simps)
  have "payload = (pre @ osc_element p) @ ?rest" using Cons.prems(3) by simp
  moreover have "4 dvd length (pre @ osc_element p)"
    using Cons.prems(2) osc_packet_dvd [of a as] by (simp add: osc_element_def p)
  moreover have "\<forall>q \<in> set ps. receivable svc q" using Cons.prems(1) by simp
  ultimately show ?case using Cons.IH [of "pre @ osc_element p" "ms @ [received_part junk svc p]"] step by simp
qed

lemma body_dvd: "4 dvd length (o2_body a as)"
  using arg_datas_dvd [of as] by (simp add: o2_body_def length_zero_padded dvd_add)

lemma add_messages_bundle:
  "\<forall>m \<in> set ms. 4 dvd length (body m) \<Longrightarrow> \<not> is_normal b \<Longrightarrow> 4 dvd length (msg_data b) \<Longrightarrow>
   msg_data (add_messages ms b) = msg_data b @ concat (map data_bytes ms) \<and> \<not> is_normal (add_messages ms b) \<and>
   is_bundle (add_messages ms b) = (is_bundle b \<or> ms \<noteq> []) \<and> building_message_lock (add_messages ms b) = building_message_lock b"
proof (induction ms arbitrary: b)
  case (Cons m ms)
  have "4 dvd length (data_bytes m)" using Cons.prems(1) by simp
  then have a: "snd (o2_add_message m b) = append_data (data_bytes m) (b\<lparr>is_bundle := True\<rparr>)"
    using Cons.prems add_padding_append [of "b\<lparr>is_bundle := True\<rparr>" "data_bytes m"]
    by (simp add: o2_add_message_def o2_add_raw_bytes_def padded_blob)
  show ?case using Cons.IH [of "snd (o2_add_message m b)"] Cons.prems by (simp add: a append_data_def)
qed simp

lemma parts_fit:
  "length (concat (map osc_element ps)) \<le> length (concat (map (data_bytes \<circ> part_message svc) ps))"
proof (induction ps)
  case (Cons p ps)
  have "length (osc_element p) \<le> length (data_bytes (part_message svc p))"
    using packet_smaller by (cases p) (simp add: osc_element_def part_message_def le_SucI add_le_mono)
  then show ?case using Cons by simp
qed simp

text \<open>C5: a bundle to OSC and back. A bundle of messages that each can be converted (\<open>part_ok\<close>: no bundles within it, the last
  argument of each has data, and the blobs are whole words), with a time that OSC can express, for a service delegated to OSC, is sent as an
  OSC bundle with the later of its time and zero, element by element, in order, provided that the array \<open>msg_data\<close> already has room for
  all of it (if it has to grow, lengths are lost, see \<open>osc_array_moves\<close>); and an OSC port makes of those bytes the bundle with the same
  addresses and arguments for its own service, with the time of the OSC bundle, if the name of that service fits before each of the
  addresses (\<open>receivable\<close>).\<close>

theorem osc_bundle_there_and_back:
  assumes "c_string svc" "\<forall>p \<in> set ps. part_ok svc p" "ps \<noteq> []" "body m = o2_bundle_body svc ps"
    and "msgs s = m # ms" "\<not> building_message_lock b1" "link \<noteq> Osc_tcp True \<or> misc m AND O2_TCP_FLAG \<noteq> 0"
    and "o2_time_to_osc off (if double_less 0 (timestamp m) then timestamp m else 0) = Some tag"
    and "length (osc_bundle tag ps) \<le> room"
    and "c_string svc'" "\<forall>p \<in> set ps. receivable svc' p" "\<not> building_message_lock b2"
  shows "\<exists>b' b''. Osc_info_send alloc junk off svc link net s (room, b1) =
      Some (net (osc_bundle tag ps), Some (osc_bundle tag ps), s\<lparr>msgs := ms\<rparr>, room, b') \<and> \<not> building_message_lock b' \<and>
    osc_to_o2 junk' off' svc' (osc_bundle tag ps) 0 (int (length (osc_bundle tag ps))) b2 =
      Some (Some \<lparr>misc = O2_TCP_FLAG, timestamp = o2_time_from_osc off' (swap64 tag),
        body = zero_padded (CHR ''#'' # svc') @ concat (map (data_bytes \<circ> received_part junk' svc') ps)\<rparr>, b'') \<and> \<not> building_message_lock b''"
proof -
  let ?b = "snd (o2_send_start b1)" and ?head = "bytes_of ''#bundle'' @ [0] @ be_enc 8 tag"
  let ?mt = "if double_less 0 (timestamp m) then timestamp m else 0"
  have head: "length ?head = 16" by simp
  have start: "msg_data ?b = []" "\<not> is_bundle ?b" using assms(6) by (simp_all add: o2_send_start_def)
  have nb: "IS_BUNDLE m" by (simp add: IS_BUNDLE_def assms(4) o2_bundle_body_def zero_padded_def)
  define bh where "bh = append_data (be_enc 8 tag) (append_data (bytes_of ''#bundle'' @ [0]) ?b)"
  have bh: "msg_data bh = ?head" "\<not> is_bundle bh" using start by (simp_all add: bh_def append_data_def)
  have total: "16 + length (concat (map osc_element ps)) \<le> room" using assms(9) by (simp add: osc_bundle_def)
  have addh: "o2_add_bundle_head alloc tag (room, ?b) = (room, bh)"
    using total start by (simp add: o2_add_bundle_head_def osc_append_def grow_def bh_def be_enc_def swap64_bytes)
      (simp add: append_data_def)
  have hash: "c_string (CHR ''#'' # svc)" using assms(1) by (simp add: c_string_def)
  have parts: "o2_next_o2string (body m) = Some (concat (map (data_bytes \<circ> part_message svc) ps))"
    unfolding assms(4) o2_bundle_body_def by (rule next_o2string_padded [OF hash])
  obtain bp where bp: "osc_parts alloc junk off svc (concat (map (data_bytes \<circ> part_message svc) ps)) ?mt (room, bh) =
      Some (O2_SUCCESS, room, bp)" "msg_data bp = osc_bundle tag ps"
    using osc_parts_out [OF assms(1), of ps bh room alloc junk off ?mt] assms(2) bh total head
    by (auto simp: osc_bundle_def)
  have conv: "msg_data_to_osc_data alloc junk off svc m 0 (room, ?b) = Some (O2_SUCCESS, room, bp)"
    using nb assms(8) parts addh bp(1)
    by (simp add: msg_data_to_osc_data.simps Let_def) (simp add: assms(4) o2_bundle_body_def)
  have pos: "4 \<le> length (zero_padded (CHR ''#'' # svc))" by (simp add: zero_padded_def ROUNDUP_TO_32BIT_def)
  then have fits: "\<not> data_length m < int (length (osc_bundle tag ps))"
    using parts_fit [of ps svc] by (simp add: data_length_def assms(4) o2_bundle_body_def osc_bundle_def)
  have sent: "Osc_info_send alloc junk off svc link net s (room, b1) =
      Some (net (osc_bundle tag ps), Some (osc_bundle tag ps), s\<lparr>msgs := ms\<rparr>, room, bp\<lparr>building_message_lock := False\<rparr>)"
    using assms(5,7) nb conv bp(2) fits
    by (simp add: Osc_info_send_def o2_current_message_def o2_postpone_delivery_def Let_def)
  let ?pl = "osc_bundle tag ps"
  define pre where "pre = ?head"
  have pre: "length pre = 16" "4 dvd length pre" "?pl = pre @ concat (map osc_element ps)" by (simp_all add: pre_def osc_bundle_def)
  have str: "c_str ?pl = ''#bundle''" "0 \<in> set ?pl"
    using c_str_bytes [of "''#bundle''"] by (simp_all add: osc_bundle_def c_string_def)
  have emb: "osc_embedded junk' off' svc' ?pl 20 (int (length ?pl)) [] b2 =
      Some (Some (map (received_part junk' svc') ps), b2)"
    using osc_embedded_in [OF assms(10), of ps pre ?pl junk' off' "[]" b2] assms(11) pre by simp
  have tag: "le_dec (take 8 (drop 8 ?pl)) = swap64 tag"
    by (simp add: osc_bundle_def be_enc_def flip: swap64_bytes)
  define ms' where "ms' = map (received_part junk' svc') ps"
  define bb where "bb = add_messages ms' (snd (o2_send_start b2))"
  have bodies: "\<forall>x \<in> set ms'. 4 dvd length (body x)"
    using body_dvd by (auto simp: ms'_def received_part_def received_body_def split: prod.split)
  have bb: "msg_data bb = concat (map data_bytes ms')" "is_bundle bb" "building_message_lock bb"
    using add_messages_bundle [OF bodies, of "snd (o2_send_start b2)"] assms(3,12) by (simp_all add: bb_def o2_send_start_def ms'_def)
  have mem: "message_memory junk' (Some svc') [] bb = zero_padded (CHR ''#'' # svc') @ concat (map (data_bytes \<circ> received_part junk' svc') ps)"
    using bb(1,2) by (simp add: message_memory full_address_def o2_bundle_body_def ms'_def comp_assoc)
  have fin: "o2_service_message_finish True junk' (o2_time_from_osc off' (swap64 tag)) (Some svc') [] True bb =
      (Some \<lparr>misc = O2_TCP_FLAG, timestamp = o2_time_from_osc off' (swap64 tag), body = zero_padded (CHR ''#'' # svc') @ concat (map (data_bytes \<circ> received_part junk' svc') ps)\<rparr>,
       bb\<lparr>building_message_lock := False\<rparr>)"
    using bb(3) mem by (simp add: o2_service_message_finish_def)
  have "\<not> length ?pl < 16" by (simp add: osc_bundle_def)
  then have recv: "osc_to_o2 junk' off' svc' ?pl 0 (int (length ?pl)) b2 =
      Some (Some \<lparr>misc = O2_TCP_FLAG, timestamp = o2_time_from_osc off' (swap64 tag), body = zero_padded (CHR ''#'' # svc') @ concat (map (data_bytes \<circ> received_part junk' svc') ps)\<rparr>,
       bb\<lparr>building_message_lock := False\<rparr>)"
    unfolding osc_to_o2.simps [of junk' off' svc' ?pl] using str emb tag fin by (simp add: bb_def ms'_def)
  show ?thesis
    by (intro exI [of _ "bp\<lparr>building_message_lock := False\<rparr>"] exI [of _ "bb\<lparr>building_message_lock := False\<rparr>"])
      (use sent recv in simp)
qed

section \<open>Where the translation goes wrong\<close>

lemma swap_misc: "o2_msg_swap_endian ho m = Some (r, m') \<Longrightarrow> misc m' = swap32 (misc m)"
  by (auto simp: o2_msg_swap_endian_def swap_msg.simps header_bytes_def Let_def bind_eq_Some_conv message_of_def
      simp flip: swap32_bytes split: if_splits)

text \<open>Messages from OSC are not tapped. Their flags have the wrong byte order, and then look as if the message had been forwarded to
  taps more often than allowed: whatever taps a service has, none gets a copy of a message that came from OSC.\<close>

theorem osc_not_tapped:
  assumes "osc_message_to_o2 junk svc pos len payload = Some m" "msgs s = m # ms"
  shows "o2_send_to_taps env junk' local ss s = Some (s\<lparr>msgs := mark_tapped m # ms\<rparr>)"
proof -
  obtain bd where "map_option snd (o2_msg_swap_endian False \<lparr>misc = O2_TCP_FLAG, timestamp = 0, body = bd\<rparr>) = Some m"
    using assms(1) by (auto simp: osc_message_to_o2_def Let_def split: if_splits)
  then have "misc m = swap32 O2_TCP_FLAG" using swap_misc by fastforce
  moreover have "misc (mark_tapped m) = 0x01000102" if "misc m = swap32 O2_TCP_FLAG"
    using that by (simp add: mark_tapped_def swap32_def)
  ultimately have "misc (mark_tapped m) = 0x01000102" by simp
  then show ?thesis using assms(2) by (simp add: o2_send_to_taps_def Let_def)
qed

text \<open>An element that does not fit into its bundle, after one that does, links the message before to itself.\<close>

lemma osc_bundle_cycle:
  assumes "sint (L :: 32 word) \<ge> 0" "int (length pre) + 4 + sint L > end_of_msg" "int (length pre) + 4 < end_of_msg"
  shows "osc_embedded junk off svc (pre @ be_enc 4 L @ rest) (length pre + 4) end_of_msg (m # ms) b = None"
  using assms by (simp add: osc_embedded.simps be_enc_def flip: swap32_bytes)

text \<open>When the array that collects the data has to grow while an element is written, its length is written through a
  pointer into the array that was freed.\<close>

lemma osc_array_moves:
  assumes "c_string svc" "part_ok svc p" "4 dvd length (msg_data b)" "\<not> is_bundle b"
    and "length (msg_data b) + 4 \<le> room" "room < length (msg_data b) + length (osc_element p)"
  shows "osc_parts alloc junk off svc (data_bytes (part_message svc p) @ rest) mt (room, b) = None"
proof -
  obtain f t a as where p: "p = (f, t, a, as)" by (cases p)
  let ?m = "part_message svc p"
  have ok: "to_osc_ok a as" "12 + length (body ?m) < 2 ^ 31" using assms(2) p by (simp_all add: part_ok_def part_message_def)
  have nb: "\<not> IS_BUNDLE ?m" by (simp add: part_message_def p IS_BUNDLE_def o2_body_def zero_padded_def byte_of_eq_iff)
  define b1 where "b1 = append_data (map junk [0..<4]) b"
  have ptr: "o2_msg_len_ptr alloc junk (room, b) = (room, b1)"
    using assms(5) by (simp add: o2_msg_len_ptr_def osc_append_def b1_def grow_def)
  have b1: "4 dvd length (msg_data b1)" "\<not> is_bundle b1" "length (msg_data b1) = length (msg_data b) + 4"
    using assms(3,4) by (simp_all add: b1_def append_data_def)
  obtain room' b2 where b2: "osc_normal alloc svc ?m (room, b1) = Some (O2_SUCCESS, room', b2)" "msg_data b2 = msg_data b1 @ osc_packet a as"
    using osc_packet_out [OF ok(1) assms(1) b1(1,2), of alloc f t room] by (auto simp: part_message_def p)
  have conv: "msg_data_to_osc_data alloc junk off svc ?m mt (room, b1) = Some (O2_SUCCESS, room', b2)"
    using b2(1) nb by (simp add: msg_data_to_osc_data.simps)
  define D where "D = data_bytes ?m @ rest"
  note D = part_at [OF ok(2) D_def]
  have "room < length (msg_data b2)" using assms(6) b1(3) by (simp add: b2(2) osc_element_def p)
  then show ?thesis unfolding D_def [symmetric] osc_parts.simps [of alloc junk off svc D] D(6) Let_def
    using D(1-5) ptr conv by simp
qed

section \<open>Examples\<close>

lemma arg60: "to_osc_ok ''/note'' [String ''abc'', Int32 60]" "receivable ''rec'' (0, 0, ''/note'', [String ''abc'', Int32 60])"
    "part_ok ''synth'' (0, 0, ''/note'', [String ''abc'', Int32 60])"
  by (simp_all add: to_osc_ok_def receivable_def part_ok_def c_string_def sendable_def arg_data_def le_enc4 roomy_def osc_packet_def
      o2_body_def length_zero_padded ROUNDUP_TO_32BIT_def wire_data_def)

definition sending0 :: "O2message \<Rightarrow> send_state" where
  "sending0 m = \<lparr>ctx = one_service, gt_last_time = 0, gt_started = True, o2_do_not_reenter = 0, msgs = [m],
     pending_anywhere = [], pending_local = [], deliveries = []\<rparr>"

theorem osc_message_there_and_back_witness:
  "\<exists>m b. o2_service_message_finish True (\<lambda>_. 7) 0 (Some ''synth'') ''/note'' True
      (add_args [String ''abc'', Int32 60] (snd (o2_send_start idle_builder))) = (Some m, b) \<and>
    osc_to_o2 (\<lambda>_. 9) 0 ''rec'' (osc_packet ''/note'' [String ''abc'', Int32 60]) 0
      (int (length (osc_packet ''/note'' [String ''abc'', Int32 60]))) idle_builder =
      Some (Some \<lparr>misc = swap32 O2_TCP_FLAG, timestamp = 0, body = received_body (\<lambda>_. 9) ''/rec/note'' [String ''abc'', Int32 60]\<rparr>, idle_builder)"
proof -
  have idle: "\<not> building_message_lock idle_builder" by (simp add: idle_builder_def)
  obtain m b where f: "o2_service_message_finish True (\<lambda>_. 7) 0 (Some ''synth'') ''/note'' True
      (add_args [String ''abc'', Int32 60] (snd (o2_send_start idle_builder))) = (Some m, b)"
    using built_message [OF idle] by blast
  define s where "s = sending0 m"
  have "msgs s = m # []" "\<not> double_less (gt_last_time s) 0" "c_string ''synth''" "c_string ''rec''" "roomy ''rec'' ''/note''"
    by (simp_all add: s_def sending0_def double_less_def c_string_def roomy_def split: fp.split)
  from osc_message_there_and_back [OF idle arg60(1) this(3) f this(1,2) idle, where link = Osc_udp and svc' = "''rec''" and alloc = id
      and off = 0 and net = "\<lambda>_. O2_SUCCESS" and room = 0 and junk' = "\<lambda>_. 9" and off' = 0 and ?b2.0 = idle_builder]
    this(4,5)
  show ?thesis using f by auto
qed

definition parts0 :: "part list" where
  "parts0 = [(0, 0, ''/note'', [String ''abc'', Int32 60]), (0, 0, ''/note'', [String ''abc'', Int32 60])]"

definition bundle0 :: O2message where
  "bundle0 = \<lparr>misc = 1, timestamp = 0, body = o2_bundle_body ''synth'' parts0\<rparr>"

lemma time_zero: "o2_time_to_osc 0 0 = Some 0"
proof -
  have "decode_double 0 = Finite False 0 (- 1074)" by (simp add: decode_double_def fp_decode_def fp_bias_def)
  then show ?thesis by (simp add: o2_time_to_osc_def double_scale_def fp_round_def fp_pack_def fp_trunc_def)
qed

theorem osc_bundle_there_and_back_witness:
  "\<exists>b' b''. Osc_info_send id (\<lambda>_. 9) 0 ''synth'' Osc_udp (\<lambda>_. O2_SUCCESS) (sending0 bundle0) (1000, idle_builder) =
      Some (O2_SUCCESS, Some (osc_bundle 0 parts0), (sending0 bundle0)\<lparr>msgs := []\<rparr>, 1000, b') \<and> \<not> building_message_lock b' \<and>
    osc_to_o2 (\<lambda>_. 9) 0 ''rec'' (osc_bundle 0 parts0) 0 (int (length (osc_bundle 0 parts0))) idle_builder =
      Some (Some \<lparr>misc = O2_TCP_FLAG, timestamp = o2_time_from_osc 0 (swap64 0), 
        body = zero_padded ''#rec'' @ concat (map (data_bytes \<circ> received_part (\<lambda>_. 9) ''rec'') parts0)\<rparr>, b'') \<and>
    \<not> building_message_lock b''"
proof (rule osc_bundle_there_and_back)
  show "\<forall>p \<in> set parts0. part_ok ''synth'' p" "\<forall>p \<in> set parts0. receivable ''rec'' p" using arg60 by (simp_all add: parts0_def)
  show "o2_time_to_osc 0 (if double_less 0 (timestamp bundle0) then timestamp bundle0 else 0) = Some 0"
    by (simp add: bundle0_def time_zero)
  show "length (osc_bundle 0 parts0) \<le> 1000"
    by (simp add: osc_bundle_def parts0_def osc_element_def osc_packet_def length_zero_padded ROUNDUP_TO_32BIT_def wire_data_def)
qed (simp_all add: c_string_def parts0_def bundle0_def sending0_def idle_builder_def)

theorem osc_not_tapped_witness:
  "\<exists>m. osc_message_to_o2 (\<lambda>_. 9) ''rec'' 0 (int (length (osc_packet ''/note'' [Int32 60]))) (osc_packet ''/note'' [Int32 60]) = Some m \<and>
    o2_send_to_taps \<lparr>react = \<lambda>_ _. [], proxy_result = \<lambda>_ _. O2_SUCCESS\<rparr> (\<lambda>_. 9) (\<lambda>_ _. Some)
      (Some (Services_entry [] [Service_tap ''tap'' 0 TAP_KEEP])) (sending0 m) =
      Some ((sending0 m)\<lparr>msgs := [mark_tapped m]\<rparr>)"
proof -
  have "osc_message_to_o2 (\<lambda>_. 9) ''rec'' 0 (int (length (osc_packet ''/note'' [Int32 60]))) (osc_packet ''/note'' [Int32 60]) =
      Some \<lparr>misc = swap32 O2_TCP_FLAG, timestamp = 0, body = received_body (\<lambda>_. 9) ''/rec/note'' [Int32 60]\<rparr>"
    using osc_packet_in [of "[]" "''/note''" "''rec''" "[Int32 60]" "\<lambda>_. 9" "[]"] by (simp add: c_string_def roomy_def sendable_def)
  from osc_not_tapped [OF this, of "sending0 _" "[]"] this show ?thesis by (auto simp: sending0_def)
qed

end
