(* ===== verification/Mqttcomm.thy ===== *)
theory Mqttcomm
  imports Endian
begin

text \<open>
  Messages of the MQTT protocol, made and parsed (src/src/mqttcomm.cpp). The class \<open>MQTTcomm\<close> is abstract: its state is
  an extensible record, its two virtual methods are arguments. \<open>None\<close>: an assertion fails, or
  memory outside of the buffers is accessed. All calls of \<open>o2_local_time\<close> in one operation give the
  same time.
\<close>

section \<open>State\<close>

text \<open>\<open>scratch\<close> is the scratch area of the thread (\<open>o2_ctx\<close>), where messages are put together.\<close>

record MQTTcomm =
  mqtt_input :: "byte list"
  connack_count :: int
  connack_expected :: int
  connack_time :: rat
  puback_count :: int
  puback_expected :: int
  puback_time :: rat
  suback_count :: int
  suback_expected :: int
  suback_time :: rat
  packet_id :: int
  scratch :: builder

text \<open>\<open>deliver_mqtt_msg\<close> gets the input buffer, where in it the topic starts, its length, where the payload starts and its
  length.\<close>

type_synonym 's msg_send = "byte list \<Rightarrow> bool \<Rightarrow> 's \<Rightarrow> O2err \<times> 's"
type_synonym 's deliver_mqtt_msg = "byte list \<Rightarrow> nat \<Rightarrow> nat \<Rightarrow> nat \<Rightarrow> int \<Rightarrow> 's \<Rightarrow> 's option"

abbreviation (input) MQTT_CONNECT :: byte where "MQTT_CONNECT \<equiv> 0x10"
abbreviation (input) MQTT_CONNACK :: byte where "MQTT_CONNACK \<equiv> 0x20"
abbreviation (input) MQTT_PUBLISH :: byte where "MQTT_PUBLISH \<equiv> 0x30"
abbreviation (input) MQTT_PUBACK :: byte where "MQTT_PUBACK \<equiv> 0x40"
abbreviation (input) MQTT_SUBSCRIBE :: byte where "MQTT_SUBSCRIBE \<equiv> 0x82"
abbreviation (input) MQTT_SUBACK :: byte where "MQTT_SUBACK \<equiv> 0x90"
abbreviation (input) MQTT_MAX_MULT :: nat where "MQTT_MAX_MULT \<equiv> 128 * 128 * 128"
abbreviation (input) MQTT_TIMEOUT :: rat where "MQTT_TIMEOUT \<equiv> 10"

section \<open>Making messages\<close>

definition mqtt_append_bytes :: "byte list \<Rightarrow> builder \<Rightarrow> builder" where
  "mqtt_append_bytes bs b = append_data bs b"

definition mqtt_append_int16 :: "int \<Rightarrow> builder \<Rightarrow> builder" where
  "mqtt_append_int16 i b = append_data [word_of_int (i mod 256)] (append_data [word_of_int (i div 256)] b)"

definition mqtt_append_string :: "string \<Rightarrow> builder \<Rightarrow> builder" where
  "mqtt_append_string s b = append_data (bytes_of s) (mqtt_append_int16 (int (length s)) b)"

definition mqtt_append_topic :: "string \<Rightarrow> string \<Rightarrow> builder \<Rightarrow> builder" where
  "mqtt_append_topic ens s1 b =
     (let b = mqtt_append_int16 (int (4 + length ens + length s1)) b;
          b = append_data (bytes_of ''O2-'') b;
          b = append_data (bytes_of ens) b;
          b = append_data [byte_of CHR ''/''] b in
      append_data (bytes_of s1) b)"

text \<open>The length, seven bits in a byte, low bits first.\<close>

fun mqtt_varlen :: "nat \<Rightarrow> byte list" where
  "mqtt_varlen len =
     (let encoded = word_of_nat (len mod 128) :: byte in
      if len div 128 > 0 then (encoded OR 0x80) # mqtt_varlen (len div 128) else [encoded])"

declare mqtt_varlen.simps [simp del]

text \<open>The array \<open>varlen\<close> has room for four bytes.\<close>

definition mqtt_finish_msg :: "byte \<Rightarrow> builder \<Rightarrow> byte list option" where
  "mqtt_finish_msg command b =
     (let varlen = mqtt_varlen (length (msg_data b)) in
      if length varlen > 4 then None else Some (command # varlen @ msg_data b))"

text \<open>The server is a name or an address; \<open>now\<close> is the local time.\<close>

definition MQTTcomm_initialize ::
  "('z MQTTcomm_scheme) msg_send \<Rightarrow> rat \<Rightarrow> string \<Rightarrow> 'z MQTTcomm_scheme \<Rightarrow> (O2err \<times> 'z MQTTcomm_scheme) option" where
  "MQTTcomm_initialize msg_send now server s =
     (if server = [] then Some (O2_BAD_ARGS, s)
      else let b = mqtt_append_bytes [4, 2, 0, 60, 0, 0] (mqtt_append_string ''MQTT'' (snd (o2_send_start (scratch s)))) in
        map_option (\<lambda>msg. msg_send msg True (s\<lparr>mqtt_input := [], packet_id := 0, scratch := b,
            connack_expected := connack_expected s + 1, connack_time := now\<rparr>))
          (mqtt_finish_msg MQTT_CONNECT b))"

definition MQTTcomm_subscribe ::
  "('z MQTTcomm_scheme) msg_send \<Rightarrow> string \<Rightarrow> rat \<Rightarrow> string \<Rightarrow> bool \<Rightarrow> 'z MQTTcomm_scheme \<Rightarrow>
   (O2err \<times> 'z MQTTcomm_scheme) option" where
  "MQTTcomm_subscribe msg_send ens now topic block s =
     (let pid = (packet_id s + 1) mod 0x10000;
          b = mqtt_append_bytes [0] (mqtt_append_topic ens topic (mqtt_append_int16 pid (snd (o2_send_start (scratch s))))) in
      map_option (\<lambda>msg. msg_send msg block (s\<lparr>packet_id := pid, scratch := b,
          suback_expected := suback_expected s + 1, suback_time := now\<rparr>))
        (mqtt_finish_msg MQTT_SUBSCRIBE b))"

definition MQTTcomm_publish ::
  "('z MQTTcomm_scheme) msg_send \<Rightarrow> string \<Rightarrow> string \<Rightarrow> byte list \<Rightarrow> string \<Rightarrow> byte \<Rightarrow> bool \<Rightarrow> 'z MQTTcomm_scheme \<Rightarrow>
   (O2err \<times> 'z MQTTcomm_scheme) option" where
  "MQTTcomm_publish msg_send ens subtopic payload suffix retain block s =
     (let pid = (packet_id s + 1) mod 0x10000;
          b1 = mqtt_append_topic ens subtopic (snd (o2_send_start (scratch s)));
          b2 = mqtt_append_int16 pid b1;
          b = mqtt_append_bytes (bytes_of suffix) (mqtt_append_bytes payload b2) in
      if length (msg_data b1) \<noteq> 6 + length ens + length subtopic then None
      else if length (msg_data b2) \<noteq> 8 + length ens + length subtopic then None
      else if length (msg_data b) \<noteq> 8 + length ens + length subtopic + (length payload + length suffix) then None
      else map_option (\<lambda>msg. msg_send msg block (s\<lparr>packet_id := pid, scratch := b\<rparr>))
        (mqtt_finish_msg (MQTT_PUBLISH OR retain) b))"

section \<open>Parsing messages\<close>

text \<open>The bytes received lie in a buffer; \<open>beyond\<close> is what lies just behind them. The result is the length, if there is
  one, and the position behind it.\<close>

function int_len_loop :: "byte \<Rightarrow> byte list \<Rightarrow> nat \<Rightarrow> nat \<Rightarrow> nat \<Rightarrow> nat option \<times> nat" where
  "int_len_loop beyond m multiplier posn len =
     (if posn > length m then (None, posn)
      else let b = (m @ [beyond]) ! posn; len = len + unat (b AND 0x7F) * multiplier; multiplier = multiplier * 128 in
        if b < 128 \<or> multiplier > MQTT_MAX_MULT then (Some len, posn + 1)
        else int_len_loop beyond m multiplier (posn + 1) len)"
  by pat_completeness auto
termination
  by (relation "measure (\<lambda>(beyond, m, multiplier, posn, len). length m + 1 - posn)") auto

declare int_len_loop.simps [simp del]

definition mqtt_int_len :: "byte \<Rightarrow> byte list \<Rightarrow> nat option \<times> nat" where
  "mqtt_int_len beyond m = int_len_loop beyond m 1 1 0"

definition handle_first_msg ::
  "('z MQTTcomm_scheme) deliver_mqtt_msg \<Rightarrow> byte \<Rightarrow> 'z MQTTcomm_scheme \<Rightarrow> (bool \<times> 'z MQTTcomm_scheme) option" where
  "handle_first_msg on_publish beyond s = (case mqtt_input s of
     [] \<Rightarrow> None
   | first # rest \<Rightarrow>
     let inbuff = mqtt_input s; n = length inbuff in
     if first AND 0xF0 = MQTT_PUBLISH then
       (case mqtt_int_len beyond inbuff of
          (None, posn) \<Rightarrow> Some (False, s)
        | (Some len, posn) \<Rightarrow>
          if posn + len > n then Some (False, s)
          else if posn + 1 \<ge> n then None
          else let topic_len = unat (inbuff ! posn) * 256 + unat (inbuff ! (posn + 1)); posn = posn + 2 in
            map_option (\<lambda>s. (True, s\<lparr>mqtt_input := drop (posn - 2 + len) inbuff\<rparr>))
              (on_publish inbuff posn topic_len (posn + topic_len + 2) (int len - int topic_len - 4) s))
     else if first = MQTT_CONNACK then
       Some (if n < 4 then (False, s) else (True, s\<lparr>connack_count := connack_count s + 1, mqtt_input := drop 4 inbuff\<rparr>))
     else if first = MQTT_SUBACK then
       Some (if n < 5 then (False, s) else (True, s\<lparr>suback_count := suback_count s + 1, mqtt_input := drop 5 inbuff\<rparr>))
     else if first = MQTT_PUBACK then
       Some (if n < 4 then (False, s) else (True, s\<lparr>puback_count := puback_count s + 1, mqtt_input := drop 4 inbuff\<rparr>))
     else Some (True, s\<lparr>mqtt_input := []\<rparr>))"

text \<open>Every message that is handled takes at least a byte out of the buffer.\<close>

lemma int_len_posn: "int_len_loop beyond m multiplier posn len = (Some l, posn') \<Longrightarrow> posn < posn'"
proof (induction beyond m multiplier posn len rule: int_len_loop.induct)
  case (1 beyond m multiplier posn len)
  then show ?case
    by (subst (asm) (2) int_len_loop.simps) (fastforce simp: Let_def split: if_splits)
qed

lemma handled_shortens:
  "handle_first_msg on_publish beyond s = Some (True, s') \<Longrightarrow> length (mqtt_input s') < length (mqtt_input s)"
  using int_len_posn [of beyond "mqtt_input s" 1 1 0]
  by (fastforce simp: handle_first_msg_def Let_def mqtt_int_len_def split: list.splits if_splits option.splits prod.splits)

function mqtt_loop ::
  "('z MQTTcomm_scheme) deliver_mqtt_msg \<Rightarrow> byte \<Rightarrow> 'z MQTTcomm_scheme \<Rightarrow> 'z MQTTcomm_scheme option" where
  "mqtt_loop on_publish beyond s = (case handle_first_msg on_publish beyond s of
     None \<Rightarrow> None
   | Some (handled, s') \<Rightarrow> if handled \<and> mqtt_input s' \<noteq> [] then mqtt_loop on_publish beyond s' else Some s')"
  by pat_completeness auto
termination
  by (relation "measure (\<lambda>(on_publish, beyond, s). length (mqtt_input s))") (auto simp: handled_shortens)

declare mqtt_loop.simps [simp del]

text \<open>A warning is given once for each acknowledgment that is lost.\<close>

definition check_acks :: "rat \<Rightarrow> 'z MQTTcomm_scheme \<Rightarrow> 'z MQTTcomm_scheme" where
  "check_acks now s =
     (let s = (if connack_count s < connack_expected s \<and> connack_time s < now - MQTT_TIMEOUT
               then s\<lparr>connack_count := connack_count s + 1\<rparr> else s);
          s = (if suback_count s < suback_expected s \<and> suback_time s < now - MQTT_TIMEOUT
               then s\<lparr>suback_count := suback_count s + 1\<rparr> else s) in
      if puback_count s < puback_expected s \<and> puback_time s < now - MQTT_TIMEOUT
      then s\<lparr>puback_count := puback_count s + 1\<rparr> else s)"

definition MQTTcomm_deliver ::
  "('z MQTTcomm_scheme) deliver_mqtt_msg \<Rightarrow> byte \<Rightarrow> rat \<Rightarrow> byte list \<Rightarrow> 'z MQTTcomm_scheme \<Rightarrow> 'z MQTTcomm_scheme option" where
  "MQTTcomm_deliver on_publish beyond now data s =
     map_option (check_acks now) (mqtt_loop on_publish beyond (s\<lparr>mqtt_input := mqtt_input s @ data\<rparr>))"

section \<open>Lengths\<close>

lemma varlen_low_bits: "unat ((w :: byte) AND 0x7F) = unat w mod 128"
proof -
  have "w AND 0x7F = take_bit 7 w" by (simp add: take_bit_eq_mask mask_eq_exp_minus_1)
  then show ?thesis by (simp add: unsigned_take_bit_eq take_bit_nat_def take_bit_eq_mod unat_mod)
qed

lemma varlen_byte:
  "unat (word_of_nat (len mod 128) AND 0x7F :: byte) = len mod 128"
  "unat ((word_of_nat (len mod 128) OR 0x80) AND 0x7F :: byte) = len mod 128"
  "(word_of_nat (len mod 128) :: byte) < 128"
  "\<not> (word_of_nat (len mod 128) OR 0x80 :: byte) < 128"
proof -
  let ?w = "word_of_nat (len mod 128) :: byte"
  have u: "unat ?w = len mod 128" by (simp add: unat_of_nat)
  then show l: "unat (?w AND 0x7F) = len mod 128" by (simp add: varlen_low_bits)
  show "?w < 128" by (simp add: word_less_nat_alt u)
  show "\<not> (?w OR 0x80) < 128" using le_word_or2 [of "0x80 :: byte" ?w] by (simp add: or.commute not_less)
  have "(?w OR 0x80) AND 0x7F = (?w AND 0x7F) OR (0x80 AND 0x7F)" by (rule word_ao_dist)
  then show "unat ((?w OR 0x80) AND 0x7F) = len mod 128" using l by simp
qed

lemma varlen_pos [simp]: "0 < length (mqtt_varlen n)" "mqtt_varlen n \<noteq> []"
  by (subst mqtt_varlen.simps, simp add: Let_def)+

lemma varlen_length: "length (mqtt_varlen n) \<le> Suc k \<longleftrightarrow> n < 128 ^ Suc k"
proof (induction k arbitrary: n)
  case 0
  show ?case by (subst mqtt_varlen.simps) (auto simp: Let_def div_eq_0_iff)
next
  case (Suc k)
  have "length (mqtt_varlen n) \<le> Suc (Suc k) \<longleftrightarrow> n div 128 < 128 ^ Suc k"
    using Suc.IH [of "n div 128"] by (subst mqtt_varlen.simps) (auto simp: Let_def)
  also have "\<dots> \<longleftrightarrow> n < 128 ^ Suc (Suc k)" by (simp add: div_less_iff_less_mult mult.commute)
  finally show ?case .
qed

lemma int_len_varlen:
  "length (mqtt_varlen n) + i \<le> 4 \<Longrightarrow>
   int_len_loop beyond (pre @ mqtt_varlen n @ post) (128 ^ i) (length pre) len =
     (Some (len + n * 128 ^ i), length pre + length (mqtt_varlen n))"
proof (induction n arbitrary: pre i len rule: mqtt_varlen.induct)
  case (1 n)
  let ?b = "hd (mqtt_varlen n)"
  have b: "(pre @ mqtt_varlen n @ post @ [beyond]) ! length pre = ?b" by (simp add: nth_append hd_conv_nth)
  have ub: "unat (?b AND 0x7F) = n mod 128"
    using varlen_byte(1,2) [of n] by (subst mqtt_varlen.simps) (auto simp: Let_def)
  show ?case
  proof (cases "n div 128 > 0")
    case True
    then have v: "mqtt_varlen n = (word_of_nat (n mod 128) OR 0x80) # mqtt_varlen (n div 128)"
      by (subst mqtt_varlen.simps) (simp add: Let_def)
    then have i: "length (mqtt_varlen (n div 128)) + Suc i \<le> 4" using "1.prems" by simp
    then have "Suc i \<le> 3" using varlen_pos(1) [of "n div 128"] by linarith
    then have "(128 :: nat) ^ Suc i \<le> 128 ^ 3" by (intro power_increasing) simp_all
    then have m: "\<not> (128 ^ i * 128 > MQTT_MAX_MULT)" by (simp add: mult.commute)
    have nb: "\<not> ?b < 128" using v varlen_byte(4) by simp
    have "(pre @ mqtt_varlen n @ post) = (pre @ [?b]) @ mqtt_varlen (n div 128) @ post" using v by simp
    then have "int_len_loop beyond (pre @ mqtt_varlen n @ post) (128 ^ Suc i) (length (pre @ [?b])) (len + n mod 128 * 128 ^ i) =
        (Some (len + n mod 128 * 128 ^ i + n div 128 * 128 ^ Suc i), length (pre @ [?b]) + length (mqtt_varlen (n div 128)))"
      using "1.IH" [OF refl True i] by metis
    moreover have "n mod 128 * 128 ^ i + n div 128 * 128 ^ Suc i = n * 128 ^ i"
      using div_mult_mod_eq [of n 128] by (metis add.commute add_mult_distrib mult.assoc power_Suc)
    ultimately show ?thesis
      using b ub nb m v by (subst int_len_loop.simps) (simp add: Let_def mult.commute add.assoc)
  next
    case False
    then have v: "mqtt_varlen n = [word_of_nat (n mod 128)]"
      by (subst mqtt_varlen.simps) (simp add: Let_def)
    have n: "n mod 128 = n" using False by (simp add: div_eq_0_iff)
    have "?b < 128" using v varlen_byte(3) by simp
    then show ?thesis using b ub v n by (subst int_len_loop.simps) (simp add: Let_def)
  qed
qed

lemma int_len_cut:
  "length (mqtt_varlen n) + i \<le> 4 \<Longrightarrow> j < length (mqtt_varlen n) \<Longrightarrow>
   int_len_loop beyond (pre @ take j (mqtt_varlen n)) (128 ^ i) (length pre) len = (Some l, posn) \<Longrightarrow>
   length pre + j < posn"
proof (induction n arbitrary: pre i j len rule: mqtt_varlen.induct)
  case (1 n)
  show ?case
  proof (cases j)
    case 0
    then show ?thesis using int_len_posn [OF "1.prems"(3)] by simp
  next
    case (Suc j')
    have True: "n div 128 > 0"
    proof (rule ccontr)
      assume "\<not> 0 < n div 128"
      then have "length (mqtt_varlen n) = 1" by (subst mqtt_varlen.simps) (simp add: Let_def)
      then show False using Suc "1.prems"(2) by simp
    qed
    let ?b = "word_of_nat (n mod 128) OR 0x80 :: byte"
    have v: "mqtt_varlen n = ?b # mqtt_varlen (n div 128)"
      using True by (subst mqtt_varlen.simps) (simp add: Let_def)
    then have i: "length (mqtt_varlen (n div 128)) + Suc i \<le> 4" "j' < length (mqtt_varlen (n div 128))"
      using "1.prems" Suc by simp_all
    then have "Suc i \<le> 3" using varlen_pos(1) [of "n div 128"] by linarith
    then have "(128 :: nat) ^ Suc i \<le> 128 ^ 3" by (intro power_increasing) simp_all
    then have m: "\<not> (128 ^ i * 128 > MQTT_MAX_MULT)" by (simp add: mult.commute)
    have "pre @ take j (mqtt_varlen n) = (pre @ [?b]) @ take j' (mqtt_varlen (n div 128))" using v Suc by simp
    moreover have "int_len_loop beyond (pre @ take j (mqtt_varlen n)) (128 ^ Suc i) (Suc (length pre)) (len + n mod 128 * 128 ^ i) =
        (Some l, posn)"
      using "1.prems"(3) m varlen_byte(2,4) [of n] v Suc
      by (subst (asm) int_len_loop.simps) (simp add: Let_def nth_append mult.commute)
    ultimately show ?thesis using "1.IH" [OF refl True i, of "pre @ [?b]"] Suc by simp
  qed
qed
section \<open>Packets\<close>

text \<open>What a broker sends: published messages (with the low bits of the first byte, and a packet identifier of two bytes,
  whatever they are) and acknowledgments.\<close>

datatype packet = Publish byte "byte list" "byte list" "byte list" | Connack "byte list" | Suback "byte list" | Puback "byte list"

definition publish_body :: "byte list \<Rightarrow> byte list \<Rightarrow> byte list \<Rightarrow> byte list" where
  "publish_body topic pid payload = be_enc 2 (word_of_nat (length topic) :: 16 word) @ topic @ pid @ payload"

definition packet_bytes :: "packet \<Rightarrow> byte list" where
  "packet_bytes p = (case p of
     Publish flags topic pid payload \<Rightarrow>
       let body = publish_body topic pid payload in (MQTT_PUBLISH OR flags) # mqtt_varlen (length body) @ body
   | Connack bs \<Rightarrow> MQTT_CONNACK # bs | Suback bs \<Rightarrow> MQTT_SUBACK # bs | Puback bs \<Rightarrow> MQTT_PUBACK # bs)"

definition packet_ok :: "(byte list \<Rightarrow> byte list \<Rightarrow> bool) \<Rightarrow> packet \<Rightarrow> bool" where
  "packet_ok accepts p = (case p of
     Publish flags topic pid payload \<Rightarrow> flags < 16 \<and> length topic < 2 ^ 16 \<and> length pid = 2 \<and>
       4 + length topic + length payload < 2 ^ 28 \<and> accepts topic payload
   | Connack bs \<Rightarrow> length bs = 3 | Suback bs \<Rightarrow> length bs = 4 | Puback bs \<Rightarrow> length bs = 3)"

lemma packet_nonempty [simp]: "packet_bytes p \<noteq> []"
  by (cases p) (simp_all add: packet_bytes_def Let_def)

lemma publish_first: "flags < 16 \<Longrightarrow> (MQTT_PUBLISH OR flags) AND 0xF0 = MQTT_PUBLISH"
proof -
  assume f: "flags < 16"
  then have "unat flags < 16" by (simp add: word_less_nat_alt)
  then have "take_bit 4 flags = flags"
    by (intro word_eq_iff_unsigned [where 'a = nat, THEN iffD2]) (simp add: unsigned_take_bit_eq take_bit_nat_eq_self)
  moreover have "take_bit 4 flags = flags AND 0xF" by (simp add: take_bit_eq_mask mask_eq_exp_minus_1)
  ultimately have "flags AND 0xF0 = flags AND (0xF AND 0xF0)" by (metis and.assoc)
  then show ?thesis by (simp add: word_ao_dist)
qed

lemma length_publish_body: "length (publish_body topic pid payload) = 2 + length topic + length pid + length payload"
  by (simp add: publish_body_def be_enc_def)

lemma topic_length_bytes: "n < 2 ^ 16 \<Longrightarrow> \<exists>a b. be_enc 2 (word_of_nat n :: 16 word) = [a, b] \<and> unat a * 256 + unat b = n"
proof -
  assume n: "n < 2 ^ 16"
  let ?w = "word_of_nat n :: 16 word"
  have u: "unat ?w = n" using n by (simp add: unat_of_nat)
  have e: "be_enc 2 ?w = [ucast (drop_bit 8 ?w), ucast ?w]" by (simp add: be_enc_def numeral_2_eq_2)
  have "unat (ucast (drop_bit 8 ?w) :: byte) = n div 256 mod 256" by (simp add: unsigned_ucast_eq unat_drop u take_bit_nat_def)
  moreover have "n div 256 < 256" using n by (simp add: less_mult_imp_div_less)
  moreover have "unat (ucast ?w :: byte) = n mod 256" by (simp add: unsigned_ucast_eq u take_bit_nat_def)
  ultimately show ?thesis using e by (intro exI conjI) (assumption, simp)
qed

lemma first_ack:
  "mqtt_input s = MQTT_CONNACK # bs \<Longrightarrow> handle_first_msg on_publish beyond s = Some (if length bs < 3 then (False, s)
     else (True, s\<lparr>connack_count := connack_count s + 1, mqtt_input := drop 3 bs\<rparr>))"
  "mqtt_input s = MQTT_SUBACK # bs \<Longrightarrow> handle_first_msg on_publish beyond s = Some (if length bs < 4 then (False, s)
     else (True, s\<lparr>suback_count := suback_count s + 1, mqtt_input := drop 4 bs\<rparr>))"
  "mqtt_input s = MQTT_PUBACK # bs \<Longrightarrow> handle_first_msg on_publish beyond s = Some (if length bs < 3 then (False, s)
     else (True, s\<lparr>puback_count := puback_count s + 1, mqtt_input := drop 3 bs\<rparr>))"
  by (simp_all add: handle_first_msg_def Let_def)

lemma first_publish:
  "mqtt_input s = inbuff \<Longrightarrow> inbuff = (MQTT_PUBLISH OR flags) # r \<Longrightarrow> flags < 16 \<Longrightarrow>
   mqtt_int_len beyond inbuff = (Some len, posn) \<Longrightarrow> posn + len \<le> length inbuff \<Longrightarrow> posn + 1 < length inbuff \<Longrightarrow>
   topic_len = unat (inbuff ! posn) * 256 + unat (inbuff ! (posn + 1)) \<Longrightarrow>
   handle_first_msg on_publish beyond s = map_option (\<lambda>s. (True, s\<lparr>mqtt_input := drop (posn + len) inbuff\<rparr>))
     (on_publish inbuff (posn + 2) topic_len (posn + 2 + topic_len + 2) (int len - int topic_len - 4) s)"
  by (simp add: handle_first_msg_def Let_def publish_first)

text \<open>The first packet in the buffer: if it is complete, it is handled; if not, it waits.\<close>

lemma packet_incomplete:
  assumes "packet_ok accepts p" "packet_bytes p = mqtt_input s @ later" "later \<noteq> []" "mqtt_input s \<noteq> []"
  shows "handle_first_msg on_publish beyond s = Some (False, s)"
proof (cases p)
  case (Publish flags topic pid payload)
  define body where "body = publish_body topic pid payload"
  define v where "v = mqtt_varlen (length body)"
  have ok: "flags < 16" "length body < 2 ^ 28"
    using assms(1) by (auto simp: packet_ok_def Publish body_def length_publish_body)
  have lv: "length v \<le> 4" using ok(2) varlen_length [of "length body" 3] by (simp add: v_def)
  obtain k where k: "mqtt_input s = take k (packet_bytes p)" "0 < k" "k < length (packet_bytes p)"
    by (rule that [of "length (mqtt_input s)"]) (use assms in simp_all)
  have bytes: "packet_bytes p = (MQTT_PUBLISH OR flags) # v @ body"
    by (simp add: packet_bytes_def Publish body_def v_def Let_def)
  have "posn + len > k" if r: "mqtt_int_len beyond (mqtt_input s) = (Some len, posn)" for len posn
  proof (cases "k \<le> length v")
    case True
    have "mqtt_input s = [MQTT_PUBLISH OR flags] @ take (k - 1) v"
      using k True by (cases k) (simp_all add: bytes)
    then have "length [MQTT_PUBLISH OR flags] + (k - 1) < posn"
      using r k True lv int_len_cut [of "length body" 0 "k - 1" beyond "[MQTT_PUBLISH OR flags]" 0 len posn]
      by (simp add: mqtt_int_len_def v_def)
    then show ?thesis by simp
  next
    case False
    then have "mqtt_input s = [MQTT_PUBLISH OR flags] @ v @ take (k - 1 - length v) body"
      using k by (cases k) (simp_all add: bytes)
    then have "(Some len, posn) = (Some (length body), 1 + length v)"
      using r lv int_len_varlen [of "length body" 0 beyond "[MQTT_PUBLISH OR flags]" "take (k - 1 - length v) body" 0]
      by (simp add: mqtt_int_len_def v_def)
    then show ?thesis using k(3) by (simp add: bytes)
  qed
  moreover obtain rest where "mqtt_input s = (MQTT_PUBLISH OR flags) # rest"
    using k bytes by (cases k) simp_all
  moreover have "length (mqtt_input s) = k" using k by simp
  ultimately show ?thesis
    by (auto simp: handle_first_msg_def Let_def publish_first [OF ok(1)] split: prod.split option.split)
next
  case (Connack bs)
  then obtain cs where "mqtt_input s = MQTT_CONNACK # cs" "bs = cs @ later" "length bs = 3"
    using assms by (cases "mqtt_input s") (auto simp: packet_ok_def packet_bytes_def)
  then show ?thesis using assms(3) by (cases later) (auto simp: first_ack)
next
  case (Suback bs)
  then obtain cs where "mqtt_input s = MQTT_SUBACK # cs" "bs = cs @ later" "length bs = 4"
    using assms by (cases "mqtt_input s") (auto simp: packet_ok_def packet_bytes_def)
  then show ?thesis using assms(3) by (cases later) (auto simp: first_ack)
next
  case (Puback bs)
  then obtain cs where "mqtt_input s = MQTT_PUBACK # cs" "bs = cs @ later" "length bs = 3"
    using assms by (cases "mqtt_input s") (auto simp: packet_ok_def packet_bytes_def)
  then show ?thesis using assms(3) by (cases later) (auto simp: first_ack)
qed

text \<open>The published messages among packets, in order, and what they do.\<close>

fun published :: "packet list \<Rightarrow> (byte list \<times> byte list) list" where
  "published [] = []"
| "published (Publish flags topic pid payload # ps) = (topic, payload) # published ps"
| "published (p # ps) = published ps"

definition steps :: "(byte list \<Rightarrow> byte list \<Rightarrow> 'o \<Rightarrow> 'o) \<Rightarrow> packet list \<Rightarrow> 'o \<Rightarrow> 'o" where
  "steps step ps = fold (\<lambda>(topic, payload). step topic payload) (published ps)"

lemma published_append: "published (ps @ qs) = published ps @ published qs"
  by (induction ps rule: published.induct) simp_all

lemma steps_append: "steps step (ps @ qs) x = steps step qs (steps step ps x)"
  by (simp add: steps_def published_append)

lemma steps_Nil [simp]: "steps step [] x = x"
  by (simp add: steps_def)

text \<open>Chunks of bytes arrive, each at a time.\<close>

fun deliver_chunks ::
  "('z MQTTcomm_scheme) deliver_mqtt_msg \<Rightarrow> byte \<Rightarrow> (rat \<times> byte list) list \<Rightarrow> 'z MQTTcomm_scheme \<Rightarrow> 'z MQTTcomm_scheme option" where
  "deliver_chunks on_publish beyond [] s = Some s"
| "deliver_chunks on_publish beyond ((now, data) # chunks) s =
     Option.bind (MQTTcomm_deliver on_publish beyond now data s) (deliver_chunks on_publish beyond chunks)"

text \<open>The buffer does not hold a whole packet.\<close>

definition waiting :: "byte list \<Rightarrow> packet list \<Rightarrow> bool" where
  "waiting buf ps \<longleftrightarrow> (case ps of [] \<Rightarrow> buf = [] | p # _ \<Rightarrow> length buf < length (packet_bytes p))"

text \<open>The interface between the class and a subclass: in which states the subclass understands which messages, what is
  observed of its state, and what a message does to that.\<close>

locale mqtt_subclass =
  fixes on_publish :: "('z MQTTcomm_scheme) deliver_mqtt_msg"
    and inv :: "'z MQTTcomm_scheme \<Rightarrow> bool"
    and accepts :: "byte list \<Rightarrow> byte list \<Rightarrow> bool"
    and obs :: "'z MQTTcomm_scheme \<Rightarrow> 'o"
    and step :: "byte list \<Rightarrow> byte list \<Rightarrow> 'o \<Rightarrow> 'o"
  assumes handles: "inv s \<Longrightarrow> accepts topic payload \<Longrightarrow> length pid = 2 \<Longrightarrow>
      \<exists>s'. on_publish (pre @ topic @ pid @ payload @ rest) (length pre) (length topic)
          (length pre + length topic + 2) (int (length payload)) s = Some s' \<and> inv s' \<and> obs s' = step topic payload (obs s)"
    and inv_input: "inv (s\<lparr>mqtt_input := bs\<rparr>) = inv s"
    and inv_counts: "inv (s\<lparr>connack_count := i\<rparr>) = inv s" "inv (s\<lparr>suback_count := i\<rparr>) = inv s"
      "inv (s\<lparr>puback_count := i\<rparr>) = inv s"
    and obs_input: "obs (s\<lparr>mqtt_input := bs\<rparr>) = obs s"
    and obs_counts: "obs (s\<lparr>connack_count := i\<rparr>) = obs s" "obs (s\<lparr>suback_count := i\<rparr>) = obs s"
      "obs (s\<lparr>puback_count := i\<rparr>) = obs s"
begin

lemma packet_complete:
  assumes "packet_ok accepts p" "mqtt_input s = packet_bytes p @ rest" "inv s"
  shows "\<exists>s'. handle_first_msg on_publish beyond s = Some (True, s') \<and> mqtt_input s' = rest \<and> inv s' \<and> obs s' = steps step [p] (obs s)"
proof (cases p)
  case (Publish flags topic pid payload)
  define body where "body = publish_body topic pid payload"
  define v where "v = mqtt_varlen (length body)"
  have ok: "flags < 16" "length body < 2 ^ 28" "length topic < 2 ^ 16" "length pid = 2" "accepts topic payload"
    using assms(1) by (auto simp: packet_ok_def Publish body_def length_publish_body)
  have lb: "length body = 4 + length topic + length payload" by (simp add: body_def length_publish_body ok(4))
  have lv: "length v \<le> 4" using ok(2) varlen_length [of "length body" 3] by (simp add: v_def)
  obtain a b where ab: "be_enc 2 (word_of_nat (length topic) :: 16 word) = [a, b]" "unat a * 256 + unat b = length topic"
    using topic_length_bytes [OF ok(3)] by blast
  define pre where "pre = (MQTT_PUBLISH OR flags) # v @ [a, b]"
  have input: "mqtt_input s = pre @ topic @ pid @ payload @ rest"
    by (simp add: assms(2) packet_bytes_def Publish Let_def pre_def v_def body_def [symmetric])
      (simp add: body_def publish_body_def ab(1))
  have input': "mqtt_input s = [MQTT_PUBLISH OR flags] @ v @ body @ rest"
    using assms(2) by (simp add: packet_bytes_def Publish Let_def v_def body_def)
  have len: "mqtt_int_len beyond (mqtt_input s) = (Some (length body), 1 + length v)"
    unfolding input' using lv int_len_varlen [of "length body" 0 beyond "[MQTT_PUBLISH OR flags]" "body @ rest" 0]
    by (simp add: mqtt_int_len_def v_def)
  have lp: "length pre = 3 + length v" by (simp add: pre_def)
  have ch: "mqtt_input s ! (1 + length v) = a" "mqtt_input s ! (2 + length v) = b"
    by (simp_all add: input pre_def nth_append)
  obtain s' where s': "on_publish (mqtt_input s) (length pre) (length topic)
      (length pre + length topic + 2) (int (length payload)) s = Some s'" "inv s'" "obs s' = step topic payload (obs s)"
    using handles [OF assms(3) ok(5,4), of pre rest] input by auto
  have n: "length (mqtt_input s) = 5 + length v + length topic + length payload + length rest" using lp ok(4) by (simp add: input)
  have d: "drop (1 + length v + length body) (mqtt_input s) = rest" unfolding input' by simp
  have "handle_first_msg on_publish beyond s =
      map_option (\<lambda>s'. (True, s'\<lparr>mqtt_input := drop (1 + length v + length body) (mqtt_input s)\<rparr>))
     (on_publish (mqtt_input s) (1 + length v + 2) (length topic) (1 + length v + 2 + length topic + 2)
       (int (length body) - int (length topic) - 4) s)"
  proof (rule first_publish [of s "mqtt_input s" flags "v @ body @ rest" beyond "length body" "1 + length v" "length topic" on_publish])
    show "mqtt_input s = (MQTT_PUBLISH OR flags) # v @ body @ rest" using input' by simp
    show "1 + length v + length body \<le> length (mqtt_input s)" using n lb by simp
    show "1 + length v + 1 < length (mqtt_input s)" using n by simp
    show "length topic = unat (mqtt_input s ! (1 + length v)) * 256 + unat (mqtt_input s ! (1 + length v + 1))"
      using ab(2) ch by (simp add: numeral_2_eq_2)
  qed (rule refl ok(1) len)+
  also have "\<dots> = Some (True, s'\<lparr>mqtt_input := rest\<rparr>)"
    using s'(1) lp lb d by (simp add: numeral_3_eq_3)
  finally have "handle_first_msg on_publish beyond s = Some (True, s'\<lparr>mqtt_input := rest\<rparr>)" .
  then show ?thesis using s'(2,3) by (simp add: Publish inv_input obs_input steps_def)
qed (use assms in \<open>auto simp: packet_ok_def packet_bytes_def first_ack inv_input inv_counts obs_input obs_counts steps_def\<close>)

lemma loop_packets:
  assumes "mqtt_input s \<noteq> []" "\<forall>p \<in> set ps. packet_ok accepts p" "mqtt_input s @ rest = concat (map packet_bytes ps)" "inv s"
  shows "\<exists>s' don todo. mqtt_loop on_publish beyond s = Some s' \<and> ps = don @ todo \<and>
    mqtt_input s' @ rest = concat (map packet_bytes todo) \<and> waiting (mqtt_input s') todo \<and>
    inv s' \<and> obs s' = steps step don (obs s)"
  using assms
proof (induction ps arbitrary: s)
  case Nil
  then show ?case by simp
next
  case (Cons p ps)
  have ok: "packet_ok accepts p" using Cons.prems(2) by simp
  show ?case
  proof (cases "length (mqtt_input s) < length (packet_bytes p)")
    case True
    obtain later where "mqtt_input s @ later = packet_bytes p"
      using Cons.prems(3) True by (auto simp: append_eq_append_conv2)
    note later = this [symmetric]
    then have "later \<noteq> []" using True by auto
    then have "mqtt_loop on_publish beyond s = Some s"
      using packet_incomplete [OF ok later _ Cons.prems(1)] by (simp add: mqtt_loop.simps [of on_publish beyond s])
    then show ?thesis using Cons.prems(3,4) True
      by (intro exI [of _ s] exI [of _ "[]"] exI [of _ "p # ps"]) (simp add: waiting_def)
  next
    case False
    obtain us where "mqtt_input s = packet_bytes p @ us \<and> us @ rest = concat (map packet_bytes ps) \<or>
        mqtt_input s @ us = packet_bytes p \<and> rest = us @ concat (map packet_bytes ps)"
      using Cons.prems(3) by (auto simp: append_eq_append_conv2)
    moreover have "us = []" if "mqtt_input s @ us = packet_bytes p" using that [symmetric] False by simp
    ultimately obtain r where r: "mqtt_input s = packet_bytes p @ r" "r @ rest = concat (map packet_bytes ps)"
      using that [of us] that [of "[]"] by auto
    obtain s1 where s1: "handle_first_msg on_publish beyond s = Some (True, s1)" "mqtt_input s1 = r" "inv s1" "obs s1 = steps step [p] (obs s)"
      using packet_complete [OF ok r(1) Cons.prems(4)] by blast
    show ?thesis
    proof (cases "r = []")
      case True
      then have "mqtt_loop on_publish beyond s = Some s1" using s1 by (simp add: mqtt_loop.simps [of on_publish beyond s])
      moreover have "waiting [] ps" by (cases ps) (simp_all add: waiting_def)
      ultimately show ?thesis using s1(2-4) r(2) True
        by (intro exI [of _ s1] exI [of _ "[p]"] exI [of _ ps]) simp
    next
      case nonempty: False
      then have l: "mqtt_loop on_publish beyond s = mqtt_loop on_publish beyond s1" using s1 by (simp add: mqtt_loop.simps [of on_publish beyond s])
      have "mqtt_input s1 \<noteq> []" "\<forall>p \<in> set ps. packet_ok accepts p" "mqtt_input s1 @ rest = concat (map packet_bytes ps)" "inv s1"
        using nonempty s1(2,3) r(2) Cons.prems(2) by simp_all
      from Cons.IH [OF this] obtain s' don todo where ih: "mqtt_loop on_publish beyond s1 = Some s'" "ps = don @ todo"
        "mqtt_input s' @ rest = concat (map packet_bytes todo)" "waiting (mqtt_input s') todo" "inv s'" "obs s' = steps step don (obs s1)"
        by blast
      then have "obs s' = steps step (p # don) (obs s)" using s1(4) steps_append [of step "[p]" don] by simp
      then show ?thesis using l ih by (intro exI [of _ s'] exI [of _ "p # don"] exI [of _ todo]) simp
    qed
  qed
qed

lemma obs_acks: "obs (check_acks now s) = obs s" and inv_acks: "inv (check_acks now s) = inv s"
  by (simp_all add: check_acks_def Let_def obs_counts inv_counts)

lemma stream:
  assumes "\<forall>p \<in> set ps. packet_ok accepts p" "[] \<notin> set (map snd chunks)" "waiting (mqtt_input s) ps"
    and "mqtt_input s @ concat (map snd chunks) @ rest = concat (map packet_bytes ps)" "inv s"
  shows "\<exists>s' don todo. deliver_chunks on_publish beyond chunks s = Some s' \<and> ps = don @ todo \<and>
    mqtt_input s' @ rest = concat (map packet_bytes todo) \<and> waiting (mqtt_input s') todo \<and>
    inv s' \<and> obs s' = steps step don (obs s)"
  using assms
proof (induction chunks arbitrary: s ps)
  case Nil
  then show ?case by (intro exI [of _ s] exI [of _ "[]"] exI [of _ ps]) simp
next
  case (Cons c chunks)
  obtain now x where c: "c = (now, x)" by (cases c)
  let ?s = "s\<lparr>mqtt_input := mqtt_input s @ x\<rparr>"
  have "mqtt_input ?s \<noteq> []" "mqtt_input ?s @ concat (map snd chunks) @ rest = concat (map packet_bytes ps)" "inv ?s"
    using Cons.prems(2,4,5) c by (auto simp: inv_input)
  from loop_packets [OF this(1) Cons.prems(1) this(2,3), of beyond] obtain s1 don todo where s1:
    "mqtt_loop on_publish beyond ?s = Some s1" "ps = don @ todo"
    "mqtt_input s1 @ concat (map snd chunks) @ rest = concat (map packet_bytes todo)"
    "waiting (mqtt_input s1) todo" "inv s1" "obs s1 = steps step don (obs ?s)" by blast
  let ?s1 = "check_acks now s1"
  have i: "mqtt_input ?s1 = mqtt_input s1" by (simp add: check_acks_def Let_def)
  have "\<forall>p \<in> set todo. packet_ok accepts p" "[] \<notin> set (map snd chunks)" "waiting (mqtt_input ?s1) todo"
    "mqtt_input ?s1 @ concat (map snd chunks) @ rest = concat (map packet_bytes todo)" "inv ?s1"
    using Cons.prems(1,2) s1(2-5) i by (simp_all add: inv_acks)
  from Cons.IH [OF this] obtain s' don' todo' where s': "deliver_chunks on_publish beyond chunks ?s1 = Some s'" "todo = don' @ todo'"
    "mqtt_input s' @ rest = concat (map packet_bytes todo')" "waiting (mqtt_input s') todo'" "inv s'" "obs s' = steps step don' (obs ?s1)"
    by blast
  have "deliver_chunks on_publish beyond (c # chunks) s = Some s'" using s1(1) s'(1) by (simp add: c MQTTcomm_deliver_def)
  then show ?case using s1(2,6) s'
    by (intro exI [of _ s'] exI [of _ "don @ don'"] exI [of _ todo']) (simp add: steps_append obs_acks obs_input)
qed

end

section \<open>Publishing\<close>

definition topic_of :: "string \<Rightarrow> string \<Rightarrow> byte list" where
  "topic_of ens sub = bytes_of (''O2-'' @ ens @ ''/'' @ sub)"

text \<open>The packet that \<open>publish\<close> sends: the identifier counts even though the quality of service has none.\<close>

definition packet_to_publish :: "string \<Rightarrow> string \<Rightarrow> byte list \<Rightarrow> string \<Rightarrow> byte \<Rightarrow> 'z MQTTcomm_scheme \<Rightarrow> packet" where
  "packet_to_publish ens sub payload suffix retain s = Publish retain (topic_of ens sub)
     (be_enc 2 (word_of_int ((packet_id s + 1) mod 0x10000) :: 16 word)) (payload @ bytes_of suffix)"

lemma int16_bytes: "0 \<le> i \<Longrightarrow> i < 2 ^ 16 \<Longrightarrow> [word_of_int (i div 256), word_of_int (i mod 256)] = be_enc 2 (word_of_int i :: 16 word)"
proof -
  assume i: "0 \<le> i" "i < 2 ^ 16"
  define n where "n = nat i"
  have n: "i = int n" "n < 2 ^ 16" using i by (simp_all add: n_def)
  have u: "unat (word_of_nat n :: 16 word) = n" using n(2) by (simp add: unat_of_nat)
  have "unat (ucast (drop_bit 8 (word_of_nat n :: 16 word)) :: byte) = unat (word_of_nat (n div 256) :: byte)"
    using n(2) by (simp add: unsigned_ucast_eq unat_drop u take_bit_nat_def unat_of_nat)
  then have h: "ucast (drop_bit 8 (word_of_nat n :: 16 word)) = (word_of_nat (n div 256) :: byte)" by (simp only: word_unat_eq_iff)
  have "unat (ucast (word_of_nat n :: 16 word) :: byte) = unat (word_of_nat (n mod 256) :: byte)"
    using n(2) by (simp add: unsigned_ucast_eq u take_bit_nat_def unat_of_nat)
  then have l: "ucast (word_of_nat n :: 16 word) = (word_of_nat (n mod 256) :: byte)" by (simp only: word_unat_eq_iff)
  have "int n div 256 = int (n div 256)" "int n mod 256 = int (n mod 256)" by (simp_all add: zdiv_int zmod_int)
  then show ?thesis using h l by (simp add: n(1) be_enc_def numeral_2_eq_2)
qed

lemma append_int16:
  "0 \<le> i \<Longrightarrow> i < 2 ^ 16 \<Longrightarrow> mqtt_append_int16 i b = append_data (be_enc 2 (word_of_int i :: 16 word)) b"
  using int16_bytes [of i] by (simp add: mqtt_append_int16_def append_data_def)

lemma append_append_data: "append_data ys (append_data xs b) = append_data (xs @ ys) b"
  by (simp add: append_data_def)

lemma append_topic:
  "length (topic_of ens sub) < 2 ^ 16 \<Longrightarrow> mqtt_append_topic ens sub b =
   append_data (be_enc 2 (word_of_nat (length (topic_of ens sub)) :: 16 word) @ topic_of ens sub) b"
  by (simp add: mqtt_append_topic_def append_int16 append_append_data topic_of_def Let_def add.assoc)

lemma start_idle: "\<not> building_message_lock b \<Longrightarrow> msg_data (snd (o2_send_start b)) = [] \<and> building_message_lock (snd (o2_send_start b))"
  by (simp add: o2_send_start_def)

lemma publish_sends:
  assumes "\<not> building_message_lock (scratch s)" "length (topic_of ens sub) < 2 ^ 16"
    and "4 + length (topic_of ens sub) + length payload + length suffix < 2 ^ 28"
  obtains b where "building_message_lock b"
    "MQTTcomm_publish msg_send ens sub payload suffix retain block s =
       Some (msg_send (packet_bytes (packet_to_publish ens sub payload suffix retain s)) block
         (s\<lparr>packet_id := (packet_id s + 1) mod 0x10000, scratch := b\<rparr>))"
proof -
  let ?pid = "(packet_id s + 1) mod 0x10000"
  define b0 where "b0 = snd (o2_send_start (scratch s))"
  have b0: "msg_data b0 = []" "building_message_lock b0" using start_idle [OF assms(1)] by (simp_all add: b0_def)
  define topic where "topic = topic_of ens sub"
  have lt: "length topic = 4 + length ens + length sub" by (simp add: topic_def topic_of_def)
  define tb where "tb = be_enc 2 (word_of_nat (length topic) :: 16 word) @ topic"
  define pb where "pb = be_enc 2 (word_of_int ?pid :: 16 word)"
  have lb: "length tb = 2 + length topic" "length pb = 2" by (simp_all add: tb_def pb_def be_enc_def)
  have t: "mqtt_append_topic ens sub b0 = append_data tb b0"
    using append_topic [OF assms(2)] by (simp add: tb_def topic_def)
  have p: "mqtt_append_int16 ?pid b = append_data pb b" for b
    unfolding pb_def by (intro append_int16) simp_all
  define b where "b = append_data (tb @ pb @ payload @ bytes_of suffix) b0"
  have md: "msg_data b = tb @ pb @ payload @ bytes_of suffix" by (simp add: b_def append_data_def b0(1))
  have body: "publish_body topic pb (payload @ bytes_of suffix) = msg_data b"
    by (simp add: publish_body_def md tb_def)
  have "length (msg_data b) < 128 ^ 4" using assms(3) by (simp add: md lb topic_def)
  then have v: "\<not> length (mqtt_varlen (length (msg_data b))) > 4" using varlen_length [of _ 3] by (simp add: not_less)
  have "MQTTcomm_publish msg_send ens sub payload suffix retain block s =
      map_option (\<lambda>msg. msg_send msg block (s\<lparr>packet_id := ?pid, scratch := b\<rparr>)) (mqtt_finish_msg (MQTT_PUBLISH OR retain) b)"
    unfolding MQTTcomm_publish_def b0_def [symmetric] Let_def t p mqtt_append_bytes_def
    by (simp add: append_append_data b_def) (simp add: append_data_def b0(1) lb lt)
  also have "mqtt_finish_msg (MQTT_PUBLISH OR retain) b = Some (packet_bytes (packet_to_publish ens sub payload suffix retain s))"
    using v body by (simp add: mqtt_finish_msg_def Let_def packet_bytes_def packet_to_publish_def topic_def pb_def)
  finally have "MQTTcomm_publish msg_send ens sub payload suffix retain block s =
      Some (msg_send (packet_bytes (packet_to_publish ens sub payload suffix retain s)) block
        (s\<lparr>packet_id := ?pid, scratch := b\<rparr>))" by simp
  moreover have "building_message_lock b" by (simp add: b_def append_data_def b0(2))
  ultimately show ?thesis using that by blast
qed

end
