(* ===== verification/Names.thy ===== *)
theory Names
  imports Numerals
begin

text \<open>
  Names of processes, which hold their addresses, and version numbers: src/src/hostipimpl.h, \<open>o2_parse_name\<close>
  (src/src/discovery.cpp), the validation of names that discovery services report (src/src/o2zcdisc.cpp) and the version text
  (src/src/o2.cpp).
\<close>

section \<open>Hexadecimal text\<close>

definition hex_to_nibble :: "char \<Rightarrow> nat" where
  "hex_to_nibble c =
     (if is_digit c then of_char c - of_char CHR ''0''
      else if c \<in> set ''ABCDEF'' then of_char c - of_char CHR ''A'' + 10
      else if c \<in> set ''abcdef'' then of_char c - of_char CHR ''a'' + 10
      else 0)"

text \<open>The two characters at the pointer, which may be the rest of a longer text.\<close>

definition o2_hex_to_byte :: "string \<Rightarrow> nat" where
  "o2_hex_to_byte hex = hex_to_nibble (hex ! 0) * 16 + hex_to_nibble (hex ! 1)"

definition o2_hex_to_int :: "string \<Rightarrow> 32 word" where
  "o2_hex_to_int hex = foldl (\<lambda>i h. i * 16 + word_of_nat (hex_to_nibble h)) 0 hex"

definition o2_hex_to_dot :: "string \<Rightarrow> string" where
  "o2_hex_to_dot hex =
     (let i1 = o2_hex_to_byte hex; i2 = o2_hex_to_byte (drop 2 hex); i3 = o2_hex_to_byte (drop 4 hex);
          i4 = o2_hex_to_byte (drop 6 hex) in
      show_nat i1 @ ''.'' @ show_nat i2 @ ''.'' @ show_nat i3 @ ''.'' @ show_nat i4)"

section \<open>Names of processes\<close>

abbreviation (input) O2N_IP_LEN :: nat where "O2N_IP_LEN \<equiv> 16"
abbreviation (input) O2_MAX_PROCNAME_LEN :: nat where "O2_MAX_PROCNAME_LEN \<equiv> 32"

definition strchr :: "string \<Rightarrow> char \<Rightarrow> nat option" where
  "strchr s c = (let k = length (takeWhile (\<lambda>d. d \<noteq> c) s) in if k < length s then Some k else None)"

definition o2_strcpy :: "string \<Rightarrow> nat \<Rightarrow> string" where
  "o2_strcpy src dstsize = take (dstsize - 1) src"

text \<open>\<open>None\<close> is \<open>O2_FAIL\<close>.\<close>

definition o2_parse_name :: "string \<Rightarrow> (string \<times> string \<times> 32 word) option" where
  "o2_parse_name name =
     (if name = [] \<or> hd name \<noteq> CHR ''@'' then None
      else case strchr name CHR '':'' of
        None \<Rightarrow> None
      | Some colon \<Rightarrow>
          if colon > O2N_IP_LEN - 1 then None
          else let public_ip = o2_strcpy (tl name) colon; rest = drop (colon + 1) name in
            (case strchr rest CHR '':'' of
               None \<Rightarrow> None
             | Some colon2 \<Rightarrow>
                 if colon2 > O2N_IP_LEN - 1 then None
                 else Some (public_ip, o2_strcpy rest (colon2 + 1), o2_hex_to_int (drop (colon2 + 1) rest))))"

text \<open>\<open>snprintf\<close> with the format \<open>@%s:%s:%04x\<close> into a buffer for names.\<close>

definition proc_name :: "string \<Rightarrow> string \<Rightarrow> 32 word \<Rightarrow> string" where
  "proc_name public_ip internal_ip tcp_port =
     take (O2_MAX_PROCNAME_LEN - 1) (''@'' @ public_ip @ '':'' @ internal_ip @ '':'' @ hex_format 4 (unat tcp_port))"

text \<open>Characters \<open>k\<close> and following of the name; the name is as long as it must be when this is called.\<close>

definition check_hex :: "string \<Rightarrow> nat \<Rightarrow> bool" where
  "check_hex addr len = (\<forall>c \<in> set (take len addr). c \<in> set ''0123456789'' \<or> c \<in> set ''abcdef'')"

text \<open>A valid name: without its last part, with the internal address and the UDP port.\<close>

definition is_valid_proc_name :: "string \<Rightarrow> int \<Rightarrow> (string \<times> string \<times> int) option" where
  "is_valid_proc_name name port =
     (if length name \<noteq> 28 then None
      else if name ! 0 \<noteq> CHR ''@'' then None
      else if \<not> check_hex (drop 1 name) 8 then None
      else if name ! 9 \<noteq> CHR '':'' then None
      else if \<not> check_hex (drop 10 name) 8 then None
      else if name ! 18 \<noteq> CHR '':'' then None
      else let internal_ip = o2_strcpy (drop 10 name) 9 in
        if \<not> check_hex (drop 19 name) 4 then None
        else let tcp_port = o2_hex_to_byte (drop 19 name) * 256 + o2_hex_to_byte (drop 21 name) in
          if int tcp_port \<noteq> port then None
          else if name ! 23 \<noteq> CHR '':'' then None
          else if \<not> check_hex (drop 24 name) 4 then None
          else let udp_port = o2_hex_to_byte (drop 24 name) * 256 + o2_hex_to_byte (drop 26 name) in
            Some (take 23 name, internal_ip, int udp_port))"

section \<open>Versions\<close>

abbreviation (input) O2_VERSION :: nat where "O2_VERSION \<equiv> 0x020001"

definition o2_version :: string where
  "o2_version = show_nat (O2_VERSION div 2 ^ 16 mod 256) @ ''.'' @ show_nat (O2_VERSION div 2 ^ 8 mod 256) @ ''.'' @
     show_nat (O2_VERSION mod 256)"

text \<open>The loop, with the version so far, the shift and the field so far.\<close>

fun parse_version :: "string \<Rightarrow> nat \<Rightarrow> int \<Rightarrow> nat \<Rightarrow> nat" where
  "parse_version [] version shift field = version + field * 2 ^ nat shift"
| "parse_version (c # vers) version shift field =
     (if is_digit c then
        let field = field * 10 + (of_char c - of_char CHR ''0'') in
        if field > 255 then 0 else parse_version vers version shift field
      else if c = CHR ''.'' then
        let version = version + field * 2 ^ nat shift; shift = shift - 8 in
        if shift < 0 then 0 else parse_version vers version shift 0
      else parse_version vers version shift field)"

definition o2_parse_version :: "string \<Rightarrow> nat" where
  "o2_parse_version vers = parse_version vers 0 16 0"

section \<open>Reading what was written\<close>

definition lower_hex :: "char \<Rightarrow> bool" where
  "lower_hex c \<longleftrightarrow> c \<in> set ''0123456789'' \<or> c \<in> set ''abcdef''"

lemma hex_digits:
  "\<forall>n \<in> set [0..<16]. hex_to_nibble (hex_digit n) = n \<and> lower_hex (hex_digit n)"
  "\<forall>c \<in> set ''0123456789abcdef''. hex_digit (hex_to_nibble c) = c \<and> hex_to_nibble c < 16"
  by code_simp+

lemma nibble_hex_digit: "n < 16 \<Longrightarrow> hex_to_nibble (hex_digit n) = n"
  using hex_digits(1) by simp

lemma lower_hex_digit: "n < 16 \<Longrightarrow> lower_hex (hex_digit n)"
  using hex_digits(1) by simp

lemma hex_digit_nibble:
  assumes "lower_hex c"
  shows "hex_digit (hex_to_nibble c) = c" "hex_to_nibble c < 16"
proof -
  have "set ''0123456789abcdef'' = set ''0123456789'' \<union> set ''abcdef''" by (simp only: set_append [symmetric] append.simps)
  then have "c \<in> set ''0123456789abcdef''" using assms unfolding lower_hex_def by blast
  with hex_digits(2) have "hex_digit (hex_to_nibble c) = c \<and> hex_to_nibble c < 16" by (rule bspec)
  then show "hex_digit (hex_to_nibble c) = c" "hex_to_nibble c < 16" by simp_all
qed

lemma lower_hex_0: "lower_hex CHR ''0''"
  by (simp add: lower_hex_def)

definition hex_value :: "string \<Rightarrow> nat" where
  "hex_value s = foldl (\<lambda>i h. i * 16 + hex_to_nibble h) 0 s"

lemma hex_value_snoc [simp]: "hex_value [] = 0" "hex_value (s @ [c]) = hex_value s * 16 + hex_to_nibble c"
  by (simp_all add: hex_value_def)

lemma hex_to_int_value: "o2_hex_to_int s = word_of_nat (hex_value s)"
  by (induction s rule: rev_induct) (simp_all add: o2_hex_to_int_def)

lemma hex_value_show: "hex_value (show_hex n) = n"
proof (induction n rule: show_hex.induct)
  case (1 n)
  then show ?case
    using hex_value_snoc(2) [of "[]"] by (subst show_hex.simps) (auto simp: nibble_hex_digit)
qed

lemma hex_value_zeros: "hex_value (replicate k CHR ''0'' @ s) = hex_value s"
  by (induction k) (simp_all add: hex_value_def hex_to_nibble_def is_digit_def)

lemma hex_value_format: "hex_value (hex_format k n) = n"
  by (simp add: hex_format_def Let_def hex_value_zeros hex_value_show)

lemma hex_int_format: "unat (w :: 32 word) = n \<Longrightarrow> o2_hex_to_int (hex_format k n) = w"
  by (auto simp: hex_to_int_value hex_value_format)

lemma show_hex_lower: "c \<in> set (show_hex n) \<Longrightarrow> lower_hex c"
proof (induction n rule: show_hex.induct)
  case (1 n)
  then show ?case using lower_hex_digit [of n] lower_hex_digit [of "n mod 16"]
    by (subst (asm) (2) show_hex.simps) (auto split: if_splits)
qed

lemma length_show_hex: "n < 16 ^ Suc k \<Longrightarrow> length (show_hex n) \<le> Suc k"
proof (induction k arbitrary: n)
  case 0
  then show ?case by (subst show_hex.simps) simp
next
  case (Suc k)
  then have "n div 16 < 16 ^ Suc k" by (simp add: div_less_iff_less_mult)
  from Suc.IH [OF this] show ?case by (subst show_hex.simps) simp
qed

lemma hex_format_lower: "c \<in> set (hex_format k n) \<Longrightarrow> lower_hex c"
  using show_hex_lower [of c n] by (auto simp: hex_format_def Let_def lower_hex_0)

lemma length_hex4: "n < 2 ^ 16 \<Longrightarrow> length (hex_format 4 n) = 4"
  using length_show_hex [of n 3] by (simp add: hex_format_def Let_def)

lemma hex_value_bound: "\<forall>c \<in> set s. lower_hex c \<Longrightarrow> hex_value s < 16 ^ length s"
proof (induction s rule: rev_induct)
  case (snoc c s)
  then show ?case using hex_digit_nibble(2) [of c] by simp
qed simp

lemma show_hex_value:
  "\<forall>c \<in> set s. lower_hex c \<Longrightarrow> s \<noteq> [] \<Longrightarrow>
   \<exists>k. s = replicate k CHR ''0'' @ show_hex (hex_value s)"
proof (induction s rule: rev_induct)
  case (snoc c s)
  have c: "hex_to_nibble c < 16" "hex_digit (hex_to_nibble c) = c" using snoc.prems hex_digit_nibble by auto
  show ?case
  proof (cases "s = []")
    case True
    then show ?thesis using c hex_value_snoc(2) [of "[]"] by (intro exI [of _ 0]) (subst show_hex.simps, simp)
  next
    case False
    then obtain k where k: "s = replicate k CHR ''0'' @ show_hex (hex_value s)" using snoc by auto
    show ?thesis
    proof (cases "hex_value s = 0")
      case True
      then have "s = replicate (Suc k) CHR ''0''" using k
        by (simp add: show_hex.simps [of 0] hex_digit_def replicate_append_same [symmetric])
      then show ?thesis using True c
        by (intro exI [of _ "Suc k"]) (simp only: hex_value_snoc True, simp add: show_hex.simps [of "hex_to_nibble c"])
    next
      case nz: False
      have "show_hex (hex_value (s @ [c])) = show_hex (hex_value s) @ [c]"
        using nz c by (subst show_hex.simps) (simp add: div_add1_eq)
      then show ?thesis using k by (intro exI [of _ k]) (metis append.assoc)
    qed
  qed
qed simp

lemma format_hex_value: "\<forall>c \<in> set s. lower_hex c \<Longrightarrow> s \<noteq> [] \<Longrightarrow> hex_format (length s) (hex_value s) = s"
proof -
  assume "\<forall>c \<in> set s. lower_hex c" "s \<noteq> []"
  then obtain k where k: "s = replicate k CHR ''0'' @ show_hex (hex_value s)" using show_hex_value by blast
  then have "length s - length (show_hex (hex_value s)) = k" by (metis diff_add_inverse2 length_append length_replicate)
  then show ?thesis using k by (simp add: hex_format_def Let_def)
qed

lemma length_proc_name:
  "length pip = 8 \<Longrightarrow> length iip = 8 \<Longrightarrow> unat port < 2 ^ 16 \<Longrightarrow>
   proc_name pip iip port = ''@'' @ pip @ '':'' @ iip @ '':'' @ hex_format 4 (unat port)"
  by (simp add: proc_name_def length_hex4)

lemma takeWhile_until: "c \<notin> set s \<Longrightarrow> takeWhile (\<lambda>d. d \<noteq> c) (s @ c # t) = s"
  by (induction s) auto

lemma strchr_until: "c \<notin> set s \<Longrightarrow> strchr (s @ c # t) c = Some (length s)"
  by (simp add: strchr_def takeWhile_until)

lemma parse_proc_name:
  assumes "length pip = 8" "length iip = 8" "CHR '':'' \<notin> set pip" "CHR '':'' \<notin> set iip" "unat port < 2 ^ 16"
  shows "o2_parse_name (proc_name pip iip port) = Some (pip, iip, port)"
proof -
  let ?p = "hex_format 4 (unat port)"
  have n: "proc_name pip iip port = (CHR ''@'' # pip) @ CHR '':'' # iip @ CHR '':'' # ?p"
    using length_proc_name [OF assms(1,2,5)] by simp
  have c: "strchr (proc_name pip iip port) CHR '':'' = Some 9"
    unfolding n by (subst strchr_until) (use assms in auto)
  have c2: "strchr (iip @ CHR '':'' # ?p) CHR '':'' = Some 8"
    by (subst strchr_until) (use assms in auto)
  have d: "drop (9 + 1) (proc_name pip iip port) = iip @ CHR '':'' # ?p" using assms(1) by (simp add: n)
  have t: "o2_strcpy (tl (proc_name pip iip port)) 9 = pip" "o2_strcpy (iip @ CHR '':'' # ?p) (8 + 1) = iip"
    "drop (8 + 1) (iip @ CHR '':'' # ?p) = ?p"
    using assms(1,2) by (simp_all add: n o2_strcpy_def)
  have h: "proc_name pip iip port \<noteq> []" "hd (proc_name pip iip port) = CHR ''@''" by (simp_all add: n)
  show ?thesis
    unfolding o2_parse_name_def c option.case Let_def d c2 t hex_int_format [OF refl] using h by simp
qed

definition hex8 :: "string \<Rightarrow> bool" where
  "hex8 s \<longleftrightarrow> length s = 8 \<and> (\<forall>c \<in> set s. lower_hex c)"

lemma check_hex_lower: "check_hex s n \<longleftrightarrow> (\<forall>c \<in> set (take n s). lower_hex c)"
  by (simp add: check_hex_def lower_hex_def)

lemma hex_bytes_value: "length t = 4 \<Longrightarrow> o2_hex_to_byte (t @ r) * 256 + o2_hex_to_byte (drop 2 t @ r) = hex_value t"
proof -
  assume "length t = 4"
  then obtain a b c d where "t = [a, b, c, d]" by (auto simp: length_Suc_conv eval_nat_numeral)
  then show ?thesis by (simp add: o2_hex_to_byte_def hex_value_def)
qed

lemma split_name:
  assumes "length name = 28"
  obtains pip iip p4 u4 where
    "name = [name ! 0] @ pip @ [name ! 9] @ iip @ [name ! 18] @ p4 @ [name ! 23] @ u4"
    "length pip = 8" "length iip = 8" "length p4 = 4" "length u4 = 4"
proof
  have s: "drop k name = take n (drop k name) @ [name ! (k + n)] @ drop (k + n + 1) name" if "k + n < 28" for k n
    using that assms id_take_nth_drop [of n "drop k name"] by (simp add: add.commute)
  have "name = take 0 name @ [name ! 0] @ drop 1 name" using s [of 0 0] by simp
  then show "name = [name ! 0] @ take 8 (drop 1 name) @ [name ! 9] @ take 8 (drop 10 name) @ [name ! 18] @
      take 4 (drop 19 name) @ [name ! 23] @ drop 24 name"
    using s [of 1 8] s [of 10 8] s [of 19 4] by simp
qed (use assms in simp_all)

lemma valid_named:
  assumes "hex8 pip" "hex8 iip" "length p4 = 4" "\<forall>c \<in> set p4. lower_hex c" "length u4 = 4" "\<forall>c \<in> set u4. lower_hex c"
    and "name = ''@'' @ pip @ '':'' @ iip @ '':'' @ p4 @ '':'' @ u4"
  shows "is_valid_proc_name name port =
    (if int (hex_value p4) = port then Some (''@'' @ pip @ '':'' @ iip @ '':'' @ p4, iip, int (hex_value u4)) else None)"
proof -
  have l: "length pip = 8" "length iip = 8" using assms by (simp_all add: hex8_def)
  have n: "name ! 0 = CHR ''@''" "name ! 9 = CHR '':''" "name ! 18 = CHR '':''" "name ! 23 = CHR '':''" "length name = 28"
    using l assms(3,5) by (simp_all add: assms(7) nth_append)
  have d: "drop 1 name = pip @ '':'' @ iip @ '':'' @ p4 @ '':'' @ u4" "drop 10 name = iip @ '':'' @ p4 @ '':'' @ u4"
    "drop 19 name = p4 @ '':'' @ u4" "drop 21 name = drop 2 p4 @ '':'' @ u4" "drop 24 name = u4 @ []" "drop 26 name = drop 2 u4 @ []"
    using l assms(3,5) by (simp_all add: assms(7))
  have c: "check_hex (drop 1 name) 8" "check_hex (drop 10 name) 8" "check_hex (drop 19 name) 4" "check_hex (drop 24 name) 4"
    unfolding d check_hex_lower using assms l by (simp_all add: hex8_def)
  have v: "o2_hex_to_byte (drop 19 name) * 256 + o2_hex_to_byte (drop 21 name) = hex_value p4"
    "o2_hex_to_byte (drop 24 name) * 256 + o2_hex_to_byte (drop 26 name) = hex_value u4"
    unfolding d using hex_bytes_value [OF assms(3), of "'':'' @ u4"] hex_bytes_value [OF assms(5), of "[]"] by simp_all
  have t: "take 23 name = ''@'' @ pip @ '':'' @ iip @ '':'' @ p4" "o2_strcpy (drop 10 name) 9 = iip"
    using l assms(3) by (simp_all add: assms(7) o2_strcpy_def)
  show ?thesis
    unfolding is_valid_proc_name_def Let_def v t using n c by simp
qed

text \<open>C17: names that a discovery service reports are taken exactly when they are well-formed: an at sign, two addresses of
  eight lower case hexadecimal digits, the TCP port that was reported with the name, and a UDP port; then
  the process gets the name it gives itself, and the address and the UDP port are those in it.\<close>

theorem valid_proc_name_iff:
  "is_valid_proc_name name port = Some (n, iip, udp) \<longleftrightarrow>
   (\<exists>pip tcp udp_port. hex8 pip \<and> hex8 iip \<and> unat tcp < 2 ^ 16 \<and> udp_port < 2 ^ 16 \<and>
      port = int (unat tcp) \<and> udp = int udp_port \<and> n = proc_name pip iip tcp \<and> name = n @ '':'' @ hex_format 4 udp_port)"
  (is "?valid \<longleftrightarrow> ?form")
proof
  assume ?form
  then obtain pip tcp udp_port where f: "hex8 pip" "hex8 iip" "unat tcp < 2 ^ 16" "udp_port < 2 ^ 16" "port = int (unat tcp)"
    "udp = int udp_port" "n = proc_name pip iip tcp" "name = n @ '':'' @ hex_format 4 udp_port" by blast
  have n: "n = ''@'' @ pip @ '':'' @ iip @ '':'' @ hex_format 4 (unat tcp)"
    using length_proc_name [of pip iip tcp] f by (simp add: hex8_def)
  have e: "name = ''@'' @ pip @ '':'' @ iip @ '':'' @ hex_format 4 (unat tcp) @ '':'' @ hex_format 4 udp_port"
    using f(8) n by simp
  have "\<forall>c \<in> set (hex_format 4 (unat tcp)). lower_hex c" "\<forall>c \<in> set (hex_format 4 udp_port). lower_hex c"
    using hex_format_lower by blast+
  from valid_named [OF f(1,2) length_hex4 [OF f(3)] this(1) length_hex4 [OF f(4)] this(2) e, of port]
  show ?valid using f(5,6) n by (simp add: hex_value_format)
next
  assume v: ?valid
  have l: "length name = 28" using v by (simp add: is_valid_proc_name_def split: if_splits)
  obtain pip iip' p4 u4 where s: "name = [name ! 0] @ pip @ [name ! 9] @ iip' @ [name ! 18] @ p4 @ [name ! 23] @ u4"
    "length pip = 8" "length iip' = 8" "length p4 = 4" "length u4 = 4" by (rule split_name [OF l])
  have n: "name ! 0 = CHR ''@''" "name ! 9 = CHR '':''" "name ! 18 = CHR '':''" "name ! 23 = CHR '':''"
    and c: "check_hex (drop 1 name) 8" "check_hex (drop 10 name) 8" "check_hex (drop 19 name) 4" "check_hex (drop 24 name) 4"
    using v by (simp_all add: is_valid_proc_name_def Let_def split: if_splits)
  have e: "name = ''@'' @ pip @ '':'' @ iip' @ '':'' @ p4 @ '':'' @ u4" using s(1) unfolding n by simp
  have d: "take 8 (drop 1 name) = pip" "take 8 (drop 10 name) = iip'" "take 4 (drop 19 name) = p4" "take 4 (drop 24 name) = u4"
    using s(2-5) by (simp_all add: e)
  have h: "hex8 pip" "hex8 iip'" "\<forall>c \<in> set p4. lower_hex c" "\<forall>c \<in> set u4. lower_hex c"
    using c unfolding check_hex_lower d by (simp_all add: hex8_def s(2,3))
  have r: "int (hex_value p4) = port" "n = ''@'' @ pip @ '':'' @ iip' @ '':'' @ p4" "iip = iip'" "udp = int (hex_value u4)"
    using v valid_named [OF h(1,2) s(4) h(3) s(5) h(4) e, of port] by (auto split: if_splits)
  have b: "hex_value p4 < 2 ^ 16" "hex_value u4 < 2 ^ 16"
    using hex_value_bound [OF h(3)] hex_value_bound [OF h(4)] s(4,5) by simp_all
  have p: "hex_format 4 (hex_value p4) = p4" "hex_format 4 (hex_value u4) = u4"
    using format_hex_value [OF h(3)] format_hex_value [OF h(4)] s(4,5) by force+
  have u: "unat (word_of_nat (hex_value p4) :: 32 word) = hex_value p4" using b(1) by (simp add: unat_of_nat)
  have "n = proc_name pip iip' (word_of_nat (hex_value p4))"
    using length_proc_name [OF s(2,3), of "word_of_nat (hex_value p4)"] b(1) r(2) by (simp add: u p)
  then show ?form using h b r e p u
    by (intro exI [of _ pip] exI [of _ "word_of_nat (hex_value p4)"] exI [of _ "hex_value u4"]) simp
qed

definition next_field :: "nat \<Rightarrow> char \<Rightarrow> nat" where
  "next_field field c = field * 10 + (of_char c - of_char CHR ''0'')"

lemma fields_grow: "field \<le> foldl next_field field ds"
proof (induction ds arbitrary: field)
  case (Cons c ds)
  have "field \<le> next_field field c" by (simp add: next_field_def)
  also have "\<dots> \<le> foldl next_field (next_field field c) ds" by (rule Cons.IH)
  finally show ?case by simp
qed simp

lemma parse_version_digits:
  "\<forall>c \<in> set ds. is_digit c \<Longrightarrow> foldl next_field field ds \<le> 255 \<Longrightarrow>
   parse_version (ds @ rest) version shift field = parse_version rest version shift (foldl next_field field ds)"
proof (induction ds arbitrary: field)
  case (Cons c ds)
  then have "next_field field c \<le> 255" using fields_grow [of "next_field field c" ds] by simp
  then show ?case using Cons by (simp add: next_field_def)
qed simp

lemma value_show_nat: "foldl next_field 0 (show_nat n) = n"
proof (induction n rule: show_nat.induct)
  case (1 n)
  have "\<forall>m \<in> set [0..<10]. next_field 0 (digit m) = m" by code_simp
  then have d: "m < 10 \<Longrightarrow> next_field f (digit m) = f * 10 + m" for f m
    by (simp add: next_field_def)
  show ?case using 1 d [of n 0] d [of "n mod 10" "n div 10"] by (subst show_nat.simps) auto
qed

lemma parse_version_field:
  "n \<le> 255 \<Longrightarrow> parse_version (show_nat n @ rest) version shift 0 = parse_version rest version shift n"
  using parse_version_digits [of "show_nat n" 0 rest version shift] show_nat_digits [of n] by (simp add: value_show_nat)

lemma parse_version_written:
  assumes "a \<le> 255" "b \<le> 255" "c \<le> 255"
  shows "o2_parse_version (show_nat a @ ''.'' @ show_nat b @ ''.'' @ show_nat c) = a * 2 ^ 16 + b * 2 ^ 8 + c"
  using assms parse_version_field [of c "[]"]
  by (simp add: o2_parse_version_def parse_version_field is_digit_def Let_def)

lemma own_version_parsed: "o2_parse_version o2_version = O2_VERSION"
  unfolding o2_version_def by (subst parse_version_written) simp_all

text \<open>Errors in the text are not always noticed: other characters are skipped, so \<open>2x3.0\<close> is version 23.\<close>

lemma bad_version_parsed: "o2_parse_version ''2x3.0'' = 23 * 2 ^ 16"
  by (simp add: o2_parse_version_def is_digit_def Let_def)

end
