(* ===== verification/Discovery.thy ===== *)
theory Discovery
  imports Services Extract Endian Names
begin

text \<open>
  Finding other processes and telling them about services (src/src/discovery.cpp, the notifications of src/src/o2.cpp, the
  announcement of synchronization in src/src/clock.cpp, \<open>create_tcp_proc\<close> in src/src/processes.cpp). The state holds the directory of
  \<open>Services\<close>, where proxies are numbers. Whether a connection can be made, what sending returns and what new memory holds
  is an argument. \<open>None\<close>: a null pointer or a deleted object is used.
\<close>

section \<open>State\<close>

datatype hub_type = O2_NOT_HUB | O2_BE_MY_HUB | O2_HUB_CALL_ME_BACK | O2_I_AM_HUB | O2_HUB_REMOTE

datatype disc_event =
    Tcp_client nat string "32 word"
  | Sent nat O2message
  | Socket_closed nat
  | Proxy_deleted nat
  | Broadcast nat O2message
  | Udp_local nat O2message
  | Udp_server nat
  | Tcp_server nat
  | Scheduled rat O2message

text \<open>\<open>connections\<close> are the owners of the sockets, in the order of the table of sockets.\<close>

record discovery =
  ctx :: O2_context
  ensemble_name :: string
  o2n_public_ip :: string
  o2n_internal_ip :: string
  tcp_port :: "32 word"
  udp_address :: "nat \<Rightarrow> string \<times> 32 word"
  message_source :: "nat option"
  next_proxy :: nat
  connections :: "nat list"
  o2_mqtt_procs :: "nat list"
  uses_hub :: "nat \<Rightarrow> hub_type"
  o2_hub_addr :: string
  clock_synchronized :: bool
  building :: builder
  extracting :: extraction
  happened :: "disc_event list"

record disc_env =
  connects :: "string \<Rightarrow> 32 word \<Rightarrow> bool"
  send_outcome :: "nat \<Rightarrow> O2message \<Rightarrow> O2err"
  udp_init :: "string \<Rightarrow> 32 word \<Rightarrow> O2err"
  junk :: "nat \<Rightarrow> byte"
  new_status :: int

abbreviation (input) O2_DY_INFO :: "32 word" where "O2_DY_INFO \<equiv> 50"
abbreviation (input) O2_DY_HUB :: "32 word" where "O2_DY_HUB \<equiv> 51"
abbreviation (input) O2_DY_REPLY :: "32 word" where "O2_DY_REPLY \<equiv> 52"
abbreviation (input) O2_DY_CALLBACK :: "32 word" where "O2_DY_CALLBACK \<equiv> 53"
abbreviation (input) O2_DY_CONNECT :: "32 word" where "O2_DY_CONNECT \<equiv> 54"

definition happen :: "disc_event \<Rightarrow> discovery \<Rightarrow> discovery" where
  "happen e d = d\<lparr>happened := happened d @ [e]\<rparr>"

abbreviation proxy :: "nat \<Rightarrow> discovery \<Rightarrow> Proxy_info" where
  "proxy p d \<equiv> proxies (ctx d) p"

definition set_proxy :: "nat \<Rightarrow> Proxy_info \<Rightarrow> discovery \<Rightarrow> discovery" where
  "set_proxy p i d = d\<lparr>ctx := (ctx d)\<lparr>proxies := (proxies (ctx d))(p := i)\<rparr>\<rparr>"

abbreviation own_name :: "discovery \<Rightarrow> string" where
  "own_name d \<equiv> key (proxy local_proc d)"

section \<open>Making and sending messages\<close>

text \<open>\<open>err = a || b || \<dots>\<close>: the arguments are added until one cannot be.\<close>

fun add_until_error :: "O2arg list \<Rightarrow> builder \<Rightarrow> bool \<times> builder" where
  "add_until_error [] b = (True, b)"
| "add_until_error (a # as) b =
     (case add_arg a b of (e, b) \<Rightarrow> if e \<noteq> O2_SUCCESS then (False, b) else add_until_error as b)"

definition dy_args :: "discovery \<Rightarrow> string \<Rightarrow> string \<Rightarrow> 32 word \<Rightarrow> 32 word \<Rightarrow> 32 word \<Rightarrow> O2arg list" where
  "dy_args d public_ip internal_ip tcp udp dy_flag =
     [String (ensemble_name d), Int32 (of_nat O2_VERSION), String public_ip, String internal_ip, Int32 tcp, Int32 udp, Int32 dy_flag]"

text \<open>\<open>None\<close> is the null pointer. The own addresses are used only while the own socket is open.\<close>

definition o2_make_dy_msg :: "disc_env \<Rightarrow> nat \<Rightarrow> bool \<Rightarrow> bool \<Rightarrow> 32 word \<Rightarrow> discovery \<Rightarrow> O2message option \<times> discovery" where
  "o2_make_dy_msg env p tcp_flag swap_flag dy_flag d =
     (let addresses = (if p = local_proc \<and> net_connected (proxy local_proc d)
                       then Some (o2n_public_ip d, o2n_internal_ip d, tcp_port d)
                       else o2_parse_name (key (proxy p d))) in
      case addresses of
        None \<Rightarrow> (None, d)
      | Some (pip, iip, tcp) \<Rightarrow>
          (case o2_send_start (building d) of (e, b) \<Rightarrow>
             if e \<noteq> O2_SUCCESS then (None, d\<lparr>building := b\<rparr>)
             else case add_until_error (dy_args d pip iip tcp (snd (udp_address d p)) dy_flag) b of (ok, b) \<Rightarrow>
               if \<not> ok then (None, d\<lparr>building := b\<rparr>)
               else case o2_message_finish True (junk env) 0 ''!_o2/dy'' tcp_flag b of (m, b) \<Rightarrow>
                 (if swap_flag then map_option snd (Option.bind m (o2_msg_swap_endian True)) else m, d\<lparr>building := b\<rparr>)))"

text \<open>\<open>o2_prepare_to_deliver\<close> and \<open>send\<close>. Only a connection to a process clears the source of the current message.\<close>

definition proxy_send :: "disc_env \<Rightarrow> nat \<Rightarrow> O2message \<Rightarrow> discovery \<Rightarrow> O2err \<times> discovery" where
  "proxy_send env p m d =
     (send_outcome env p m,
      happen (Sent p m) (if kind (proxy p d) \<in> {PROC, PROC_TEMP, PROC_TCP_SERVER} then d\<lparr>message_source := None\<rparr> else d))"

definition o2_send_clocksync_proc :: "disc_env \<Rightarrow> nat \<Rightarrow> discovery \<Rightarrow> (O2err \<times> discovery) option" where
  "o2_send_clocksync_proc env p d =
     (if \<not> clock_synchronized d then Some (O2_SUCCESS, d)
      else if own_name d = [] then None
      else case o2_send_start (building d) of (e, b) \<Rightarrow>
        if e \<noteq> O2_SUCCESS then Some (O2_FAIL, d\<lparr>building := b\<rparr>)
        else case o2_message_finish True (junk env) 0 ''!_o2/cs/cs'' True (snd (add_arg (String (own_name d)) b)) of
          (None, b) \<Rightarrow> None
        | (Some m, b) \<Rightarrow> Some (O2_SUCCESS, snd (proxy_send env p m (d\<lparr>building := b\<rparr>))))"

section \<open>Telling about services\<close>

text \<open>An item of a \<open>/_o2/sv\<close> message.\<close>

datatype sv_item = Sv_item (sv_name: string) (sv_added: bool) (sv_is_service: bool) (sv_text: string) (sv_mode: "32 word")

definition tf :: "bool \<Rightarrow> O2arg" where
  "tf b = Code (if b then CHR ''T'' else CHR ''F'')"

definition sv_args :: "sv_item \<Rightarrow> O2arg list" where
  "sv_args i = [String (sv_name i), tf (sv_added i), tf (sv_is_service i), String (sv_text i), Int32 (sv_mode i)]"

text \<open>The providers are searched for the first that is not the proxy of a process.\<close>

definition offered_item :: "discovery \<Rightarrow> string \<Rightarrow> Service_provider list \<Rightarrow> sv_item list" where
  "offered_item d name sps =
     (case List.find (\<lambda>spp. case service spp of Local _ \<Rightarrow> True | Proxy p \<Rightarrow> kind (proxy p d) \<noteq> PROC) sps of
        None \<Rightarrow> []
      | Some spp \<Rightarrow>
          if (name = [] \<or> hd name \<noteq> CHR ''@'') \<and> name \<noteq> ''_o2''
          then [Sv_item name True True (case properties spp of None \<Rightarrow> '';'' | Some ps \<Rightarrow> ps) 0] else [])"

definition mode_value :: "O2tap_send_mode \<Rightarrow> 32 word" where
  "mode_value m = (case m of TAP_KEEP \<Rightarrow> 0 | TAP_RELIABLE \<Rightarrow> 1 | TAP_BEST_EFFORT \<Rightarrow> 2 | Other_mode w \<Rightarrow> w)"

definition own_taps :: "string \<Rightarrow> Service_tap list \<Rightarrow> sv_item list" where
  "own_taps name tps =
     map (\<lambda>tap. Sv_item (tapper tap) True False name (mode_value (send_mode tap))) (filter (\<lambda>tap. tap_proc tap = local_proc) tps)"

definition all_items :: "discovery \<Rightarrow> sv_item list" where
  "all_items d = concat (map (\<lambda>(name, ss). offered_item d name (services ss) @ own_taps name (taps ss)) (entries (path_tree (ctx d))))"

text \<open>A message with the own name and items, built without asking whether another one is being built.\<close>

definition finish_sv :: "disc_env \<Rightarrow> sv_item list \<Rightarrow> discovery \<Rightarrow> O2message option \<times> discovery" where
  "finish_sv env items d =
     (case o2_message_finish True (junk env) 0 ''!_o2/sv'' True
        (add_args (String (own_name d) # concat (map sv_args items)) (snd (o2_send_start (building d)))) of
      (m, b) \<Rightarrow> (m, d\<lparr>building := b\<rparr>))"

definition o2_send_services :: "disc_env \<Rightarrow> nat \<Rightarrow> discovery \<Rightarrow> (O2err \<times> discovery) option" where
  "o2_send_services env p d =
     (if own_name d = [] then None
      else Some (case finish_sv env (all_items d) d of
        (None, d) \<Rightarrow> (O2_FAIL, d)
      | (Some m, d) \<Rightarrow> (O2_SUCCESS, snd (proxy_send env p m d))))"

definition notice :: "string \<Rightarrow> bool \<Rightarrow> string \<Rightarrow> string \<Rightarrow> 32 word \<Rightarrow> sv_item" where
  "notice service_name added tappee props mode =
     (if added \<and> tappee = [] then Sv_item service_name added True props mode
      else Sv_item service_name added False tappee mode)"

definition send_one_sv_msg :: "disc_env \<Rightarrow> string \<Rightarrow> bool \<Rightarrow> string \<Rightarrow> string \<Rightarrow> 32 word \<Rightarrow> nat \<Rightarrow> discovery \<Rightarrow> discovery" where
  "send_one_sv_msg env service_name added tappee props mode p d =
     (case finish_sv env [notice service_name added tappee props mode] d of
        (None, d) \<Rightarrow> d
      | (Some m, d) \<Rightarrow> snd (proxy_send env p m d))"

definition o2_notify_others :: "disc_env \<Rightarrow> string \<Rightarrow> bool \<Rightarrow> string option \<Rightarrow> string option \<Rightarrow> 32 word \<Rightarrow> discovery \<Rightarrow> discovery" where
  "o2_notify_others env service_name added tappee props mode d =
     (if own_name d = [] then d
      else let t = case_option [] id tappee; ps = case_option [] id props in
        fold (send_one_sv_msg env service_name added t ps mode)
          (filter (\<lambda>p. ISA_REMOTE_PROC (ctx d) (Proxy p)) (connections d) @ o2_mqtt_procs d) d)"

section \<open>Discovering\<close>

text \<open>The order of the compared names decides who connects.\<close>

definition create_tcp_proc :: "disc_env \<Rightarrow> string \<Rightarrow> 32 word \<Rightarrow> discovery \<Rightarrow> nat option \<times> discovery" where
  "create_tcp_proc env ip port d =
     (let p = next_proxy d;
          d = set_proxy p \<lparr>kind = PROC_TEMP, key = [], net_connected = True, is_connected = False, proxy_status = new_status env\<rparr>
                (d\<lparr>next_proxy := p + 1\<rparr>) in
      if connects env ip port then (Some p, happen (Tcp_client p ip port) (d\<lparr>connections := connections d @ [p]\<rparr>))
      else (None, happen (Proxy_deleted p) d))"

definition add_provider :: "string \<Rightarrow> nat \<Rightarrow> discovery \<Rightarrow> discovery option" where
  "add_provider name p d = map_option (\<lambda>(_, c). d\<lparr>ctx := c\<rparr>) (service_provider_new name None (Proxy p) p (ctx d))"

text \<open>The steps after a process became known: each is left out after an error.\<close>

definition introduce :: "disc_env \<Rightarrow> nat \<Rightarrow> O2message option \<Rightarrow> string \<Rightarrow> 32 word \<Rightarrow> discovery \<Rightarrow> (O2err \<times> discovery) option" where
  "introduce env p reply_msg internal_ip udp d =
     (let (err, d) = (case reply_msg of None \<Rightarrow> (O2_SUCCESS, d) | Some m \<Rightarrow> proxy_send env p m d) in
      if err \<noteq> O2_SUCCESS then Some (err, d)
      else Option.bind (o2_send_clocksync_proc env p d) (\<lambda>(err, d).
        if err \<noteq> O2_SUCCESS then Some (err, d)
        else Option.bind (o2_send_services env p d) (\<lambda>(err, d).
          if err \<noteq> O2_SUCCESS then Some (err, d)
          else let err = udp_init env internal_ip udp in
            Some (err, if err = O2_SUCCESS then d\<lparr>udp_address := (udp_address d)(p := (internal_ip, udp))\<rparr> else d))))"

definition hub_message :: "disc_env \<Rightarrow> discovery \<Rightarrow> O2message option \<times> discovery" where
  "hub_message env d =
     (case o2_message_finish True (junk env) 0 ''!_o2/hub'' True (snd (o2_send_start (building d))) of (m, b) \<Rightarrow> (m, d\<lparr>building := b\<rparr>))"

text \<open>Another process was heard of.\<close>

definition discovered_info :: "disc_env \<Rightarrow> string \<Rightarrow> string \<Rightarrow> 32 word \<Rightarrow> 32 word \<Rightarrow> discovery \<Rightarrow> (O2err \<times> discovery) option" where
  "discovered_info env name internal_ip tcp udp d =
     (if own_name d = [] then None
      else let compare = strcmp (own_name d) name in
        if compare = 0 then Some (O2_SUCCESS, d)
        else if hash_find name (path_tree (ctx d)) \<noteq> None then Some (O2_SUCCESS, d)
        else case create_tcp_proc env (o2_hex_to_dot internal_ip) tcp d of (proc, d) \<Rightarrow>
          if compare > 0 then
            (case proc of
               None \<Rightarrow> Some (O2_FAIL, d)
             | Some p \<Rightarrow>
                 (case o2_make_dy_msg env local_proc True False O2_DY_CALLBACK d of
                    (None, d) \<Rightarrow> None
                  | (Some m, d) \<Rightarrow>
                      (case proxy_send env p m d of (err, d) \<Rightarrow>
                         Some (O2_SUCCESS, if err \<noteq> O2_SUCCESS then happen (Proxy_deleted p) d else d))))
          else
            (case proc of
               None \<Rightarrow> None
             | Some p \<Rightarrow>
                 let d = set_proxy p ((proxy p d)\<lparr>kind := PROC, key := name\<rparr>) d;
                     dy_flag = (if name = o2_hub_addr d then O2_DY_HUB else O2_DY_CONNECT) in
                 Option.bind (add_provider name p d) (\<lambda>d.
                 case o2_make_dy_msg env local_proc True False dy_flag d of (reply_msg, d) \<Rightarrow>
                   introduce env p reply_msg internal_ip udp d)))"

text \<open>Another process has connected. After a wrong code the object is deleted, and used.\<close>

definition discovered_connection :: "disc_env \<Rightarrow> string \<Rightarrow> string \<Rightarrow> 32 word \<Rightarrow> 32 word \<Rightarrow> discovery \<Rightarrow> (O2err \<times> discovery) option" where
  "discovered_connection env name internal_ip udp dy d =
     (case message_source d of
        None \<Rightarrow> Some (O2_FAIL, d)
      | Some p \<Rightarrow>
          if kind (proxy p d) \<noteq> PROC then Some (O2_FAIL, d)
          else Option.bind (add_provider name p (set_proxy p ((proxy p d)\<lparr>key := name\<rparr>) d)) (\<lambda>d.
            if dy = O2_DY_HUB then
              (case o2_make_dy_msg env local_proc True False O2_DY_REPLY d of (reply_msg, d) \<Rightarrow>
                 introduce env p reply_msg internal_ip udp d)
            else if dy = O2_DY_REPLY then
              if name \<noteq> o2_hub_addr d then Some (O2_FAIL, happen (Socket_closed p) d)
              else (case hub_message env (d\<lparr>uses_hub := (uses_hub d)(p := O2_HUB_REMOTE)\<rparr>) of (reply_msg, d) \<Rightarrow>
                 introduce env p reply_msg internal_ip udp d)
            else if dy = O2_DY_CONNECT then
              if name = o2_hub_addr d then
                (case hub_message env (d\<lparr>uses_hub := (uses_hub d)(p := O2_HUB_REMOTE)\<rparr>) of (reply_msg, d) \<Rightarrow>
                   introduce env p reply_msg internal_ip udp d)
              else introduce env p None internal_ip udp d
            else None))"

definition o2_discovered_a_remote_process_name ::
  "disc_env \<Rightarrow> string \<Rightarrow> 32 word \<Rightarrow> string \<Rightarrow> 32 word \<Rightarrow> 32 word \<Rightarrow> 32 word \<Rightarrow> discovery \<Rightarrow> (O2err \<times> discovery) option" where
  "o2_discovered_a_remote_process_name env name version internal_ip tcp udp dy d =
     (if version AND 0xFF0000 \<noteq> of_nat O2_VERSION AND 0xFF0000 then Some (O2_FAIL, d)
      else if dy = O2_DY_INFO then discovered_info env name internal_ip tcp udp d
      else discovered_connection env name internal_ip udp dy d)"

definition o2_discovered_a_remote_process ::
  "disc_env \<Rightarrow> 32 word \<Rightarrow> string \<Rightarrow> string \<Rightarrow> 32 word \<Rightarrow> 32 word \<Rightarrow> 32 word \<Rightarrow> discovery \<Rightarrow> (O2err \<times> discovery) option" where
  "o2_discovered_a_remote_process env version public_ip internal_ip tcp udp dy d =
     (let (dy, d) = (case message_source d of
            Some p \<Rightarrow> if dy = O2_DY_CALLBACK then (O2_DY_INFO, happen (Socket_closed p) d) else (dy, d)
          | None \<Rightarrow> (dy, d)) in
      o2_discovered_a_remote_process_name env (proc_name public_ip internal_ip tcp) version internal_ip tcp udp dy d)"

section \<open>Handlers\<close>

text \<open>\<open>(a = o2_get_next(\<dots>)) && (b = o2_get_next(\<dots>)) && \<dots>\<close>: up to the first null pointer.\<close>

fun get_args :: "O2type list \<Rightarrow> extraction \<Rightarrow> (O2arg_ptr list option \<times> extraction) option" where
  "get_args [] x = Some (Some [], x)"
| "get_args (t # ts) x =
     Option.bind (o2_get_next t x) (\<lambda>(p, x).
     if p = Null then Some (None, x)
     else map_option (map_prod (map_option ((#) p)) id) (get_args ts x))"

definition fetch_int :: "extraction \<Rightarrow> O2arg_ptr \<Rightarrow> 32 word option" where
  "fetch_int x p = map_option le_dec (fetch x p 4)"

text \<open>The handler of \<open>/_o2/dy\<close>.\<close>

definition o2_discovery_handler :: "disc_env \<Rightarrow> O2message \<Rightarrow> discovery \<Rightarrow> discovery option" where
  "o2_discovery_handler env msg d =
     Option.bind (o2_extract_start msg (extracting d)) (\<lambda>(_, x).
     Option.bind (get_args ''sissiii'' x) (\<lambda>(ps, x).
     let d = d\<lparr>extracting := x\<rparr> in
     case ps of
       Some [ens, vers, pip, iip, tcp, udp, dy] \<Rightarrow>
         Option.bind (fetch_string x ens) (\<lambda>ens.
         Option.bind (fetch_int x vers) (\<lambda>version.
         Option.bind (fetch_string x pip) (\<lambda>public_ip.
         Option.bind (fetch_string x iip) (\<lambda>internal_ip.
         Option.bind (fetch_int x tcp) (\<lambda>tcp.
         Option.bind (fetch_int x udp) (\<lambda>udp.
         Option.bind (fetch_int x dy) (\<lambda>dy.
         if ens \<noteq> ensemble_name d then Some d
         else map_option snd (o2_discovered_a_remote_process env version public_ip internal_ip tcp udp dy d))))))))
     | _ \<Rightarrow> Some d))"

text \<open>The number that was sent, as a mode.\<close>

definition mode_of :: "32 word \<Rightarrow> O2tap_send_mode" where
  "mode_of w = (if w = 0 then TAP_KEEP else if w = 1 then TAP_RELIABLE else if w = 2 then TAP_BEST_EFFORT else Other_mode w)"

text \<open>What the proxy's process says about a service or tap.\<close>

definition sv_apply :: "nat \<Rightarrow> sv_item \<Rightarrow> O2_context \<Rightarrow> O2_context option" where
  "sv_apply p i c =
     (if has_slash (sv_name i) then Some c
      else if sv_added i then
        if sv_is_service i then map_option snd (service_provider_new (sv_name i) (Some (sv_text i)) (Proxy p) p c)
        else map_option snd (o2_tap_new (Some (sv_name i)) p (Some (sv_text i)) (mode_of (sv_mode i)) c)
      else if sv_is_service i then map_option snd (proc_service_remove (sv_name i) p c)
      else map_option snd (o2_tap_remove (sv_name i) p (sv_text i) c))"

definition fetch_item :: "extraction \<Rightarrow> O2arg_ptr list \<Rightarrow> sv_item option" where
  "fetch_item x ps = (case ps of
     [s, a, i, t, m] \<Rightarrow>
       Option.bind (fetch_string x s) (\<lambda>name.
       Option.bind (fetch_int x a) (\<lambda>added.
       Option.bind (fetch_int x i) (\<lambda>is_service.
       Option.bind (fetch_string x t) (\<lambda>txt.
       map_option (\<lambda>mode. Sv_item name (added \<noteq> 0) (is_service \<noteq> 0) txt mode) (fetch_int x m)))))
   | _ \<Rightarrow> None)"

text \<open>The loop over the items, with a bound on their number.\<close>

fun sv_loop :: "nat \<Rightarrow> nat \<Rightarrow> discovery \<Rightarrow> discovery option" where
  "sv_loop 0 p d = None"
| "sv_loop (Suc n) p d =
     Option.bind (get_args ''sBBsi'' (extracting d)) (\<lambda>(ps, x).
     let d = d\<lparr>extracting := x\<rparr> in
     case ps of
       None \<Rightarrow> Some d
     | Some ps \<Rightarrow> Option.bind (fetch_item x ps) (\<lambda>i.
         Option.bind (sv_apply p i (ctx d)) (\<lambda>c. sv_loop n p (d\<lparr>ctx := c\<rparr>))))"

text \<open>The handler of \<open>/_o2/sv\<close>.\<close>

definition o2_services_handler :: "nat \<Rightarrow> O2message \<Rightarrow> discovery \<Rightarrow> discovery option" where
  "o2_services_handler n msg d =
     Option.bind (o2_extract_start msg (extracting d)) (\<lambda>(_, x).
     Option.bind (o2_get_next CHR ''s'' x) (\<lambda>(arg, x).
     let d = d\<lparr>extracting := x\<rparr> in
     if arg = Null then Some d
     else Option.bind (fetch_string x arg) (\<lambda>name.
       Option.bind (service_find name (ctx d)) (\<lambda>(proc, _).
       case proc of
         Some (Proxy p) \<Rightarrow>
           if \<not> ISA_REMOTE_PROC (ctx d) (Proxy p) then Some d
           else sv_loop n p (set_proxy p ((proxy p d)\<lparr>is_connected := True\<rparr>) d)
       | _ \<Rightarrow> Some d))))"

text \<open>The handler of \<open>/_o2/hub\<close>: of each pair of processes, the one with the lower name hears of the other. The owner of a socket
  may be missing, and the name of a process not yet known: then a null pointer is followed.\<close>

fun introduce_all :: "disc_env \<Rightarrow> nat \<Rightarrow> nat option list \<Rightarrow> discovery \<Rightarrow> discovery option" where
  "introduce_all env nc [] d = Some d"
| "introduce_all env nc (None # ps) d = None"
| "introduce_all env nc (Some p # ps) d =
     (if kind (proxy p d) \<noteq> PROC then introduce_all env nc ps d
      else if key (proxy p d) = [] \<or> key (proxy nc d) = [] then None
      else let compare = strcmp (key (proxy p d)) (key (proxy nc d)) in
        if compare = 0 then introduce_all env nc ps d
        else let (client, server) = (if compare > 0 then (nc, p) else (p, nc)) in
          (case o2_make_dy_msg env server True False O2_DY_INFO d of
             (None, d) \<Rightarrow> None
           | (Some m, d) \<Rightarrow> introduce_all env nc ps (snd (proxy_send env client m d))))"

definition hub_has_new_client :: "disc_env \<Rightarrow> nat \<Rightarrow> nat option list \<Rightarrow> discovery \<Rightarrow> discovery option" where
  "hub_has_new_client env nc owners d = introduce_all env nc owners d"

definition o2_hub_handler :: "disc_env \<Rightarrow> nat option list \<Rightarrow> discovery \<Rightarrow> discovery option" where
  "o2_hub_handler env owners d =
     (case message_source d of
        None \<Rightarrow> None
      | Some p \<Rightarrow>
          if ISA_REMOTE_PROC (ctx d) (Proxy p)
          then hub_has_new_client env p owners (d\<lparr>uses_hub := (uses_hub d)(local_proc := O2_I_AM_HUB)\<rparr>)
          else Some d)"

section \<open>Reading the arguments of a message\<close>

text \<open>The arguments of these messages, the types they are asked for with, and what is read.\<close>

definition askable :: "O2arg \<Rightarrow> bool" where
  "askable a = (case a of String s \<Rightarrow> c_string s | Int32 _ \<Rightarrow> True | Code c \<Rightarrow> c = CHR ''T'' \<or> c = CHR ''F'' | _ \<Rightarrow> False)"

definition ask_type :: "O2arg \<Rightarrow> O2type" where
  "ask_type a = (case a of Code _ \<Rightarrow> CHR ''B'' | _ \<Rightarrow> arg_type a)"

definition got :: "extraction \<Rightarrow> O2arg \<Rightarrow> O2arg_ptr \<Rightarrow> bool" where
  "got x a p = (case a of
     String s \<Rightarrow> fetch_string x p = Some s
   | Int32 w \<Rightarrow> fetch_int x p = Some w
   | Code c \<Rightarrow> fetch_int x p = Some (if c = CHR ''T'' then 1 else 0)
   | _ \<Rightarrow> False)"

definition kept :: "extraction \<Rightarrow> extraction \<Rightarrow> bool" where
  "kept x x' \<longleftrightarrow> mx_msg x' = mx_msg x \<and> (\<exists>cs. arg_cells x' = arg_cells x @ cs)"

lemma extraction_kept_refl: "kept x x" and kept_trans: "kept x y \<Longrightarrow> kept y z \<Longrightarrow> kept x z"
  by (auto simp: kept_def)

lemma got_kept: "got x a p \<Longrightarrow> kept x x' \<Longrightarrow> got x' a p"
  by (cases a; cases p)
    (auto simp: got_def kept_def fetch_string_def fetch_int_def fetch_def peek_def mx_barrier_def nth_append split: if_splits)

lemma get_plain_bool:
  "get_plain CHR ''T'' CHR ''B'' y = Some (True, Arg (length (arg_cells y)), put (le_enc 4 (1 :: 32 word)) y)"
  "get_plain CHR ''F'' CHR ''B'' y = Some (True, Arg (length (arg_cells y)), put (le_enc 4 (0 :: 32 word)) y)"
  by (simp_all add: get_plain_def convert_int_def)

lemma ask_bool:
  assumes "to_come x (byte_of c # ts) ds" "c = CHR ''T'' \<or> c = CHR ''F''" "reading x"
  shows "o2_get_next CHR ''B'' x = Some (push_arg (Arg (length (arg_cells x)))
    (put (le_enc 4 (if c = CHR ''T'' then 1 else 0 :: 32 word)) (x\<lparr>mx_type_next := mx_type_next x + 1\<rparr>)))"
proof -
  have b: "mx_data_next x \<le> mx_barrier x" using assms(1) by (simp add: to_come_def)
  have bar: "mx_barrier (put bs (x\<lparr>mx_type_next := k\<rparr>)) = mx_barrier x" "mx_data_next (put bs (x\<lparr>mx_type_next := k\<rparr>)) = mx_data_next x" for bs k
    by (simp_all add: put_def mx_barrier_def)
  show ?thesis
    using to_come_type [OF assms(1)] assms(2,3) b get_plain_bool [of "x\<lparr>mx_type_next := mx_type_next x + 1\<rparr>"]
    by (elim disjE) (simp_all add: o2_get_next_def reading_def bar)
qed

lemma ask_one:
  assumes "to_come x (byte_of (arg_type a) # ts) (arg_data a @ ds)" "ts \<noteq> []" "askable a" "reading x"
  shows "\<exists>p x'. o2_get_next (ask_type a) x = Some (p, x') \<and> p \<noteq> Null \<and> got x' a p \<and> to_come x' ts ds \<and> reading x' \<and> kept x x'"
proof (cases "\<exists>c. a = Code c")
  case False
  have v: "valid_arg a" and nz: "arg_type a \<noteq> CHR 0x00" and at: "ask_type a = arg_type a" and nf: "a \<noteq> Code CHR ''F''"
    using assms(3) False by (cases a; simp add: askable_def valid_arg_def arg_type_def ask_type_def)+
  obtain x' where x': "o2_get_next (arg_type a) x = Some (arg_ptr a x, x')" "to_come x' ts ds" "reading x'"
    "mx_msg x' = mx_msg x" "arg_cells x' = arg_cells x"
    using get_next_arg [OF assms(1,2) v assms(4) nz] nf by auto
  have d: "0 \<le> mx_data_next x" "drop (nat (mx_data_next x)) (mx_msg x') = arg_data a @ ds" "mx_data_next x \<le> mx_barrier x"
    using assms(1) x'(4) by (simp_all add: to_come_def)
  have "got x' a (Data (mx_data_next x))"
  proof (cases a)
    case (String s)
    then have "c_string s" using assms(3) by (simp add: askable_def)
    then show ?thesis using d String zero_in_padded [of s ds]
      by (simp add: got_def fetch_string_def arg_data_def c_str_padded)
  next
    case (Int32 w)
    have "mx_barrier x = mx_data_next x + int (length (arg_data a @ ds))" using to_come_length [OF assms(1)] .
    then show ?thesis using d Int32 x'(4)
      by (simp add: got_def fetch_int_def fetch_def peek_def arg_data_def mx_barrier_def)
  qed (use assms(3) False in \<open>simp_all add: askable_def\<close>)
  then show ?thesis using x' nf at by (auto simp: arg_ptr_def kept_def)
next
  case True
  then obtain c where c: "a = Code c" "c = CHR ''T'' \<or> c = CHR ''F''" using assms(3) by (auto simp: askable_def)
  have come: "to_come x (byte_of c # ts) ds" using assms(1) c by (simp add: arg_type_def arg_data_def)
  note t = to_come_type [OF come]
  let ?p = "Arg (length (arg_cells x))"
  let ?x = "x\<lparr>mx_type_next := mx_type_next x + 1, arg_cells := arg_cells x @ [Bytes (le_enc 4 (if c = CHR ''T'' then 1 else 0 :: 32 word))],
      argv_data := argv_data x @ [?p]\<rparr>"
  have b: "mx_data_next x \<le> mx_barrier x" using come by (simp add: to_come_def)
  have "o2_get_next CHR ''B'' x = Some (?p, ?x)"
    unfolding ask_bool [OF come c(2) assms(4)] by (simp add: push_arg_def put_def)
  moreover have "got ?x a ?p" using c by (auto simp: got_def fetch_int_def fetch_def)
  moreover have "to_come ?x ts ds"
  proof -
    have "drop (nat (mx_type_next x)) (mx_msg x) = byte_of c # ts" using come by (simp add: to_come_def)
    then have "drop (Suc (nat (mx_type_next x))) (mx_msg x) = ts" by (metis drop_Suc list.sel(3) tl_drop)
    then show ?thesis using come assms(2) by (simp add: to_come_def nat_add_distrib mx_barrier_def)
  qed
  moreover have "reading ?x" "kept x ?x" using assms(4) by (simp_all add: reading_def kept_def)
  ultimately show ?thesis using c(1) by (intro exI [of _ ?p] exI [of _ ?x]) (simp add: ask_type_def)
qed

lemma ask_all:
  assumes "to_come x (bytes_of (map arg_type as) @ ts) (concat (map arg_data as) @ ds)" "ts \<noteq> []" "\<forall>a \<in> set as. askable a" "reading x"
  shows "\<exists>ps x'. get_args (map ask_type as) x = Some (Some ps, x') \<and> list_all2 (got x') as ps \<and> to_come x' ts ds \<and> reading x' \<and> kept x x'"
  using assms
proof (induction as arbitrary: x)
  case Nil
  then show ?case by (auto simp: extraction_kept_refl)
next
  case (Cons a as)
  have "to_come x (byte_of (arg_type a) # bytes_of (map arg_type as) @ ts) (arg_data a @ concat (map arg_data as) @ ds)"
    using Cons.prems(1) by simp
  from ask_one [OF this _ _ Cons.prems(4)] Cons.prems(2,3)
  obtain p x1 where x1: "o2_get_next (ask_type a) x = Some (p, x1)" "p \<noteq> Null" "got x1 a p"
    "to_come x1 (bytes_of (map arg_type as) @ ts) (concat (map arg_data as) @ ds)" "reading x1" "kept x x1"
    by auto
  from Cons.IH [OF x1(4) Cons.prems(2) _ x1(5)] Cons.prems(3)
  obtain ps x2 where x2: "get_args (map ask_type as) x1 = Some (Some ps, x2)" "list_all2 (got x2) as ps" "to_come x2 ts ds"
    "reading x2" "kept x1 x2" by auto
  then show ?case using x1 got_kept [OF x1(3) x2(5)] kept_trans [OF x1(6) x2(5)] by auto
qed

end
