(* ===== verification/Announce.thy ===== *)
theory Announce
  imports Discovery
begin

text \<open>
  What other processes learn from the messages of \<open>Discovery\<close>: a message about a process or about services is built, read by the
  handler of the receiver argument by argument, and changes the directory of the receiver.
\<close>

section \<open>Messages about a process\<close>

lemma add_until_error_args:
  "\<not> is_bundle b \<Longrightarrow> 4 dvd length (msg_data b) \<Longrightarrow> add_until_error as b = (True, add_args as b)"
proof (induction as arbitrary: b)
  case (Cons a as)
  have e: "fst (add_arg a b) = O2_SUCCESS"
    using Cons.prems by (cases a) (simp_all add: add_arg_def o2_add_int32_or_char_def o2_add_int64_def
        o2_add_float_def o2_add_double_or_time_def o2_add_string_or_symbol_def o2_add_blob_data_def o2_add_only_typecode_def)
  have "\<not> is_bundle (snd (add_arg a b))" "4 dvd length (msg_data (snd (add_arg a b)))"
    using add_arg_effect [OF Cons.prems(2,1), of a] arg_data_dvd [of a] Cons.prems by simp_all
  from Cons.IH [OF this] show ?case using e by (cases "add_arg a b") simp
qed simp

lemma start_ready:
  "\<not> building_message_lock b \<Longrightarrow> o2_send_start b = (O2_SUCCESS, snd (o2_send_start b)) \<and>
   \<not> is_bundle (snd (o2_send_start b)) \<and> msg_data (snd (o2_send_start b)) = []"
  by (simp add: o2_send_start_def)

text \<open>The message a process makes about itself, and what reading it gives.\<close>

definition own_dy_args :: "discovery \<Rightarrow> 32 word \<Rightarrow> O2arg list" where
  "own_dy_args a dy = dy_args a (o2n_public_ip a) (o2n_internal_ip a) (tcp_port a) (snd (udp_address a local_proc)) dy"

definition dy_body :: "O2arg list \<Rightarrow> byte list" where
  "dy_body args = zero_padded ''!_o2/dy'' @ zero_padded (CHR '','' # map arg_type args) @ concat (map arg_data args)"

lemma own_dy_msg:
  assumes "\<not> building_message_lock (building a)" "net_connected (proxy local_proc a)"
  shows "\<exists>m b. o2_make_dy_msg env local_proc tcp_flag False dy a = (Some m, a\<lparr>building := b\<rparr>) \<and> \<not> building_message_lock b \<and>
    body m = dy_body (own_dy_args a dy)"
proof -
  define args where "args = own_dy_args a dy"
  obtain m b where m: "o2_service_message_finish True (junk env) 0 None ''!_o2/dy'' tcp_flag
      (add_args args (snd (o2_send_start (building a)))) = (Some m, b)" "\<not> building_message_lock b"
    "body m = zero_padded (slash_address None ''!_o2/dy'') @ zero_padded (CHR '','' # map arg_type args) @ concat (map arg_data args)"
    using built_message [OF assms(1)] by blast
  define b0 where "b0 = snd (o2_send_start (building a))"
  have s: "o2_send_start (building a) = (O2_SUCCESS, b0)" and b0: "\<not> is_bundle b0" "4 dvd length (msg_data b0)"
    using start_ready [OF assms(1)] by (simp_all add: b0_def)
  have "add_until_error args b0 = (True, add_args args b0)" by (rule add_until_error_args [OF b0])
  then have "o2_make_dy_msg env local_proc tcp_flag False dy a = (Some m, a\<lparr>building := b\<rparr>)"
    using m(1) assms(2) unfolding o2_make_dy_msg_def s
    by (simp add: o2_message_finish_def args_def own_dy_args_def s)
  then show ?thesis using m unfolding args_def [symmetric] by (auto simp: slash_address_def dy_body_def)
qed

lemma read_own_dy:
  assumes "body m = zero_padded addr @ zero_padded (CHR '','' # map arg_type as) @ concat (map arg_data as)" "c_string addr"
    and "\<forall>a \<in> set as. askable a" "\<not> mx_array_to_vector_pending x0"
  shows "\<exists>n x ps x' rest. o2_extract_start m x0 = Some (n, x) \<and> get_args (map ask_type as) x = Some (Some ps, x') \<and>
    list_all2 (got x') as ps \<and> to_come x' (0 # rest) [] \<and> reading x'"
proof -
  have "c_string (map arg_type as)"
    using assms(3) by (fastforce simp: c_string_def askable_def arg_type_def split: O2arg.splits)
  from extract_start_built [OF assms(1,2) this assms(4)]
  obtain x rest where x: "o2_extract_start m x0 = Some (int (length (map arg_type as)), x)" "reading x"
    "to_come x (bytes_of (map arg_type as) @ 0 # rest) (concat (map arg_data as))" by blast
  have "to_come x (bytes_of (map arg_type as) @ (0 # rest)) (concat (map arg_data as) @ [])" using x(3) by simp
  from ask_all [OF this _ assms(3) x(2)] show ?thesis using x(1) by blast
qed

lemma dy_read:
  assumes "body m = dy_body (own_dy_args a dy)"
    and "c_string (ensemble_name a)" "c_string (o2n_public_ip a)" "c_string (o2n_internal_ip a)"
    and "\<not> mx_array_to_vector_pending (extracting b)"
  shows "\<exists>x. o2_discovery_handler env m b =
      (if ensemble_name a = ensemble_name b
       then map_option snd (o2_discovered_a_remote_process env (of_nat O2_VERSION) (o2n_public_ip a) (o2n_internal_ip a)
              (tcp_port a) (snd (udp_address a local_proc)) dy (b\<lparr>extracting := x\<rparr>))
       else Some (b\<lparr>extracting := x\<rparr>))"
proof -
  let ?args = "own_dy_args a dy"
  have ok: "\<forall>arg \<in> set ?args. askable arg" using assms(2-4) by (simp add: own_dy_args_def dy_args_def askable_def)
  obtain n x ps x' where x: "o2_extract_start m (extracting b) = Some (n, x)" "get_args (map ask_type ?args) x = Some (Some ps, x')"
    "list_all2 (got x') ?args ps"
    using read_own_dy [OF assms(1) [unfolded dy_body_def] _ ok assms(5)] by (auto simp: c_string_def)
  have types: "map ask_type ?args = ''sissiii''" by (simp add: own_dy_args_def dy_args_def ask_type_def arg_type_def)
  obtain p1 p2 p3 p4 p5 p6 p7 where ps: "ps = [p1, p2, p3, p4, p5, p6, p7]"
    and got: "fetch_string x' p1 = Some (ensemble_name a)" "fetch_int x' p2 = Some (of_nat O2_VERSION)"
      "fetch_string x' p3 = Some (o2n_public_ip a)" "fetch_string x' p4 = Some (o2n_internal_ip a)"
      "fetch_int x' p5 = Some (tcp_port a)" "fetch_int x' p6 = Some (snd (udp_address a local_proc))" "fetch_int x' p7 = Some dy"
    using x(3) unfolding own_dy_args_def dy_args_def list_all2_Cons1 by (auto simp: got_def)
  have "o2_discovery_handler env m b =
      (if ensemble_name a = ensemble_name b
       then map_option snd (o2_discovered_a_remote_process env (of_nat O2_VERSION) (o2n_public_ip a) (o2n_internal_ip a)
              (tcp_port a) (snd (udp_address a local_proc)) dy (b\<lparr>extracting := x'\<rparr>))
       else Some (b\<lparr>extracting := x'\<rparr>))"
    using x(2) unfolding types by (simp add: o2_discovery_handler_def x(1) ps got del: get_args.simps)
  then show ?thesis by blast
qed

section \<open>What the directory holds afterwards\<close>

definition old_entry :: "string \<Rightarrow> O2_context \<Rightarrow> Services_entry" where
  "old_entry name c = (case directory c name of None \<Rightarrow> Services_entry [] [] | Some ss \<Rightarrow> ss)"

definition remote :: "nat \<Rightarrow> O2_context \<Rightarrow> bool" where
  "remote p c \<longleftrightarrow> p \<noteq> local_proc \<and> ISA_REMOTE_PROC c (Proxy p)"

lemma provider_new_remote:
  assumes "ctx_ok c" "remote p c" "props_ok (adjust_properties props)"
  shows "\<exists>c' ss. service_provider_new name props (Proxy p) p c = Some (O2_SUCCESS, c') \<and> ctx_ok c' \<and> proxies c' = proxies c \<and>
    directory c' = (directory c)(name \<mapsto> ss) \<and> taps ss = taps (old_entry name c) \<and>
    Service_provider (Proxy p) (adjust_properties props) \<in> set (services ss)"
proof -
  obtain ss c1 where m: "must_get_services name c = Some (ss, c1)" "ctx_ok c1" "ss = old_entry name c"
    "directory c1 = (directory c)(name \<mapsto> ss)" "c1 = c\<lparr>path_tree := path_tree c1\<rparr>"
    using must_get_all [OF assms(1)] unfolding old_entry_def by blast
  have same: "proxies c1 = proxies c" using arg_cong [OF m(5), of proxies] by simp
  have k: "kind (proxies c p) \<in> {PROC, MQTT}" "p \<noteq> local_proc" using assms(2) by (simp_all add: remote_def ISA_REMOTE_PROC_def)
  have dom: "name \<in> dom (directory c1)" using m(4) by auto
  note se = set_entry_ok [OF m(2) dom]
  have pr: "proxies (set_entry name x c1) = proxies c" for x by (simp add: set_entry_def same)
  show ?thesis
  proof (cases "proc_service_index c1 p ss")
    case (Some i)
    then have i: "i < length (services ss)" "offered_by c1 p (services ss ! i)"
      by (auto simp: proc_service_index_def find_Some_iff)
    then have s: "service (services ss ! i) = Proxy p"
      using k by (auto simp: offered_by_def split: svc_node.splits)
    have r: "ISA_REMOTE_PROC c1 (Proxy p)" using k by (simp add: ISA_REMOTE_PROC_def same)
    let ?sp = "Service_provider (Proxy p) (adjust_properties props)"
    have "?sp \<in> set ((services ss)[i := ?sp])" by (rule set_update_memI [OF i(1)])
    then show ?thesis using m(1,3,4) Some s r se pr assms(3)
      by (auto simp: service_provider_new_def Let_def)
  next
    case None
    obtain first ss' where a: "add_service c1 (key (proxies c1 p)) (Proxy p) (adjust_properties props) ss = Some (first, ss')"
      using add_service_some [OF assms(3)] by blast
    then have a': "taps ss' = taps ss" "Service_provider (Proxy p) (adjust_properties props) \<in> set (services ss')"
      by (auto simp: add_service_def Let_def set_update_memI split: if_splits)
    then show ?thesis using m(1,3,4) None se pr a
      by (auto simp: service_provider_new_def Let_def)
  qed
qed

definition tapped :: "string \<Rightarrow> nat \<Rightarrow> Service_tap list \<Rightarrow> bool" where
  "tapped tpr p tps \<longleftrightarrow> (\<exists>tap \<in> set tps. tapper tap = tpr \<and> tap_proc tap = p)"

lemma tapped_mono: "tapped tpr p tps \<Longrightarrow> set tps \<subseteq> set tps' \<Longrightarrow> tapped tpr p tps'"
  by (auto simp: tapped_def)

lemma tap_new_known:
  assumes "ctx_ok c" "\<not> bad_tap_name (Some tpr)" "\<not> bad_tap_name (Some tappee)" "p \<noteq> local_proc"
  shows "\<exists>r c' ss. o2_tap_new (Some tpr) p (Some tappee) mode c = Some (r, c') \<and> ctx_ok c' \<and> proxies c' = proxies c \<and>
    directory c' = (directory c)(tappee \<mapsto> ss) \<and> services ss = services (old_entry tappee c) \<and>
    set (taps (old_entry tappee c)) \<subseteq> set (taps ss) \<and> tapped tpr p (taps ss)"
proof -
  obtain ss c1 where m: "must_get_services tappee c = Some (ss, c1)" "ctx_ok c1" "ss = old_entry tappee c"
    "directory c1 = (directory c)(tappee \<mapsto> ss)" "c1 = c\<lparr>path_tree := path_tree c1\<rparr>"
    using must_get_all [OF assms(1)] unfolding old_entry_def by blast
  have same: "proxies c1 = proxies c" using arg_cong [OF m(5), of proxies] by simp
  have dom: "tappee \<in> dom (directory c1)" using m(4) by auto
  note se = set_entry_ok [OF m(2) dom]
  have pr: "proxies (set_entry tappee x c1) = proxies c" for x by (simp add: set_entry_def same)
  show ?thesis
  proof (cases "\<exists>tap \<in> set (taps ss). tapper tap = tpr \<and> tap_proc tap = p")
    case True
    then show ?thesis using m same assms(2,3) by (auto simp: o2_tap_new_def tapped_def)
  next
    case False
    then show ?thesis using m(1,3,4) se pr assms(2-4)
      by (auto simp: o2_tap_new_def insert_tap_def tapped_def)
  qed
qed

text \<open>What the receiver knows of an item about a service or a tap that exists.\<close>

definition known :: "nat \<Rightarrow> O2_context \<Rightarrow> sv_item \<Rightarrow> bool" where
  "known p c i \<longleftrightarrow> has_slash (sv_name i) \<or>
     (if sv_is_service i
      then \<exists>ss. directory c (sv_name i) = Some ss \<and>
             Service_provider (Proxy p) (adjust_properties (Some (sv_text i))) \<in> set (services ss)
      else bad_tap_name (Some (sv_name i)) \<or> bad_tap_name (Some (sv_text i)) \<or>
        (\<exists>ss. directory c (sv_text i) = Some ss \<and> tapped (sv_name i) p (taps ss)))"

text \<open>Properties begin with a semicolon.\<close>

definition item_ok :: "sv_item \<Rightarrow> bool" where
  "item_ok i \<longleftrightarrow> c_string (sv_name i) \<and> c_string (sv_text i) \<and>
     (sv_added i \<and> sv_is_service i \<longrightarrow> props_ok (adjust_properties (Some (sv_text i))))"

lemma apply_announced:
  assumes "ctx_ok c" "remote p c" "sv_added i" "item_ok i"
  shows "\<exists>c'. sv_apply p i c = Some c' \<and> ctx_ok c' \<and> proxies c' = proxies c \<and> known p c' i \<and>
    (\<forall>j. known p c j \<and> (sv_is_service i \<and> sv_is_service j \<longrightarrow> sv_name j \<noteq> sv_name i) \<longrightarrow> known p c' j)"
proof -
  have p: "p \<noteq> local_proc" using assms(2) by (simp add: remote_def)
  note a = assms(3)
  consider (slash) "has_slash (sv_name i)" | (service) "\<not> has_slash (sv_name i)" "sv_is_service i"
    | (bad) "\<not> has_slash (sv_name i)" "\<not> sv_is_service i" "bad_tap_name (Some (sv_name i)) \<or> bad_tap_name (Some (sv_text i))"
    | (tap) "\<not> has_slash (sv_name i)" "\<not> sv_is_service i" "\<not> bad_tap_name (Some (sv_name i))" "\<not> bad_tap_name (Some (sv_text i))"
    by blast
  then show ?thesis
  proof cases
    case slash
    then show ?thesis using assms(1) by (simp add: sv_apply_def known_def)
  next
    case service
    obtain c' ss where n: "service_provider_new (sv_name i) (Some (sv_text i)) (Proxy p) p c = Some (O2_SUCCESS, c')" "ctx_ok c'"
      "proxies c' = proxies c" "directory c' = (directory c)(sv_name i \<mapsto> ss)" "taps ss = taps (old_entry (sv_name i) c)"
      "Service_provider (Proxy p) (adjust_properties (Some (sv_text i))) \<in> set (services ss)"
      using provider_new_remote [OF assms(1,2)] assms(4) a service(2) unfolding item_ok_def by blast
    have "known p c' j" if "known p c j" "sv_is_service j \<longrightarrow> sv_name j \<noteq> sv_name i" for j
      using that n(4,5) by (auto simp: known_def old_entry_def)
    then show ?thesis using service a n by (intro exI [of _ c']) (auto simp: sv_apply_def known_def)
  next
    case bad
    then show ?thesis using bad a assms(1) by (auto simp: sv_apply_def known_def o2_tap_new_def)
  next
    case tap
    obtain r c' ss where n: "o2_tap_new (Some (sv_name i)) p (Some (sv_text i)) (mode_of (sv_mode i)) c = Some (r, c')" "ctx_ok c'" "proxies c' = proxies c"
      "directory c' = (directory c)(sv_text i \<mapsto> ss)" "services ss = services (old_entry (sv_text i) c)"
      "set (taps (old_entry (sv_text i) c)) \<subseteq> set (taps ss)" "tapped (sv_name i) p (taps ss)"
      using tap_new_known [OF assms(1) tap(3,4) p] by blast
    have "known p c' j" if "known p c j" for j
      using that n(4-6) tapped_mono [of "sv_name j" p] by (auto simp: known_def old_entry_def split: if_splits)
    then show ?thesis using tap a n by (intro exI [of _ c']) (auto simp: sv_apply_def known_def)
  qed
qed

fun sv_apply_all :: "nat \<Rightarrow> sv_item list \<Rightarrow> O2_context \<Rightarrow> O2_context option" where
  "sv_apply_all p [] c = Some c"
| "sv_apply_all p (i # is) c = Option.bind (sv_apply p i c) (sv_apply_all p is)"

lemma apply_all_announced:
  assumes "ctx_ok c" "remote p c" "\<forall>i \<in> set is. sv_added i \<and> item_ok i" "distinct (map sv_name (filter sv_is_service is))"
  shows "\<exists>c'. sv_apply_all p is c = Some c' \<and> ctx_ok c' \<and> proxies c' = proxies c \<and> (\<forall>i \<in> set is. known p c' i) \<and>
    (\<forall>j. known p c j \<and> (sv_is_service j \<longrightarrow> sv_name j \<notin> set (map sv_name (filter sv_is_service is))) \<longrightarrow> known p c' j)"
  using assms
proof (induction "is" arbitrary: c)
  case Nil
  then show ?case by simp
next
  case (Cons i "is")
  obtain c1 where c1: "sv_apply p i c = Some c1" "ctx_ok c1" "proxies c1 = proxies c" "known p c1 i"
    "\<forall>j. known p c j \<and> (sv_is_service i \<and> sv_is_service j \<longrightarrow> sv_name j \<noteq> sv_name i) \<longrightarrow> known p c1 j"
    using apply_announced [OF Cons.prems(1,2), of i] Cons.prems(3) unfolding list.set by blast
  have "remote p c1" using Cons.prems(2) c1(3) by (simp add: remote_def ISA_REMOTE_PROC_def)
  from Cons.IH [OF c1(2) this] Cons.prems(3,4) obtain c' where c': "sv_apply_all p is c1 = Some c'" "ctx_ok c'" "proxies c' = proxies c1"
    "\<forall>i \<in> set is. known p c' i"
    "\<forall>j. known p c1 j \<and> (sv_is_service j \<longrightarrow> sv_name j \<notin> set (map sv_name (filter sv_is_service is))) \<longrightarrow> known p c' j"
    by (auto split: if_splits)
  have "known p c' i" using c1(4) c'(5) Cons.prems(4) by (cases "sv_is_service i") auto
  moreover have "known p c' j" if "known p c j" "sv_is_service j \<longrightarrow> sv_name j \<notin> set (map sv_name (filter sv_is_service (i # is)))" for j
  proof -
    have "known p c1 j" using that c1(5) by auto
    then show ?thesis using that(2) c'(5) by (auto split: if_splits)
  qed
  ultimately show ?case using c1 c' by (intro exI [of _ c']) auto
qed

section \<open>Messages about services\<close>

lemma fetch_sv_item:
  assumes "list_all2 (got x) (sv_args i) ps"
  shows "fetch_item x ps = Some i"
proof -
  obtain p1 p2 p3 p4 p5 where ps: "ps = [p1, p2, p3, p4, p5]"
    and g: "fetch_string x p1 = Some (sv_name i)" "fetch_int x p2 = Some (if sv_added i then 1 else 0)"
      "fetch_int x p3 = Some (if sv_is_service i then 1 else 0)" "fetch_string x p4 = Some (sv_text i)" "fetch_int x p5 = Some (sv_mode i)"
    using assms unfolding sv_args_def list_all2_Cons1 by (auto simp: got_def tf_def)
  show ?thesis using g by (cases i) (simp add: fetch_item_def ps)
qed

lemma no_more_args:
  assumes "to_come x (0 # rest) []"
  shows "o2_get_next t x = Some (Null, x)"
proof -
  have "char_of_byte 0 = CHR 0x00" by (simp add: char_of_byte_def char_of_def)
  then show ?thesis using to_come_type [OF assms] by (simp add: o2_get_next_def)
qed

lemma sv_loop_items:
  assumes "to_come (extracting d) (bytes_of (map arg_type (concat (map sv_args items))) @ 0 # rest) (concat (map arg_data (concat (map sv_args items))))"
    and "reading (extracting d)" "\<forall>i \<in> set items. item_ok i" "length items < n"
  shows "\<exists>x'. sv_loop n p d = map_option (\<lambda>c. d\<lparr>extracting := x', ctx := c\<rparr>) (sv_apply_all p items (ctx d))"
  using assms
proof (induction items arbitrary: n d)
  case Nil
  then obtain k where n: "n = Suc k" by (cases n) auto
  have "get_args ''sBBsi'' (extracting d) = Some (None, extracting d)"
    using no_more_args [of "extracting d" rest] Nil.prems(1) by simp
  then show ?case using n by (intro exI [of _ "extracting d"]) simp
next
  case (Cons i items)
  obtain k where n: "n = Suc k" "length items < k" using Cons.prems(4) by (cases n) auto
  let ?ts = "bytes_of (map arg_type (concat (map sv_args items))) @ 0 # rest"
  have come: "to_come (extracting d) (bytes_of (map arg_type (sv_args i)) @ ?ts)
      (concat (map arg_data (sv_args i)) @ concat (map arg_data (concat (map sv_args items))))"
    using Cons.prems(1) by (simp add: bytes_of_def)
  have ask: "\<forall>a \<in> set (sv_args i). askable a"
    using Cons.prems(3) by (simp add: sv_args_def askable_def tf_def item_ok_def)
  have types: "map ask_type (sv_args i) = ''sBBsi''" by (simp add: sv_args_def ask_type_def arg_type_def tf_def)
  have "?ts \<noteq> []" by simp
  from ask_all [OF come this ask Cons.prems(2)] obtain ps x where x: "get_args ''sBBsi'' (extracting d) = Some (Some ps, x)"
    "list_all2 (got x) (sv_args i) ps" "to_come x ?ts (concat (map arg_data (concat (map sv_args items))))" "reading x"
    unfolding types by blast
  have step: "sv_loop n p d = Option.bind (sv_apply p i (ctx d)) (\<lambda>c. sv_loop k p (d\<lparr>extracting := x, ctx := c\<rparr>))"
    using x(1) fetch_sv_item [OF x(2)] by (simp add: n(1) del: get_args.simps)
  show ?case
  proof (cases "sv_apply p i (ctx d)")
    case None
    then show ?thesis using step by simp
  next
    case (Some c)
    from Cons.IH [of "d\<lparr>extracting := x, ctx := c\<rparr>" k] x(3,4) Cons.prems(3) n(2)
    obtain x' where "sv_loop k p (d\<lparr>extracting := x, ctx := c\<rparr>) =
        map_option (\<lambda>c'. d\<lparr>extracting := x', ctx := c'\<rparr>) (sv_apply_all p items c)" by auto
    then show ?thesis using step Some by (intro exI [of _ x']) simp
  qed
qed

lemma finish_sv_msg:
  assumes "\<not> building_message_lock (building a)"
  shows "\<exists>m b. finish_sv env items a = (Some m, a\<lparr>building := b\<rparr>) \<and> \<not> building_message_lock b \<and>
    body m = zero_padded ''!_o2/sv'' @ zero_padded (CHR '','' # map arg_type (String (own_name a) # concat (map sv_args items))) @
      concat (map arg_data (String (own_name a) # concat (map sv_args items)))"
  using built_message [OF assms(1), of "junk env" 0 None "''!_o2/sv''" True "String (own_name a) # concat (map sv_args items)"]
  by (auto simp: finish_sv_def slash_address_def o2_message_finish_def)

lemma sv_heard:
  assumes "\<not> building_message_lock (building a)" "c_string (own_name a)" "\<forall>i \<in> set items. item_ok i"
    and "\<not> mx_array_to_vector_pending (extracting b)" "service_find (own_name a) (ctx b) = Some (Some (Proxy p), sse)"
    and "ISA_REMOTE_PROC (ctx b) (Proxy p)" "length items < n"
  shows "\<exists>m b' x. finish_sv env items a = (Some m, a\<lparr>building := b'\<rparr>) \<and>
    o2_services_handler n m b = map_option (\<lambda>c. b\<lparr>extracting := x, ctx := c\<rparr>)
      (sv_apply_all p items (ctx (set_proxy p ((proxy p b)\<lparr>is_connected := True\<rparr>) b)))"
proof -
  let ?args = "String (own_name a) # concat (map sv_args items)"
  obtain m b' where m: "finish_sv env items a = (Some m, a\<lparr>building := b'\<rparr>)"
    "body m = zero_padded ''!_o2/sv'' @ zero_padded (CHR '','' # map arg_type ?args) @ concat (map arg_data ?args)"
    using finish_sv_msg [OF assms(1)] by blast
  have ask: "\<forall>arg \<in> set ?args. askable arg"
    using assms(2,3) by (auto simp: sv_args_def askable_def tf_def item_ok_def)
  have ct: "c_string (map arg_type ?args)"
    using ask by (fastforce simp: c_string_def askable_def arg_type_def split: O2arg.splits)
  have ca: "c_string ''!_o2/sv''" by (simp add: c_string_def)
  obtain x rest where x: "o2_extract_start m (extracting b) = Some (int (length (map arg_type ?args)), x)" "reading x"
    "to_come x (bytes_of (map arg_type ?args) @ 0 # rest) (concat (map arg_data ?args))"
    using extract_start_built [OF m(2) ca ct assms(4)] by blast
  let ?rest = "concat (map sv_args items)"
  have come: "to_come x (byte_of (arg_type (String (own_name a))) # bytes_of (map arg_type ?rest) @ 0 # rest)
      (arg_data (String (own_name a)) @ concat (map arg_data ?rest))"
    using x(3) by simp
  have "bytes_of (map arg_type ?rest) @ 0 # rest \<noteq> []" by simp
  from ask_one [OF come this _ x(2)] ask obtain q x1 where x1: "o2_get_next CHR ''s'' x = Some (q, x1)" "q \<noteq> Null"
    "fetch_string x1 q = Some (own_name a)" "to_come x1 (bytes_of (map arg_type ?rest) @ 0 # rest) (concat (map arg_data ?rest))" "reading x1"
    by (auto simp: ask_type_def arg_type_def got_def)
  let ?b = "set_proxy p ((proxy p b)\<lparr>is_connected := True\<rparr>) (b\<lparr>extracting := x1\<rparr>)"
  have e: "extracting ?b = x1" "ctx ?b = ctx (set_proxy p ((proxy p b)\<lparr>is_connected := True\<rparr>) b)" by (simp_all add: set_proxy_def)
  obtain x' where l: "sv_loop n p ?b = map_option (\<lambda>c. ?b\<lparr>extracting := x', ctx := c\<rparr>) (sv_apply_all p items (ctx ?b))"
    using sv_loop_items [of ?b items rest n p] x1(4,5) assms(3,7) e by auto
  have "o2_services_handler n m b = sv_loop n p ?b"
    using x(1) x1(1-3) assms(5,6) by (simp add: o2_services_handler_def)
  also have "\<dots> = map_option (\<lambda>c. b\<lparr>extracting := x', ctx := c\<rparr>) (sv_apply_all p items (ctx ?b))"
    unfolding l by (simp add: set_proxy_def)
  finally have "o2_services_handler n m b = map_option (\<lambda>c. b\<lparr>extracting := x', ctx := c\<rparr>)
      (sv_apply_all p items (ctx (set_proxy p ((proxy p b)\<lparr>is_connected := True\<rparr>) b)))" unfolding e .
  then show ?thesis using m(1) by (intro exI [of _ m] exI [of _ b'] exI [of _ x'] conjI)
qed

section \<open>Services and taps reach the other process\<close>

lemma all_items_added: "i \<in> set (all_items d) \<Longrightarrow> sv_added i"
  by (fastforce simp: all_items_def offered_item_def own_taps_def split: option.splits if_splits)

lemma offered_names: "map sv_name (filter sv_is_service (offered_item d name sps @ own_taps name tps)) \<in> {[], [name]}"
  by (auto simp: offered_item_def own_taps_def filter_map comp_def split: option.split)

lemma distinct_offered:
  "distinct (map fst es) \<Longrightarrow>
   distinct (map sv_name (filter sv_is_service (concat (map (\<lambda>(name, ss). offered_item d name (services ss) @ own_taps name (taps ss)) es)))) \<and>
   set (map sv_name (filter sv_is_service (concat (map (\<lambda>(name, ss). offered_item d name (services ss) @ own_taps name (taps ss)) es)))) \<subseteq> set (map fst es)"
proof (induction es)
  case (Cons e es)
  obtain name ss where e: "e = (name, ss)" by (cases e)
  define os where "os = map sv_name (filter sv_is_service (offered_item d name (services ss) @ own_taps name (taps ss)))"
  define names where "names = map sv_name (filter sv_is_service (concat (map (\<lambda>(name, ss). offered_item d name (services ss) @ own_taps name (taps ss)) es)))"
  have o: "os = [] \<or> os = [name]" using offered_names [of d name "services ss" "taps ss"] by (simp add: os_def)
  have n: "map sv_name (filter sv_is_service (concat (map (\<lambda>(name, ss). offered_item d name (services ss) @ own_taps name (taps ss)) (e # es)))) =
      os @ names"
    by (simp add: e os_def names_def)
  have "distinct names" "set names \<subseteq> set (map fst es)" "name \<notin> set (map fst es)"
    using Cons by (simp_all add: names_def e)
  then show ?case unfolding n using o by (auto simp: e)
qed simp

lemma all_items_distinct: "ctx_ok (ctx d) \<Longrightarrow> distinct (map sv_name (filter sv_is_service (all_items d)))"
  using distinct_offered [of "entries (path_tree (ctx d))" d] by (simp add: all_items_def ctx_ok_def hash_ok_def)

text \<open>A service that the process offers itself, and that is no internal one.\<close>

definition offers :: "discovery \<Rightarrow> string \<Rightarrow> bool" where
  "offers d name \<longleftrightarrow> (\<exists>ss. directory (ctx d) name = Some ss \<and> (\<exists>spp \<in> set (services ss). \<exists>l. service spp = Local l)) \<and>
     (name = [] \<or> hd name \<noteq> CHR ''@'') \<and> name \<noteq> ''_o2'' \<and> \<not> has_slash name"

lemma offers_item: "offers d name \<Longrightarrow> \<exists>i \<in> set (all_items d). sv_name i = name \<and> sv_is_service i"
proof -
  assume o: "offers d name"
  then obtain ss spp l where s: "directory (ctx d) name = Some ss" "spp \<in> set (services ss)" "service spp = Local l"
    "name = [] \<or> hd name \<noteq> CHR ''@''" "name \<noteq> ''_o2''" unfolding offers_def by blast
  have "(name, ss) \<in> set (entries (path_tree (ctx d)))" using s(1) by (auto simp: table_map_def dest: map_of_SomeD)
  moreover have "find (\<lambda>spp. case service spp of Local _ \<Rightarrow> True | Proxy p \<Rightarrow> kind (proxy p d) \<noteq> PROC) (services ss) \<noteq> None"
    using s(2,3) by (auto simp: find_None_iff)
  then obtain i where "i \<in> set (offered_item d name (services ss))" "sv_name i = name" "sv_is_service i"
    using s(4,5) by (auto simp: offered_item_def split: option.split)
  ultimately show ?thesis by (fastforce simp: all_items_def)
qed

lemma connected_ctx:
  "ctx_ok (ctx (set_proxy p i d)) = ctx_ok (ctx d)" "directory (ctx (set_proxy p i d)) = directory (ctx d)"
  "proxies (ctx (set_proxy p i d)) = (proxies (ctx d))(p := i)"
  by (simp_all add: set_proxy_def ctx_ok_def)

lemma connected_remote:
  "remote p (ctx d) \<Longrightarrow> remote p (ctx (set_proxy p ((proxy p d)\<lparr>is_connected := True\<rparr>) d))"
  by (simp add: remote_def ISA_REMOTE_PROC_def connected_ctx)

end
