(* ===== verification/Joining.thy ===== *)
theory Joining
  imports Announce
begin

text \<open>
  How two processes get to know each other, connect, and hear of each other's services, over the handlers of \<open>Discovery\<close>.
\<close>

section \<open>Who connects to whom\<close>

definition process_ok :: "discovery \<Rightarrow> bool" where
  "process_ok d \<longleftrightarrow> \<not> building_message_lock (building d) \<and> net_connected (proxy local_proc d) \<and> ctx_ok (ctx d) \<and>
     own_name d = proc_name (o2n_public_ip d) (o2n_internal_ip d) (tcp_port d) \<and>
     c_string (ensemble_name d) \<and> c_string (o2n_public_ip d) \<and> c_string (o2n_internal_ip d) \<and>
     next_proxy d \<noteq> local_proc"

definition knows_process :: "discovery \<Rightarrow> string \<Rightarrow> nat \<Rightarrow> bool" where
  "knows_process d name p \<longleftrightarrow>
     (\<exists>ss. directory (ctx d) name = Some ss \<and> Service_provider (Proxy p) None \<in> set (services ss))"

lemma proc_name_not_empty: "proc_name pip iip port \<noteq> []"
  by (simp add: proc_name_def)

lemma clocksync_frame:
  assumes "own_name d \<noteq> []"
  shows "\<exists>e d'. o2_send_clocksync_proc env p d = Some (e, d') \<and> ctx d' = ctx d \<and> (\<exists>evs. happened d' = happened d @ evs)"
proof (cases "clock_synchronized d")
  case True
  show ?thesis
  proof (cases "building_message_lock (building d)")
    case True
    then show ?thesis using assms by (simp add: o2_send_clocksync_proc_def o2_send_start_def)
  next
    case False
    obtain m b where "o2_service_message_finish True (junk env) 0 None ''!_o2/cs/cs'' True
        (add_args [String (own_name d)] (snd (o2_send_start (building d)))) = (Some m, b)"
      using built_message [OF False, of "junk env" 0 None "''!_o2/cs/cs''" True "[String (own_name d)]"] by blast
    then have "o2_send_clocksync_proc env p d = Some (O2_SUCCESS, snd (proxy_send env p m (d\<lparr>building := b\<rparr>)))"
      using assms \<open>clock_synchronized d\<close> False by (simp add: o2_send_clocksync_proc_def o2_send_start_def o2_message_finish_def)
    then show ?thesis by (simp add: proxy_send_def happen_def)
  qed
qed (simp add: o2_send_clocksync_proc_def)

lemma services_frame:
  assumes "own_name d \<noteq> []"
  shows "\<exists>e d'. o2_send_services env p d = Some (e, d') \<and> ctx d' = ctx d \<and> (\<exists>evs. happened d' = happened d @ evs)"
  using assms
  by (cases "finish_sv env (all_items d) d")
    (auto simp: o2_send_services_def finish_sv_def proxy_send_def happen_def split: option.split prod.splits)

lemma introduce_frame:
  assumes "own_name d \<noteq> []"
  shows "\<exists>e d'. introduce env p reply iip udp d = Some (e, d') \<and> ctx d' = ctx d \<and>
    (\<exists>evs. happened d' = happened d @ (case reply of None \<Rightarrow> [] | Some m \<Rightarrow> [Sent p m]) @ evs)"
proof -
  obtain e1 d1 where d1: "(case reply of None \<Rightarrow> (O2_SUCCESS, d) | Some m \<Rightarrow> proxy_send env p m d) = (e1, d1)" by fastforce
  then have c1: "ctx d1 = ctx d" "happened d1 = happened d @ (case reply of None \<Rightarrow> [] | Some m \<Rightarrow> [Sent p m])"
    by (auto simp: proxy_send_def happen_def split: option.splits)
  obtain e2 d2 where d2: "o2_send_clocksync_proc env p d1 = Some (e2, d2)" "ctx d2 = ctx d1" "\<exists>evs. happened d2 = happened d1 @ evs"
    using clocksync_frame [of d1 env p] assms c1 by auto
  obtain e3 d3 where d3: "o2_send_services env p d2 = Some (e3, d3)" "ctx d3 = ctx d2" "\<exists>evs. happened d3 = happened d2 @ evs"
    using services_frame [of d2 env p] assms c1 d2(2) by auto
  show ?thesis
    unfolding introduce_def d1 using c1 d2 d3 by (auto simp: Let_def)
qed

lemma add_provider_new:
  assumes "ctx_ok (ctx d)" "remote p (ctx d)"
  shows "\<exists>c. add_provider name p d = Some (d\<lparr>ctx := c\<rparr>) \<and> ctx_ok c \<and> proxies c = proxies (ctx d) \<and>
    knows_process (d\<lparr>ctx := c\<rparr>) name p \<and> (\<forall>k. k \<noteq> name \<longrightarrow> directory c k = directory (ctx d) k)"
  using provider_new_remote [OF assms, of None name]
  by (auto simp: add_provider_def knows_process_def adjust_properties_def props_ok_def)

lemma becomes_client:
  assumes "process_ok d" "own_name d < name" "directory (ctx d) name = None" "connects env (o2_hex_to_dot iip) tcp"
  shows "\<exists>e d' m evs flag. discovered_info env name iip tcp udp d = Some (e, d') \<and>
    happened d' = happened d @ [Tcp_client (next_proxy d) (o2_hex_to_dot iip) tcp, Sent (next_proxy d) m] @ evs \<and>
    body m = dy_body (own_dy_args d flag) \<and> (flag = O2_DY_HUB \<or> flag = O2_DY_CONNECT) \<and>
    knows_process d' name (next_proxy d) \<and> (\<forall>k. k \<noteq> name \<longrightarrow> directory (ctx d') k = directory (ctx d) k)"
proof -
  let ?p = "next_proxy d"
  have ok: "\<not> building_message_lock (building d)" "net_connected (proxy local_proc d)" "ctx_ok (ctx d)" "?p \<noteq> local_proc" "own_name d \<noteq> []"
    using assms(1) proc_name_not_empty by (auto simp: process_ok_def)
  have find: "hash_find name (path_tree (ctx d)) = None" using find_entry [OF ok(3)] assms(3) by simp
  define d1 where "d1 = snd (create_tcp_proc env (o2_hex_to_dot iip) tcp d)"
  have d1: "create_tcp_proc env (o2_hex_to_dot iip) tcp d = (Some ?p, d1)"
    using assms(4) by (simp add: create_tcp_proc_def d1_def Let_def)
  define d2 where "d2 = set_proxy ?p ((proxy ?p d1)\<lparr>kind := PROC, key := name\<rparr>) d1"
  have h2: "happened d2 = happened d @ [Tcp_client ?p (o2_hex_to_dot iip) tcp]" "building d2 = building d" "own_name d2 = own_name d"
      "net_connected (proxy local_proc d2)" "o2_hub_addr d2 = o2_hub_addr d" "path_tree (ctx d2) = path_tree (ctx d)"
      "kind (proxy ?p d2) = PROC" "own_dy_args (d2\<lparr>ctx := c\<rparr>) flag = own_dy_args d flag" for c flag
    using assms(4) ok(2,4)
    by (simp_all add: d2_def d1_def create_tcp_proc_def set_proxy_def happen_def Let_def own_dy_args_def dy_args_def)
  have "ctx_ok (ctx d2)" "remote ?p (ctx d2)" using ok(3,4) h2(6,7) by (simp_all add: ctx_ok_def remote_def ISA_REMOTE_PROC_def)
  from add_provider_new [OF this, of name] obtain c where c: "add_provider name ?p d2 = Some (d2\<lparr>ctx := c\<rparr>)" "proxies c = proxies (ctx d2)"
    "knows_process (d2\<lparr>ctx := c\<rparr>) name ?p" "\<forall>k. k \<noteq> name \<longrightarrow> directory c k = directory (ctx d2) k" by blast
  let ?d3 = "d2\<lparr>ctx := c\<rparr>"
  let ?flag = "if name = o2_hub_addr d then O2_DY_HUB else O2_DY_CONNECT"
  have "\<not> building_message_lock (building ?d3)" "net_connected (proxy local_proc ?d3)" using h2 ok(1) c(2) by simp_all
  from own_dy_msg [OF this, of env True ?flag] obtain m bl where m:
    "o2_make_dy_msg env local_proc True False ?flag ?d3 = (Some m, ?d3\<lparr>building := bl\<rparr>)" "body m = dy_body (own_dy_args d ?flag)"
    unfolding h2(8) by blast
  have "own_name (?d3\<lparr>building := bl\<rparr>) \<noteq> []" using h2(3) ok(5) c(2) by simp
  from introduce_frame [OF this, of env ?p "Some m" iip udp] obtain e d' evs where i:
    "introduce env ?p (Some m) iip udp (?d3\<lparr>building := bl\<rparr>) = Some (e, d')" "ctx d' = c" "happened d' = happened d2 @ [Sent ?p m] @ evs"
    by auto
  have cmp: "strcmp (own_name d) name < 0" "strcmp (own_name d) name \<noteq> 0" using assms(2) by (auto simp: strcmp_def)
  have "discovered_info env name iip tcp udp d = Some (e, d')"
    using ok(5) cmp find d1 c(1) m(1) i(1) by (simp add: discovered_info_def d2_def [symmetric] h2(5))
  moreover have "knows_process d' name ?p" using c(3) i(2) by (simp add: knows_process_def)
  ultimately show ?thesis using i(2,3) h2(1,6) m(2) c(4) by (intro exI [of _ e] exI [of _ d'] exI [of _ m] exI [of _ evs] exI [of _ ?flag]) auto
qed

lemma accepts_client:
  assumes "process_ok d" "message_source d = Some q" "kind (proxy q d) = PROC" "q \<noteq> local_proc"
    and "dy = O2_DY_HUB \<or> dy = O2_DY_CONNECT"
  shows "\<exists>e d'. discovered_connection env name iip udp dy d = Some (e, d') \<and> knows_process d' name q \<and>
    (\<forall>k. k \<noteq> name \<longrightarrow> directory (ctx d') k = directory (ctx d) k)"
proof -
  have ok: "\<not> building_message_lock (building d)" "net_connected (proxy local_proc d)" "ctx_ok (ctx d)" "own_name d \<noteq> []"
    using assms(1) proc_name_not_empty by (auto simp: process_ok_def)
  define d1 where "d1 = set_proxy q ((proxy q d)\<lparr>key := name\<rparr>) d"
  have "ctx_ok (ctx d1)" "remote q (ctx d1)"
    using ok(3) assms(3,4) by (simp_all add: d1_def connected_ctx remote_def ISA_REMOTE_PROC_def)
  from add_provider_new [OF this, of name] obtain c where c: "add_provider name q d1 = Some (d1\<lparr>ctx := c\<rparr>)" "proxies c = proxies (ctx d1)"
    "knows_process (d1\<lparr>ctx := c\<rparr>) name q" "\<forall>k. k \<noteq> name \<longrightarrow> directory c k = directory (ctx d1) k" by blast
  let ?d2 = "d1\<lparr>ctx := c\<rparr>"
  have own: "key (proxies c local_proc) \<noteq> []" using ok(4) assms(4) c(2) by (simp add: d1_def connected_ctx)
  have i: "\<exists>e d'. introduce env q reply iip udp d2 = Some (e, d') \<and> ctx d' = c" if "ctx d2 = c" for reply d2
    using introduce_frame [of d2 env q reply iip udp] own that by auto
  have "\<exists>e d'. discovered_connection env name iip udp dy d = Some (e, d') \<and> ctx d' = c"
  proof (cases "dy = O2_DY_HUB")
    case True
    obtain r d2 where r: "o2_make_dy_msg env local_proc True False O2_DY_REPLY ?d2 = (r, d2)" by fastforce
    then have "ctx d2 = c" by (auto simp: o2_make_dy_msg_def Let_def split: option.splits prod.splits if_splits)
    then show ?thesis using i [of d2 r] True assms(2,3) c(1) r by (simp add: discovered_connection_def d1_def)
  next
    case False
    then have dy: "dy = O2_DY_CONNECT" using assms(5) by simp
    obtain r d2 where r: "hub_message env (?d2\<lparr>uses_hub := (uses_hub ?d2)(q := O2_HUB_REMOTE)\<rparr>) = (r, d2)" by fastforce
    then have "ctx d2 = c" by (auto simp: hub_message_def split: prod.splits)
    then show ?thesis using i [of d2 r] i [of ?d2 None] dy assms(2,3) c(1) r
      by (auto simp: discovered_connection_def d1_def)
  qed
  then show ?thesis using c(3,4) by (auto simp: knows_process_def d1_def connected_ctx)
qed

lemma discovered_name_eq:
  "o2_discovered_a_remote_process_name env name (of_nat O2_VERSION) iip tcp udp dy d =
     (if dy = O2_DY_INFO then discovered_info env name iip tcp udp d else discovered_connection env name iip udp dy d)"
  by (simp add: o2_discovered_a_remote_process_name_def)

text \<open>What a process makes of another one's message about itself.\<close>

lemma dy_read_ok:
  assumes "body m = dy_body (own_dy_args a dy)" "process_ok a" "ensemble_name a = ensemble_name b"
    and "\<not> mx_array_to_vector_pending (extracting b)"
  shows "\<exists>x. o2_discovery_handler env m b = map_option snd
    (case message_source b of
       Some q \<Rightarrow> if dy = O2_DY_CALLBACK
                 then discovered_info env (own_name a) (o2n_internal_ip a) (tcp_port a) (snd (udp_address a local_proc))
                        (happen (Socket_closed q) (b\<lparr>extracting := x\<rparr>))
                 else o2_discovered_a_remote_process_name env (own_name a) (of_nat O2_VERSION) (o2n_internal_ip a) (tcp_port a)
                        (snd (udp_address a local_proc)) dy (b\<lparr>extracting := x\<rparr>)
     | None \<Rightarrow> o2_discovered_a_remote_process_name env (own_name a) (of_nat O2_VERSION) (o2n_internal_ip a) (tcp_port a)
                 (snd (udp_address a local_proc)) dy (b\<lparr>extracting := x\<rparr>))"
proof -
  have s: "c_string (ensemble_name a)" "c_string (o2n_public_ip a)" "c_string (o2n_internal_ip a)"
    "own_name a = proc_name (o2n_public_ip a) (o2n_internal_ip a) (tcp_port a)"
    using assms(2) by (simp_all add: process_ok_def)
  obtain x where "o2_discovery_handler env m b = map_option snd (o2_discovered_a_remote_process env (of_nat O2_VERSION)
      (o2n_public_ip a) (o2n_internal_ip a) (tcp_port a) (snd (udp_address a local_proc)) dy (b\<lparr>extracting := x\<rparr>))"
    using dy_read [OF assms(1) s(1-3) assms(4), of env] assms(3) by auto
  then show ?thesis
    by (intro exI [of _ x])
      (simp add: o2_discovered_a_remote_process_def Let_def s(4) discovered_name_eq del: of_nat_numeral split: option.split)
qed

lemma process_ok_kept [simp]:
  "process_ok (d\<lparr>extracting := x\<rparr>) = process_ok d" "process_ok (happen e d) = process_ok d"
  by (simp_all add: process_ok_def happen_def)

text \<open>C3: a process that hears of one of its ensemble with a greater name, which it does not know yet and can connect to, connects to it and
  sends its own description; when the other process handles that message, which came over this connection, each of the two has the
  other in its directory, with the connection between them as its proxy. (So the lower name connects to the higher, as in the list of steps
  of doc/design.txt; the summary there says the opposite.)\<close>

theorem handshake:
  assumes "process_ok a" "process_ok b" "ensemble_name a = ensemble_name b" "own_name b < own_name a"
    and "directory (ctx b) (own_name a) = None" "connects env (o2_hex_to_dot (o2n_internal_ip a)) (tcp_port a)"
    and "message_source a = Some q" "kind (proxy q a) = PROC" "q \<noteq> local_proc" "\<not> mx_array_to_vector_pending (extracting a)"
  shows "\<exists>e b' m a'.
    o2_discovered_a_remote_process_name env (own_name a) (of_nat O2_VERSION) (o2n_internal_ip a) (tcp_port a) udp O2_DY_INFO b = Some (e, b') \<and>
    Sent (next_proxy b) m \<in> set (happened b') \<and> knows_process b' (own_name a) (next_proxy b) \<and>
    o2_discovery_handler env' m a = Some a' \<and> knows_process a' (own_name b) q"
proof -
  obtain e b' m evs flag where b': "discovered_info env (own_name a) (o2n_internal_ip a) (tcp_port a) udp b = Some (e, b')"
    "happened b' = happened b @ [Tcp_client (next_proxy b) (o2_hex_to_dot (o2n_internal_ip a)) (tcp_port a), Sent (next_proxy b) m] @ evs"
    "body m = dy_body (own_dy_args b flag)" "flag = O2_DY_HUB \<or> flag = O2_DY_CONNECT" "knows_process b' (own_name a) (next_proxy b)"
    using becomes_client [OF assms(2,4-6), of udp] by blast
  obtain x where x: "o2_discovery_handler env' m a = map_option snd (discovered_connection env' (own_name b) (o2n_internal_ip b)
      (snd (udp_address b local_proc)) flag (a\<lparr>extracting := x\<rparr>))"
    using dy_read_ok [OF b'(3) assms(2) assms(3) [symmetric] assms(10), of env'] b'(4) assms(7)
    unfolding discovered_name_eq by auto
  obtain e' a' where a': "discovered_connection env' (own_name b) (o2n_internal_ip b) (snd (udp_address b local_proc)) flag (a\<lparr>extracting := x\<rparr>) =
      Some (e', a')" "knows_process a' (own_name b) q"
    using accepts_client [of "a\<lparr>extracting := x\<rparr>" q flag env' "own_name b" "o2n_internal_ip b" "snd (udp_address b local_proc)"]
      assms(1,7-9) b'(4) by auto
  show ?thesis unfolding discovered_name_eq using b' x a' by auto
qed

text \<open>The higher of two names: the process asks the other one to connect and forgets about it.\<close>

lemma asks_to_connect:
  assumes "process_ok d" "name < own_name d" "directory (ctx d) name = None" "connects env (o2_hex_to_dot iip) tcp"
  shows "\<exists>d' m. discovered_info env name iip tcp udp d = Some (O2_SUCCESS, d') \<and> path_tree (ctx d') = path_tree (ctx d) \<and>
    Sent (next_proxy d) m \<in> set (happened d') \<and> body m = dy_body (own_dy_args d O2_DY_CALLBACK) \<and> kind (proxy (next_proxy d) d') = PROC_TEMP"
proof -
  let ?p = "next_proxy d"
  have ok: "\<not> building_message_lock (building d)" "net_connected (proxy local_proc d)" "ctx_ok (ctx d)" "?p \<noteq> local_proc" "own_name d \<noteq> []"
    using assms(1) proc_name_not_empty by (auto simp: process_ok_def)
  have find: "hash_find name (path_tree (ctx d)) = None" using find_entry [OF ok(3)] assms(3) by simp
  define d1 where "d1 = snd (create_tcp_proc env (o2_hex_to_dot iip) tcp d)"
  have d1: "create_tcp_proc env (o2_hex_to_dot iip) tcp d = (Some ?p, d1)"
    using assms(4) by (simp add: create_tcp_proc_def d1_def Let_def)
  have h1: "building d1 = building d" "net_connected (proxy local_proc d1)" "path_tree (ctx d1) = path_tree (ctx d)"
      "kind (proxy ?p d1) = PROC_TEMP" "own_dy_args d1 flag = own_dy_args d flag" for flag
    using assms(4) ok(2,4)
    by (simp_all add: d1_def create_tcp_proc_def set_proxy_def happen_def Let_def own_dy_args_def dy_args_def)
  have "\<not> building_message_lock (building d1)" using ok(1) h1(1) by simp
  from own_dy_msg [OF this h1(2), of env True O2_DY_CALLBACK] obtain m bl where m:
    "o2_make_dy_msg env local_proc True False O2_DY_CALLBACK d1 = (Some m, d1\<lparr>building := bl\<rparr>)"
    "body m = dy_body (own_dy_args d O2_DY_CALLBACK)"
    unfolding h1(5) by blast
  have cmp: "strcmp (own_name d) name > 0" "strcmp (own_name d) name \<noteq> 0" using assms(2) by (auto simp: strcmp_def)
  show ?thesis
    using ok(5) cmp find d1 m(1)
    by (simp add: discovered_info_def proxy_send_def)
      (use h1 m(2) in \<open>auto simp: happen_def intro!: exI [of _ m]\<close>)
qed

text \<open>C39: a process that hears of one with a lower name, which it does not know yet, only asks it to connect, over a connection that the
  other closes: the directory of the asking process stays as it was, and the other one, if it does not know the asking process yet and
  can connect to it, does so and has it in its directory. (The lower name connects to the higher; the summary in
  doc/design.txt says the opposite.)\<close>

theorem callback_connects:
  assumes "process_ok a" "process_ok b" "ensemble_name a = ensemble_name b" "own_name b < own_name a"
    and "directory (ctx a) (own_name b) = None" "connects env (o2_hex_to_dot (o2n_internal_ip b)) (tcp_port b)"
    and "directory (ctx b) (own_name a) = None" "connects env' (o2_hex_to_dot (o2n_internal_ip a)) (tcp_port a)"
    and "message_source b = Some q" "\<not> mx_array_to_vector_pending (extracting b)"
  shows "\<exists>a' m b'.
    o2_discovered_a_remote_process_name env (own_name b) (of_nat O2_VERSION) (o2n_internal_ip b) (tcp_port b) udp O2_DY_INFO a =
      Some (O2_SUCCESS, a') \<and>
    Sent (next_proxy a) m \<in> set (happened a') \<and> directory (ctx a') = directory (ctx a) \<and>
    o2_discovery_handler env' m b = Some b' \<and> Socket_closed q \<in> set (happened b') \<and> knows_process b' (own_name a) (next_proxy b)"
proof -
  obtain a' m where a': "discovered_info env (own_name b) (o2n_internal_ip b) (tcp_port b) udp a = Some (O2_SUCCESS, a')"
    "path_tree (ctx a') = path_tree (ctx a)" "Sent (next_proxy a) m \<in> set (happened a')" "body m = dy_body (own_dy_args a O2_DY_CALLBACK)"
    using asks_to_connect [OF assms(1,4-6), of udp] by blast
  obtain x where x: "o2_discovery_handler env' m b = map_option snd (discovered_info env' (own_name a) (o2n_internal_ip a) (tcp_port a)
      (snd (udp_address a local_proc)) (happen (Socket_closed q) (b\<lparr>extracting := x\<rparr>)))"
    using dy_read_ok [OF a'(4) assms(1,3,10), of env'] assms(9) by auto
  let ?b = "happen (Socket_closed q) (b\<lparr>extracting := x\<rparr>)"
  have "process_ok ?b" using assms(2) by simp
  moreover have "own_name ?b < own_name a" "directory (ctx ?b) (own_name a) = None"
    using assms(4,7) by (simp_all add: happen_def)
  ultimately obtain e b' evs where b':
    "discovered_info env' (own_name a) (o2n_internal_ip a) (tcp_port a) (snd (udp_address a local_proc)) ?b = Some (e, b')"
    "happened b' = happened ?b @ evs" "knows_process b' (own_name a) (next_proxy ?b)"
    using becomes_client [OF _ _ _ assms(8), of ?b "own_name a" "snd (udp_address a local_proc)"] by blast
  then show ?thesis unfolding discovered_name_eq using a' x by (auto simp: happen_def)
qed

text \<open>The request to connect that comes through the MQTT broker has no connection as its source. It is then taken for the
  message of a process that has connected, and is dropped: nothing but the reading position changes.\<close>

theorem callback_dropped:
  assumes "process_ok a" "ensemble_name a = ensemble_name b" "message_source b = None"
    and "\<not> mx_array_to_vector_pending (extracting b)"
  shows "\<exists>m a' x. o2_make_dy_msg env local_proc True False O2_DY_CALLBACK a = (Some m, a') \<and>
    o2_discovery_handler env' m b = Some (b\<lparr>extracting := x\<rparr>)"
proof -
  have "\<not> building_message_lock (building a)" "net_connected (proxy local_proc a)" using assms(1) by (simp_all add: process_ok_def)
  from own_dy_msg [OF this, of env True O2_DY_CALLBACK] obtain m a' where m:
    "o2_make_dy_msg env local_proc True False O2_DY_CALLBACK a = (Some m, a')" "body m = dy_body (own_dy_args a O2_DY_CALLBACK)" by blast
  then show ?thesis
    using dy_read_ok [OF m(2) assms(1,2,4), of env'] assms(3) unfolding discovered_name_eq by (auto simp: discovered_connection_def)
qed

text \<open>Hearing of a process that is already in the directory, or of itself, changes nothing.\<close>

theorem heard_again:
  assumes "own_name d \<noteq> []" "own_name d = name \<or> directory (ctx d) name \<noteq> None" "ctx_ok (ctx d)"
  shows "o2_discovered_a_remote_process_name env name (of_nat O2_VERSION) iip tcp udp O2_DY_INFO d = Some (O2_SUCCESS, d)"
  using assms find_entry [of "ctx d" name] unfolding discovered_name_eq by (auto simp: discovered_info_def Let_def strcmp_def)

text \<open>A message with another code from a connected process: its object is deleted and then used.\<close>

lemma unknown_code_fatal:
  assumes "message_source d = Some p" "kind (proxy p d) = PROC" "dy \<notin> {O2_DY_INFO, O2_DY_HUB, O2_DY_REPLY, O2_DY_CONNECT}"
  shows "o2_discovered_a_remote_process_name env name (of_nat O2_VERSION) iip tcp udp dy d = None"
  using assms unfolding discovered_name_eq
  by (cases "add_provider name p (set_proxy p ((proxy p d)\<lparr>key := name\<rparr>) d)") (auto simp: discovered_connection_def)

text \<open>The client does not notice that a connection could not be made, and follows a null pointer.\<close>

lemma client_without_socket:
  assumes "own_name d \<noteq> []" "own_name d < name" "directory (ctx d) name = None" "ctx_ok (ctx d)"
    and "\<not> connects env (o2_hex_to_dot iip) tcp"
  shows "o2_discovered_a_remote_process_name env name (of_nat O2_VERSION) iip tcp udp O2_DY_INFO d = None"
  using assms find_entry [of "ctx d" name] unfolding discovered_name_eq
  by (auto simp: discovered_info_def Let_def strcmp_def create_tcp_proc_def)

section \<open>Two processes\<close>

definition new_process :: "string \<Rightarrow> 32 word \<Rightarrow> discovery" where
  "new_process ip port =
     \<lparr>ctx = \<lparr>path_tree = empty_Hash_node, full_path_table = empty_Hash_node,
        proxies = (\<lambda>p. \<lparr>kind = (if p = local_proc then PROC_TCP_SERVER else PROC),
                        key = (if p = local_proc then proc_name ip ip port else []), net_connected = True,
                        is_connected = False, proxy_status = 5\<rparr>),
        local_status = 4, ensemble = True, finishing = False, events = []\<rparr>,
      ensemble_name = ''band'', o2n_public_ip = ip, o2n_internal_ip = ip, tcp_port = port,
      udp_address = (\<lambda>_. ([], 0)), message_source = None, next_proxy = 2, connections = [], o2_mqtt_procs = [],
      uses_hub = (\<lambda>_. O2_NOT_HUB), o2_hub_addr = [], clock_synchronized = False,
      building = idle_builder, extracting = no_extraction, happened = []\<rparr>"

definition open_net :: disc_env where
  "open_net = \<lparr>connects = (\<lambda>_ _. True), send_outcome = (\<lambda>_ _. O2_SUCCESS), udp_init = (\<lambda>_ _. O2_SUCCESS), junk = (\<lambda>_. 0),
     new_status = 3\<rparr>"

abbreviation (input) "low_process \<equiv> new_process ''c0a80001'' 8000"
abbreviation (input) "high_process \<equiv> new_process ''c0a80002'' 8000"

lemma process_names:
  "own_name low_process = ''@c0a80001:c0a80001:1f40''" "own_name high_process = ''@c0a80002:c0a80002:1f40''"
  by (simp_all add: new_process_def proc_name_def hex_format_def show_hex.simps hex_digit_def)

lemma lower_name: "own_name low_process < own_name high_process"
  unfolding process_names by (simp add: less_list_code less_char_def)

lemma new_process_simps [simp]:
  "ensemble_name (new_process ip port) = ''band''" "o2n_public_ip (new_process ip port) = ip" "o2n_internal_ip (new_process ip port) = ip"
  "tcp_port (new_process ip port) = port" "directory (ctx (new_process ip port)) = Map.empty" "ctx_ok (ctx (new_process ip port))"
  "\<not> building_message_lock (building (new_process ip port))" "\<not> mx_array_to_vector_pending (extracting (new_process ip port))"
  "connects open_net a p" "message_source (new_process ip port) = None" "clock_synchronized (new_process ip port) = False"
  "q \<noteq> local_proc \<Longrightarrow> kind (proxy q (new_process ip port)) = PROC"
  by (simp_all add: new_process_def open_net_def ctx_ok_def empty_Hash_node_ok idle_builder_def no_extraction_def)

lemma new_process_ok: "c_string ip \<Longrightarrow> process_ok (new_process ip port)"
  by (simp add: process_ok_def c_string_def) (simp add: new_process_def)

lemma hears_ok: "process_ok (d\<lparr>message_source := s\<rparr>) = process_ok d"
  by (simp add: process_ok_def)

lemma both_ok: "process_ok low_process" "process_ok high_process"
  by (simp_all add: new_process_ok c_string_def)

abbreviation (input) "listening \<equiv> high_process\<lparr>message_source := Some 5\<rparr>"

theorem handshake_witness:
  "\<exists>e b' m a'.
    o2_discovered_a_remote_process_name open_net (own_name listening) (of_nat O2_VERSION) (o2n_internal_ip listening)
      (tcp_port listening) 8001 O2_DY_INFO low_process = Some (e, b') \<and>
    Sent (next_proxy low_process) m \<in> set (happened b') \<and> knows_process b' (own_name listening) (next_proxy low_process) \<and>
    o2_discovery_handler open_net m listening = Some a' \<and> knows_process a' (own_name low_process) 5"
  by (rule handshake) (use both_ok lower_name in \<open>simp_all add: hears_ok\<close>)

theorem callback_connects_witness:
  "\<exists>a' m b'.
    o2_discovered_a_remote_process_name open_net (own_name (low_process\<lparr>message_source := Some 5\<rparr>)) (of_nat O2_VERSION)
      (o2n_internal_ip (low_process\<lparr>message_source := Some 5\<rparr>)) (tcp_port (low_process\<lparr>message_source := Some 5\<rparr>)) 8001 O2_DY_INFO
      high_process = Some (O2_SUCCESS, a') \<and>
    Sent (next_proxy high_process) m \<in> set (happened a') \<and> directory (ctx a') = directory (ctx high_process) \<and>
    o2_discovery_handler open_net m (low_process\<lparr>message_source := Some 5\<rparr>) = Some b' \<and> Socket_closed 5 \<in> set (happened b') \<and>
    knows_process b' (own_name high_process) (next_proxy (low_process\<lparr>message_source := Some 5\<rparr>))"
  by (rule callback_connects) (use both_ok lower_name in \<open>simp_all add: hears_ok\<close>)

theorem callback_dropped_witness:
  "\<exists>m a' x. o2_make_dy_msg open_net local_proc True False O2_DY_CALLBACK high_process = (Some m, a') \<and>
    o2_discovery_handler open_net m low_process = Some (low_process\<lparr>extracting := x\<rparr>)"
  by (rule callback_dropped) (use both_ok in simp_all)

theorem heard_again_witness:
  "o2_discovered_a_remote_process_name open_net (own_name low_process) (of_nat O2_VERSION) ''c0a80001'' 8000 8001 O2_DY_INFO low_process =
     Some (O2_SUCCESS, low_process)"
  by (rule heard_again) (simp_all add: process_names)

text \<open>The low process after it has heard of the high one, and the high process with a service of its own.\<close>

definition with_entry :: "string \<Rightarrow> svc_node \<Rightarrow> discovery \<Rightarrow> discovery" where
  "with_entry name n d = d\<lparr>ctx := (ctx d)\<lparr>path_tree :=
     the (hash_insert (name, Services_entry [Service_provider n None] []) (path_tree (ctx d)))\<rparr>\<rparr>"

lemma with_entry:
  assumes "ctx_ok (ctx d)"
  shows "ctx_ok (ctx (with_entry name n d))"
    "directory (ctx (with_entry name n d)) = (directory (ctx d))(name \<mapsto> Services_entry [Service_provider n None] [])"
    "proxies (ctx (with_entry name n d)) = proxies (ctx d)"
    "building (with_entry name n d) = building d" "extracting (with_entry name n d) = extracting d"
proof -
  obtain t where "hash_insert (name, Services_entry [Service_provider n None] []) (path_tree (ctx d)) = Some t" "hash_ok t"
    "table_map t = (directory (ctx d))(name \<mapsto> Services_entry [Service_provider n None] [])"
    using names.insert [of "path_tree (ctx d)" "(name, Services_entry [Service_provider n None] [])"] assms by (auto simp: ctx_ok_def)
  then show "ctx_ok (ctx (with_entry name n d))"
    "directory (ctx (with_entry name n d)) = (directory (ctx d))(name \<mapsto> Services_entry [Service_provider n None] [])"
    "proxies (ctx (with_entry name n d)) = proxies (ctx d)"
    "building (with_entry name n d) = building d" "extracting (with_entry name n d) = extracting d"
    by (simp_all add: with_entry_def ctx_ok_def)
qed

abbreviation (input) "offering \<equiv> with_entry ''synth'' (Local (Tree new_Hash_node)) high_process"
abbreviation (input) "informed \<equiv> with_entry ''@c0a80002:c0a80002:1f40'' (Proxy 1) low_process"

lemma process_okD: "process_ok d \<Longrightarrow> \<not> building_message_lock (building d) \<and> ctx_ok (ctx d)"
  by (simp add: process_ok_def)

definition entry_text_ok :: "string \<Rightarrow> Services_entry \<Rightarrow> bool" where
  "entry_text_ok name ss \<longleftrightarrow> c_string name \<and> (\<forall>sp \<in> set (services ss). case properties sp of None \<Rightarrow> True | Some ps \<Rightarrow> c_string ps \<and> props_ok (Some ps)) \<and>
     (\<forall>tap \<in> set (taps ss). c_string (tapper tap))"

lemma items_ok:
  assumes "ctx_ok (ctx d)" "\<forall>name ss. directory (ctx d) name = Some ss \<longrightarrow> entry_text_ok name ss"
  shows "\<forall>i \<in> set (all_items d). item_ok i"
proof -
  have one: "item_ok i" if o: "entry_text_ok name ss" "i \<in> set (offered_item d name (services ss) @ own_taps name (taps ss))" for name ss i
  proof (cases "i \<in> set (own_taps name (taps ss))")
    case True
    then show ?thesis using o(1) by (auto simp: own_taps_def entry_text_ok_def item_ok_def)
  next
    case False
    then have "i \<in> set (offered_item d name (services ss))" using o(2) by simp
    then obtain sp where f: "List.find (\<lambda>spp. case service spp of Local _ \<Rightarrow> True | Proxy p \<Rightarrow> kind (proxy p d) \<noteq> PROC) (services ss) = Some sp"
      "i = Sv_item name True True (case properties sp of None \<Rightarrow> '';'' | Some ps \<Rightarrow> ps) 0"
      unfolding offered_item_def
      by (cases "List.find (\<lambda>spp. case service spp of Local _ \<Rightarrow> True | Proxy p \<Rightarrow> kind (proxy p d) \<noteq> PROC) (services ss)")
        (auto split: if_splits)
    have "sp \<in> set (services ss)" using f(1) unfolding find_Some_iff by auto
    note f = this f(2)
    then show ?thesis using o(1) by (auto simp: entry_text_ok_def item_ok_def c_string_def adjust_properties_def props_ok_def split: option.splits)
  qed
  have "directory (ctx d) name = Some ss" if "(name, ss) \<in> set (entries (path_tree (ctx d)))" for name ss
    using that assms(1) by (simp add: table_map_def ctx_ok_def hash_ok_def)
  then show ?thesis using assms(2) one by (fastforce simp: all_items_def)
qed

lemma offering:
  "process_ok offering" "own_name offering = ''@c0a80002:c0a80002:1f40''"
  "\<forall>i \<in> set (all_items offering). item_ok i" "offers offering ''synth''"
proof -
  have e: "entry_text_ok ''synth'' (Services_entry [Service_provider n None] [])" for n
    by (simp add: entry_text_ok_def c_string_def)
  show "\<forall>i \<in> set (all_items offering). item_ok i"
    by (rule items_ok) (use e in \<open>simp_all add: with_entry\<close>)
  show "own_name offering = ''@c0a80002:c0a80002:1f40''" by (simp add: with_entry process_names)
  show "offers offering ''synth''" by (simp add: offers_def with_entry has_slash_def)
  show "process_ok offering" using both_ok(2) with_entry(1) [of high_process "''synth''" "Local (Tree new_Hash_node)"]
    unfolding process_ok_def by (simp add: with_entry_def)
qed

lemma informed:
  "ctx_ok (ctx informed)" "remote 1 (ctx informed)" "\<not> mx_array_to_vector_pending (extracting informed)"
  "service_find ''@c0a80002:c0a80002:1f40'' (ctx informed) =
    Some (Some (Proxy 1), Some (Services_entry [Service_provider (Proxy 1) None] []))"
proof -
  show ok: "ctx_ok (ctx informed)" by (simp add: with_entry)
  have "hash_find ''@c0a80002:c0a80002:1f40'' (path_tree (ctx informed)) = Some (Services_entry [Service_provider (Proxy 1) None] [])"
    unfolding find_entry [OF ok] by (simp add: with_entry)
  then have "find_services ''@c0a80002:c0a80002:1f40'' (ctx informed) = Some (Services_entry [Service_provider (Proxy 1) None] [])"
    unfolding find_services_def by (simp add: string_pad_short)
  then show "service_find ''@c0a80002:c0a80002:1f40'' (ctx informed) =
    Some (Some (Proxy 1), Some (Services_entry [Service_provider (Proxy 1) None] []))"
    by (simp add: service_find_def)
  show "remote 1 (ctx informed)" by (simp add: remote_def ISA_REMOTE_PROC_def with_entry)
  show "\<not> mx_array_to_vector_pending (extracting informed)" by (simp add: with_entry_def)
qed

section \<open>Services become known\<close>

text \<open>C6: the services and taps a process has are sent in one message (\<open>item_ok\<close>: their names are C strings, and the properties of
  a service begin with a semicolon, as the receiver asserts); after the receiver has handled it, it counts the sender
  as connected, and every service the sender offers has the sender among its providers (and every tap is in its list).\<close>

theorem services_arrive:
  assumes "\<not> building_message_lock (building a)" "own_name a \<noteq> []" "c_string (own_name a)" "ctx_ok (ctx a)"
    and "\<forall>i \<in> set (all_items a). item_ok i"
    and "\<not> mx_array_to_vector_pending (extracting b)" "ctx_ok (ctx b)" "length (all_items a) < n"
    and "service_find (own_name a) (ctx b) = Some (Some (Proxy p), sse)" "remote p (ctx b)"
  shows "\<exists>m a' b'. o2_send_services env q a = Some (O2_SUCCESS, a') \<and> happened a' = happened a @ [Sent q m] \<and>
    o2_services_handler n m b = Some b' \<and> ctx_ok (ctx b') \<and> is_connected (proxy p b') \<and>
    (\<forall>i \<in> set (all_items a). known p (ctx b') i) \<and>
    (\<forall>name. offers a name \<longrightarrow>
       (\<exists>ss props. directory (ctx b') name = Some ss \<and> Service_provider (Proxy p) props \<in> set (services ss)))"
proof -
  let ?b = "set_proxy p ((proxy p b)\<lparr>is_connected := True\<rparr>) b"
  have r: "ISA_REMOTE_PROC (ctx b) (Proxy p)" using assms(10) by (simp add: remote_def)
  obtain m bl x where m: "finish_sv env (all_items a) a = (Some m, a\<lparr>building := bl\<rparr>)"
    "o2_services_handler n m b = map_option (\<lambda>c. b\<lparr>extracting := x, ctx := c\<rparr>) (sv_apply_all p (all_items a) (ctx ?b))"
    using sv_heard [where env = env, OF assms(1,3,5,6,9) r assms(8)] by blast
  obtain c' where c': "sv_apply_all p (all_items a) (ctx ?b) = Some c'" "ctx_ok c'" "proxies c' = proxies (ctx ?b)"
    "\<forall>i \<in> set (all_items a). known p c' i"
    using apply_all_announced [of "ctx ?b" p "all_items a"] assms(7) connected_remote [OF assms(10)] all_items_added assms(5)
      all_items_distinct [OF assms(4)] by (auto simp: connected_ctx)
  have "o2_send_services env q a = Some (O2_SUCCESS, snd (proxy_send env q m (a\<lparr>building := bl\<rparr>)))"
    using assms(2) by (simp add: o2_send_services_def m(1))
  moreover have "happened (snd (proxy_send env q m (a\<lparr>building := bl\<rparr>))) = happened a @ [Sent q m]"
    by (simp add: proxy_send_def happen_def)
  moreover have "\<exists>ss props. directory c' name = Some ss \<and> Service_provider (Proxy p) props \<in> set (services ss)" if o: "offers a name" for name
  proof -
    obtain i where "i \<in> set (all_items a)" "sv_name i = name" "sv_is_service i" using offers_item [OF o] by blast
    then show ?thesis using c'(4) o by (fastforce simp: known_def offers_def)
  qed
  ultimately show ?thesis
    using m(2) c' by (intro exI [of _ m] exI [of _ "snd (proxy_send env q m (a\<lparr>building := bl\<rparr>))"]
        exI [of _ "b\<lparr>extracting := x, ctx := c'\<rparr>"]) (auto simp: connected_ctx)
qed

theorem services_arrive_witness:
  "\<exists>m a' b'. o2_send_services open_net 1 offering = Some (O2_SUCCESS, a') \<and> happened a' = happened offering @ [Sent 1 m] \<and>
    o2_services_handler (Suc (length (all_items offering))) m informed = Some b' \<and> ctx_ok (ctx b') \<and> is_connected (proxy 1 b') \<and>
    (\<forall>i \<in> set (all_items offering). known 1 (ctx b') i) \<and>
    (\<forall>name. offers offering name \<longrightarrow>
       (\<exists>ss props. directory (ctx b') name = Some ss \<and> Service_provider (Proxy 1) props \<in> set (services ss)))"
  by (rule services_arrive)
    (use offering informed process_okD [OF offering(1)] in \<open>simp_all add: c_string_def\<close>)

text \<open>C40: a service that is no longer offered stays in the directories of the other processes: the notice says that it is about
  a tap, and the receiver looks for the service with an empty name that would be tapped.\<close>

theorem removal_not_heard:
  assumes "\<not> building_message_lock (building a)" "c_string (own_name a)" "c_string name" "c_string props"
    and "\<not> mx_array_to_vector_pending (extracting b)" "ctx_ok (ctx b)" "directory (ctx b) [] = None"
    and "service_find (own_name a) (ctx b) = Some (Some (Proxy p), sse)" "ISA_REMOTE_PROC (ctx b) (Proxy p)"
  shows "\<exists>m b'. happened (send_one_sv_msg env name False [] props mode q a) = happened a @ [Sent q m] \<and>
    o2_services_handler 2 m b = Some b' \<and> directory (ctx b') = directory (ctx b)"
proof -
  let ?i = "notice name False [] props mode"
  have i: "?i = Sv_item name False False [] mode" by (simp add: notice_def)
  have ok: "\<forall>i \<in> set [?i]. item_ok i" using assms(3) by (simp add: i item_ok_def c_string_def)
  let ?b = "set_proxy p ((proxy p b)\<lparr>is_connected := True\<rparr>) b"
  obtain m bl x where m: "finish_sv env [?i] a = (Some m, a\<lparr>building := bl\<rparr>)"
    "o2_services_handler 2 m b = map_option (\<lambda>c. b\<lparr>extracting := x, ctx := c\<rparr>) (sv_apply_all p [?i] (ctx ?b))"
    using sv_heard [where env = env and n = 2, OF assms(1,2) ok assms(5,8,9)] by fastforce
  have "hash_find [] (path_tree (ctx ?b)) = None"
    using find_entry [of "ctx ?b" "[]"] assms(6,7) by (simp add: connected_ctx)
  then have "sv_apply_all p [?i] (ctx ?b) = Some (ctx ?b)"
    by (simp add: i sv_apply_def o2_tap_remove_def)
  moreover have "happened (send_one_sv_msg env name False [] props mode q a) = happened a @ [Sent q m]"
    by (simp add: send_one_sv_msg_def m(1) proxy_send_def happen_def)
  ultimately show ?thesis using m(2) by (auto simp: connected_ctx)
qed

theorem removal_not_heard_witness:
  "\<exists>m b'. happened (send_one_sv_msg open_net ''synth'' False [] '';'' 0 1 offering) = happened offering @ [Sent 1 m] \<and>
    o2_services_handler 2 m informed = Some b' \<and> directory (ctx b') = directory (ctx informed)"
  by (rule removal_not_heard)
    (use offering informed process_okD [OF offering(1)] in \<open>simp_all add: c_string_def remote_def with_entry\<close>)

end
