(* ===== verification/Mqtt.thy ===== *)
theory Mqtt
  imports Mqttcomm Joining
begin

text \<open>
  Processes that reach each other through an MQTT broker (src/src/mqtt.cpp): what is published for another process, what is made of
  published messages, and how processes that announce themselves there are connected. The state extends that of
  \<open>MQTTcomm\<close> by the process (\<open>host\<close>, as in \<open>Discovery\<close>; both use the same scratch area) and the
  messages handed to \<open>o2_message_send\<close>. \<open>None\<close>: memory outside of a buffer or a null pointer is used, or
  an assertion fails. The debugging option that forces connections through the broker is off.
\<close>

section \<open>State\<close>

text \<open>\<open>mqtt_info\<close>: there is none, it has no socket, its socket is not connected yet, or it is, with a message waiting
  or not.\<close>

datatype broker_connection = No_broker | No_socket | Connecting | Connected bool

record O2_MQTTcomm = MQTTcomm +
  host :: discovery
  timeouts :: "nat \<Rightarrow> rat"
  broker :: broker_connection
  waiting_for_public_ip :: bool
  to_broker :: "byte list list"
  handed :: "O2message list"

record mqtt_env =
  net :: disc_env
  tcp_outcome :: "byte list \<Rightarrow> bool \<Rightarrow> O2err"
  local_time :: rat
  local_now :: rat
  double_of :: "rat \<Rightarrow> 64 word"

abbreviation (input) MQTT_KEEPALIVE_PERIOD :: rat where "MQTT_KEEPALIVE_PERIOD \<equiv> 15"
abbreviation (input) MQTT_TIMEOUT_PERIOD :: rat where "MQTT_TIMEOUT_PERIOD \<equiv> 20"
abbreviation (input) MQTT_CHECK_TIMEOUTS_PERIOD :: rat where "MQTT_CHECK_TIMEOUTS_PERIOD \<equiv> 10"

text \<open>\<open>tcp_outcome\<close> is what \<open>send_tcp\<close> returns: an error when messages that still waited could not be written, and then the new
  message is freed. \<open>to_broker\<close> are the messages that the connection has taken. The process with the shared scratch area, and back.\<close>

definition process :: "O2_MQTTcomm \<Rightarrow> discovery" where
  "process s = (host s)\<lparr>building := scratch s\<rparr>"

definition put_process :: "discovery \<Rightarrow> O2_MQTTcomm \<Rightarrow> O2_MQTTcomm" where
  "put_process d s = s\<lparr>host := d, scratch := building d\<rparr>"

section \<open>To the broker\<close>

definition o2_mqtt_can_send :: "O2_MQTTcomm \<Rightarrow> O2err" where
  "o2_mqtt_can_send s = (case broker s of
     Connected out_message \<Rightarrow> if out_message then O2_BLOCKED else O2_SUCCESS
   | _ \<Rightarrow> O2_FAIL)"

definition msg_send :: "mqtt_env \<Rightarrow> O2_MQTTcomm msg_send" where
  "msg_send env msg block s =
     (if \<not> building_message_lock (scratch s) then (O2_FAIL, s)
      else let s = s\<lparr>scratch := (scratch s)\<lparr>building_message_lock := False\<rparr>\<rparr> in
        if broker s = No_broker \<or> broker s = No_socket then (O2_FAIL, s)
        else let r = tcp_outcome env msg block in (r, if r = O2_SUCCESS then s\<lparr>to_broker := to_broker s @ [msg]\<rparr> else s))"

definition mqtt_publish :: "mqtt_env \<Rightarrow> string \<Rightarrow> byte list \<Rightarrow> string \<Rightarrow> bool \<Rightarrow> O2_MQTTcomm \<Rightarrow> (O2err \<times> O2_MQTTcomm) option" where
  "mqtt_publish env subtopic payload suffix block s =
     MQTTcomm_publish (msg_send env) (ensemble_name (host s)) subtopic payload suffix 0 block s"

definition disc_suffix :: "bool \<Rightarrow> 32 word \<Rightarrow> string" where
  "disc_suffix synchronized udp_port =
     take 5 ('':'' @ hex_format 4 (unat udp_port)) @ (if synchronized then ''/cs/'' else ''/dy/'') @ o2_version"

definition o2_mqtt_send_disc :: "mqtt_env \<Rightarrow> bool \<Rightarrow> O2_MQTTcomm \<Rightarrow> (O2err \<times> O2_MQTTcomm) option" where
  "o2_mqtt_send_disc env first_time s =
     (if \<not> first_time \<and> o2_mqtt_can_send s \<noteq> O2_SUCCESS then Some (O2_FAIL, s)
      else if own_name (host s) = [] then None
      else map_option (\<lambda>(_, s). (O2_SUCCESS, s))
        (mqtt_publish env ''disc'' (bytes_of (own_name (host s)))
          (disc_suffix (clock_synchronized (host s)) (snd (udp_address (host s) local_proc))) False s))"

definition mqtt_sched :: "mqtt_env \<Rightarrow> string \<Rightarrow> rat \<Rightarrow> O2_MQTTcomm \<Rightarrow> O2_MQTTcomm option" where
  "mqtt_sched env address period s =
     (case o2_message_finish True (junk (net env)) (double_of env (local_now env + period)) address False
        (snd (o2_send_start (scratch s))) of
       (None, b) \<Rightarrow> None
     | (Some m, b) \<Rightarrow> Some (s\<lparr>scratch := b, host := happen (Scheduled (local_now env + period) m) (host s)\<rparr>))"

definition mqtt_ping_sched :: "mqtt_env \<Rightarrow> O2_MQTTcomm \<Rightarrow> O2_MQTTcomm option" where
  "mqtt_ping_sched env s = mqtt_sched env ''!_o2/mqtt/ps'' MQTT_KEEPALIVE_PERIOD s"

definition mqtt_ping_send :: "mqtt_env \<Rightarrow> O2_MQTTcomm \<Rightarrow> O2_MQTTcomm option" where
  "mqtt_ping_send env s = Option.bind (o2_mqtt_send_disc env False s) (\<lambda>(_, s). mqtt_ping_sched env s)"

definition o2_mqtt_disconnect :: "mqtt_env \<Rightarrow> O2_MQTTcomm \<Rightarrow> (O2err \<times> O2_MQTTcomm) option" where
  "o2_mqtt_disconnect env s =
     (if own_name (host s) = [] \<or> broker s = No_broker then Some (O2_FAIL, s)
      else map_option (\<lambda>(_, s). (O2_SUCCESS, s)) (mqtt_publish env ''disc'' (bytes_of (own_name (host s))) ''/bye'' True s))"

text \<open>The payload is the message from its flags on, in network order. The argument \<open>block\<close> of \<open>send\<close> is not used.\<close>

definition payload_of :: "O2message \<Rightarrow> byte list" where
  "payload_of m = header_bytes m @ body m"

definition MQTT_info_send :: "mqtt_env \<Rightarrow> nat \<Rightarrow> O2message \<Rightarrow> O2_MQTTcomm \<Rightarrow> (O2err \<times> O2_MQTTcomm) option" where
  "MQTT_info_send env p msg s =
     Option.bind (o2_msg_swap_endian True msg) (\<lambda>(_, m). mqtt_publish env (key (proxy p (host s))) (payload_of m) [] True s)"

definition send_callback_via_mqtt :: "mqtt_env \<Rightarrow> string \<Rightarrow> O2_MQTTcomm \<Rightarrow> O2_MQTTcomm option" where
  "send_callback_via_mqtt env name s =
     (case o2_make_dy_msg (net env) local_proc True True O2_DY_CALLBACK (process s) of
        (None, d) \<Rightarrow> None
      | (Some m, d) \<Rightarrow> map_option snd (mqtt_publish env name (payload_of m) [] True (put_process d s)))"

section \<open>Connections through the broker\<close>

definition mqtt_check_timeouts_sched :: "mqtt_env \<Rightarrow> O2_MQTTcomm \<Rightarrow> O2_MQTTcomm option" where
  "mqtt_check_timeouts_sched env s = mqtt_sched env ''!_o2/mqtt/ct'' MQTT_CHECK_TIMEOUTS_PERIOD s"

text \<open>The destructor of the proxy for a process.\<close>

definition delete_mqtt_proc :: "nat \<Rightarrow> discovery \<Rightarrow> discovery option" where
  "delete_mqtt_proc p d = map_option (\<lambda>(_, c). happen (Proxy_deleted p) (d\<lparr>ctx := c\<rparr>)) (remove_services_by p (ctx d))"

lemma delete_keeps_procs: "delete_mqtt_proc p d = Some d' \<Longrightarrow> o2_mqtt_procs d' = o2_mqtt_procs d"
  by (auto simp: delete_mqtt_proc_def happen_def)

lemma length_vec_remove_less: "i < length xs \<Longrightarrow> length (vec_remove i xs) < length xs"
  by (simp add: length_vec_remove)

function timeouts_loop :: "(nat \<Rightarrow> rat) \<Rightarrow> rat \<Rightarrow> nat \<Rightarrow> discovery \<Rightarrow> discovery option" where
  "timeouts_loop limits now i d =
     (if i < length (o2_mqtt_procs d) then
        let p = o2_mqtt_procs d ! i in
        if limits p < now then
          (case delete_mqtt_proc p (d\<lparr>o2_mqtt_procs := vec_remove i (o2_mqtt_procs d)\<rparr>) of
             None \<Rightarrow> None
           | Some d' \<Rightarrow> timeouts_loop limits now i d')
        else timeouts_loop limits now (i + 1) d
      else Some d)"
  by pat_completeness auto
termination
  by (relation "measure (\<lambda>(limits, now, i, d). length (o2_mqtt_procs d) - i)")
    (auto dest!: delete_keeps_procs simp: length_vec_remove)

declare timeouts_loop.simps [simp del]

text \<open>\<open>user_data\<close>: whether the argument is a null pointer.\<close>

definition mqtt_check_timeouts :: "mqtt_env \<Rightarrow> bool \<Rightarrow> O2_MQTTcomm \<Rightarrow> O2_MQTTcomm option" where
  "mqtt_check_timeouts env user_data_null s =
     Option.bind (timeouts_loop (timeouts s) (local_now env) 0 (host s)) (\<lambda>d.
       if \<not> user_data_null then mqtt_check_timeouts_sched env (s\<lparr>host := d\<rparr>) else Some (s\<lparr>host := d\<rparr>))"

definition mqtt_dy_message :: "disc_env \<Rightarrow> nat \<Rightarrow> discovery \<Rightarrow> (O2err \<times> discovery) option" where
  "mqtt_dy_message env p d =
     (case o2_message_finish True (junk env) 0 ''!_o2/mqtt/dy'' True
        (snd (add_arg (String (own_name d)) (snd (o2_send_start (building d))))) of
       (None, b) \<Rightarrow> None
     | (Some m, b) \<Rightarrow>
         if data_length m \<noteq> int (12 + o2_strsize ''!_o2/mqtt/dy'' + o2_strsize '',s'' + o2_strsize (own_name d)) then None
         else Some (proxy_send env p m (d\<lparr>building := b\<rparr>)))"

definition new_mqtt_proc :: "disc_env \<Rightarrow> string \<Rightarrow> discovery \<Rightarrow> discovery" where
  "new_mqtt_proc env name d = set_proxy (next_proxy d)
     \<lparr>kind = MQTT, key = name, net_connected = False, is_connected = False, proxy_status = new_status env\<rparr>
     (d\<lparr>next_proxy := next_proxy d + 1\<rparr>)"

definition mqtt_introduce :: "disc_env \<Rightarrow> nat \<Rightarrow> bool \<Rightarrow> discovery \<Rightarrow> (O2err \<times> discovery) option" where
  "mqtt_introduce env p from_disc d =
     Option.bind (if from_disc then mqtt_dy_message env p d else Some (O2_SUCCESS, d)) (\<lambda>(err, d).
     if err \<noteq> O2_SUCCESS then Some (err, d)
     else Option.bind (o2_send_clocksync_proc env p d) (\<lambda>(err, d).
       if err \<noteq> O2_SUCCESS then Some (err, d) else o2_send_services env p d))"

definition create_mqtt_connection :: "mqtt_env \<Rightarrow> string \<Rightarrow> bool \<Rightarrow> O2_MQTTcomm \<Rightarrow> (O2err \<times> O2_MQTTcomm) option" where
  "create_mqtt_connection env name from_disc s =
     (let limit = local_time env + MQTT_TIMEOUT_PERIOD in
      case find_services name (ctx (host s)) of
        Some ss \<Rightarrow>
          (case services ss of
             [] \<Rightarrow> None
           | spp # _ \<Rightarrow> Some (O2_SUCCESS, case service spp of
               Proxy p \<Rightarrow> if kind (proxy p (host s)) = MQTT then s\<lparr>timeouts := (timeouts s)(p := limit)\<rparr> else s
             | Local _ \<Rightarrow> s))
      | None \<Rightarrow>
          let p = next_proxy (host s) in
          Option.bind (add_provider name p (new_mqtt_proc (net env) name (process s))) (\<lambda>d.
          map_option (\<lambda>(err, d). (err, put_process d (s\<lparr>timeouts := (timeouts s)(p := limit)\<rparr>)))
            (mqtt_introduce (net env) p from_disc (d\<lparr>o2_mqtt_procs := o2_mqtt_procs d @ [p]\<rparr>))))"

text \<open>The handler of \<open>/_o2/mqtt/dy\<close>.\<close>

definition o2_mqtt_discovery_handler :: "mqtt_env \<Rightarrow> O2message \<Rightarrow> O2_MQTTcomm \<Rightarrow> O2_MQTTcomm option" where
  "o2_mqtt_discovery_handler env msg s =
     Option.bind (o2_extract_start msg (extracting (host s))) (\<lambda>(_, x).
     Option.bind (o2_get_next CHR ''s'' x) (\<lambda>(arg, x).
     let s = s\<lparr>host := (host s)\<lparr>extracting := x\<rparr>\<rparr> in
     if arg = Null then Some s
     else Option.bind (fetch_string x arg) (\<lambda>name. map_option snd (create_mqtt_connection env name False s))))"

section \<open>From the broker\<close>

fun find_before :: "byte list \<Rightarrow> char \<Rightarrow> nat option" where
  "find_before [] c = None"
| "find_before (b # s) c = (if b = byte_of c then Some 0 else map_option Suc (find_before s c))"

text \<open>A field up to the character, which is replaced by a zero byte, and what follows, if the character was found.\<close>

definition cut :: "char \<Rightarrow> byte list \<Rightarrow> byte list \<times> byte list option" where
  "cut c s = (case find_before s c of None \<Rightarrow> (s, None) | Some k \<Rightarrow> (take k s, Some (drop (k + 1) s)))"

text \<open>The C string at a pointer into a buffer, if it ends there.\<close>

definition c_text :: "byte list \<Rightarrow> string option" where
  "c_text mem = (if 0 \<in> set mem then Some (c_str mem) else None)"

text \<open>\<open>strncmp\<close> with all characters of a text: \<open>None\<close> when the buffer ends before a difference.\<close>

definition starts_with :: "string \<Rightarrow> byte list \<Rightarrow> bool option" where
  "starts_with t mem =
     (if length mem < length t \<and> mem = take (length mem) (bytes_of t) then None else Some (take (length t) mem = bytes_of t))"

fun strstr :: "string \<Rightarrow> string \<Rightarrow> nat option" where
  "strstr [] t = (if t = [] then Some 0 else None)"
| "strstr (c # s) t = (if take (length t) (c # s) = t then Some 0 else map_option Suc (strstr s t))"

text \<open>The addresses, the port, the UDP port if there is one, with its end if that was found: the action and the version.
  \<open>rest\<close> is what follows the payload in the buffer. \<open>None\<close>: there is no port, or it runs past the buffer.\<close>

definition disc_fields :: "byte list \<Rightarrow> byte list \<Rightarrow>
    (string \<times> string \<times> string \<times> (byte list \<times> (byte list \<times> byte list option) option) option) option" where
  "disc_fields payload rest =
     (case cut CHR '':'' (tl payload) of
        (_, None) \<Rightarrow> None
      | (public_ip, Some r) \<Rightarrow> (case cut CHR '':'' r of
          (_, None) \<Rightarrow> None
        | (internal_ip, Some r) \<Rightarrow> (case cut CHR '':'' r of
            (tcp, None) \<Rightarrow> map_option (\<lambda>t. (c_str public_ip, c_str internal_ip, t, None)) (c_text (tcp @ rest))
          | (tcp, Some r) \<Rightarrow> Some (c_str public_ip, c_str internal_ip, c_str tcp, Some (case cut CHR ''/'' r of
              (udp, None) \<Rightarrow> (udp @ rest, None)
            | (udp, Some r) \<Rightarrow> (udp, Some (cut CHR ''/'' r)))))))"

definition disc_name :: "string \<Rightarrow> string \<Rightarrow> string \<Rightarrow> string" where
  "disc_name public_ip internal_ip tcp = take (O2_MAX_PROCNAME_LEN - 1) (''@'' @ public_ip @ '':'' @ internal_ip @ '':'' @ tcp)"

text \<open>A process says good-bye. If it is not known, the code goes on with a version that was never set (\<open>None\<close>).\<close>

definition disc_goodbye :: "mqtt_env \<Rightarrow> string \<Rightarrow> O2_MQTTcomm \<Rightarrow> O2_MQTTcomm option" where
  "disc_goodbye env name s =
     (case find_services name (ctx (host s)) of
        Some ss \<Rightarrow>
          (case services ss of
             [] \<Rightarrow> None
           | spp # _ \<Rightarrow> (case service spp of
               Proxy p \<Rightarrow> if kind (proxy p (host s)) = MQTT
                 then mqtt_check_timeouts env False (s\<lparr>timeouts := (timeouts s)(p := 0)\<rparr>) else Some s
             | Local _ \<Rightarrow> Some s))
      | None \<Rightarrow> if strcmp (own_name (host s)) name = 0 then Some s else None)"

definition disc_discovered :: "mqtt_env \<Rightarrow> string \<Rightarrow> 32 word \<Rightarrow> string \<Rightarrow> 32 word \<Rightarrow> 32 word \<Rightarrow> O2_MQTTcomm \<Rightarrow> O2_MQTTcomm option" where
  "disc_discovered env name version internal_ip tcp udp s =
     map_option (\<lambda>(_, d). put_process d s)
       (o2_discovered_a_remote_process_name (net env) name version internal_ip tcp udp O2_DY_INFO (process s))"

text \<open>The cases of doc/mqtt.txt. The result tells whether the other process is known now (\<open>proc_discovered\<close>).\<close>

definition disc_connect :: "mqtt_env \<Rightarrow> string \<Rightarrow> 32 word \<Rightarrow> string \<Rightarrow> string \<Rightarrow> 32 word \<Rightarrow> 32 word \<Rightarrow> O2_MQTTcomm \<Rightarrow>
    (bool \<times> O2_MQTTcomm) option" where
  "disc_connect env name version public_ip internal_ip tcp udp s =
     (let compare = strcmp (own_name (host s)) name; own_public = o2n_public_ip (host s);
          behind_nat = (own_public \<noteq> o2n_internal_ip (host s));
          discovered = disc_discovered env name version internal_ip tcp udp s;
          create = map_option (\<lambda>(_, s). (True, s)) (create_mqtt_connection env name True s);
          callback = map_option (Pair False) (send_callback_via_mqtt env name s) in
      if public_ip = internal_ip then
        if compare < 0 then map_option (Pair True) discovered
        else if \<not> behind_nat then map_option (Pair False) discovered
        else create
      else if own_public = public_ip then
        if compare > 0 then callback else map_option (Pair True) discovered
      else if compare < 0 then create
      else if \<not> behind_nat then callback
      else Some (True, s))"

definition hand_over :: "O2message \<Rightarrow> O2_MQTTcomm \<Rightarrow> O2_MQTTcomm" where
  "hand_over m s = s\<lparr>handed := handed s @ [m]\<rparr>"

text \<open>\<open>o2_send_cmd\<close> of a message that the process is synchronized.\<close>

definition send_cs :: "mqtt_env \<Rightarrow> string \<Rightarrow> O2_MQTTcomm \<Rightarrow> O2_MQTTcomm option" where
  "send_cs env name s = map_option (\<lambda>(_, m, b). case_option id hand_over m (s\<lparr>scratch := b\<rparr>))
     (o2_message_build True (junk (net env)) 0 None ''/_o2/cs/cs'' ''s'' True [C_string name] (scratch s))"

definition disc_handler :: "mqtt_env \<Rightarrow> byte list \<Rightarrow> byte list \<Rightarrow> O2_MQTTcomm \<Rightarrow> O2_MQTTcomm option" where
  "disc_handler env payload rest s =
     Option.bind (disc_fields payload rest) (\<lambda>(public_ip, internal_ip, tcp_num, udp_part).
     case strstr tcp_num ''/bye'' of
       Some k \<Rightarrow>
         if (case udp_part of Some (udp_num, None) \<Rightarrow> c_text udp_num = None | _ \<Rightarrow> False) then None
         else if own_name (host s) = [] then None
         else disc_goodbye env (disc_name public_ip internal_ip (take k tcp_num)) s
     | None \<Rightarrow>
         (case udp_part of
            Some (udp_num, Some (action, Some vers)) \<Rightarrow>
              let version = o2_parse_version (map char_of_byte vers); name = disc_name public_ip internal_ip tcp_num in
              if take 2 action \<noteq> bytes_of ''dy'' \<and> take 2 action \<noteq> bytes_of ''cs'' then Some s
              else if version = 0 then Some s
              else if own_name (host s) = [] then None
              else if strcmp (own_name (host s)) name = 0 then Some s
              else Option.bind (disc_connect env name (of_nat version) public_ip internal_ip (o2_hex_to_int tcp_num)
                  (o2_hex_to_int (c_str udp_num)) s) (\<lambda>(proc_discovered, s).
                if hd action = byte_of CHR ''c'' \<and> proc_discovered then send_cs env name s else Some s)
          | _ \<Rightarrow> Some s))"

text \<open>A published message. A length below zero makes copying fail, one below 12 leaves the head of the message unset.\<close>

definition received :: "byte list \<Rightarrow> O2message option" where
  "received payload =
     (if length payload < 12 then None else map_option snd (o2_msg_swap_endian False (message_of payload)))"

text \<open>\<open>topic == O2-ens/@pip:iip:port\<close>. In the code the length to compare wraps around for a topic that is too
  short, which the last comparison excludes.\<close>

definition ensemble_topic :: "string \<Rightarrow> string \<Rightarrow> bool" where
  "ensemble_topic ens topic \<longleftrightarrow>
     3 + length ens < length topic \<and> take (length ens) (drop 3 topic) = ens \<and> topic ! (3 + length ens) = CHR ''/''"

definition own_topic :: "string \<Rightarrow> string \<Rightarrow> string \<Rightarrow> nat \<Rightarrow> bool" where
  "own_topic ens name topic topic_len =
     (let o2_ens_len = 3 + length ens; n = topic_len - (o2_ens_len + 1) in
      ensemble_topic ens topic \<and> take n name = take n (drop (o2_ens_len + 1) topic) \<and> o2_ens_len + 1 + length name = topic_len)"

text \<open>\<open>strncmp(o2_ensemble_name, topic + 3, topic_len - 8)\<close>, where a length below zero becomes a large one.\<close>

definition disc_topic :: "string \<Rightarrow> string \<Rightarrow> nat \<Rightarrow> bool" where
  "disc_topic ens topic topic_len =
     (if topic_len < 8 then ens = drop 3 topic else take (topic_len - 8) ens = take (topic_len - 8) (drop 3 topic))"

definition deliver_mqtt_msg :: "mqtt_env \<Rightarrow> O2_MQTTcomm deliver_mqtt_msg" where
  "deliver_mqtt_msg env inbuff posn topic_len payload_posn payload_len s =
     (let payload = take (nat payload_len) (drop payload_posn inbuff); rest = drop (payload_posn + nat payload_len) inbuff in
      Option.bind (starts_with ''O2-'' (drop posn inbuff)) (\<lambda>ours.
      if \<not> ours then Some s
      else Option.bind (c_text (drop posn inbuff)) (\<lambda>topic.
        if ensemble_topic (ensemble_name (host s)) topic \<and> own_name (host s) = [] then None
        else if own_topic (ensemble_name (host s)) (own_name (host s)) topic topic_len then map_option (\<lambda>m. hand_over m s) (received payload)
        else if \<not> disc_topic (ensemble_name (host s)) topic topic_len then Some s
        else if posn + topic_len < 5 then None
        else Option.bind (starts_with ''/disc'' (drop (posn + topic_len - 5) inbuff)) (\<lambda>is_disc.
          if is_disc then disc_handler env payload rest s else Some s))))"

text \<open>\<open>MQTT_info::deliver\<close>: bytes from the broker; what lies behind the buffer is not looked at with effect.\<close>

definition MQTT_info_deliver :: "mqtt_env \<Rightarrow> byte \<Rightarrow> byte list \<Rightarrow> O2_MQTTcomm \<Rightarrow> O2_MQTTcomm option" where
  "MQTT_info_deliver env beyond data s = MQTTcomm_deliver (deliver_mqtt_msg env) beyond (local_time env) data s"

section \<open>The end\<close>

fun delete_mqtt_procs :: "nat list \<Rightarrow> discovery \<Rightarrow> discovery option" where
  "delete_mqtt_procs [] d = Some (d\<lparr>o2_mqtt_procs := []\<rparr>)"
| "delete_mqtt_procs (p # ps) d =
     Option.bind (delete_mqtt_proc p (d\<lparr>o2_mqtt_procs := rev ps\<rparr>)) (delete_mqtt_procs ps)"

definition o2_mqtt_finish :: "O2_MQTTcomm \<Rightarrow> O2_MQTTcomm option" where
  "o2_mqtt_finish s =
     (if broker s = No_broker then Some (s\<lparr>mqtt_input := []\<rparr>)
      else map_option (\<lambda>d. s\<lparr>host := d, broker := No_broker, mqtt_input := []\<rparr>)
        (delete_mqtt_procs (rev (o2_mqtt_procs (host s))) (host s)))"

section \<open>Messages through the broker\<close>

definition is_process :: "string \<Rightarrow> string \<Rightarrow> O2_MQTTcomm \<Rightarrow> bool" where
  "is_process ens name s \<longleftrightarrow> ensemble_name (host s) = ens \<and> own_name (host s) = name \<and>
     c_string ens \<and> c_string name \<and> name \<noteq> []"

definition for_process :: "string \<Rightarrow> string \<Rightarrow> byte list \<Rightarrow> byte list \<Rightarrow> bool" where
  "for_process ens name topic payload \<longleftrightarrow> topic = topic_of ens name \<and> received payload \<noteq> None \<and> 0 \<in> set payload"

definition receive_step :: "byte list \<Rightarrow> byte list \<Rightarrow> O2message list \<Rightarrow> O2message list" where
  "receive_step topic payload ms = ms @ [the (received payload)]"

lemma c_str_text_append: "c_string d \<Longrightarrow> c_str (bytes_of d @ x) = d @ c_str x"
proof -
  assume d: "c_string d"
  then have "\<forall>b \<in> set (bytes_of d). b \<noteq> 0" using zero_in_bytes_of by blast
  then have "takeWhile (\<lambda>b. b \<noteq> 0) (bytes_of d @ x) = bytes_of d @ takeWhile (\<lambda>b. b \<noteq> 0) x"
    by (simp add: takeWhile_append2)
  then show ?thesis by (simp add: c_str_def) (simp add: bytes_of_def comp_def)
qed

lemma own_message:
  assumes "is_process ens name s" "for_process ens name topic payload" "length pid = 2"
  shows "deliver_mqtt_msg env (pre @ topic @ pid @ payload @ rest) (length pre) (length topic)
      (length pre + length topic + 2) (int (length payload)) s = Some (hand_over (the (received payload)) s)"
proof -
  let ?t = "''O2-'' @ ens @ ''/'' @ name"
  have topic: "topic = bytes_of ?t" and rec: "received payload \<noteq> None" and z: "0 \<in> set payload"
    using assms(2) by (simp_all add: for_process_def topic_of_def)
  have p: "ensemble_name (host s) = ens" "own_name (host s) = name" "c_string ?t" "name \<noteq> []"
    using assms(1) by (auto simp: is_process_def c_string_def)
  define mem where "mem = topic @ pid @ payload @ rest"
  define inbuff where "inbuff = pre @ mem"
  define u where "u = c_str (pid @ payload @ rest)"
  define t where "t = ?t @ u"
  have posn: "drop (length pre) inbuff = mem" by (simp add: inbuff_def)
  have s: "starts_with ''O2-'' mem = Some True" by (simp add: starts_with_def mem_def topic)
  have c: "c_text mem = Some t"
    unfolding c_text_def mem_def topic c_str_text_append [OF p(3)] t_def u_def using z by simp
  have e: "ensemble_topic ens t" by (simp add: ensemble_topic_def nth_append t_def)
  then have o: "own_topic ens name t (length topic)" by (simp add: own_topic_def topic t_def numeral_3_eq_3)
  have pay: "take (length payload) (drop (length pre + length topic + 2) inbuff) = payload"
    using assms(3) by (simp add: inbuff_def mem_def)
  obtain m where m: "received payload = Some m" using rec by blast
  have "deliver_mqtt_msg env inbuff (length pre) (length topic) (length pre + length topic + 2) (int (length payload)) s =
      Some (hand_over (the (received payload)) s)"
    unfolding deliver_mqtt_msg_def posn s Let_def nat_int pay
    by (simp add: c p(1,2,4) e o m)
  then show ?thesis by (simp add: inbuff_def mem_def)
qed

interpretation mqtt: mqtt_subclass "deliver_mqtt_msg env" "is_process ens name" "for_process ens name" handed receive_step
  for env ens name
proof
  fix s topic payload pid pre rest
  assume a: "is_process ens name s" "for_process ens name topic payload" "length (pid :: byte list) = 2"
  have "is_process ens name (hand_over m s)" "handed (hand_over m s) = handed s @ [m]" for m
    using a(1) by (simp_all add: is_process_def hand_over_def)
  then show "\<exists>s'. deliver_mqtt_msg env (pre @ topic @ pid @ payload @ rest) (length pre) (length topic)
      (length pre + length topic + 2) (int (length payload)) s = Some s' \<and> is_process ens name s' \<and>
      handed s' = receive_step topic payload (handed s)"
    using own_message [OF a] by (simp add: receive_step_def)
qed (simp_all add: is_process_def)

text \<open>What is sent and what is received.\<close>

definition convertible :: "O2message \<Rightarrow> bool" where
  "convertible m \<longleftrightarrow> \<not> IS_BUNDLE m \<and> o2_msg_swap_endian True m \<noteq> None"

definition wire :: "O2message \<Rightarrow> byte list" where
  "wire m = payload_of (snd (the (o2_msg_swap_endian True m)))"

lemma message_of_bytes: "message_of (header_bytes m @ body m) = m"
  by (simp add: message_of_def header_bytes_def)

lemma converted_zero: "o2_msg_swap_endian ho m = Some x \<Longrightarrow> \<not> IS_BUNDLE m \<Longrightarrow> 0 \<in> set (body m)"
proof -
  assume a: "o2_msg_swap_endian ho m = Some x" "\<not> IS_BUNDLE m"
  then obtain tys where "o2_next_o2string (body m) = Some tys"
    by (auto simp: o2_msg_swap_endian_def swap_msg.simps header_bytes_def IS_BUNDLE_def Let_def bind_eq_Some_conv split: if_splits)
  then show "0 \<in> set (body m)" using next_o2string_prefix [of "body m" tys] by (fastforce dest: list.set_sel(2) [rotated])
qed

lemma wire:
  assumes "convertible m"
  shows "received (wire m) = Some m" "0 \<in> set (wire m)" "length (wire m) = 12 + length (body m)"
proof -
  obtain r m' where m': "o2_msg_swap_endian True m = Some (r, m')" using assms by (auto simp: convertible_def)
  have nb: "\<not> IS_BUNDLE m" using assms by (simp add: convertible_def)
  have undo: "o2_msg_swap_endian False m' = Some (r, m)" "data_length m' = data_length m" "\<not> IS_BUNDLE m'"
    using swap_back [OF m' nb] by simp_all
  have w: "wire m = header_bytes m' @ body m'" by (simp add: wire_def m' payload_of_def)
  show l: "length (wire m) = 12 + length (body m)" using undo(2) by (simp add: w header_bytes_def data_length_def)
  show "received (wire m) = Some m" using l undo(1) by (simp add: received_def w message_of_bytes)
  show "0 \<in> set (wire m)" using converted_zero [OF undo(1,3)] by (simp add: w)
qed

fun send_all :: "mqtt_env \<Rightarrow> nat \<Rightarrow> O2message list \<Rightarrow> O2_MQTTcomm \<Rightarrow> O2_MQTTcomm option" where
  "send_all env p [] s = Some s"
| "send_all env p (m # ms) s = Option.bind (MQTT_info_send env p m s) (\<lambda>(_, s). send_all env p ms s)"

text \<open>A process that can publish for another one.\<close>

definition can_publish :: "string \<Rightarrow> string \<Rightarrow> nat \<Rightarrow> O2_MQTTcomm \<Rightarrow> bool" where
  "can_publish ens name p s \<longleftrightarrow> \<not> building_message_lock (scratch s) \<and> broker s \<noteq> No_broker \<and> broker s \<noteq> No_socket \<and>
     ensemble_name (host s) = ens \<and> key (proxy p (host s)) = name"

text \<open>The connection to the broker takes every message.\<close>

definition broker_takes_all :: "mqtt_env \<Rightarrow> bool" where
  "broker_takes_all env \<longleftrightarrow> (\<forall>msg block. tcp_outcome env msg block = O2_SUCCESS)"

definition short_message :: "O2message \<Rightarrow> bool" where
  "short_message m \<longleftrightarrow> convertible m \<and> length (body m) < 2 ^ 27"

lemma send_one:
  assumes "can_publish ens name p s" "short_message m" "length (topic_of ens name) < 2 ^ 16" "broker_takes_all env"
  shows "\<exists>r s' pid. MQTT_info_send env p m s = Some (r, s') \<and> can_publish ens name p s' \<and>
    to_broker s' = to_broker s @ [packet_bytes (Publish 0 (topic_of ens name) pid (wire m))] \<and>
    packet_ok (for_process ens name) (Publish 0 (topic_of ens name) pid (wire m))"
proof -
  have c: "convertible m" "length (wire m) = 12 + length (body m)" "length (body m) < 2 ^ 27"
    using assms(2) wire(3) by (simp_all add: short_message_def)
  obtain r0 m' where m': "o2_msg_swap_endian True m = Some (r0, m')" using c(1) by (auto simp: convertible_def)
  then have w: "payload_of m' = wire m" by (simp add: wire_def)
  have idle: "\<not> building_message_lock (scratch s)" "ensemble_name (host s) = ens" "key (proxy p (host s)) = name"
    "broker s \<noteq> No_broker" "broker s \<noteq> No_socket" using assms(1) by (simp_all add: can_publish_def)
  have "4 + length (topic_of ens name) + length (wire m) + length ([] :: string) < 2 ^ 28" using assms(3) c by simp
  from publish_sends [OF idle(1) assms(3) this] obtain b where b: "building_message_lock b"
    "MQTTcomm_publish (msg_send env) ens name (wire m) [] 0 True s =
       Some (msg_send env (packet_bytes (packet_to_publish ens name (wire m) [] 0 s)) True
         (s\<lparr>packet_id := (packet_id s + 1) mod 0x10000, scratch := b\<rparr>))" by blast
  define pid where "pid = (be_enc 2 (word_of_int ((packet_id s + 1) mod 0x10000) :: 16 word))"
  have pk: "packet_to_publish ens name (wire m) [] 0 s = Publish 0 (topic_of ens name) pid (wire m)"
    by (simp add: packet_to_publish_def pid_def)
  have "MQTT_info_send env p m s = Some (msg_send env (packet_bytes (Publish 0 (topic_of ens name) pid (wire m))) True
         (s\<lparr>packet_id := (packet_id s + 1) mod 0x10000, scratch := b\<rparr>))"
    by (simp add: MQTT_info_send_def m' w mqtt_publish_def idle(2,3) b(2) pk)
  moreover have "packet_ok (for_process ens name) (Publish 0 (topic_of ens name) pid (wire m))"
    using assms(3) c wire(1,2) [OF c(1)] by (simp add: packet_ok_def for_process_def pid_def be_enc_def)
  ultimately show ?thesis using idle b(1) assms(4) by (auto simp: msg_send_def can_publish_def broker_takes_all_def Let_def)
qed

lemma send_all_packets:
  "can_publish ens name p s \<Longrightarrow> \<forall>m \<in> set ms. short_message m \<Longrightarrow> length (topic_of ens name) < 2 ^ 16 \<Longrightarrow> broker_takes_all env \<Longrightarrow>
   \<exists>s' ps. send_all env p ms s = Some s' \<and> to_broker s' = to_broker s @ map packet_bytes ps \<and>
     (\<forall>p \<in> set ps. packet_ok (for_process ens name) p) \<and>
     list_all2 (\<lambda>m p. \<exists>pid. p = Publish 0 (topic_of ens name) pid (wire m)) ms ps"
proof (induction ms arbitrary: s)
  case (Cons m ms)
  obtain r s1 pid where s1: "MQTT_info_send env p m s = Some (r, s1)" "can_publish ens name p s1"
    "to_broker s1 = to_broker s @ [packet_bytes (Publish 0 (topic_of ens name) pid (wire m))]"
    "packet_ok (for_process ens name) (Publish 0 (topic_of ens name) pid (wire m))"
    using send_one [where env = env, OF Cons.prems(1) _ Cons.prems(3,4), of m] Cons.prems(2) by auto
  obtain s' ps where s': "send_all env p ms s1 = Some s'" "to_broker s' = to_broker s1 @ map packet_bytes ps"
    "\<forall>p \<in> set ps. packet_ok (for_process ens name) p" "list_all2 (\<lambda>m p. \<exists>pid. p = Publish 0 (topic_of ens name) pid (wire m)) ms ps"
    using Cons.IH [OF s1(2) _ Cons.prems(3,4)] Cons.prems(2) by auto
  then show ?case using s1
    by (intro exI [of _ s'] exI [of _ "Publish 0 (topic_of ens name) pid (wire m) # ps"]) auto
qed simp

lemma steps_received:
  "list_all2 (\<lambda>m p. \<exists>pid. p = Publish 0 topic pid (wire m)) ms ps \<Longrightarrow> \<forall>m \<in> set ms. convertible m \<Longrightarrow>
   steps receive_step ps xs = xs @ ms"
proof (induction ms ps arbitrary: xs rule: list_all2_induct)
  case (Cons m ms p ps)
  then show ?case using wire(1) [of m] by (auto simp: steps_def receive_step_def)
qed simp

end
