(* ===== verification/Leaving.thy ===== *)
theory Leaving
  imports Joining
begin

text \<open>
  What is left of the directory when another process goes: \<open>remove_services_by\<close> of \<open>Services\<close>, which runs when the connection to a
  process is lost, when a process reached through the MQTT broker is silent too long, and at the end. The facts are about
  processes that tap no service themselves (others may) and offer no service twice: the removal of the taps of a process misses some
  (\<open>remove_all_taps_skips\<close>) and looks at a name that was freed (\<open>tapping_process_crashes\<close>).
\<close>

section \<open>One service of the process\<close>

definition offers_nothing :: "nat \<Rightarrow> Services_entry \<Rightarrow> bool" where
  "offers_nothing p ss \<longleftrightarrow> (\<forall>spp \<in> set (services ss). service spp \<noteq> Proxy p)"

text \<open>The process does not tap the service, and does not offer it twice.\<close>

definition plain_entry :: "nat \<Rightarrow> Services_entry \<Rightarrow> bool" where
  "plain_entry p ss \<longleftrightarrow> (\<forall>tap \<in> set (taps ss). tap_proc tap \<noteq> p) \<and> length (filter (\<lambda>spp. service spp = Proxy p) (services ss)) \<le> 1"

definition plain_directory :: "nat \<Rightarrow> O2_context \<Rightarrow> bool" where
  "plain_directory p c \<longleftrightarrow> (\<forall>k ss. directory c k = Some ss \<longrightarrow> plain_entry p ss)"

text \<open>What is left of a service when the process is gone.\<close>

definition left_of :: "nat \<Rightarrow> Services_entry option \<Rightarrow> Services_entry option \<Rightarrow> bool" where
  "left_of p before after \<longleftrightarrow> (case before of
     None \<Rightarrow> after = None
   | Some ss \<Rightarrow>
       if offers_nothing p ss then after = Some ss
       else let others = filter_mset (\<lambda>spp. service spp \<noteq> Proxy p) (mset (services ss)) in
         (case after of None \<Rightarrow> others = {#} \<and> taps ss = []
          | Some ss' \<Rightarrow> (others \<noteq> {#} \<or> taps ss \<noteq> []) \<and> mset (services ss') = others \<and> taps ss' = taps ss))"

lemma offered_remote: "p \<noteq> local_proc \<Longrightarrow> offered_by c p spp \<longleftrightarrow> service spp = Proxy p"
  by (auto simp: offered_by_def split: svc_node.split)

lemma index_remote:
  assumes "p \<noteq> local_proc"
  shows "proc_service_index c p ss = None \<longleftrightarrow> offers_nothing p ss"
    "proc_service_index c p ss = Some i \<Longrightarrow> i < length (services ss) \<and> service (services ss ! i) = Proxy p"
  using assms by (auto simp: proc_service_index_def find_None_iff find_Some_iff offered_remote offers_nothing_def all_set_conv_all_nth)

lemma filter_one:
  "length (filter P xs) \<le> 1 \<Longrightarrow> x \<in> set xs \<Longrightarrow> P x \<Longrightarrow> filter_mset (\<lambda>y. \<not> P y) (mset xs) = mset xs - {#x#}"
proof -
  assume a: "length (filter P xs) \<le> 1" "x \<in> set xs" "P x"
  have "x \<in> set (filter P xs)" using a by simp
  then have "filter P xs = [x]" using a(1) by (cases "filter P xs") auto
  then have "filter_mset P (mset xs) = {#x#}" by (metis mset_filter mset_single_iff)
  then show ?thesis by (metis add_diff_cancel_left' multiset_partition)
qed

lemma remove_taps_absent: "\<forall>tap \<in> set tps. tap_proc tap \<noteq> p \<Longrightarrow> remove_taps p tpr i tps = (tps, 0)"
proof (induction p tpr i tps rule: remove_taps.induct)
  case (1 p tpr i tps)
  have "\<not> tap_matches p tpr (tps ! i)" if "i < length tps" using "1.prems" nth_mem [OF that] by (auto simp: tap_matches_def)
  then show ?case using 1 by (simp add: remove_taps.simps [of p tpr i])
qed

lemma remove_tap_none:
  assumes "ctx_ok c" "directory c k = Some ss" "\<forall>tap \<in> set (taps ss). tap_proc tap \<noteq> p" "p \<noteq> local_proc"
  shows "\<exists>c'. remove_tap k p tpr c = Some (O2_FAIL, c') \<and> ctx_ok c' \<and> directory c' = directory c \<and> proxies c' = proxies c"
proof -
  have "k \<in> dom (directory c)" using assms(2) by auto
  then have "ctx_ok (set_entry k ss c)" "directory (set_entry k ss c) = directory c" "proxies (set_entry k ss c) = proxies c"
    using set_entry_ok [OF assms(1), of k ss] assms(2) by (simp_all add: fun_upd_idem) (simp add: set_entry_def)
  moreover have "Services_entry (services ss) (taps ss) = ss" by simp
  ultimately show ?thesis
    using remove_taps_absent [OF assms(3), of tpr 0] find_entry [OF assms(1), of k] assms(2,4) by (simp add: remove_tap_def)
qed

lemma remove_taps_by_none:
  "ctx_ok c \<Longrightarrow> \<forall>k \<in> set ks. \<exists>ss. directory c k = Some ss \<and> (\<forall>tap \<in> set (taps ss). tap_proc tap \<noteq> p) \<Longrightarrow> p \<noteq> local_proc \<Longrightarrow>
   \<exists>c'. remove_taps_by kf p s ks c = Some c' \<and> ctx_ok c' \<and> directory c' = directory c \<and> proxies c' = proxies c"
proof (induction ks arbitrary: c)
  case Nil
  then show ?case by (cases kf) simp
next
  case (Cons k ks)
  obtain ss where ss: "directory c k = Some ss" "\<forall>tap \<in> set (taps ss). tap_proc tap \<noteq> p" using Cons.prems(2) by auto
  obtain k0 own where kf: "kf = (k0, own)" by (cases kf)
  have f: "hash_find k (path_tree c) = Some ss" using find_entry [OF Cons.prems(1)] ss(1) by simp
  have no: "\<not> (\<exists>tap \<in> set (taps ss). tap_proc tap = p)" using ss(2) by blast
  show ?case
  proof (cases "taps ss = []")
    case True
    then show ?thesis using f Cons.IH [OF Cons.prems(1)] Cons.prems(2,3) by (simp add: kf)
  next
    case False
    obtain c1 where c1: "remove_tap k p (Some s) c = Some (O2_FAIL, c1)" "ctx_ok c1" "directory c1 = directory c" "proxies c1 = proxies c"
      using remove_tap_none [OF Cons.prems(1) ss Cons.prems(3)] by blast
    have "remove_taps_by kf p s (k # ks) c = remove_taps_by kf p s ks c1" using f False no c1(1) by (simp add: kf)
    then show ?thesis using Cons.IH [OF c1(2)] c1(3,4) Cons.prems(2,3) by simp
  qed
qed

lemma listed: "ctx_ok c \<Longrightarrow> set (list_services c) = dom (directory c)" "ctx_ok c \<Longrightarrow> distinct (list_services c)"
  by (simp_all add: list_services_def table_map_def dom_map_of_conv_image_fst ctx_ok_def hash_ok_def)

lemma report_frame [simp]:
  "path_tree (report_gone s p c) = path_tree c" "path_tree (report_active s ss c) = path_tree c"
  "proxies (report_gone s p c) = proxies c" "proxies (report_active s ss c) = proxies c"
  "path_tree (log_event e c) = path_tree c"
  by (simp_all add: report_gone_def report_active_def log_event_def Let_def)

lemma set_entry_frame [simp]: "proxies (set_entry k ss c) = proxies c"
  by (simp add: set_entry_def)

lemma remove_if_empty_all:
  assumes "ctx_ok c" "directory c k = Some ss"
  shows "\<exists>c'. remove_if_empty k c = Some c' \<and> ctx_ok c' \<and> proxies c' = proxies c \<and>
    directory c' = (if services ss = [] \<and> taps ss = [] then (directory c)(k := None) else directory c)"
proof (cases "services ss = [] \<and> taps ss = []")
  case True
  then have "directory c k = Some (Services_entry [] [])" using assms(2) by (cases ss) simp
  from remove_empty_entry [OF assms(1) this] obtain c' where c': "remove_if_empty k c = Some c'" "ctx_ok c'"
    "directory c' = (directory c)(k := None)" "c' = c\<lparr>path_tree := path_tree c'\<rparr>" by blast
  have "proxies c' = proxies c" using arg_cong [OF c'(4), of proxies] by simp
  then show ?thesis using c' True by auto
next
  case False
  then show ?thesis using assms by (auto simp: remove_if_empty_def find_entry)
qed

lemma remove_service_remote:
  assumes "ctx_ok c" "remote p c" "plain_directory p c" "directory c k = Some ss"
  shows "\<exists>r c'. remove_service own k k (proc_service_index c p ss) (Some p) c = Some (r, c') \<and> ctx_ok c' \<and> proxies c' = proxies c \<and>
    left_of p (Some ss) (directory c' k) \<and> (\<forall>k'. k' \<noteq> k \<longrightarrow> directory c' k' = directory c k')"
proof -
  have p: "p \<noteq> local_proc" "kind (proxies c p) \<in> {PROC, MQTT}" using assms(2) by (simp_all add: remote_def ISA_REMOTE_PROC_def)
  have plain: "\<forall>tap \<in> set (taps ss). tap_proc tap \<noteq> p" "length (filter (\<lambda>spp. service spp = Proxy p) (services ss)) \<le> 1"
    using assms(3,4) by (auto simp: plain_directory_def plain_entry_def)
  have f: "hash_find k (path_tree c) = Some ss" using find_entry [OF assms(1)] assms(4) by simp
  show ?thesis
  proof (cases "proc_service_index c p ss")
    case None
    then have "left_of p (Some ss) (directory c k)" using index_remote(1) [OF p(1)] assms(4) by (simp add: left_of_def)
    then show ?thesis using None f assms(1) by (auto simp: remove_service_def)
  next
    case (Some i)
    note i = index_remote(2) [OF p(1) Some]
    have no: "\<not> offers_nothing p ss" using index_remote(1) [OF p(1), of c ss] Some by simp
    define c1 where "c1 = set_entry k (Services_entry (vec_remove i (services ss)) (taps ss)) c"
    have c1: "ctx_ok c1" "directory c1 = (directory c)(k \<mapsto> Services_entry (vec_remove i (services ss)) (taps ss))" "proxies c1 = proxies c"
      using set_entry_ok [OF assms(1), of k] assms(4) by (auto simp: c1_def)
    define c2 where "c2 = report_gone k p c1"
    define ss' where "ss' = drop_provider c2 i ss"
    have ss': "add_mset (services ss ! i) (mset (services ss')) = mset (services ss)" "taps ss' = taps ss"
      using mset_vec_remove [of i "services ss"] i pick_props(1,2) by (auto simp: ss'_def drop_provider_def Let_def)
    define c3 where "c3 = report_active k ss' (set_entry k ss' c2)"
    have c2: "ctx_ok c2" "directory c2 = directory c1" "proxies c2 = proxies c" using c1 by (simp_all add: c2_def ctx_ok_def)
    have c3: "ctx_ok c3" "directory c3 = (directory c)(k \<mapsto> ss')" "proxies c3 = proxies c"
      using set_entry_ok [OF c2(1), of k ss'] c1(2) c2 by (auto simp: c3_def ctx_ok_def)
    obtain c4 where c4: "remove_if_empty k c3 = Some c4" "ctx_ok c4" "proxies c4 = proxies c"
      "directory c4 = (if services ss' = [] \<and> taps ss' = [] then (directory c3)(k := None) else directory c3)"
      using remove_if_empty_all [OF c3(1), of k ss'] c3 by auto
    have all: "\<forall>k' \<in> set (list_services c4). \<exists>ss. directory c4 k' = Some ss \<and> (\<forall>tap \<in> set (taps ss). tap_proc tap \<noteq> p)"
    proof
      fix k' assume "k' \<in> set (list_services c4)"
      then show "\<exists>ss. directory c4 k' = Some ss \<and> (\<forall>tap \<in> set (taps ss). tap_proc tap \<noteq> p)"
        using c4(4) c3(2) ss'(2) plain(1) assms(3) unfolding listed(1) [OF c4(2)]
        by (auto simp: plain_directory_def plain_entry_def split: if_splits)
    qed
    obtain c5 where t: "remove_taps_by (k, own) p k (list_services c4) c4 = Some c5" "ctx_ok c5" "directory c5 = directory c4"
      "proxies c5 = proxies c4" using remove_taps_by_none [OF c4(2) all p(1)] by blast
    have own': "\<not> owned_by_tree c1 (service (services ss ! i))" using i p(2) c1(3) by (auto simp: owned_by_tree_def)
    have "kind (proxies c4 p) \<noteq> BRIDGE" using p(2) c4(3) by auto
    then have n: "notify_gone k p c4 = Some c4" using p(1) by (simp add: notify_gone_def)
    then have "remove_service own k k (Some i) (Some p) c = Some (O2_SUCCESS, c5)"
      using f own' p(1) c4(1) t(1) by (simp add: remove_service_def Let_def flip: c1_def c2_def ss'_def c3_def)
    moreover have "left_of p (Some ss) (directory c5 k)"
    proof -
      have "filter_mset (\<lambda>spp. service spp \<noteq> Proxy p) (mset (services ss)) = mset (services ss')"
        using filter_one [OF plain(2), of "services ss ! i"] i ss'(1) by (metis add_mset_remove_trivial nth_mem)
      then show ?thesis using no c4(4) c3(2) ss'(2) t(3) by (simp add: left_of_def)
    qed
    ultimately show ?thesis using Some c4 c3(2) t by (intro exI [of _ O2_SUCCESS] exI [of _ c5]) auto
  qed
qed

lemma left_plain: "left_of p (Some ss) after \<Longrightarrow> plain_entry p ss \<Longrightarrow> after = Some ss' \<Longrightarrow> plain_entry p ss' \<and> offers_nothing p ss'"
proof -
  assume a: "left_of p (Some ss) after" "plain_entry p ss" "after = Some ss'"
  have "offers_nothing p ss' \<and> taps ss' = taps ss"
  proof (cases "offers_nothing p ss")
    case False
    then have m: "mset (services ss') = filter_mset (\<lambda>spp. service spp \<noteq> Proxy p) (mset (services ss))" "taps ss' = taps ss"
      using a by (auto simp: left_of_def Let_def)
    then have "set (services ss') = {spp \<in> set (services ss). service spp \<noteq> Proxy p}" by (metis set_mset_filter set_mset_mset)
    then show ?thesis using m(2) by (auto simp: offers_nothing_def)
  qed (use a in \<open>auto simp: left_of_def plain_entry_def\<close>)
  then show ?thesis using a(2) by (auto simp: plain_entry_def offers_nothing_def filter_empty_conv intro!: le_SucI)
qed

section \<open>All services of the process\<close>

lemma remove_loop:
  assumes "ctx_ok c" "remote p c" "plain_directory p c" "distinct ks" "set ks \<subseteq> dom (directory c)"
  shows "\<exists>r c'. remove_services_loop p ks result c = Some (r, c') \<and> ctx_ok c' \<and> proxies c' = proxies c \<and>
    (\<forall>k. if k \<in> set ks then left_of p (directory c k) (directory c' k) else directory c' k = directory c k)"
  using assms
proof (induction ks arbitrary: c result)
  case (Cons k ks)
  obtain ss where ss: "directory c k = Some ss" using Cons.prems(5) by auto
  then have plain: "plain_entry p ss" using Cons.prems(3) by (auto simp: plain_directory_def)
  obtain r c0 where c0: "remove_service True k k (proc_service_index c p ss) (Some p) c = Some (r, c0)" "ctx_ok c0" "proxies c0 = proxies c"
    "left_of p (Some ss) (directory c0 k)" "\<forall>k'. k' \<noteq> k \<longrightarrow> directory c0 k' = directory c k'"
    using remove_service_remote [OF Cons.prems(1-3) ss] by blast
  have "\<exists>res c1. remove_services_loop p (k # ks) result c = remove_services_loop p ks res c1 \<and> ctx_ok c1 \<and>
      directory c1 = directory c0 \<and> proxies c1 = proxies c0"
  proof (cases "taps ss = []")
    case True
    then show ?thesis using find_entry [OF Cons.prems(1), of k] ss c0(1,2) by auto
  next
    case False
    obtain ss1 where ss1: "directory c0 k = Some ss1" "taps ss1 = taps ss"
      using c0(4) False by (auto simp: left_of_def Let_def split: if_splits option.splits)
    then have "\<forall>tap \<in> set (taps ss1). tap_proc tap \<noteq> p" "p \<noteq> local_proc"
      using plain Cons.prems(2) by (auto simp: plain_entry_def remote_def)
    from remove_tap_none [OF c0(2) ss1(1) this] obtain c1 where "remove_tap k p None c0 = Some (O2_FAIL, c1)" "ctx_ok c1"
      "directory c1 = directory c0" "proxies c1 = proxies c0" by blast
    then show ?thesis using find_entry [OF Cons.prems(1), of k] ss c0(1) False by auto
  qed
  then obtain res c1 where step: "remove_services_loop p (k # ks) result c = remove_services_loop p ks res c1"
    and d: "ctx_ok c1" "directory c1 = directory c0" "proxies c1 = proxies c0" by blast
  have c1: "proxies c1 = proxies c" "left_of p (Some ss) (directory c1 k)" "\<forall>k'. k' \<noteq> k \<longrightarrow> directory c1 k' = directory c k'"
    using c0(3-5) d by simp_all
  have "remote p c1" using Cons.prems(2) c1(1) by (simp add: remote_def ISA_REMOTE_PROC_def)
  moreover have "plain_directory p c1"
    using Cons.prems(3) c1(3) left_plain [OF c1(2) plain] by (metis plain_directory_def)
  moreover have "set ks \<subseteq> dom (directory c1)"
  proof
    fix x assume "x \<in> set ks"
    then have "directory c1 x = directory c x" "x \<in> dom (directory c)" using Cons.prems(4,5) c1(3) by auto
    then show "x \<in> dom (directory c1)" by (simp add: domIff)
  qed
  ultimately obtain r' c' where c': "remove_services_loop p ks res c1 = Some (r', c')"
    "ctx_ok c'" "proxies c' = proxies c1"
    "\<forall>k. if k \<in> set ks then left_of p (directory c1 k) (directory c' k) else directory c' k = directory c1 k"
    using Cons.IH [OF d(1)] Cons.prems(4) by (metis distinct.simps(2))
  have "remove_services_loop p (k # ks) result c = Some (r', c')" using step c'(1) by simp
  moreover have "if k' \<in> set (k # ks) then left_of p (directory c k') (directory c' k') else directory c' k' = directory c k'" for k'
    using c'(4) [rule_format, of k'] c1(2,3) ss Cons.prems(4) by (cases "k' = k") auto
  ultimately show ?case using c' c1(1) by auto
qed simp

lemma all_services_removed:
  assumes "ctx_ok c" "remote p c" "plain_directory p c"
  shows "\<exists>r c'. remove_services_by p c = Some (r, c') \<and> ctx_ok c' \<and> proxies c' = proxies c \<and>
    (\<forall>k. left_of p (directory c k) (directory c' k))"
proof -
  obtain r c' where c': "remove_services_loop p (list_services c) O2_SUCCESS c = Some (r, c')" "ctx_ok c'" "proxies c' = proxies c"
    "\<forall>k. if k \<in> set (list_services c) then left_of p (directory c k) (directory c' k) else directory c' k = directory c k"
    using remove_loop [OF assms listed(2) [OF assms(1)], of O2_SUCCESS] listed(1) [OF assms(1)] by blast
  have "left_of p (directory c k) (directory c' k)" for k
    using c'(4) [rule_format, of k] listed(1) [OF assms(1)] by (auto simp: left_of_def domIff split: if_splits option.splits)
  then show ?thesis using c' assms(2) by (auto simp: remove_services_by_def remote_def)
qed

text \<open>C9: when another process is gone that taps no service and offers none twice (\<open>plain_directory\<close>; other processes may have
  taps), the removal of its services ends, and the directory is as before without it: a service that it
  offered keeps its other providers and its taps, and is forgotten if there are none; all other services are untouched.\<close>

theorem process_gone:
  assumes "ctx_ok c" "remote p c" "plain_directory p c"
  shows "\<exists>r c'. remove_services_by p c = Some (r, c') \<and> ctx_ok c' \<and> proxies c' = proxies c \<and>
    (\<forall>k. left_of p (directory c k) (directory c' k))"
  by (rule all_services_removed [OF assms])

theorem process_gone_witness:
  "\<exists>r c'. remove_services_by 1 (ctx informed) = Some (r, c') \<and> ctx_ok c' \<and> proxies c' = proxies (ctx informed) \<and>
    (\<forall>k. left_of 1 (directory (ctx informed) k) (directory c' k))"
  by (rule process_gone)
    (simp_all add: with_entry remote_def ISA_REMOTE_PROC_def plain_directory_def plain_entry_def)

section \<open>Processes that tap services\<close>

lemma taps_of_freed:
  "ctx_ok c \<Longrightarrow> directory c k0 = None \<Longrightarrow> p \<noteq> local_proc \<Longrightarrow> set ks \<subseteq> dom (directory c) \<Longrightarrow> k \<in> set ks \<Longrightarrow> directory c k = Some ss \<Longrightarrow>
   \<exists>tap \<in> set (taps ss). tap_proc tap = p \<Longrightarrow> remove_taps_by (k0, True) p s ks c = None"
proof (induction ks arbitrary: c)
  case (Cons k1 ks)
  obtain ss1 where ss1: "directory c k1 = Some ss1" using Cons.prems(4) by auto
  have f: "hash_find k1 (path_tree c) = Some ss1" "hash_find k0 (path_tree c) = None"
    using find_entry [OF Cons.prems(1)] ss1 Cons.prems(2) by simp_all
  show ?case
  proof (cases "\<exists>tap \<in> set (taps ss1). tap_proc tap = p")
    case True
    then have "taps ss1 \<noteq> []" by auto
    then show ?thesis using f True by simp
  next
    case False
    then have k: "k \<in> set ks" using Cons.prems(5-7) ss1 by auto
    show ?thesis
    proof (cases "taps ss1 = []")
      case True
      then show ?thesis using f Cons.IH [OF Cons.prems(1-3) _ k Cons.prems(6,7)] Cons.prems(4) by simp
    next
      case taps: False
      obtain c1 where c1: "remove_tap k1 p (Some s) c = Some (O2_FAIL, c1)" "ctx_ok c1" "directory c1 = directory c"
        using remove_tap_none [OF Cons.prems(1) ss1 _ Cons.prems(3)] False by blast
      have "remove_taps_by (k0, True) p s ks c1 = None"
        using Cons.IH [OF c1(2)] Cons.prems(2-7) k by (simp add: c1(3))
      then show ?thesis using f False taps c1(1) by simp
    qed
  qed
qed simp

text \<open>A process that offers a service alone and taps another one: when its service is removed with it, the entry and its key are freed,
  and the key is then compared with the names of its taps.\<close>

lemma tapping_process_crashes:
  assumes "ctx_ok c" "remote p c" "directory c k = Some (Services_entry [Service_provider (Proxy p) props] [])"
    and "directory c k' = Some ss" "\<exists>tap \<in> set (taps ss). tap_proc tap = p" "k' \<noteq> k"
  shows "remove_service True k k (Some 0) (Some p) c = None"
proof -
  have p: "p \<noteq> local_proc" "kind (proxies c p) \<in> {PROC, MQTT}" using assms(2) by (simp_all add: remote_def ISA_REMOTE_PROC_def)
  let ?e = "Services_entry [] []"
  define c1 where "c1 = set_entry k ?e c"
  have c1: "ctx_ok c1" "directory c1 = (directory c)(k \<mapsto> ?e)" "proxies c1 = proxies c"
    using set_entry_ok [OF assms(1), of k] assms(3) by (auto simp: c1_def)
  define c2 where "c2 = report_gone k p c1"
  have c2: "ctx_ok c2" "directory c2 = directory c1" "proxies c2 = proxies c" using c1 by (simp_all add: c2_def ctx_ok_def)
  define c3 where "c3 = set_entry k ?e c2"
  have c3: "ctx_ok c3" "directory c3 = (directory c)(k \<mapsto> ?e)" "proxies c3 = proxies c"
    using set_entry_ok [OF c2(1), of k ?e] c1(2) c2 by (auto simp: c3_def)
  obtain c4 where c4: "remove_if_empty k c3 = Some c4" "ctx_ok c4" "proxies c4 = proxies c" "directory c4 = (directory c3)(k := None)"
    using remove_if_empty_all [OF c3(1), of k ?e] c3 by auto
  have "remove_taps_by (k, True) p k (list_services c4) c4 = None"
    using taps_of_freed [OF c4(2) _ p(1), of k "list_services c4" k'] listed(1) [OF c4(2)] c4(4) c3(2) assms(4-6) by auto
  moreover have "drop_provider c2 0 (Services_entry [Service_provider (Proxy p) props] []) = ?e"
    by (simp add: drop_provider_def vec_remove_def pick_service_provider_def)
  moreover have "\<not> owned_by_tree c1 (Proxy p)" using p(2) c1(3) by (auto simp: owned_by_tree_def)
  moreover have "notify_gone k p c4 = Some c4" using p c4(3) by (auto simp: notify_gone_def)
  ultimately show ?thesis using find_entry [OF assms(1), of k] assms(3) p(1) c4(1)
    by (simp add: remove_service_def Let_def vec_remove_def report_active_def flip: c1_def c2_def c3_def)
qed

section \<open>Several processes\<close>

lemma left_subset:
  assumes "left_of p before (Some ss')"
  shows "\<exists>ss. before = Some ss \<and> taps ss' = taps ss \<and> mset (services ss') \<subseteq># mset (services ss)"
  using assms by (cases before) (auto simp: left_of_def Let_def split: if_splits)

lemma left_keeps:
  assumes "left_of p (Some ss) after" "spp \<in> set (services ss)" "service spp \<noteq> Proxy p"
  shows "\<exists>ss'. after = Some ss' \<and> spp \<in> set (services ss')"
proof (cases "offers_nothing p ss")
  case True
  then show ?thesis using assms by (simp add: left_of_def)
next
  case False
  have m: "spp \<in># filter_mset (\<lambda>spp. service spp \<noteq> Proxy p) (mset (services ss))" using assms(2,3) by simp
  then obtain ss' where ss': "after = Some ss'" "mset (services ss') = filter_mset (\<lambda>spp. service spp \<noteq> Proxy p) (mset (services ss))"
    using assms(1) False by (cases after) (auto simp: left_of_def Let_def)
  have "spp \<in># mset (services ss')" unfolding ss'(2) by (rule m)
  then show ?thesis using ss'(1) by simp
qed

lemma left_directory:
  assumes "\<forall>k. left_of p (directory c k) (directory c' k)" "plain_directory q c"
  shows "plain_directory q c'"
    "(\<forall>k ss. directory c k = Some ss \<longrightarrow> offers_nothing r ss) \<Longrightarrow> (\<forall>k ss. directory c' k = Some ss \<longrightarrow> offers_nothing r ss)"
proof -
  have sub: "\<exists>ss. directory c k = Some ss \<and> taps ss' = taps ss \<and> mset (services ss') \<subseteq># mset (services ss)"
    if "directory c' k = Some ss'" for k ss'
  proof (rule left_subset)
    show "left_of p (directory c k) (Some ss')" using assms(1) that by metis
  qed
  have fm: "length (filter P xs) \<le> length (filter P ys)" if "mset xs \<subseteq># mset ys" for P and xs ys :: "Service_provider list"
    using size_mset_mono [OF multiset_filter_mono [OF that, of P]] by (simp flip: size_mset mset_filter)
  show "plain_directory q c'" unfolding plain_directory_def plain_entry_def
  proof (intro allI impI)
    fix k ss'
    assume "directory c' k = Some ss'"
    from sub [OF this] obtain ss where ss: "directory c k = Some ss" "taps ss' = taps ss" "mset (services ss') \<subseteq># mset (services ss)" by blast
    have "(\<forall>tap \<in> set (taps ss). tap_proc tap \<noteq> q) \<and> length (filter (\<lambda>spp. service spp = Proxy q) (services ss)) \<le> 1"
      using assms(2) ss(1) by (auto simp: plain_directory_def plain_entry_def)
    then show "(\<forall>tap \<in> set (taps ss'). tap_proc tap \<noteq> q) \<and> length (filter (\<lambda>spp. service spp = Proxy q) (services ss')) \<le> 1"
      using ss(2) fm [OF ss(3), of "\<lambda>spp. service spp = Proxy q"] by auto
  qed
  show "(\<forall>k ss. directory c k = Some ss \<longrightarrow> offers_nothing r ss) \<Longrightarrow> (\<forall>k ss. directory c' k = Some ss \<longrightarrow> offers_nothing r ss)"
    using sub by (metis mset_subset_eqD offers_nothing_def set_mset_mset)
qed

text \<open>The directory after some processes are gone.\<close>

definition without_procs :: "nat set \<Rightarrow> O2_context \<Rightarrow> O2_context \<Rightarrow> bool" where
  "without_procs ps c c' \<longleftrightarrow>
     (\<forall>p \<in> ps. \<forall>k ss. directory c' k = Some ss \<longrightarrow> offers_nothing p ss) \<and>
     (\<forall>k ss spp. directory c k = Some ss \<and> spp \<in> set (services ss) \<and> (\<forall>p \<in> ps. service spp \<noteq> Proxy p) \<longrightarrow>
        (\<exists>ss'. directory c' k = Some ss' \<and> spp \<in> set (services ss'))) \<and>
     (\<forall>k ss'. directory c' k = Some ss' \<longrightarrow> (\<exists>ss. directory c k = Some ss \<and> set (services ss') \<subseteq> set (services ss)))"

lemma left_offers_nothing:
  assumes "left_of p before (Some ss')" "\<forall>ss. before = Some ss \<longrightarrow> plain_entry p ss"
  shows "offers_nothing p ss'"
proof (cases before)
  case None
  then show ?thesis using assms(1) by (simp add: left_of_def)
next
  case (Some ss)
  then show ?thesis using left_plain [of p ss "Some ss'" ss'] assms by blast
qed

lemma expired_gone:
  assumes "plain_directory p c" "\<forall>k. left_of p (directory c k) (directory c' k)" "without_procs ps c' c''"
  shows "without_procs (insert p ps) c c''"
proof -
  have w: "\<forall>q \<in> ps. \<forall>k ss. directory c'' k = Some ss \<longrightarrow> offers_nothing q ss"
    "\<And>k ss spp. directory c' k = Some ss \<Longrightarrow> spp \<in> set (services ss) \<Longrightarrow> \<forall>q \<in> ps. service spp \<noteq> Proxy q \<Longrightarrow>
       \<exists>ss'. directory c'' k = Some ss' \<and> spp \<in> set (services ss')"
    "\<And>k ss'. directory c'' k = Some ss' \<Longrightarrow> \<exists>ss. directory c' k = Some ss \<and> set (services ss') \<subseteq> set (services ss)"
    using assms(3) by (auto simp: without_procs_def)
  have "offers_nothing p ss \<and> (\<exists>ss0. directory c k = Some ss0 \<and> set (services ss) \<subseteq> set (services ss0))"
    if "directory c'' k = Some ss" for k ss
  proof -
    obtain ss1 where ss1: "directory c' k = Some ss1" "set (services ss) \<subseteq> set (services ss1)" using w(3) [OF \<open>directory c'' k = Some ss\<close>] by blast
    have l: "left_of p (directory c k) (Some ss1)" using assms(2) ss1(1) by metis
    have pl: "\<forall>ss. directory c k = Some ss \<longrightarrow> plain_entry p ss" using assms(1) by (simp add: plain_directory_def)
    obtain ss0 where "directory c k = Some ss0" "mset (services ss1) \<subseteq># mset (services ss0)"
      using left_subset [OF l] by auto
    moreover have "offers_nothing p ss1" by (rule left_offers_nothing [OF l pl])
    ultimately show ?thesis using ss1(2) by (metis (no_types, lifting) mset_subset_eqD offers_nothing_def set_mset_mset subset_iff)
  qed
  moreover have "\<exists>ss'. directory c'' k = Some ss' \<and> spp \<in> set (services ss')"
    if o: "directory c k = Some ss" "spp \<in> set (services ss)" "\<forall>q \<in> insert p ps. service spp \<noteq> Proxy q" for k ss spp
  proof -
    have "left_of p (Some ss) (directory c' k)" using assms(2) o(1) by metis
    from left_keeps [OF this o(2)] o(3) obtain ss1 where "directory c' k = Some ss1" "spp \<in> set (services ss1)" by blast
    then show ?thesis using w(2) o(3) by blast
  qed
  ultimately show ?thesis using w(1) unfolding without_procs_def by blast
qed

end
