(* ===== verification/Broker.thy ===== *)
theory Broker
  imports Mqtt Leaving
begin

text \<open>
  Processes that meet through the MQTT broker, over the operations of \<open>Mqtt\<close>: announcements and what is made of them, messages
  from one process to another, and processes that fall silent.
\<close>

section \<open>Silent processes\<close>

lemma timeouts_loop_all:
  assumes "ctx_ok (ctx d)" "\<forall>p \<in> set (o2_mqtt_procs d). remote p (ctx d) \<and> plain_directory p (ctx d)" "i \<le> length (o2_mqtt_procs d)"
  shows "\<exists>d'. timeouts_loop limits now i d = Some d' \<and> ctx_ok (ctx d') \<and>
    mset (o2_mqtt_procs d') = mset (take i (o2_mqtt_procs d)) + filter_mset (\<lambda>p. \<not> limits p < now) (mset (drop i (o2_mqtt_procs d))) \<and>
    without_procs {p \<in> set (drop i (o2_mqtt_procs d)). limits p < now} (ctx d) (ctx d')"
  using assms
proof (induction limits now i d rule: timeouts_loop.induct)
  case (1 limits now i d)
  let ?ps = "o2_mqtt_procs d"
  show ?case
  proof (cases "i < length ?ps")
    case False
    then have "timeouts_loop limits now i d = Some d" by (simp add: timeouts_loop.simps [of limits now i d])
    then show ?thesis using "1.prems" False by (intro exI [of _ d]) (auto simp: without_procs_def)
  next
    case i: True
    have split: "drop i ?ps = ?ps ! i # drop (Suc i) ?ps" "take (Suc i) ?ps = take i ?ps @ [?ps ! i]"
      using i by (simp_all add: Cons_nth_drop_Suc take_Suc_conv_app_nth)
    show ?thesis
    proof (cases "limits (?ps ! i) < now")
      case False
      then obtain d' where "timeouts_loop limits now (i + 1) d = Some d'" "ctx_ok (ctx d')"
        "mset (o2_mqtt_procs d') = mset (take (i + 1) ?ps) + filter_mset (\<lambda>p. \<not> limits p < now) (mset (drop (i + 1) ?ps))"
        "without_procs {p \<in> set (drop (i + 1) ?ps). limits p < now} (ctx d) (ctx d')"
        using "1.IH"(2) [OF i refl False] "1.prems" i by auto
      moreover have "{p \<in> set (drop i ?ps). limits p < now} = {p \<in> set (drop (i + 1) ?ps). limits p < now}"
        using split(1) False by auto
      ultimately show ?thesis using i False split by (intro exI [of _ d']) (simp add: timeouts_loop.simps [of limits now i d])
    next
      case True
      let ?p = "?ps ! i"
      let ?d = "d\<lparr>o2_mqtt_procs := vec_remove i ?ps\<rparr>"
      have p: "remote ?p (ctx d)" "plain_directory ?p (ctx d)" using "1.prems"(2) i by auto
      obtain r c' where c': "remove_services_by ?p (ctx d) = Some (r, c')" "ctx_ok c'" "proxies c' = proxies (ctx d)"
        "\<forall>k. left_of ?p (directory (ctx d) k) (directory c' k)"
        using all_services_removed [OF "1.prems"(1) p] by blast
      define d1 where "d1 = happen (Proxy_deleted ?p) (?d\<lparr>ctx := c'\<rparr>)"
      have del: "delete_mqtt_proc ?p ?d = Some d1" using c'(1) by (simp add: delete_mqtt_proc_def d1_def)
      have d1: "ctx d1 = c'" "o2_mqtt_procs d1 = vec_remove i ?ps" by (simp_all add: d1_def happen_def)
      have ms: "mset ?ps = add_mset ?p (mset (vec_remove i ?ps))" using mset_vec_remove [OF i] by simp
      then have sub: "set (vec_remove i ?ps) \<subseteq> set ?ps" by (metis set_mset_add_mset_insert set_mset_mset subset_insertI)
      have tk: "take i (vec_remove i ?ps) = take i ?ps" using i by (auto simp: vec_remove_def Let_def)
      have "mset ?ps = mset (take i ?ps) + mset (drop i ?ps)" "mset (vec_remove i ?ps) = mset (take i ?ps) + mset (drop i (vec_remove i ?ps))"
        using tk by (metis append_take_drop_id mset_append)+
      then have dr: "mset (drop i ?ps) = add_mset ?p (mset (drop i (vec_remove i ?ps)))" using ms by simp
      have "\<forall>q \<in> set (o2_mqtt_procs d1). remote q (ctx d1) \<and> plain_directory q (ctx d1)"
      proof
        fix q assume "q \<in> set (o2_mqtt_procs d1)"
        then have "remote q (ctx d)" "plain_directory q (ctx d)" using sub "1.prems"(2) d1(2) by auto
        then show "remote q (ctx d1) \<and> plain_directory q (ctx d1)"
          using left_directory(1) [OF c'(4)] d1(1) c'(3) by (simp add: remote_def ISA_REMOTE_PROC_def)
      qed
      moreover have "i \<le> length (o2_mqtt_procs d1)" using i by (simp add: d1(2) length_vec_remove)
      ultimately obtain d' where d': "timeouts_loop limits now i d1 = Some d'" "ctx_ok (ctx d')"
        "mset (o2_mqtt_procs d') = mset (take i (o2_mqtt_procs d1)) + filter_mset (\<lambda>p. \<not> limits p < now) (mset (drop i (o2_mqtt_procs d1)))"
        "without_procs {p \<in> set (drop i (o2_mqtt_procs d1)). limits p < now} (ctx d1) (ctx d')"
        using "1.IH"(1) [OF i refl True del] c'(2) d1(1) by auto
      have loop: "timeouts_loop limits now i d = Some d'" using i True del d'(1) by (simp add: timeouts_loop.simps [of limits now i d])
      have m: "mset (o2_mqtt_procs d') = mset (take i ?ps) + filter_mset (\<lambda>p. \<not> limits p < now) (mset (drop i ?ps))"
        using d'(3) dr tk True by (simp add: d1(2))
      have "set (drop i ?ps) = insert ?p (set (drop i (vec_remove i ?ps)))" using dr by (metis set_mset_add_mset_insert set_mset_mset)
      then have "{p \<in> set (drop i ?ps). limits p < now} = insert ?p {p \<in> set (drop i (vec_remove i ?ps)). limits p < now}"
        using True by auto
      then show ?thesis using loop d'(2) m expired_gone [OF p(2) c'(4) d'(4) [unfolded d1]] by (intro exI [of _ d']) simp
    qed
  qed
qed

text \<open>C13: when the processes reached through the broker tap no service and offer none twice (\<open>plain_directory\<close>; the local process and
  others may have taps), the check for timeouts ends; it deletes exactly the processes that were silent too long, and the directory is as
  before without them: nothing is offered by them, and every other provider is still there.\<close>

theorem timeouts_correct:
  assumes "ctx_ok (ctx (host s))" "\<forall>p \<in> set (o2_mqtt_procs (host s)). remote p (ctx (host s)) \<and> plain_directory p (ctx (host s))"
  shows "\<exists>s'. mqtt_check_timeouts env True s = Some s' \<and>
    mset (o2_mqtt_procs (host s')) = filter_mset (\<lambda>p. \<not> timeouts s p < local_now env) (mset (o2_mqtt_procs (host s))) \<and>
    without_procs {p \<in> set (o2_mqtt_procs (host s)). timeouts s p < local_now env} (ctx (host s)) (ctx (host s'))"
  using timeouts_loop_all [OF assms, of 0 "timeouts s" "local_now env"] by (auto simp: mqtt_check_timeouts_def)

section \<open>Connecting through the broker\<close>

definition mqtt_ready :: "O2_MQTTcomm \<Rightarrow> bool" where
  "mqtt_ready s \<longleftrightarrow> process_ok (process s)"

definition knows_mqtt_process :: "O2_MQTTcomm \<Rightarrow> string \<Rightarrow> nat \<Rightarrow> bool" where
  "knows_mqtt_process s name p \<longleftrightarrow> knows_process (host s) name p \<and> kind (proxy p (host s)) = MQTT \<and> key (proxy p (host s)) = name"

definition mqtt_dy_body :: "string \<Rightarrow> byte list" where
  "mqtt_dy_body name = zero_padded ''!_o2/mqtt/dy'' @ zero_padded '',s'' @ zero_padded name"

lemma dy_message:
  assumes "\<not> building_message_lock (building d)" "c_string (own_name d)"
  shows "\<exists>m bl. mqtt_dy_message env p d = Some (proxy_send env p m (d\<lparr>building := bl\<rparr>)) \<and> \<not> building_message_lock bl \<and>
    body m = mqtt_dy_body (own_name d)"
proof -
  obtain m b where m: "o2_service_message_finish True (junk env) 0 None ''!_o2/mqtt/dy'' True
      (add_args [String (own_name d)] (snd (o2_send_start (building d)))) = (Some m, b)" "\<not> building_message_lock b"
    "body m = zero_padded (slash_address None ''!_o2/mqtt/dy'') @ zero_padded (CHR '','' # map arg_type [String (own_name d)]) @
      concat (map arg_data [String (own_name d)])"
    using built_message [OF assms(1)] by blast
  have b: "body m = mqtt_dy_body (own_name d)" using m(3) by (simp add: slash_address_def mqtt_dy_body_def arg_type_def arg_data_def word_padded_zero)
  have "o2_strsize s = length (zero_padded s)" for s by (simp add: length_zero_padded strsize_roundup)
  then have "data_length m = int (12 + o2_strsize ''!_o2/mqtt/dy'' + o2_strsize '',s'' + o2_strsize (own_name d))"
    by (simp add: data_length_def b mqtt_dy_body_def)
  then have "mqtt_dy_message env p d = Some (proxy_send env p m (d\<lparr>building := b\<rparr>))"
    using m(1) by (simp add: mqtt_dy_message_def o2_message_finish_def)
  then show ?thesis using m(2) \<open>body m = mqtt_dy_body (own_name d)\<close> by blast
qed

section \<open>Announcements\<close>

lemma byte_in_text: "byte_of c \<in> set (bytes_of s) \<longleftrightarrow> c \<in> set s"
proof -
  have "inj byte_of" by (rule inj_on_inverseI [of _ char_of_byte]) simp
  then show ?thesis by (auto simp: bytes_of_def inj_image_mem_iff)
qed

lemma cut_until: "byte_of c \<notin> set s \<Longrightarrow> cut c (s @ byte_of c # t) = (s, Some t)"
proof -
  have "byte_of c \<notin> set s \<Longrightarrow> find_before (s @ byte_of c # t) c = Some (length s)" by (induction s) auto
  then show "byte_of c \<notin> set s \<Longrightarrow> cut c (s @ byte_of c # t) = (s, Some t)" by (simp add: cut_def)
qed

lemma cut_text: "c \<notin> set s \<Longrightarrow> cut c (bytes_of s @ byte_of c # t) = (bytes_of s, Some t)"
  by (rule cut_until) (simp add: byte_in_text)

lemma c_str_c_string: "c_string s \<Longrightarrow> c_str (bytes_of s) = s"
  using c_str_append [of s "[]"] by (simp add: c_str_def)

lemma lower_hex_plain: "\<forall>c \<in> set s. lower_hex c \<Longrightarrow> CHR '':'' \<notin> set s \<and> CHR ''/'' \<notin> set s \<and> c_string s"
proof -
  assume s: "\<forall>c \<in> set s. lower_hex c"
  have "\<not> lower_hex CHR '':''" "\<not> lower_hex CHR ''/''" "\<not> lower_hex CHR 0x00" by (simp_all add: lower_hex_def)
  then show ?thesis using s unfolding c_string_def by blast
qed

lemma no_bye: "CHR ''/'' \<notin> set s \<Longrightarrow> strstr s ''/bye'' = None"
  by (induction s) (simp_all, metis)

lemma version_text: "o2_version = ''2.0.1''"
  unfolding o2_version_def by (simp add: show_nat.simps digit_def)

definition announces :: "O2_MQTTcomm \<Rightarrow> bool" where
  "announces s \<longleftrightarrow> process_ok (process s) \<and> hex8 (o2n_public_ip (host s)) \<and> hex8 (o2n_internal_ip (host s)) \<and>
     unat (tcp_port (host s)) < 2 ^ 16 \<and> unat (snd (udp_address (host s) local_proc)) < 2 ^ 16"

definition announcement :: "O2_MQTTcomm \<Rightarrow> byte list" where
  "announcement s = bytes_of (own_name (host s)) @
     bytes_of (disc_suffix (clock_synchronized (host s)) (snd (udp_address (host s) local_proc)))"

lemma process_simps [simp]:
  "ctx (process s) = ctx (host s)" "ensemble_name (process s) = ensemble_name (host s)"
  "o2n_public_ip (process s) = o2n_public_ip (host s)" "o2n_internal_ip (process s) = o2n_internal_ip (host s)"
  "tcp_port (process s) = tcp_port (host s)" "udp_address (process s) = udp_address (host s)"
  "next_proxy (process s) = next_proxy (host s)" "building (process s) = scratch s"
  "happened (process s) = happened (host s)" "extracting (process s) = extracting (host s)"
  by (simp_all add: process_def)

lemma announced_name:
  assumes "announces s"
  shows "own_name (host s) = proc_name (o2n_public_ip (host s)) (o2n_internal_ip (host s)) (tcp_port (host s))"
    "own_name (host s) = ''@'' @ o2n_public_ip (host s) @ '':'' @ o2n_internal_ip (host s) @ '':'' @ hex_format 4 (unat (tcp_port (host s)))"
    "length (own_name (host s)) = 23" "c_string (own_name (host s))"
proof -
  have ok: "process_ok (process s)" "hex8 (o2n_public_ip (host s))" "hex8 (o2n_internal_ip (host s))" "unat (tcp_port (host s)) < 2 ^ 16"
    using assms by (simp_all add: announces_def)
  show n: "own_name (host s) = proc_name (o2n_public_ip (host s)) (o2n_internal_ip (host s)) (tcp_port (host s))"
    using ok(1) by (simp add: process_ok_def)
  show f: "own_name (host s) = ''@'' @ o2n_public_ip (host s) @ '':'' @ o2n_internal_ip (host s) @ '':'' @ hex_format 4 (unat (tcp_port (host s)))"
    unfolding n using ok length_proc_name by (simp add: hex8_def)
  have h: "\<forall>c \<in> set (hex_format 4 (unat (tcp_port (host s)))). lower_hex c" using hex_format_lower by blast
  show "length (own_name (host s)) = 23" unfolding f using ok length_hex4 by (simp add: hex8_def)
  show "c_string (own_name (host s))" unfolding f using ok(2,3) lower_hex_plain h by (auto simp: hex8_def c_string_def)
qed

lemma announcement_fields:
  assumes "announces s"
  shows "disc_fields (announcement s) rest = Some (o2n_public_ip (host s), o2n_internal_ip (host s),
    hex_format 4 (unat (tcp_port (host s))), Some (bytes_of (hex_format 4 (unat (snd (udp_address (host s) local_proc)))),
      Some (bytes_of (if clock_synchronized (host s) then ''cs'' else ''dy''), Some (bytes_of o2_version))))"
proof -
  let ?P = "hex_format 4 (unat (tcp_port (host s)))" and ?U = "hex_format 4 (unat (snd (udp_address (host s) local_proc)))"
  let ?act = "if clock_synchronized (host s) then ''cs'' else ''dy''"
  have ok: "hex8 (o2n_public_ip (host s))" "hex8 (o2n_internal_ip (host s))" "length ?U = 4"
    using assms length_hex4 by (simp_all add: announces_def)
  have h: "\<forall>c \<in> set ?P. lower_hex c" "\<forall>c \<in> set ?U. lower_hex c" using hex_format_lower by blast+
  note plain = lower_hex_plain [OF h(1)] lower_hex_plain [OF h(2)] lower_hex_plain [of "o2n_public_ip (host s)"] lower_hex_plain [of "o2n_internal_ip (host s)"]
  have suffix: "disc_suffix (clock_synchronized (host s)) (snd (udp_address (host s) local_proc)) =
      '':'' @ ?U @ ''/'' @ ?act @ ''/'' @ o2_version"
    using ok(3) by (simp add: disc_suffix_def)
  have bytes: "tl (announcement s) = bytes_of (o2n_public_ip (host s)) @ byte_of CHR '':'' # bytes_of (o2n_internal_ip (host s)) @
      byte_of CHR '':'' # bytes_of ?P @ byte_of CHR '':'' # bytes_of ?U @ byte_of CHR ''/'' # bytes_of ?act @
      byte_of CHR ''/'' # bytes_of o2_version"
    unfolding announcement_def suffix announced_name(2) [OF assms] by simp
  have "CHR ''/'' \<notin> set ?act" by simp
  note cuts = cut_text [OF this] cut_text [of "CHR '':''" "o2n_public_ip (host s)"] cut_text [of "CHR '':''" "o2n_internal_ip (host s)"]
    cut_text [of "CHR '':''" ?P] cut_text [of "CHR ''/''" ?U]
  show ?thesis unfolding disc_fields_def bytes using plain ok(1,2) cuts
    by (simp add: hex8_def c_str_c_string del: bytes_of_Cons if_split)
qed

lemma announcement_handled:
  assumes "announces b" "own_name (host a) \<noteq> []"
  shows "disc_handler env (announcement b) rest a =
    (if own_name (host a) = own_name (host b) then Some a
     else Option.bind (disc_connect env (own_name (host b)) (of_nat O2_VERSION) (o2n_public_ip (host b)) (o2n_internal_ip (host b))
         (tcp_port (host b)) (snd (udp_address (host b) local_proc)) a) (\<lambda>(proc_discovered, s).
       if clock_synchronized (host b) \<and> proc_discovered then send_cs env (own_name (host b)) s else Some s))"
proof -
  let ?P = "hex_format 4 (unat (tcp_port (host b)))" and ?U = "hex_format 4 (unat (snd (udp_address (host b) local_proc)))"
  have h: "\<forall>c \<in> set ?P. lower_hex c" "\<forall>c \<in> set ?U. lower_hex c" using hex_format_lower by blast+
  have s: "strstr ?P ''/bye'' = None" using no_bye lower_hex_plain [OF h(1)] by blast
  have n: "disc_name (o2n_public_ip (host b)) (o2n_internal_ip (host b)) ?P = own_name (host b)"
    using announced_name(2,3) [OF assms(1)] by (simp add: disc_name_def)
  have v: "o2_parse_version (map char_of_byte (bytes_of o2_version)) = O2_VERSION"
    by (simp add: bytes_of_def comp_def own_version_parsed)
  have p: "o2_hex_to_int ?P = tcp_port (host b)" "o2_hex_to_int (c_str (bytes_of ?U)) = snd (udp_address (host b) local_proc)"
    using hex_int_format [OF refl] lower_hex_plain [OF h(2)] by (simp_all add: c_str_c_string)
  have cmp: "strcmp (own_name (host a)) (own_name (host b)) = 0 \<longleftrightarrow> own_name (host a) = own_name (host b)" by (auto simp: strcmp_def)
  show ?thesis
    unfolding disc_handler_def announcement_fields [OF assms(1)] Let_def
    by (simp only: bind.bind_lunit prod.case option.case s v p n cmp) (use assms(2) in \<open>simp add: byte_in_text\<close>)
qed

lemma mqtt_introduce_frame:
  assumes "own_name d \<noteq> []" "c_string (own_name d)" "\<not> building_message_lock (building d)"
  shows "\<exists>e d'. mqtt_introduce env p from_disc d = Some (e, d') \<and> ctx d' = ctx d \<and>
    (from_disc \<longrightarrow> (\<exists>m. Sent p m \<in> set (happened d') \<and> body m = mqtt_dy_body (own_name d)))"
proof -
  obtain e1 d1 where d1: "(if from_disc then mqtt_dy_message env p d else Some (O2_SUCCESS, d)) = Some (e1, d1)" "ctx d1 = ctx d"
    "from_disc \<longrightarrow> (\<exists>m. Sent p m \<in> set (happened d1) \<and> body m = mqtt_dy_body (own_name d))"
  proof (cases from_disc)
    case True
    obtain m bl where m: "mqtt_dy_message env p d = Some (proxy_send env p m (d\<lparr>building := bl\<rparr>))" "body m = mqtt_dy_body (own_name d)"
      using dy_message [OF assms(3,2), of env p] by blast
    show ?thesis by (rule that [of "send_outcome env p m" "snd (proxy_send env p m (d\<lparr>building := bl\<rparr>))"])
        (use m True in \<open>auto simp: proxy_send_def happen_def\<close>)
  qed (use that in simp)
  show ?thesis
  proof (cases "e1 = O2_SUCCESS")
    case False
    then show ?thesis using d1 by (simp add: mqtt_introduce_def)
  next
    case True
    obtain e2 d2 where d2: "o2_send_clocksync_proc env p d1 = Some (e2, d2)" "ctx d2 = ctx d1" "\<exists>evs. happened d2 = happened d1 @ evs"
      using clocksync_frame [of d1 env p] assms(1) d1(2) by auto
    obtain e3 d3 where d3: "o2_send_services env p d2 = Some (e3, d3)" "ctx d3 = ctx d2" "\<exists>evs. happened d3 = happened d2 @ evs"
      using services_frame [of d2 env p] assms(1) d1(2) d2(2) by auto
    show ?thesis
    proof (cases "e2 = O2_SUCCESS")
      case e2: True
      have "mqtt_introduce env p from_disc d = Some (e3, d3)" using d1(1) d2(1) d3(1) True e2 by (simp add: mqtt_introduce_def)
      then show ?thesis using d1(2,3) d2(2,3) d3(2,3) by auto
    next
      case False
      then have "mqtt_introduce env p from_disc d = Some (e2, d2)" using d1(1) d2(1) True by (simp add: mqtt_introduce_def)
      then show ?thesis using d1(2,3) d2(2,3) by auto
    qed
  qed
qed

lemma creates_connection:
  assumes "announces s" "length name = 23" "directory (ctx (host s)) name = None"
  shows "\<exists>e s'. create_mqtt_connection env name from_disc s = Some (e, s') \<and> knows_mqtt_process s' name (next_proxy (host s)) \<and>
    (from_disc \<longrightarrow> (\<exists>m. Sent (next_proxy (host s)) m \<in> set (happened (host s')) \<and> body m = mqtt_dy_body (own_name (host s))))"
proof -
  let ?p = "next_proxy (host s)"
  have ok: "ctx_ok (ctx (host s))" "?p \<noteq> local_proc" "\<not> building_message_lock (scratch s)"
    using assms(1) by (simp_all add: announces_def process_ok_def)
  have "name \<noteq> []" using assms(2) by auto
  have nf: "find_services name (ctx (host s)) = None"
    using find_entry [OF ok(1), of name] assms(2,3) by (simp add: find_services_def string_pad_short)
  define d0 where "d0 = new_mqtt_proc (net env) name (process s)"
  have d0: "path_tree (ctx d0) = path_tree (ctx (host s))" "own_name d0 = own_name (host s)" "building d0 = scratch s"
    "kind (proxy ?p d0) = MQTT" "key (proxy ?p d0) = name"
    using ok(2) by (simp_all add: d0_def new_mqtt_proc_def set_proxy_def process_def)
  have "ctx_ok (ctx d0)" "remote ?p (ctx d0)" using ok(1,2) d0 by (simp_all add: ctx_ok_def remote_def ISA_REMOTE_PROC_def)
  from add_provider_new [OF this, of name] obtain c where c: "add_provider name ?p d0 = Some (d0\<lparr>ctx := c\<rparr>)" "proxies c = proxies (ctx d0)"
    "knows_process (d0\<lparr>ctx := c\<rparr>) name ?p" by blast
  let ?d = "d0\<lparr>ctx := c, o2_mqtt_procs := o2_mqtt_procs d0 @ [?p]\<rparr>"
  have own: "own_name ?d = own_name (host s)" using c(2) d0(2) by simp
  have "own_name (host s) \<noteq> []" using announced_name(2) [OF assms(1)] by simp
  then have "own_name ?d \<noteq> []" "c_string (own_name ?d)" "\<not> building_message_lock (building ?d)"
    using own announced_name(4) [OF assms(1)] d0(3) ok(3) by simp_all
  from mqtt_introduce_frame [OF this, of "net env" ?p from_disc] obtain e d' where d': "mqtt_introduce (net env) ?p from_disc ?d = Some (e, d')"
    "ctx d' = c" "from_disc \<longrightarrow> (\<exists>m. Sent ?p m \<in> set (happened d') \<and> body m = mqtt_dy_body (own_name (host s)))"
    unfolding own by auto
  have "create_mqtt_connection env name from_disc s = Some (e, put_process d' (s\<lparr>timeouts := (timeouts s)(?p := local_time env + MQTT_TIMEOUT_PERIOD)\<rparr>))"
    using nf c(1) d'(1) by (simp add: create_mqtt_connection_def Let_def flip: d0_def)
  moreover have "knows_mqtt_process (put_process d' (s\<lparr>timeouts := (timeouts s)(?p := local_time env + MQTT_TIMEOUT_PERIOD)\<rparr>)) name ?p"
    using c(2,3) d'(2) d0(4,5) by (simp add: knows_mqtt_process_def knows_process_def put_process_def)
  ultimately show ?thesis using d'(3) by (auto simp: put_process_def)
qed

lemma dy_handled:
  assumes "body m = mqtt_dy_body name" "c_string name" "\<not> mx_array_to_vector_pending (extracting (host s))"
  shows "\<exists>x. o2_mqtt_discovery_handler env m s =
    map_option snd (create_mqtt_connection env name False (s\<lparr>host := (host s)\<lparr>extracting := x\<rparr>\<rparr>))"
proof -
  have b: "body m = zero_padded ''!_o2/mqtt/dy'' @ zero_padded (CHR '','' # map arg_type [String name]) @ concat (map arg_data [String name])"
    using assms(1) by (simp add: mqtt_dy_body_def arg_type_def arg_data_def)
  have ask: "\<forall>a \<in> set [String name]. askable a" using assms(2) by (simp add: askable_def)
  have "c_string ''!_o2/mqtt/dy''" by (simp add: c_string_def)
  from read_own_dy [OF b this ask assms(3)] obtain n x ps x' where x: "o2_extract_start m (extracting (host s)) = Some (n, x)"
    "get_args ''s'' x = Some (Some ps, x')" "list_all2 (got x') [String name] ps"
    by (auto simp: ask_type_def arg_type_def)
  then obtain q where q: "ps = [q]" "fetch_string x' q = Some name" by (auto simp: list_all2_Cons1 got_def)
  have "o2_get_next CHR ''s'' x = Some (q, x')" "q \<noteq> Null"
    using x(2) q(1) by (auto simp: bind_eq_Some_conv split: if_splits)
  then show ?thesis using x(1) q(2) by (intro exI [of _ x']) (simp add: o2_mqtt_discovery_handler_def)
qed

lemma cs_sent: "\<exists>s'. send_cs env name s = Some s' \<and> host s' = host s"
proof -
  obtain e m b where "o2_message_build True (junk (net env)) 0 None ''/_o2/cs/cs'' ''s'' True [C_string name] (scratch s) = Some (e, m, b)"
    by (fastforce simp: o2_message_build_def split: prod.splits)
  then show ?thesis by (cases m) (simp_all add: send_cs_def hand_over_def)
qed

text \<open>C12: two processes behind different routers get to know each other through the broker: when the one with the lower name handles the
  announcement of the other, it has the other in its directory and sends it its name, and when the other handles that
  message, it has the first one in its directory, each with a proxy that sends through the broker.\<close>

theorem mqtt_pair:
  assumes "announces a" "announces b" "own_name (host a) < own_name (host b)"
    and "directory (ctx (host a)) (own_name (host b)) = None" "directory (ctx (host b)) (own_name (host a)) = None"
    and "o2n_public_ip (host b) \<noteq> o2n_internal_ip (host b)" "o2n_public_ip (host b) \<noteq> o2n_public_ip (host a)"
    and "\<not> mx_array_to_vector_pending (extracting (host b))"
  shows "\<exists>a' m b'. disc_handler env (announcement b) rest a = Some a' \<and>
    knows_mqtt_process a' (own_name (host b)) (next_proxy (host a)) \<and> Sent (next_proxy (host a)) m \<in> set (happened (host a')) \<and>
    o2_mqtt_discovery_handler env' m b = Some b' \<and> knows_mqtt_process b' (own_name (host a)) (next_proxy (host b))"
proof -
  have na: "own_name (host a) \<noteq> []" "own_name (host a) \<noteq> own_name (host b)" "strcmp (own_name (host a)) (own_name (host b)) < 0"
    using announced_name(2) [OF assms(1)] assms(3) by (auto simp: strcmp_def)
  obtain e a1 m where a1: "create_mqtt_connection env (own_name (host b)) True a = Some (e, a1)"
    "knows_mqtt_process a1 (own_name (host b)) (next_proxy (host a))" "Sent (next_proxy (host a)) m \<in> set (happened (host a1))"
    "body m = mqtt_dy_body (own_name (host a))"
    using creates_connection [OF assms(1) announced_name(3) [OF assms(2)] assms(4), of env True] by auto
  have conn: "disc_connect env (own_name (host b)) (of_nat O2_VERSION) (o2n_public_ip (host b)) (o2n_internal_ip (host b))
      (tcp_port (host b)) (snd (udp_address (host b) local_proc)) a = Some (True, a1)"
    using assms(6,7) na(3) a1(1) unfolding disc_connect_def Let_def by simp
  obtain a' where a': "disc_handler env (announcement b) rest a = Some a'" "host a' = host a1"
    unfolding announcement_handled [OF assms(2) na(1)] conn using na(2) cs_sent [of env "own_name (host b)" a1] that
    by (cases "clock_synchronized (host b)") auto
  obtain x where x: "o2_mqtt_discovery_handler env' m b =
      map_option snd (create_mqtt_connection env' (own_name (host a)) False (b\<lparr>host := (host b)\<lparr>extracting := x\<rparr>\<rparr>))"
    using dy_handled [OF a1(4) announced_name(4) [OF assms(1)] assms(8)] by blast
  have "announces (b\<lparr>host := (host b)\<lparr>extracting := x\<rparr>\<rparr>)" using assms(2) by (simp add: announces_def process_ok_def process_def)
  from creates_connection [OF this announced_name(3) [OF assms(1)], of env' False] assms(5)
  obtain e' b' where "create_mqtt_connection env' (own_name (host a)) False (b\<lparr>host := (host b)\<lparr>extracting := x\<rparr>\<rparr>) = Some (e', b')"
    "knows_mqtt_process b' (own_name (host a)) (next_proxy (host b))" by auto
  then show ?thesis using a' a1(2,3) x by (auto simp: knows_mqtt_process_def)
qed

section \<open>Concrete processes\<close>

definition behind_nat :: "string \<Rightarrow> string \<Rightarrow> 32 word \<Rightarrow> discovery" where
  "behind_nat pip iip port = (let d = new_process iip port in
     set_proxy local_proc ((proxy local_proc d)\<lparr>key := proc_name pip iip port\<rparr>) (d\<lparr>o2n_public_ip := pip\<rparr>))"

definition mqtt_process :: "discovery \<Rightarrow> O2_MQTTcomm" where
  "mqtt_process d = \<lparr>mqtt_input = [], connack_count = 0, connack_expected = 0, connack_time = 0, puback_count = 0, puback_expected = 0,
     puback_time = 0, suback_count = 0, suback_expected = 0, suback_time = 0, packet_id = 0, scratch = idle_builder,
     host = d, timeouts = (\<lambda>p. if p = 1 then 40 else 60), broker = Connected False, waiting_for_public_ip = False, to_broker = [], handed = []\<rparr>"

definition open_broker :: mqtt_env where
  "open_broker = \<lparr>net = open_net, tcp_outcome = (\<lambda>_ _. O2_SUCCESS), local_time = 50, local_now = 50, double_of = (\<lambda>_. 0)\<rparr>"

abbreviation (input) "nat_low \<equiv> mqtt_process (behind_nat ''0a000001'' ''c0a80001'' 8000)"
abbreviation (input) "nat_high \<equiv> mqtt_process (behind_nat ''0a000002'' ''c0a80001'' 8000)"

lemma behind_nat_simps [simp]:
  "own_name (behind_nat pip iip port) = proc_name pip iip port" "o2n_public_ip (behind_nat pip iip port) = pip"
  "o2n_internal_ip (behind_nat pip iip port) = iip" "tcp_port (behind_nat pip iip port) = port"
  "directory (ctx (behind_nat pip iip port)) = Map.empty" "udp_address (behind_nat pip iip port) = (\<lambda>_. ([], 0))"
  "\<not> mx_array_to_vector_pending (extracting (behind_nat pip iip port))" "ensemble_name (behind_nat pip iip port) = ''band''"
  "net_connected (proxy local_proc (behind_nat pip iip port))" "next_proxy (behind_nat pip iip port) = 2"
  "ctx_ok (ctx (behind_nat pip iip port))" "o2_mqtt_procs (behind_nat pip iip port) = []"
  by (simp_all add: behind_nat_def set_proxy_def Let_def new_process_def ctx_ok_def empty_Hash_node_ok no_extraction_def)

lemma mqtt_process_simps [simp]:
  "host (mqtt_process d) = d" "scratch (mqtt_process d) = idle_builder" "mqtt_input (mqtt_process d) = []" "handed (mqtt_process d) = []"
  "broker (mqtt_process d) = Connected False" "timeouts (mqtt_process d) = (\<lambda>p. if p = 1 then 40 else 60)"
  by (simp_all add: mqtt_process_def)

lemma hex8_string: "hex8 s \<Longrightarrow> c_string s"
  using lower_hex_plain by (auto simp: hex8_def)

lemma nat_announces: "hex8 pip \<Longrightarrow> hex8 iip \<Longrightarrow> announces (mqtt_process (behind_nat pip iip 8000))"
  using hex8_string [of pip] hex8_string [of iip]
  by (simp add: announces_def process_ok_def idle_builder_def c_string_def)

lemma nat_hex8: "hex8 ''0a000001''" "hex8 ''0a000002''" "hex8 ''c0a80001''"
  by (simp_all add: hex8_def lower_hex_def)

lemma nat_lower: "proc_name ''0a000001'' ''c0a80001'' 8000 < proc_name ''0a000002'' ''c0a80001'' 8000"
  by (simp add: proc_name_def hex_format_def show_hex.simps hex_digit_def less_list_code less_char_def)

theorem mqtt_pair_witness:
  "\<exists>a' m b'. disc_handler open_broker (announcement nat_high) [] nat_low = Some a' \<and>
    knows_mqtt_process a' (own_name (host nat_high)) (next_proxy (host nat_low)) \<and> Sent (next_proxy (host nat_low)) m \<in> set (happened (host a')) \<and>
    o2_mqtt_discovery_handler open_broker m nat_high = Some b' \<and>
    knows_mqtt_process b' (own_name (host nat_low)) (next_proxy (host nat_high))"
  by (rule mqtt_pair) (use nat_announces nat_hex8 nat_lower in simp_all)

text \<open>C1: messages that are no bundles, well-formed enough to be converted to network order and shorter than 2 to the 27, sent through the
  broker over a connection that takes them all, are handed over at the other process unchanged, complete and in order: however the bytes
  sent arrive there, a first part of the messages has been handed over, and all of them once all bytes have arrived. (The
  messages in a bundle may arrive altered, see \<open>embedded_not_converted\<close>; a connection that fails drops messages.)\<close>

theorem mqtt_messages_arrive:
  assumes "can_publish ens name p a" "is_process ens name b" "length (topic_of ens name) < 2 ^ 16" "mqtt_input b = []"
    and "\<forall>m \<in> set ms. short_message m" "broker_takes_all env"
  shows "\<exists>a' sent. send_all env p ms a = Some a' \<and> to_broker a' = to_broker a @ sent \<and>
    (\<forall>chunks rest. [] \<notin> set (map snd chunks) \<and> concat (map snd chunks) @ rest = concat sent \<longrightarrow>
      (\<exists>b' k. deliver_chunks (deliver_mqtt_msg env') beyond chunks b = Some b' \<and> handed b' = handed b @ take k ms \<and>
        (rest = [] \<longrightarrow> k = length ms)))"
proof -
  obtain a' ps where a': "send_all env p ms a = Some a'" "to_broker a' = to_broker a @ map packet_bytes ps"
    "\<forall>p \<in> set ps. packet_ok (for_process ens name) p"
    "list_all2 (\<lambda>m p. \<exists>pid. p = Publish 0 (topic_of ens name) pid (wire m)) ms ps"
    using send_all_packets [OF assms(1,5,3,6)] by blast
  have "\<exists>b' k. deliver_chunks (deliver_mqtt_msg env') beyond chunks b = Some b' \<and> handed b' = handed b @ take k ms \<and>
      (rest = [] \<longrightarrow> k = length ms)"
    if c: "[] \<notin> set (map snd chunks)" "concat (map snd chunks) @ rest = concat (map packet_bytes ps)" for chunks rest
  proof -
    have w: "waiting (mqtt_input b) ps" using assms(4) by (cases ps) (simp_all add: waiting_def)
    have "mqtt_input b @ concat (map snd chunks) @ rest = concat (map packet_bytes ps)" using c(2) assms(4) by simp
    from mqtt.stream [where env = env' and beyond = beyond, OF a'(3) c(1) w this assms(2)]
    obtain b' don todo where b': "deliver_chunks (deliver_mqtt_msg env') beyond chunks b = Some b'" "ps = don @ todo"
      "mqtt_input b' @ rest = concat (map packet_bytes todo)" "waiting (mqtt_input b') todo"
      "is_process ens name b'" "handed b' = steps receive_step don (handed b)" by (elim exE conjE) (rule that)
    have "list_all2 (\<lambda>m p. \<exists>pid. p = Publish 0 (topic_of ens name) pid (wire m)) (take (length don) ms) don"
      using list_all2_takeI [OF a'(4), of "length don"] b'(2) by simp
    moreover have "\<forall>m \<in> set (take (length don) ms). convertible m"
      using assms(5) by (auto simp: short_message_def dest: in_set_takeD)
    ultimately have "handed b' = handed b @ take (length don) ms" using b'(6) steps_received [of _ "take (length don) ms" don] by simp
    moreover have "length don = length ms" if "rest = []"
    proof -
      have "todo = []" using b'(3,4) that by (cases todo) (simp_all add: waiting_def)
      then show ?thesis using b'(2) list_all2_lengthD [OF a'(4)] by simp
    qed
    ultimately show ?thesis using b'(1) by blast
  qed
  then show ?thesis using a'(1,2) by blast
qed

definition mqtt_client :: O2_MQTTcomm where
  "mqtt_client = mqtt_process (set_proxy 1 \<lparr>kind = MQTT, key = own_name (host nat_high), net_connected = False, is_connected = True,
     proxy_status = 5\<rparr> (behind_nat ''0a000001'' ''c0a80001'' 8000))"

lemma small_short: "short_message small_message"
  using small_not_bundle small_message_swapped by (simp add: short_message_def convertible_def) (simp add: small_message_def length_zero_padded ROUNDUP_TO_32BIT_def)

theorem mqtt_messages_arrive_witness:
  "\<exists>a' sent. send_all open_broker 1 [small_message, small_message] mqtt_client = Some a' \<and> to_broker a' = to_broker mqtt_client @ sent \<and>
    (\<forall>chunks rest. [] \<notin> set (map snd chunks) \<and> concat (map snd chunks) @ rest = concat sent \<longrightarrow>
      (\<exists>b' k. deliver_chunks (deliver_mqtt_msg open_broker) 7 chunks nat_high = Some b' \<and>
        handed b' = handed nat_high @ take k [small_message, small_message] \<and> (rest = [] \<longrightarrow> k = length [small_message, small_message])))"
proof (rule mqtt_messages_arrive)
  show "can_publish ''band'' (own_name (host nat_high)) 1 mqtt_client"
    by (simp add: can_publish_def mqtt_client_def set_proxy_def idle_builder_def)
  have "announces nat_high" using nat_announces nat_hex8 by blast
  then show "is_process ''band'' (own_name (host nat_high)) nat_high"
    using announced_name(3,4) [OF \<open>announces nat_high\<close>] by (auto simp: is_process_def c_string_def)
  show "length (topic_of ''band'' (own_name (host nat_high))) < 2 ^ 16"
    using announced_name(3) [OF \<open>announces nat_high\<close>] by (simp add: topic_of_def)
qed (use small_short in \<open>simp_all add: broker_takes_all_def open_broker_def\<close>)

definition mqtt_server :: O2_MQTTcomm where
  "mqtt_server = mqtt_process ((with_entry ''synth'' (Proxy 1) (new_process ''c0a80001'' 8000))\<lparr>o2_mqtt_procs := [1, 2]\<rparr>)"

lemma mqtt_server_simps:
  "ctx (host mqtt_server) = ctx (with_entry ''synth'' (Proxy 1) (new_process ''c0a80001'' 8000))" "o2_mqtt_procs (host mqtt_server) = [1, 2]"
  by (simp_all add: mqtt_server_def)

theorem timeouts_correct_witness:
  "\<exists>s'. mqtt_check_timeouts open_broker True mqtt_server = Some s' \<and>
    mset (o2_mqtt_procs (host s')) = filter_mset (\<lambda>p. \<not> timeouts mqtt_server p < local_now open_broker) (mset (o2_mqtt_procs (host mqtt_server))) \<and>
    without_procs {p \<in> set (o2_mqtt_procs (host mqtt_server)). timeouts mqtt_server p < local_now open_broker}
      (ctx (host mqtt_server)) (ctx (host s'))"
  by (rule timeouts_correct)
    (simp_all add: mqtt_server_simps with_entry remote_def ISA_REMOTE_PROC_def plain_directory_def plain_entry_def)

section \<open>Errors\<close>

text \<open>The topic is not terminated: without a zero byte behind it, \<open>strlen\<close> reads past the buffer.\<close>

lemma unterminated_topic:
  "drop posn inbuff = bytes_of (''O2-'' @ t) @ r \<Longrightarrow> 0 \<notin> set (drop posn inbuff) \<Longrightarrow>
   deliver_mqtt_msg env inbuff posn topic_len payload_posn payload_len s = None"
  by (simp add: deliver_mqtt_msg_def starts_with_def c_text_def Let_def)

text \<open>The announcement of another ensemble, whose name begins the own one.\<close>

lemma other_ensemble_taken: "disc_topic ''bandleader'' ''O2-band/disc'' 12"
  by (simp add: disc_topic_def)

lemma goodbye_of_stranger:
  "find_services name (ctx (host s)) = None \<Longrightarrow> name \<noteq> own_name (host s) \<Longrightarrow> disc_goodbye env name s = None"
  by (auto simp: disc_goodbye_def strcmp_def)

text \<open>A process behind a router with another public address never connects to one with a lower name behind a router.\<close>

lemma higher_waits:
  assumes "public_ip \<noteq> internal_ip" "public_ip \<noteq> o2n_public_ip (host s)" "name < own_name (host s)"
    and "o2n_public_ip (host s) \<noteq> o2n_internal_ip (host s)"
  shows "disc_connect env name version public_ip internal_ip tcp udp s = Some (True, s)"
  using assms by (auto simp: disc_connect_def Let_def strcmp_def)

end
