(* ===== verification/Wellformed.thy ===== *)
theory Wellformed
  imports Leaving
begin

text \<open>
  What a message about services can do to the directory of its receiver: every item of it (a service or a tap, announced or removed)
  is carried out, the directory stays well-formed, and what the other processes offer and tap is not touched.
\<close>

section \<open>The invariant and what other processes have\<close>












section \<open>A service or a tap is announced\<close>




section \<open>A service or a tap is removed\<close>






section \<open>Messages from other processes\<close>





end
