(* ===== verification/Searching.thy ===== *)
theory Searching
  imports Joining
begin

text \<open>
  How a process makes itself known on the local network (src/src/discovery.cpp): it takes one of 16 ports and sends its
  description, again and again, to one port after the other; or it names another process as its hub and stops that.
  The state extends that of \<open>Discovery\<close> (\<open>own\<close>). Periods are rationals.
\<close>

section \<open>State\<close>

abbreviation (input) PORT_MAX :: int where "PORT_MAX \<equiv> 16"
abbreviation (input) INITIAL_DISCOVERY_PERIOD :: rat where "INITIAL_DISCOVERY_PERIOD \<equiv> 1 / 10"
abbreviation (input) RATE_DECAY :: rat where "RATE_DECAY \<equiv> 1125 / 1000"

definition o2_port_map :: "nat list" where
  "o2_port_map = [64541, 60238, 57143, 55764, 56975, 62711, 57571, 53472, 51779, 63714, 53304, 61696, 50665, 49404, 64828, 54859]"

record searching =
  own :: discovery
  disc_msg_count :: int
  disc_period :: rat
  next_disc_index :: int
  max_disc_period :: rat
  disc_port_index :: int
  o2_local_remote :: "32 word list"
  o2n_network_found :: bool
  hub_needs_public_ip :: bool
  hub_pip :: string
  hub_iip :: string
  hub_version :: "32 word"
  hub_tcp_port :: "32 word"
  hub_udp_port :: "32 word"

text \<open>What the operating system and other parts answer: whether a broadcast is sent, whether servers can be opened at a port, the
  address of a host, the time, and the number of sockets; and whether O2lite is enabled.\<close>

record search_env =
  replies :: disc_env
  broadcasts :: "nat \<Rightarrow> O2message \<Rightarrow> bool"
  udp_opens :: "nat \<Rightarrow> bool"
  tcp_opens :: "nat \<Rightarrow> bool"
  host_address :: "string \<Rightarrow> 32 word option"
  time_now :: rat
  time_bits :: "rat \<Rightarrow> 64 word"
  num_sockets :: int
  o2lite_protocol :: bool

section \<open>Start\<close>

definition o2_set_discovery_period :: "rat \<Rightarrow> searching \<Rightarrow> rat \<times> searching" where
  "o2_set_discovery_period period s =
     (let old = max_disc_period s; period = (if period < 1 / 10 then 1 / 10 else period) in
      (old, s\<lparr>disc_period := period, max_disc_period := period\<rparr>))"

text \<open>The first port at which both servers can be opened. A UDP server is not closed when there is no TCP server.\<close>

fun try_ports :: "search_env \<Rightarrow> nat list \<Rightarrow> discovery \<Rightarrow> nat option \<times> discovery" where
  "try_ports env [] d = (None, d)"
| "try_ports env (i # is) d =
     (let port = o2_port_map ! i in
      if \<not> udp_opens env port then try_ports env is d
      else let d = happen (Udp_server port) d in
        if \<not> tcp_opens env port then try_ports env is d
        else (Some i, happen (Tcp_server port) (set_proxy local_proc
          \<lparr>kind = PROC_TCP_SERVER, key = [], net_connected = True, is_connected = False, proxy_status = new_status (replies env)\<rparr>
          (d\<lparr>tcp_port := of_nat port\<rparr>))))"

definition o2_discovery_initialize :: "search_env \<Rightarrow> searching \<Rightarrow> O2err \<times> searching" where
  "o2_discovery_initialize env s =
     (let s = s\<lparr>own := (own s)\<lparr>o2_hub_addr := []\<rparr>, hub_needs_public_ip := False,
                disc_period := INITIAL_DISCOVERY_PERIOD, next_disc_index := - 1\<rparr> in
      case try_ports env [0..<nat PORT_MAX] (own s) of
        (None, d) \<Rightarrow> (O2_NO_PORT, s\<lparr>own := d, disc_port_index := - 1\<rparr>)
      | (Some i, d) \<Rightarrow> (O2_SUCCESS, s\<lparr>own := d, disc_port_index := int i,
          o2_local_remote := (o2_local_remote s)[i := o2_local_remote s ! i AND NOT 1]\<rparr>))"

section \<open>Sending descriptions\<close>

text \<open>The port in an address is in network byte order: only the first of these two functions converts it. The events
  hold the port to which a message goes.\<close>

definition o2n_send_broadcast :: "search_env \<Rightarrow> nat \<Rightarrow> O2message \<Rightarrow> discovery \<Rightarrow> bool \<times> discovery" where
  "o2n_send_broadcast env port m d = (if broadcasts env port m then (True, happen (Broadcast port m) d) else (False, d))"

definition o2n_send_udp_local :: "nat \<Rightarrow> O2message \<Rightarrow> discovery \<Rightarrow> discovery" where
  "o2n_send_udp_local port m d = happen (Udp_local (port mod 256 * 256 + port div 256) m) d"

definition o2_broadcast_message :: "search_env \<Rightarrow> bool \<Rightarrow> nat \<Rightarrow> 32 word \<Rightarrow> discovery \<Rightarrow> O2err \<times> discovery" where
  "o2_broadcast_message env network_found port local_remote d =
     (if local_remote = 0 then (O2_SUCCESS, d)
      else case o2_make_dy_msg (replies env) local_proc False True O2_DY_INFO d of
        (None, d) \<Rightarrow> (O2_FAIL, d)
      | (Some m, d) \<Rightarrow>
          case (if network_found \<and> local_remote AND 2 \<noteq> 0 then o2n_send_broadcast env port m d else (True, d)) of
             (False, d) \<Rightarrow> (O2_SEND_FAIL, d)
           | (True, d) \<Rightarrow> (O2_SUCCESS, if local_remote AND 1 \<noteq> 0 then o2n_send_udp_local port m d else d))"

definition o2_send_discovery_at :: "search_env \<Rightarrow> rat \<Rightarrow> discovery \<Rightarrow> discovery" where
  "o2_send_discovery_at env when d =
     (case o2_send_start (building d) of (e, b) \<Rightarrow>
        if e \<noteq> O2_SUCCESS then d\<lparr>building := b\<rparr>
        else case o2_message_finish True (junk (replies env)) (time_bits env when) ''!_o2/ds'' True b of
          (None, b) \<Rightarrow> d\<lparr>building := b\<rparr>
        | (Some m, b) \<Rightarrow> happen (Scheduled when m) (d\<lparr>building := b\<rparr>))"

definition next_index :: "search_env \<Rightarrow> searching \<Rightarrow> int" where
  "next_index env s =
     (let i = (next_disc_index s + 1) mod PORT_MAX in
      if disc_msg_count s \<ge> 2 * PORT_MAX \<or> \<not> o2lite_protocol env then i mod (disc_port_index s + 1) else i)"

definition next_period :: "search_env \<Rightarrow> searching \<Rightarrow> rat" where
  "next_period env s =
     (let num_procs = num_sockets env - 2 + int (length (o2_mqtt_procs (own s)));
          final_disc_period = of_int num_procs * (1 / 10);
          final_disc_period = (if final_disc_period < max_disc_period s then max_disc_period s else final_disc_period);
          period = disc_period s * RATE_DECAY in
      if period > final_disc_period then final_disc_period else period)"

text \<open>A port to which no broadcast can be sent is not tried again.\<close>

definition try_port :: "search_env \<Rightarrow> nat \<Rightarrow> searching \<Rightarrow> searching option" where
  "try_port env i s =
     (if i \<ge> length (o2_local_remote s) then None
      else let local_remote = o2_local_remote s ! i in
        Some (if local_remote = 0 then s
          else case o2_broadcast_message env (o2n_network_found s) (o2_port_map ! i) local_remote (own s) of (err, d) \<Rightarrow>
            let s = s\<lparr>own := d\<rparr> in
            if err = O2_SEND_FAIL then s\<lparr>o2_local_remote := (o2_local_remote s)[i := local_remote AND NOT 2]\<rparr> else s))"

text \<open>The handler of \<open>/_o2/ds\<close>.\<close>

definition o2_discovery_send_handler :: "search_env \<Rightarrow> searching \<Rightarrow> searching option" where
  "o2_discovery_send_handler env s =
     (if o2_hub_addr (own s) \<noteq> [] then Some s
      else if disc_port_index s < 0 then Some s
      else let i = next_index env s in
        map_option (\<lambda>s. let p = next_period env s in
            s\<lparr>disc_period := p, disc_msg_count := disc_msg_count s + 1, own := o2_send_discovery_at env (time_now env + p) (own s)\<rparr>)
          (try_port env (nat i) (s\<lparr>next_disc_index := i\<rparr>)))"

section \<open>A hub\<close>

text \<open>\<open>snprintf\<close> with \<open>%08x\<close>.\<close>

definition hex_address :: "32 word \<Rightarrow> string" where
  "hex_address a = hex_format 8 (unat a)"

definition o2_hub :: "search_env \<Rightarrow> 32 word \<Rightarrow> string option \<Rightarrow> string option \<Rightarrow> 32 word \<Rightarrow> 32 word \<Rightarrow> searching \<Rightarrow>
    (O2err \<times> searching) option" where
  "o2_hub env version public_ip internal_ip tcp udp s =
     (if \<not> ensemble (ctx (own s)) then Some (O2_NOT_INITIALIZED, s)
      else case (public_ip, internal_ip) of
        (Some public_ip, Some internal_ip) \<Rightarrow>
          if hub_needs_public_ip s then Some (O2_FAIL, s)
          else (case (host_address env public_ip, host_address env internal_ip) of
            (Some pub_address, Some int_address) \<Rightarrow>
              let pip = hex_address pub_address; iip = hex_address int_address in
              if o2n_public_ip (own s) \<noteq> [] then
                map_option (\<lambda>(err, d). (err, s\<lparr>own := d\<rparr>))
                  (o2_discovered_a_remote_process (replies env) version pip iip tcp udp O2_DY_INFO
                     ((own s)\<lparr>o2_hub_addr := proc_name pip iip tcp\<rparr>))
              else Some (O2_SUCCESS, s\<lparr>hub_pip := pip, hub_iip := iip, hub_version := version, hub_tcp_port := tcp,
                hub_udp_port := udp, hub_needs_public_ip := True\<rparr>)
          | _ \<Rightarrow> Some (O2_HOSTNAME_TO_NETADDR_FAIL, s))
      | _ \<Rightarrow> Some (O2_SUCCESS, s\<lparr>own := (own s)\<lparr>o2_hub_addr := ''@''\<rparr>\<rparr>))"

text \<open>The part of \<open>o2_discovery_init_phase2\<close>, which runs when the public address is known, that deals with the hub.\<close>

definition pending_hub :: "search_env \<Rightarrow> searching \<Rightarrow> searching option" where
  "pending_hub env s =
     (if hub_needs_public_ip s then
        map_option (\<lambda>(err, d). s\<lparr>own := d, hub_needs_public_ip := False\<rparr>)
          (o2_discovered_a_remote_process (replies env) (hub_version s) (hub_pip s) (hub_iip s) (hub_tcp_port s) (hub_udp_port s)
             O2_DY_INFO ((own s)\<lparr>o2_hub_addr := proc_name (hub_pip s) (hub_iip s) (hub_tcp_port s)\<rparr>))
      else Some s)"

section \<open>The order of the ports\<close>

definition step_index :: "int \<Rightarrow> int \<Rightarrow> int" where
  "step_index d i = (i + 1) mod PORT_MAX mod (d + 1)"

lemma step_index_range: "0 \<le> d \<Longrightarrow> 0 \<le> step_index d i \<and> step_index d i \<le> d"
  using pos_mod_bound [of "d + 1" "(i + 1) mod 16"] by (simp add: step_index_def)

lemma step_index_next:
  assumes "0 \<le> i" "i \<le> d" "d < PORT_MAX"
  shows "step_index d i = (if i = d then 0 else i + 1)"
proof (cases "i + 1 = 16")
  case False
  then have "(i + 1) mod 16 = i + 1" using assms by simp
  then show ?thesis using assms by (simp add: step_index_def)
qed (use assms in \<open>simp add: step_index_def\<close>)

lemma climb: "0 \<le> i \<Longrightarrow> d < PORT_MAX \<Longrightarrow> i + int k \<le> d \<Longrightarrow> (step_index d ^^ k) i = i + int k"
proof (induction k)
  case (Suc k)
  then show ?case using step_index_next [of "i + int k" d] by simp
qed simp

lemma reaches_index:
  assumes "0 \<le> p" "p \<le> d" "d < PORT_MAX"
  shows "\<exists>k \<le> nat d. (step_index d ^^ Suc k) i = p"
proof -
  define r where "r = step_index d i"
  have r: "0 \<le> r" "r \<le> d" using step_index_range [of d i] assms by (simp_all add: r_def)
  have start: "(step_index d ^^ Suc k) i = (step_index d ^^ k) r" for k
    by (simp add: funpow_Suc_right r_def del: funpow.simps)
  show ?thesis
  proof (cases "r \<le> p")
    case True
    then have "(step_index d ^^ nat (p - r)) r = p" using climb [of r d "nat (p - r)"] r assms by simp
    then have "(step_index d ^^ Suc (nat (p - r))) i = p" by (simp only: start)
    moreover have "nat (p - r) \<le> nat d" using True r assms by linarith
    ultimately show ?thesis by (intro exI conjI)
  next
    case False
    have "(step_index d ^^ nat (d - r)) r = d" using climb [of r d "nat (d - r)"] r assms by simp
    then have "(step_index d ^^ Suc (nat (d - r))) r = 0" using step_index_next [of d d] r assms by simp
    moreover have "(step_index d ^^ nat p) 0 = p" using climb [of 0 d "nat p"] assms by simp
    ultimately have "(step_index d ^^ (nat p + Suc (nat (d - r)))) r = p" by (simp only: funpow_add o_apply)
    then have "(step_index d ^^ Suc (nat p + Suc (nat (d - r)))) i = p" by (simp only: start)
    moreover have "nat p + Suc (nat (d - r)) \<le> nat d" using False r assms by linarith
    ultimately show ?thesis by (intro exI conjI)
  qed
qed


section \<open>One message\<close>

lemma make_swapped:
  "o2_make_dy_msg env p tcp_flag True dy d = (case o2_make_dy_msg env p tcp_flag False dy d of
     (m, d) \<Rightarrow> (map_option snd (Option.bind m (o2_msg_swap_endian True)), d))"
proof -
  define adr where "adr = (if p = local_proc \<and> net_connected (proxy local_proc d)
    then Some (o2n_public_ip d, o2n_internal_ip d, tcp_port d) else o2_parse_name (key (proxy p d)))"
  obtain e b where s: "o2_send_start (building d) = (e, b)" by fastforce
  show ?thesis
  proof (cases adr)
    case None
    then show ?thesis by (simp add: o2_make_dy_msg_def flip: adr_def)
  next
    case (Some a)
    obtain pip iip tcp where a: "a = (pip, iip, tcp)" by (cases a)
    obtain ok b1 where u: "add_until_error (dy_args d pip iip tcp (snd (udp_address d p)) dy) b = (ok, b1)" by fastforce
    obtain m b2 where f: "o2_message_finish True (junk env) 0 ''!_o2/dy'' tcp_flag b1 = (m, b2)" by fastforce
    show ?thesis using Some by (simp add: o2_make_dy_msg_def s a u f flip: adr_def)
  qed
qed

lemma own_dy_swapped:
  assumes "\<not> building_message_lock (building d)" "net_connected (proxy local_proc d)"
    and "c_string (ensemble_name d)" "c_string (o2n_public_ip d)" "c_string (o2n_internal_ip d)"
  shows "\<exists>m m' b. o2_make_dy_msg env local_proc tcp_flag True dy d = (Some m', d\<lparr>building := b\<rparr>) \<and> \<not> building_message_lock b \<and>
    body m = dy_body (own_dy_args d dy) \<and> o2_msg_swap_endian False m' = Some (O2_SUCCESS, m)"
proof -
  obtain m b where m: "o2_make_dy_msg env local_proc tcp_flag False dy d = (Some m, d\<lparr>building := b\<rparr>)" "\<not> building_message_lock b"
    "body m = dy_body (own_dy_args d dy)"
    using own_dy_msg [OF assms(1,2)] by blast
  have "\<forall>a \<in> set (own_dy_args d dy). sendable a"
    using assms(3-5) by (simp add: own_dy_args_def dy_args_def sendable_def)
  moreover have "arg_data (last (own_dy_args d dy)) \<noteq> []" by (simp add: own_dy_args_def dy_args_def arg_data_def le_enc4)
  moreover have "c_string ''!_o2/dy''" by (simp add: c_string_def)
  ultimately obtain m' where m': "o2_msg_swap_endian True m = Some (O2_SUCCESS, m')" "\<not> IS_BUNDLE m"
    using swap_body [of m "''!_o2/dy''" "own_dy_args d dy"] m(3) by (auto simp: dy_body_def)
  have "o2_make_dy_msg env local_proc tcp_flag True dy d = (Some m', d\<lparr>building := b\<rparr>)"
    by (simp add: make_swapped m(1) m'(1))
  then show ?thesis using m swap_back [OF m'] by auto
qed

text \<open>What a run may change of a process.\<close>

definition still :: "discovery \<Rightarrow> discovery \<Rightarrow> bool" where
  "still d d' \<longleftrightarrow> (\<exists>b evs. d' = d\<lparr>building := b, happened := happened d @ evs\<rparr> \<and> (building_message_lock b \<longrightarrow> building_message_lock (building d)))"

lemma still_refl: "still d d"
  unfolding still_def by (intro exI [of _ "building d"] exI [of _ "[]"]) simp

lemma still_trans: "still d d1 \<Longrightarrow> still d1 d2 \<Longrightarrow> still d d2"
  unfolding still_def by (elim exE conjE, rule_tac x = ba in exI, rule_tac x = "evs @ evsa" in exI) simp

lemma still_happen: "still d (happen e d)"
  unfolding still_def happen_def by (intro exI [of _ "building d"] exI [of _ "[e]"]) simp

lemma still_building: "\<not> building_message_lock b \<Longrightarrow> still d (d\<lparr>building := b\<rparr>)"
  unfolding still_def by (intro exI [of _ b] exI [of _ "[]"]) simp

lemma still_process: "process_ok d \<Longrightarrow> still d d' \<Longrightarrow> process_ok d'"
  by (auto simp: still_def process_ok_def)

lemma still_fields:
  assumes "still d d'"
  shows "ctx d' = ctx d" "own_dy_args d' dy = own_dy_args d dy" "o2_hub_addr d' = o2_hub_addr d" "set (happened d) \<subseteq> set (happened d')"
    "ensemble_name d' = ensemble_name d" "o2n_public_ip d' = o2n_public_ip d" "o2n_internal_ip d' = o2n_internal_ip d"
    "tcp_port d' = tcp_port d" "udp_address d' = udp_address d" "o2_mqtt_procs d' = o2_mqtt_procs d"
  using assms by (auto simp: still_def own_dy_args_def dy_args_def)

text \<open>A description of the process, as it is on its way to the port.\<close>

definition described :: "nat \<Rightarrow> discovery \<Rightarrow> discovery \<Rightarrow> bool" where
  "described port d0 d \<longleftrightarrow> (\<exists>m m'. Broadcast port m' \<in> set (happened d) \<and> body m = dy_body (own_dy_args d0 O2_DY_INFO) \<and>
     o2_msg_swap_endian False m' = Some (O2_SUCCESS, m))"

lemma broadcast_described:
  assumes "process_ok d" "\<And>m. broadcasts env port m"
  shows "\<exists>d'. o2_broadcast_message env found port local_remote d = (O2_SUCCESS, d') \<and> still d d' \<and>
    (found \<and> local_remote AND 2 \<noteq> 0 \<longrightarrow> described port d d')"
proof (cases "local_remote = 0")
  case True
  then show ?thesis by (simp add: o2_broadcast_message_def still_refl)
next
  case False
  have ok: "\<not> building_message_lock (building d)" "net_connected (proxy local_proc d)" "c_string (ensemble_name d)"
    "c_string (o2n_public_ip d)" "c_string (o2n_internal_ip d)"
    using assms(1) by (simp_all add: process_ok_def)
  obtain m m' b where m: "o2_make_dy_msg (replies env) local_proc False True O2_DY_INFO d = (Some m', d\<lparr>building := b\<rparr>)"
    "\<not> building_message_lock b" "body m = dy_body (own_dy_args d O2_DY_INFO)" "o2_msg_swap_endian False m' = Some (O2_SUCCESS, m)"
    using own_dy_swapped [OF ok] by blast
  define d1 where "d1 = (if found \<and> local_remote AND 2 \<noteq> 0 then happen (Broadcast port m') (d\<lparr>building := b\<rparr>) else d\<lparr>building := b\<rparr>)"
  define d2 where "d2 = (if local_remote AND 1 \<noteq> 0 then o2n_send_udp_local port m' d1 else d1)"
  have "still d d1" unfolding d1_def using still_building [OF m(2), of d] still_trans [OF _ still_happen] by auto
  moreover have s2: "still d1 d2" by (auto simp: d2_def o2n_send_udp_local_def still_happen still_refl)
  moreover have "o2_broadcast_message env found port local_remote d = (O2_SUCCESS, d2)"
    using False m(1) assms(2) by (simp add: o2_broadcast_message_def o2n_send_broadcast_def d2_def d1_def)
  moreover have "described port d d2" if "found \<and> local_remote AND 2 \<noteq> 0"
  proof -
    have "Broadcast port m' \<in> set (happened d1)" using that by (simp add: d1_def happen_def)
    then show ?thesis using still_fields(4) [OF s2] m(3,4) by (auto simp: described_def)
  qed
  ultimately show ?thesis using still_trans by blast
qed

lemma described_later: "described port d0 d \<Longrightarrow> still d d' \<Longrightarrow> described port d0 d'"
  using still_fields(4) [of d d'] unfolding described_def by blast

lemma described_same: "described port d d' \<Longrightarrow> still d0 d \<Longrightarrow> described port d0 d'"
  using still_fields(2) [of d0 d] by (simp add: described_def)

lemma discovery_at_still:
  assumes "\<not> building_message_lock (building d)"
  shows "still d (o2_send_discovery_at env when d) \<and> (\<exists>m. Scheduled when m \<in> set (happened (o2_send_discovery_at env when d)) \<and>
    timestamp m = time_bits env when)"
proof -
  obtain m b where m: "o2_service_message_finish True (junk (replies env)) (time_bits env when) None ''!_o2/ds'' True
      (add_args [] (snd (o2_send_start (building d)))) = (Some m, b)" "\<not> building_message_lock b" "timestamp m = time_bits env when"
    using built_message [OF assms] by blast
  obtain b0 where s: "o2_send_start (building d) = (O2_SUCCESS, b0)" using start_ready [OF assms] by blast
  have "o2_send_discovery_at env when d = happen (Scheduled when m) (d\<lparr>building := b\<rparr>)"
    using m(1) unfolding o2_send_discovery_at_def s by (simp add: o2_message_finish_def)
  then show ?thesis using still_trans [OF still_building [OF m(2)] still_happen] m(3) by (auto simp: happen_def)
qed


section \<open>All ports\<close>

definition search_ok :: "searching \<Rightarrow> bool" where
  "search_ok s \<longleftrightarrow> process_ok (own s) \<and> o2_hub_addr (own s) = [] \<and> 0 \<le> disc_port_index s \<and> disc_port_index s < PORT_MAX \<and>
     length (o2_local_remote s) = nat PORT_MAX"

definition limit :: "search_env \<Rightarrow> searching \<Rightarrow> int" where
  "limit env s = (if disc_msg_count s \<ge> 2 * PORT_MAX \<or> \<not> o2lite_protocol env then disc_port_index s else PORT_MAX - 1)"

text \<open>What runs of the handler keep.\<close>

definition goes_on :: "searching \<Rightarrow> searching \<Rightarrow> bool" where
  "goes_on s s' \<longleftrightarrow> still (own s) (own s') \<and> disc_port_index s' = disc_port_index s \<and> o2_local_remote s' = o2_local_remote s \<and>
     o2n_network_found s' = o2n_network_found s \<and> max_disc_period s' = max_disc_period s"

lemma goes_on_refl: "goes_on s s"
  by (simp add: goes_on_def still_refl)

lemma goes_on_trans: "goes_on s s1 \<Longrightarrow> goes_on s1 s2 \<Longrightarrow> goes_on s s2"
  using still_trans by (auto simp: goes_on_def)

lemma goes_on_ok: "search_ok s \<Longrightarrow> goes_on s s' \<Longrightarrow> search_ok s'"
  using still_process still_fields(3) by (auto simp: goes_on_def search_ok_def)

lemma next_index_step: "next_index env s = step_index (limit env s) (next_disc_index s)"
  by (simp add: next_index_def step_index_def limit_def Let_def)

definition can_broadcast :: "search_env \<Rightarrow> bool" where
  "can_broadcast env \<longleftrightarrow> (\<forall>port m. broadcasts env port m)"

lemma search_step:
  assumes "search_ok s" "can_broadcast env"
  shows "\<exists>s'. o2_discovery_send_handler env s = Some s' \<and> goes_on s s' \<and> disc_msg_count s' = disc_msg_count s + 1 \<and>
    next_disc_index s' = step_index (limit env s) (next_disc_index s) \<and> disc_period s' = next_period env s \<and>
    (\<exists>m. Scheduled (time_now env + disc_period s') m \<in> set (happened (own s')) \<and> timestamp m = time_bits env (time_now env + disc_period s')) \<and>
    (o2n_network_found s \<and> o2_local_remote s ! nat (next_disc_index s') AND 2 \<noteq> 0 \<longrightarrow>
       described (o2_port_map ! nat (next_disc_index s')) (own s) (own s'))"
proof -
  have ok: "process_ok (own s)" "o2_hub_addr (own s) = []" "0 \<le> disc_port_index s" "disc_port_index s < 16" "length (o2_local_remote s) = 16"
    using assms(1) by (simp_all add: search_ok_def)
  define i where "i = next_index env s"
  have i: "i = step_index (limit env s) (next_disc_index s)" by (simp add: i_def next_index_step)
  have "0 \<le> limit env s" "limit env s < 16" using ok(3,4) by (simp_all add: limit_def)
  then have "0 \<le> i" "i < 16" using step_index_range [of "limit env s" "next_disc_index s"] unfolding i by linarith+
  then have n: "nat i < 16" by simp
  let ?lr = "o2_local_remote s ! nat i"
  obtain d1 where d1: "o2_broadcast_message env (o2n_network_found s) (o2_port_map ! nat i) ?lr (own s) = (O2_SUCCESS, d1)"
    "still (own s) d1" "o2n_network_found s \<and> ?lr AND 2 \<noteq> 0 \<longrightarrow> described (o2_port_map ! nat i) (own s) d1"
    using broadcast_described [OF ok(1)] assms(2) unfolding can_broadcast_def by blast
  have tried: "try_port env (nat i) (s\<lparr>next_disc_index := i\<rparr>) = Some (s\<lparr>next_disc_index := i, own := if ?lr = 0 then own s else d1\<rparr>)"
    using n ok(5) d1(1) by (simp add: try_port_def Let_def)
  define d2 where "d2 = (if ?lr = 0 then own s else d1)"
  have d2: "still (own s) d2" "o2n_network_found s \<and> ?lr AND 2 \<noteq> 0 \<longrightarrow> described (o2_port_map ! nat i) (own s) d2"
    using d1(2,3) still_refl by (auto simp: d2_def)
  define p where "p = next_period env s"
  have p: "next_period env (s\<lparr>next_disc_index := i, own := d2\<rparr>) = p"
    using still_fields(10) [OF d2(1)] by (simp add: p_def next_period_def)
  have "\<not> building_message_lock (building d2)" using still_process [OF ok(1) d2(1)] by (simp add: process_ok_def)
  note at = discovery_at_still [OF this, of env "time_now env + p"]
  let ?s = "s\<lparr>next_disc_index := i, disc_period := p, disc_msg_count := disc_msg_count s + 1,
      own := o2_send_discovery_at env (time_now env + p) d2\<rparr>"
  have "o2_discovery_send_handler env s = Some ?s"
    using ok(2,3) tried p by (simp add: o2_discovery_send_handler_def Let_def flip: i_def d2_def)
  moreover have "goes_on s ?s" using still_trans [OF d2(1) conjunct1 [OF at]] by (simp add: goes_on_def)
  ultimately show ?thesis using at d2(2) described_later [OF _ conjunct1 [OF at]] by (intro exI [of _ ?s]) (auto simp: i p_def)
qed

fun searches :: "search_env list \<Rightarrow> searching \<Rightarrow> searching option" where
  "searches [] s = Some s"
| "searches (env # envs) s = Option.bind (o2_discovery_send_handler env s) (searches envs)"

lemma searches_append: "searches (xs @ ys) s = Option.bind (searches xs s) (searches ys)"
  by (induction xs arbitrary: s) (auto simp: bind_eq_None_conv split: Option.bind_splits)

lemma searches_go_on:
  assumes "search_ok s" "\<forall>env \<in> set envs. can_broadcast env"
  shows "\<exists>s'. searches envs s = Some s' \<and> goes_on s s' \<and> disc_msg_count s' = disc_msg_count s + int (length envs)"
  using assms
proof (induction envs arbitrary: s)
  case Nil
  then show ?case by (simp add: goes_on_refl)
next
  case (Cons env envs)
  obtain s1 where s1: "o2_discovery_send_handler env s = Some s1" "goes_on s s1" "disc_msg_count s1 = disc_msg_count s + 1"
    using search_step [OF Cons.prems(1), of env] Cons.prems(2) by auto
  with Cons.IH [OF goes_on_ok [OF Cons.prems(1) s1(2)]] Cons.prems(2) obtain s' where
    "searches envs s1 = Some s'" "goes_on s1 s'" "disc_msg_count s' = disc_msg_count s1 + int (length envs)" by auto
  then show ?case using s1 goes_on_trans by auto
qed

text \<open>While the range of indices is the same.\<close>

lemma searches_index:
  assumes "search_ok s" "\<forall>env \<in> set envs. can_broadcast env \<and> o2lite_protocol env = lite"
    and "d = disc_port_index s \<and> (2 * PORT_MAX \<le> disc_msg_count s \<or> \<not> lite) \<or>
         d = PORT_MAX - 1 \<and> lite \<and> disc_msg_count s + int (length envs) \<le> 2 * PORT_MAX"
  shows "\<exists>s'. searches envs s = Some s' \<and> goes_on s s' \<and> disc_msg_count s' = disc_msg_count s + int (length envs) \<and>
    next_disc_index s' = (step_index d ^^ length envs) (next_disc_index s) \<and>
    (envs \<noteq> [] \<and> o2n_network_found s \<and> o2_local_remote s ! nat (next_disc_index s') AND 2 \<noteq> 0 \<longrightarrow>
       described (o2_port_map ! nat (next_disc_index s')) (own s) (own s'))"
  using assms
proof (induction envs rule: rev_induct)
  case Nil
  then show ?case by (simp add: goes_on_refl)
next
  case (snoc env envs)
  obtain s1 where s1: "searches envs s = Some s1" "goes_on s s1" "disc_msg_count s1 = disc_msg_count s + int (length envs)"
    "next_disc_index s1 = (step_index d ^^ length envs) (next_disc_index s)"
    using snoc.IH [OF snoc.prems(1)] snoc.prems(2,3) by auto
  have l: "limit env s1 = d" using snoc.prems(2,3) s1(2,3) by (auto simp: limit_def goes_on_def)
  obtain s2 where s2: "o2_discovery_send_handler env s1 = Some s2" "goes_on s1 s2" "disc_msg_count s2 = disc_msg_count s1 + 1"
    "next_disc_index s2 = step_index (limit env s1) (next_disc_index s1)"
    "o2n_network_found s1 \<and> o2_local_remote s1 ! nat (next_disc_index s2) AND 2 \<noteq> 0 \<longrightarrow>
       described (o2_port_map ! nat (next_disc_index s2)) (own s1) (own s2)"
    using search_step [OF goes_on_ok [OF snoc.prems(1) s1(2)], of env] snoc.prems(2) by auto
  have "still (own s) (own s1)" using s1(2) by (simp add: goes_on_def)
  then have "o2n_network_found s \<and> o2_local_remote s ! nat (next_disc_index s2) AND 2 \<noteq> 0 \<longrightarrow>
       described (o2_port_map ! nat (next_disc_index s2)) (own s) (own s2)"
    using s1(2) s2(5) described_same by (auto simp: goes_on_def)
  then show ?case using s1 s2 l goes_on_trans [OF s1(2) s2(2)] by (simp add: searches_append)
qed


lemma cover_range:
  assumes "search_ok s" "\<forall>env \<in> set envs. can_broadcast env \<and> o2lite_protocol env = lite" "nat PORT_MAX \<le> length envs"
    and "d = disc_port_index s \<and> (2 * PORT_MAX \<le> disc_msg_count s \<or> \<not> lite) \<or>
         d = PORT_MAX - 1 \<and> lite \<and> disc_msg_count s + PORT_MAX \<le> 2 * PORT_MAX"
    and "0 \<le> p" "p \<le> d" "o2n_network_found s" "o2_local_remote s ! nat p AND 2 \<noteq> 0"
  shows "\<exists>s'. searches envs s = Some s' \<and> goes_on s s' \<and> described (o2_port_map ! nat p) (own s) (own s')"
proof -
  have d: "d < PORT_MAX" using assms(1,4) by (auto simp: search_ok_def)
  obtain k where k: "k \<le> nat d" "(step_index d ^^ Suc k) (next_disc_index s) = p" using reaches_index [OF assms(5,6) d] by blast
  have k16: "Suc k \<le> 16" using k(1) d by linarith
  then have len: "length (take (Suc k) envs) = Suc k" "Suc k \<le> 16" using assms(3) by simp_all
  have "\<forall>env \<in> set (take (Suc k) envs). can_broadcast env \<and> o2lite_protocol env = lite" using assms(2) by (auto dest: in_set_takeD)
  moreover have "d = disc_port_index s \<and> (2 * PORT_MAX \<le> disc_msg_count s \<or> \<not> lite) \<or>
      d = PORT_MAX - 1 \<and> lite \<and> disc_msg_count s + int (length (take (Suc k) envs)) \<le> 2 * PORT_MAX"
    using assms(4) len by auto
  ultimately obtain s1 where s1: "searches (take (Suc k) envs) s = Some s1" "goes_on s s1" "next_disc_index s1 = p"
    "take (Suc k) envs \<noteq> [] \<and> o2n_network_found s \<and> o2_local_remote s ! nat (next_disc_index s1) AND 2 \<noteq> 0 \<longrightarrow>
       described (o2_port_map ! nat (next_disc_index s1)) (own s) (own s1)"
    using searches_index [OF assms(1), of "take (Suc k) envs" lite d] len(1) k(2) by auto
  have ne: "take (Suc k) envs \<noteq> []" using len(1) by (metis list.size(3) nat.distinct(1))
  obtain s2 where s2: "searches (drop (Suc k) envs) s1 = Some s2" "goes_on s1 s2"
    using searches_go_on [OF goes_on_ok [OF assms(1) s1(2)], of "drop (Suc k) envs"] assms(2) by (auto dest: in_set_dropD)
  have "searches envs s = Some s2" using searches_append [of "take (Suc k) envs" "drop (Suc k) envs" s] s1(1) s2(1) by simp
  moreover have "described (o2_port_map ! nat p) (own s) (own s1)" using s1(3,4) ne assms(7,8) by simp
  then have "described (o2_port_map ! nat p) (own s) (own s2)" using described_later s2(2) by (auto simp: goes_on_def)
  ultimately show ?thesis using goes_on_trans [OF s1(2) s2(2)] by blast
qed

lemma ports_covered:
  assumes "search_ok s" "\<forall>env \<in> set envs. can_broadcast env \<and> o2lite_protocol env = lite" "length envs = nat (2 * PORT_MAX)"
    and "0 \<le> p" "p \<le> disc_port_index s" "o2n_network_found s" "o2_local_remote s ! nat p AND 2 \<noteq> 0"
  shows "\<exists>s'. searches envs s = Some s' \<and> goes_on s s' \<and> described (o2_port_map ! nat p) (own s) (own s')"
proof (cases "lite \<and> disc_msg_count s < 2 * PORT_MAX")
  case False
  then show ?thesis
    by (intro cover_range [OF assms(1,2), where d = "disc_port_index s"]) (use assms in auto)
next
  case True
  show ?thesis
  proof (cases "disc_msg_count s + PORT_MAX \<le> 2 * PORT_MAX")
    case few: True
    have "disc_port_index s \<le> 15" using assms(1) by (simp add: search_ok_def)
    then show ?thesis
      by (intro cover_range [OF assms(1,2), where d = 15]) (use assms True few in auto)
  next
    case False
    define j where "j = nat (2 * PORT_MAX - disc_msg_count s)"
    have j: "j < 16" "disc_msg_count s + int j = 32" using False True by (simp_all add: j_def)
    obtain s1 where s1: "searches (take j envs) s = Some s1" "goes_on s s1" "disc_msg_count s1 = disc_msg_count s + int (length (take j envs))"
      using searches_go_on [OF assms(1), of "take j envs"] assms(2) by (auto dest: in_set_takeD)
    have c: "disc_msg_count s1 = 32" using s1(3) j assms(3) by simp
    have "\<exists>s'. searches (drop j envs) s1 = Some s' \<and> goes_on s1 s' \<and> described (o2_port_map ! nat p) (own s1) (own s')"
      by (rule cover_range [OF goes_on_ok [OF assms(1) s1(2)], where d = "disc_port_index s1" and lite = lite])
        (use assms s1(2) c j in \<open>auto simp: goes_on_def dest: in_set_dropD\<close>)
    then obtain s' where s': "searches (drop j envs) s1 = Some s'" "goes_on s1 s'" "described (o2_port_map ! nat p) (own s1) (own s')" by blast
    have "searches envs s = Some s'" using searches_append [of "take j envs" "drop j envs" s] s1(1) s'(1) by simp
    moreover have "described (o2_port_map ! nat p) (own s) (own s')" using described_same [OF s'(3)] s1(2) by (simp add: goes_on_def)
    ultimately show ?thesis using goes_on_trans [OF s1(2) s'(2)] by blast
  qed
qed

text \<open>C4: a process that searches, on a network where every broadcast succeeds, broadcasts its description at least once in every 32 runs
  of the handler to each port up to its own whose flag for broadcasts is set; a process with a lower name of the same ensemble that has one of
  these ports, gets that message, does not know the sender and can connect to it, connects to it (the lower name to the higher, other than
  the summary in doc/design.txt says) and has it in its directory. Processes of the same machine, whose messages go to another
  port on little endian machines (\<open>local_port_swapped\<close>), are not the subject.\<close>

theorem found_by_others:
  assumes "search_ok s" "\<forall>env \<in> set envs. can_broadcast env \<and> o2lite_protocol env = lite" "length envs = nat (2 * PORT_MAX)"
    and "0 \<le> p" "p \<le> disc_port_index s" "o2n_network_found s" "o2_local_remote s ! nat p AND 2 \<noteq> 0"
    and "process_ok b" "ensemble_name b = ensemble_name (own s)" "own_name b < own_name (own s)"
    and "directory (ctx b) (own_name (own s)) = None" "\<not> mx_array_to_vector_pending (extracting b)"
    and "connects env' (o2_hex_to_dot (o2n_internal_ip (own s))) (tcp_port (own s))"
  shows "\<exists>s' m' m b'. searches envs s = Some s' \<and> Broadcast (o2_port_map ! nat p) m' \<in> set (happened (own s')) \<and>
    o2_msg_swap_endian False m' = Some (O2_SUCCESS, m) \<and>
    o2_discovery_handler env' m b = Some b' \<and> knows_process b' (own_name (own s)) (next_proxy b)"
proof -
  obtain s' m m' where s': "searches envs s = Some s'" "Broadcast (o2_port_map ! nat p) m' \<in> set (happened (own s'))"
    "body m = dy_body (own_dy_args (own s) O2_DY_INFO)" "o2_msg_swap_endian False m' = Some (O2_SUCCESS, m)"
    using ports_covered [OF assms(1-7)] by (auto simp: described_def)
  have "process_ok (own s)" using assms(1) by (simp add: search_ok_def)
  from dy_read_ok [OF s'(3) this assms(9) [symmetric] assms(12), of env'] obtain x where x: "o2_discovery_handler env' m b =
      map_option snd (discovered_info env' (own_name (own s)) (o2n_internal_ip (own s)) (tcp_port (own s))
        (snd (udp_address (own s) local_proc)) (b\<lparr>extracting := x\<rparr>))"
    unfolding discovered_name_eq by (auto split: option.splits)
  have "process_ok (b\<lparr>extracting := x\<rparr>)" using assms(8) by simp
  from becomes_client [OF this _ _ assms(13), of "own_name (own s)" "snd (udp_address (own s) local_proc)"] assms(10,11)
  obtain e b' where "discovered_info env' (own_name (own s)) (o2n_internal_ip (own s)) (tcp_port (own s))
      (snd (udp_address (own s) local_proc)) (b\<lparr>extracting := x\<rparr>) = Some (e, b')" "knows_process b' (own_name (own s)) (next_proxy b)"
    by auto
  then show ?thesis using s' x by auto
qed


definition searcher :: searching where
  "searcher = \<lparr>own = high_process, disc_msg_count = 0, disc_period = 1 / 10, next_disc_index = - 1, max_disc_period = 4, disc_port_index = 3,
     o2_local_remote = replicate 16 2, o2n_network_found = True, hub_needs_public_ip = False, hub_pip = [], hub_iip = [], hub_version = 0,
     hub_tcp_port = 0, hub_udp_port = 0\<rparr>"

definition quiet_net :: search_env where
  "quiet_net = \<lparr>replies = open_net, broadcasts = (\<lambda>_ _. True), udp_opens = (\<lambda>_. True), tcp_opens = (\<lambda>p. p = 60238),
     host_address = (\<lambda>_. Some 0x0a000001), time_now = 0, time_bits = (\<lambda>_. 0), num_sockets = 2, o2lite_protocol = False\<rparr>"

lemma searcher_simps [simp]:
  "own searcher = high_process" "disc_port_index searcher = 3" "o2n_network_found searcher" "o2_local_remote searcher = replicate 16 2"
  "disc_period searcher = 1 / 10" "max_disc_period searcher = 4" "can_broadcast quiet_net" "\<not> o2lite_protocol quiet_net" "num_sockets quiet_net = 2"
  by (simp_all add: searcher_def quiet_net_def can_broadcast_def)

lemma searcher_ok: "search_ok searcher"
  using both_ok(2) by (simp add: search_ok_def) (simp add: new_process_def)

theorem found_by_others_witness:
  "\<exists>s' m' m b'. searches (replicate 32 quiet_net) searcher = Some s' \<and> Broadcast (o2_port_map ! nat 2) m' \<in> set (happened (own s')) \<and>
    o2_msg_swap_endian False m' = Some (O2_SUCCESS, m) \<and>
    o2_discovery_handler open_net m low_process = Some b' \<and> knows_process b' (own_name (own searcher)) (next_proxy low_process)"
  by (rule found_by_others [OF searcher_ok, where lite = False])
    (use both_ok lower_name in \<open>simp_all\<close>)

section \<open>The period\<close>

definition final_period :: "search_env \<Rightarrow> searching \<Rightarrow> rat" where
  "final_period env s = max (of_int (num_sockets env - 2 + int (length (o2_mqtt_procs (own s)))) / 10) (max_disc_period s)"

lemma next_period_min: "next_period env s = min (final_period env s) (disc_period s * (9 / 8))"
  by (simp add: next_period_def final_period_def Let_def min_def max_def)

text \<open>The time between descriptions grows by an eighth each time up to the period that was set, or a tenth of a second
  for each other process when that is longer.\<close>

theorem period_grows:
  assumes "search_ok s" "\<forall>env \<in> set envs. can_broadcast env \<and> num_sockets env = n" "num_sockets env0 = n"
    and "0 < disc_period s" "disc_period s \<le> final_period env0 s"
  shows "\<exists>s'. searches envs s = Some s' \<and> disc_period s' = min (final_period env0 s) (disc_period s * (9 / 8) ^ length envs)"
proof -
  have "\<exists>s'. searches envs s = Some s' \<and> goes_on s s' \<and> disc_period s' = min (final_period env0 s) (disc_period s * (9 / 8) ^ length envs)"
    using assms(2)
  proof (induction envs rule: rev_induct)
    case Nil
    then show ?case using assms(5) by (simp add: goes_on_refl)
  next
    case (snoc env envs)
    obtain s1 where s1: "searches envs s = Some s1" "goes_on s s1"
      "disc_period s1 = min (final_period env0 s) (disc_period s * (9 / 8) ^ length envs)"
      using snoc.IH snoc.prems by auto
    obtain s2 where s2: "o2_discovery_send_handler env s1 = Some s2" "goes_on s1 s2" "disc_period s2 = next_period env s1"
      using search_step [OF goes_on_ok [OF assms(1) s1(2)], of env] snoc.prems by auto
    have f: "final_period env s1 = final_period env0 s"
      using s1(2) still_fields(10) [of "own s" "own s1"] snoc.prems assms(3) by (simp add: final_period_def goes_on_def)
    have pos: "0 < final_period env0 s" using assms(4,5) by simp
    have grow: "min a (min a x * (9 / 8)) = min a (x * (9 / 8))" if "0 < a" for a x :: rat
      using that by (cases "a \<le> x") (simp_all add: min_def)
    have "disc_period s2 = min (final_period env0 s) (disc_period s * (9 / 8) ^ length envs * (9 / 8))"
      unfolding s2(3) next_period_min f s1(3) by (rule grow [OF pos])
    then have "disc_period s2 = min (final_period env0 s) (disc_period s * (9 / 8) ^ length (envs @ [env]))"
      by (simp only: length_append_singleton power_Suc2 mult.assoc)
    then show ?case using s1(1) s2(1) goes_on_trans [OF s1(2) s2(2)] by (simp add: searches_append)
  qed
  then show ?thesis by blast
qed

theorem period_grows_witness:
  "\<exists>s'. searches (replicate 32 quiet_net) searcher = Some s' \<and>
    disc_period s' = min (final_period quiet_net searcher) (disc_period searcher * (9 / 8) ^ length (replicate 32 quiet_net))"
  by (rule period_grows [OF searcher_ok _ refl]) (simp_all add: final_period_def)

section \<open>Ports and hubs\<close>

lemma port_taken: "fst (try_ports env is d) = List.find (\<lambda>i. udp_opens env (o2_port_map ! i) \<and> tcp_opens env (o2_port_map ! i)) is"
  by (induction env "is" d rule: try_ports.induct) (auto simp: Let_def)

text \<open>A UDP server at a port that is not taken stays open.\<close>

lemma udp_server_left:
  "Udp_server 64541 \<in> set (happened (own (snd (o2_discovery_initialize quiet_net searcher)))) \<and>
   disc_port_index (snd (o2_discovery_initialize quiet_net searcher)) = 1"
  by (simp add: o2_discovery_initialize_def upt_rec o2_port_map_def quiet_net_def happen_def set_proxy_def Let_def)

text \<open>On a little endian machine the messages for processes of the same machine go to other ports.\<close>

lemma local_port_swapped: "o2n_send_udp_local (o2_port_map ! 0) m d = happen (Udp_local 7676 m) d"
  by (simp add: o2n_send_udp_local_def o2_port_map_def)

text \<open>A hub that was named before the public address was known is contacted later, as it would have been at once.\<close>

lemma hub_later:
  assumes "o2_hub env version (Some pub) (Some iip) tcp udp s = Some (O2_SUCCESS, s1)" "o2n_public_ip (own s) = []" "ip \<noteq> []"
  shows "map_option own (pending_hub env (s1\<lparr>own := (own s1)\<lparr>o2n_public_ip := ip\<rparr>\<rparr>)) =
    map_option (own \<circ> snd) (o2_hub env version (Some pub) (Some iip) tcp udp (s\<lparr>own := (own s)\<lparr>o2n_public_ip := ip\<rparr>\<rparr>))"
  using assms
  by (auto simp: o2_hub_def pending_hub_def Let_def option.map_comp comp_def split: if_splits option.splits prod.splits intro!: option.map_cong)

lemma hub_ends_search: "o2_hub_addr (own s) \<noteq> [] \<Longrightarrow> o2_discovery_send_handler env s = Some s"
  by (simp add: o2_discovery_send_handler_def)

end
