(* ===== verification/Spec2Isabelle.thy ===== *)
theory Spec2Isabelle
  imports Scheduler Methods Extract Clock Sha1 Properties Endian WsSend Http Network Osc Broker Wellformed Searching
begin

text \<open>
  Verification of O2, a library for communication among the processes of a music application.

  \<^bold>\<open>The program.\<close> A process installs handlers at addresses like \<open>/service/a/b\<close>. A message goes to whichever process offers the service:
  to a handler of the same process, through a TCP or UDP connection to another one, or through a proxy to a web
  browser, an OSC or an MQTT peer. Messages have timestamps in a clock that all processes share. The sources under
  src/src are modelled function by function; the names of definitions are those of the functions, and a name that
  the source does not have names a part of a function (the map of the manifest gives the lines).

  \<^bold>\<open>Foundations.\<close>
  \<^item> \<open>Prelude\<close>: the error codes of o2.h, bytes, the little and big endian codecs (locale \<open>codec\<close>, interpreted for 32 and 64
    bits), padded strings, lemmas on words and lists.
  \<^item> \<open>Floats\<close>: the casts between integers and floats that C++ performs, on the bit patterns; integers below \<open>2 ^ 53\<close> survive them.
  \<^item> \<open>MemAlloc\<close> (o2mem.cpp): the allocator of blocks by size class. Its invariant is \<open>mem_ok\<close>; a block that is handed out is
    disjoint from all blocks that are held and large enough. Sizes wrap as \<open>size_t\<close> does; the facts are about requests
    for which they do not (\<open>request_fits\<close>). The locale \<open>allocator\<close> is the contract its clients rely on.
  \<^item> \<open>HashTable\<close> (o2node.cpp): the tables of names. \<open>hash_ok\<close> is their invariant, \<open>table_map\<close> their abstraction to a map; insertion,
    lookup, removal and resizing implement map update, lookup and deletion (locale \<open>name_table\<close>). Resizing inserts the
    entries again and that may resize again: two levels (\<open>RESIZE_DEPTH\<close>) are proved to be enough.
  \<^item> \<open>Scheduler\<close> (o2sched.cpp): the timing wheel. The invariant says in which bin a message may be. A dispatch sends exactly the
    messages that are due, in the order of their times, messages that handlers schedule meanwhile included; it returns if
    handlers schedule finitely many. The fuel of the loops counts scheduled messages and bins.

  \<^bold>\<open>Addresses and services.\<close>
  \<^item> \<open>PatternMatch\<close> (pathtree.cpp, \<open>o2_pattern_match\<close>): the glob matcher equals a reference semantics on patterns without braces.
  \<^item> \<open>PathTree\<close> (pathtree.cpp, o2node.cpp): the tree of handlers of a service and the search for those that an address matches; the
    relation \<open>reaches\<close> is the specification.
  \<^item> \<open>Methods\<close> (pathtree.cpp, o2.cpp): installing and removing methods in the trees and in the table of full paths at once. \<open>agree\<close> says
    that both hold the same handlers, \<open>methods_ok\<close> is the invariant of a process; direct addresses therefore reach what a search finds.
  \<^item> \<open>Services\<close> (services.cpp): which processes offer a service, which is active, and who taps it. \<open>None\<close> is a failed
    assertion, the use of an entry or a name that was freed, or a name too long for the buffer it is copied to.
  \<^item> \<open>Properties\<close> (properties.cpp): properties of services, kept as text with escapes; refinement of a map of attributes.

  \<^bold>\<open>Messages.\<close>
  \<^item> \<open>Messages\<close> (message.cpp): building messages in scratch areas, bundles, the layout of a message; what was added is read back.
  \<^item> \<open>Extract\<close> (message.cpp): taking arguments out of a message with coercion to the type that is asked for, arrays and vectors.
  \<^item> \<open>Endian\<close> (message.cpp, \<open>o2_msg_swap_endian\<close>): conversion to network byte order and back.
  \<^item> \<open>Delivery\<close> (msgsend.cpp): sending, local delivery, the queues of deferred messages (locale \<open>fifo\<close>: first in, first out
    under any interleaving of both ends), bundles, taps. What
    handlers do is the argument \<open>react\<close>. A message that is sent during a delivery is deferred, so the recursion is two levels deep:
    a delivery sends the parts of a bundle, and those are only put into a queue. The number of rounds in
    \<open>deliver_anywhere\<close> bounds how many deferred messages are taken.
  \<^item> \<open>Osc\<close> (o2osc.cpp): messages and bundles become OSC packets and back, with the same addresses and arguments.
  \<^item> \<open>Numerals\<close>, \<open>Names\<close> (hostipimpl.h, discovery.cpp, o2zcdisc.cpp, o2.cpp): decimal and hexadecimal text, the names of processes, which hold
    their addresses, and version numbers: parsing undoes printing, and names are accepted exactly when they are well-formed.

  \<^bold>\<open>Time and connections.\<close>
  \<^item> \<open>Clock\<close> (clock.cpp): from local to global time, the ping protocol and its accuracy, catching up, jumps. The
    messages that end catching up may be handled late; the sum of their delays bounds how far the time can step back.
  \<^item> \<open>Network\<close> (o2network.cpp): connections. The operating system is data in the state of a socket: what arrives, in which chunks, and how
    much each write takes; what the owner of a connection does is an argument (\<open>owners\<close>). Messages that were given to a connection
    arrive in order and complete, for every way of cutting and blocking; polling keeps the table of sockets, the deletion of
    a web server with the connections of its clients included. A socket that its owner reads must have one: the code follows
    the pointer when it closes such a socket (\<open>None\<close>). Every round
    of \<open>send_loop\<close> takes one answer of the operating system; a blocking send without an answer does not return (\<open>None\<close>).
  \<^item> \<open>WebSock\<close>, \<open>WsSend\<close>, \<open>Http\<close> (websock.cpp) and \<open>Sha1\<close> (o2sha1.cpp): the web server. A stream of web socket frames is delivered
    as the messages it holds however it is cut into chunks; messages to the browser are framed as it reads them, after their copies for taps, or wait at the connection
    while a delivery runs; no file
    outside of the root directory is served; the handshake computes SHA-1 and base 64 of the standards. \<open>ws_loop\<close> has rounds, one for
    each frame that may be in the buffer; one kind of frame is never taken out and exceeds every number of rounds.

  \<^bold>\<open>Other processes.\<close>
  \<^item> \<open>Discovery\<close> (discovery.cpp, o2.cpp, clock.cpp, processes.cpp): the messages by which processes describe themselves, connect, and
    announce services and taps, and their handlers. The state \<open>discovery\<close> holds the directory of \<open>Services\<close>; messages that are sent and sockets
    that are opened or closed are recorded as events (\<open>happened\<close>), and the other process's handler is run on the recorded message.
  \<^item> \<open>Announce\<close>, \<open>Joining\<close>, \<open>Leaving\<close>, \<open>Wellformed\<close>: what the receiver makes of such messages; the handshake of two processes, with either of
    them hearing of the other first; services and taps become known; a process that is gone leaves the directory as it was
    without it (\<open>left_of\<close>); the directory stays well-formed (\<open>dir_ok\<close>) whatever services and taps another process announces or
    removes, and what the others offer and tap stays (\<open>others_of\<close>).
  \<^item> \<open>Searching\<close> (discovery.cpp): taking a port and sending the own description to one port after the other. Within
    32 runs of the handler every port up to the own one is reached; the period between messages grows to its bound.
  \<^item> \<open>Mqttcomm\<close> (mqttcomm.cpp): the MQTT protocol. The class is abstract, so its state is an extensible record and its virtual methods are arguments;
    the locale \<open>mqtt_subclass\<close> is what a subclass promises of them. \<open>Mqtt\<close> (mqtt.cpp) is the subclass, extends the record by the process, and
    interprets the locale; \<open>Broker\<close> has what follows: messages through the broker arrive complete and in order, two
    processes get to know each other through it, and those that are silent too long are removed.

  \<^bold>\<open>How the parts meet.\<close> \<open>Methods\<close> works on the directory of \<open>Services\<close>, the trees of \<open>PathTree\<close> and the tables of \<open>HashTable\<close>, \<open>Delivery\<close> sends
  the messages of \<open>Messages\<close> to the providers of \<open>Services\<close>; \<open>Extract\<close>, \<open>Endian\<close>, \<open>WebSock\<close> and \<open>WsSend\<close> read and write the same messages.
  Handlers, proxies and the network are arguments with the theorems' assumptions on them stated.

  \<^bold>\<open>Abstractions.\<close> Times are exact rationals. Pointers are indices or the rest of a list; proxies are numbers. Assertions that fail and
  accesses out of bounds are \<open>None\<close>. Debug output is left out, allocation succeeds. Whether a connection can be made, what sending
  returns and what new memory holds are arguments. The scratch area of a thread, where messages are built, belongs
  to the process; \<open>Mqtt\<close> hands it to the process's operations and takes it back (\<open>process\<close>, \<open>put_process\<close>).

  \<^bold>\<open>Not modelled.\<close> What only calls the operating system: creating sockets and resolving host names, sending datagrams, discovery through
  its services (Bonjour, Avahi) and the STUN request for the public address, threads. Start and stop of the library
  (\<open>o2_initialize\<close>, \<open>o2_finish\<close>), which call the parts in order, and printing, which has no effect on the state. The lock-free
  lists are atomic instructions of the processor; the free lists of the allocator are sequential lists here. The bridges
  to O2lite devices and to other threads exchange the messages modelled here over queues and sockets that are not. The
  O2lite library, for devices, is a program of its own with copies of some of the operations.
\<close>

end
